(* ===== verification/Prelude.thy ===== *)
theory Prelude
  imports Main "HOL-Library.Word"
begin

text \<open>
  Shared ground of the MCSOS development: the machine integer types of the C code, the shape of
  a C function that may return early with an error code, linear search loops, and byte-array
  bitmaps. The component theories state their operations over these and reuse the lemmas.
\<close>

unbundle bit_operations_syntax

named_theorems layout \<open>on-disk and in-memory layout constants\<close>
named_theorems prog_simps \<open>unfolding of the error/state programs\<close>

section \<open>Machine integers\<close>

type_synonym u8 = "8 word"
type_synonym u16 = "16 word"
type_synonym u32 = "32 word"
type_synonym u64 = "64 word"
type_synonym bytes = "u8 list"

lemma unat_u64_lt: "unat (v :: u64) < 18446744073709551616"
  using unsigned_less [of v] by simp

lemma unat_u32_lt: "unat (v :: u32) < 4294967296"
  using unsigned_less [of v] by simp

lemma unat_u16_lt: "unat (v :: u16) < 65536"
  using unsigned_less [of v] by simp

text \<open>Rounding down to a power of two by masking.\<close>

lemma unat_and_not_mask:
  assumes "n < 64"
  shows "unat ((v :: u64) AND NOT (mask n)) = unat v div 2 ^ n * 2 ^ n"
proof -
  have "v AND NOT (mask n) = push_bit n (drop_bit n v)"
    by (rule bit_eqI)
      (auto simp: bit_and_iff bit_not_iff bit_push_bit_iff bit_drop_bit_eq bit_mask_iff)
  also have "\<dots> = (v div 2 ^ n) * 2 ^ n" by (simp add: push_bit_eq_mult drop_bit_eq_div)
  finally have eq: "v AND NOT (mask n) = (v div 2 ^ n) * 2 ^ n" .
  have "unat (of_nat (2 ^ n) :: u64) = 2 ^ n"
    using assms power_strict_increasing [of n 64 "2 :: nat"] by (simp only: unat_of_nat) simp
  then have p: "unat (2 ^ n :: u64) = 2 ^ n" by simp
  have "unat v div 2 ^ n * 2 ^ n \<le> unat v" by (rule div_times_less_eq_dividend)
  then have "unat v div 2 ^ n * 2 ^ n < 18446744073709551616" using unat_u64_lt [of v] by (rule le_less_trans)
  moreover have "unat v div 2 ^ n < 18446744073709551616"
    using div_le_dividend unat_u64_lt [of v] by (rule le_less_trans)
  ultimately show ?thesis unfolding eq by (simp add: unat_word_ariths unat_div p)
qed

section \<open>C functions with state and an error return\<close>

text \<open>
  A C function that works on a state \<open>'s\<close> and returns either an error code or a result is a
  function \<open>'s \<Rightarrow> ('e + 'a) \<times> 's\<close>. The state is returned also on the error path, because an early
  \<open>return rc;\<close> keeps every write done before it.
\<close>

type_synonym ('s, 'e, 'a) prog = "'s \<Rightarrow> ('e + 'a) \<times> 's"

definition pret :: "'a \<Rightarrow> ('s, 'e, 'a) prog" where
  "pret x s = (Inr x, s)"

definition pfail :: "'e \<Rightarrow> ('s, 'e, 'a) prog" where
  "pfail e s = (Inl e, s)"

text \<open>\<open>rc = m(); if (rc != OK) return rc;\<close> and then the rest of the function.\<close>

definition pbind :: "('s, 'e, 'a) prog \<Rightarrow> ('a \<Rightarrow> ('s, 'e, 'b) prog) \<Rightarrow> ('s, 'e, 'b) prog" where
  "pbind m f s = (case m s of (Inl e, s') \<Rightarrow> (Inl e, s') | (Inr x, s') \<Rightarrow> f x s')"

definition pthen :: "('s, 'e, 'a) prog \<Rightarrow> ('s, 'e, 'b) prog \<Rightarrow> ('s, 'e, 'b) prog" where
  "pthen m n = pbind m (\<lambda>_. n)"

text \<open>\<open>if (b) return e;\<close>\<close>

definition pguard :: "bool \<Rightarrow> 'e \<Rightarrow> ('s, 'e, unit) prog" where
  "pguard b e = (if b then pret () else pfail e)"

text \<open>The same where the test reads the state.\<close>

definition pcheck :: "('s \<Rightarrow> bool) \<Rightarrow> 'e \<Rightarrow> ('s, 'e, unit) prog" where
  "pcheck P e s = pguard (P s) e s"

text \<open>A loop whose body may return early.\<close>

primrec pfor :: "'i list \<Rightarrow> ('i \<Rightarrow> ('s, 'e, unit) prog) \<Rightarrow> ('s, 'e, unit) prog" where
  "pfor [] f = pret ()"
| "pfor (i # is) f = pthen (f i) (pfor is f)"

text \<open>A loop that collects one value per iteration.\<close>

primrec pmapM :: "('i \<Rightarrow> ('s, 'e, 'a) prog) \<Rightarrow> 'i list \<Rightarrow> ('s, 'e, 'a list) prog" where
  "pmapM f [] = pret []"
| "pmapM f (i # is) = pbind (f i) (\<lambda>x. pbind (pmapM f is) (\<lambda>xs. pret (x # xs)))"

text \<open>A pure helper's return value, propagated.\<close>

definition plift :: "'e + 'a \<Rightarrow> ('s, 'e, 'a) prog" where
  "plift r s = (r, s)"

lemma plift_simps [simp, prog_simps]: "plift (Inr x) = pret x" "plift (Inl e) = pfail e"
  by (rule ext, simp add: plift_def pret_def pfail_def)+

lemma pbind_Inl: "m s = (Inl e, s') \<Longrightarrow> pbind m f s = (Inl e, s')"
  by (simp add: pbind_def)

lemma pbind_Inr: "m s = (Inr x, s') \<Longrightarrow> pbind m f s = f x s'"
  by (simp add: pbind_def)

lemma pguard_apply: "pguard b e s = (if b then Inr () else Inl e, s)"
  by (simp add: pguard_def pret_def pfail_def)

lemma pcheck_apply: "pcheck P e s = (if P s then Inr () else Inl e, s)"
  by (simp add: pcheck_def pguard_apply)

lemmas prog_run = pbind_def pthen_def pret_def pfail_def pguard_apply pcheck_apply

lemma pret_bind [simp, prog_simps]: "pbind (pret x) f = f x"
  by (rule ext) (simp add: pbind_def pret_def)

lemma pfail_bind [simp, prog_simps]: "pbind (pfail e) f = pfail e"
  by (rule ext) (simp add: pbind_def pfail_def)

lemma pbind_assoc: "pbind (pbind m f) g = pbind m (\<lambda>x. pbind (f x) g)"
  by (rule ext) (simp add: pbind_def split: prod.split sum.split)

lemma pthen_assoc: "pthen (pthen m n) k = pthen m (pthen n k)"
  by (simp add: pthen_def pbind_assoc)

lemma pret_then [simp, prog_simps]: "pthen (pret x) n = n"
  by (simp add: pthen_def)

lemma pfail_then [simp, prog_simps]: "pthen (pfail e) n = pfail e"
  by (simp add: pthen_def)

lemma pthen_pret_unit: "pthen m (pret ()) = m"
  by (rule ext) (simp add: pthen_def pbind_def pret_def split: prod.split sum.split)

lemma pguard_simps [simp, prog_simps]:
  "pguard True e = pret ()" "pguard False e = pfail e"
  by (simp_all add: pguard_def)

lemma pbind_case_Inr:
  "pbind m f s = (Inr y, s'') \<longleftrightarrow> (\<exists>x s'. m s = (Inr x, s') \<and> f x s' = (Inr y, s''))"
  by (auto simp: pbind_def split: prod.splits sum.splits)

lemma pfor_append: "pfor (xs @ ys) f = pthen (pfor xs f) (pfor ys f)"
  by (induction xs) (simp_all add: pthen_assoc)

lemma pfor_map: "pfor (map g xs) f = pfor xs (\<lambda>i. f (g i))"
  by (induction xs) simp_all

lemma pfor_cong:
  "xs = ys \<Longrightarrow> (\<And>i. i \<in> set ys \<Longrightarrow> f i = g i) \<Longrightarrow> pfor xs f = pfor ys g"
  by (induction ys arbitrary: xs) auto

text \<open>A loop of tests is one test of all of them.\<close>

lemma pfor_guard: "pfor is (\<lambda>i. pguard (P i) e) = pguard (\<forall>i\<in>set is. P i) e"
  by (induction "is") (auto simp: pguard_def)

lemma pfor_guard_state:
  "pfor is (\<lambda>i. if c i then pcheck (P i) e else pret ()) = pcheck (\<lambda>s. \<forall>i\<in>set is. c i \<longrightarrow> P i s) e"
  by (rule ext, induction "is") (auto simp: prog_run)

lemma pmapM_ok: "(\<And>i. i \<in> set is \<Longrightarrow> f i s = (Inr (g i), s)) \<Longrightarrow> pmapM f is s = (Inr (map g is), s)"
  by (induction "is") (simp_all add: prog_run)

section \<open>Linear search\<close>

text \<open>
  \<open>for (i = a; i < b; i++) if (p(i)) { r = i; break; }\<close> is \<open>List.find p [a..<b]\<close>.
\<close>

lemma find_upt_SomeD:
  assumes "List.find p [a..<b] = Some i"
  shows "a \<le> i" and "i < b" and "p i" and "\<And>j. a \<le> j \<Longrightarrow> j < i \<Longrightarrow> \<not> p j"
proof -
  from assms obtain k where k: "k < length [a..<b]" "p ([a..<b] ! k)" "i = [a..<b] ! k"
      and first: "\<forall>j<k. \<not> p ([a..<b] ! j)"
    by (auto simp: find_Some_iff)
  then have ik: "i = a + k" "k < b - a" by auto
  show "a \<le> i" "i < b" "p i" using k ik by auto
  show "\<not> p j" if "a \<le> j" "j < i" for j
    using first [rule_format, of "j - a"] that ik by auto
qed

lemma find_upt_None_iff: "List.find p [a..<b] = None \<longleftrightarrow> (\<forall>i. a \<le> i \<longrightarrow> i < b \<longrightarrow> \<not> p i)"
  by (auto simp: find_None_iff)

lemma find_upt_Some_exI:
  assumes "p i" "a \<le> i" "i < b"
  obtains j where "List.find p [a..<b] = Some j"
  using assms by (cases "List.find p [a..<b]") (auto simp: find_upt_None_iff)

lemma find_upt_case:
  "(case List.find p [a..<b] of Some i \<Rightarrow> Inr i | None \<Rightarrow> Inl e) = Inr j \<Longrightarrow> a \<le> j \<and> j < b \<and> p j"
  by (auto split: option.splits dest: find_upt_SomeD)

lemma find_upt_case_Inl:
  "(case List.find p [a..<b] of Some i \<Rightarrow> Inr i | None \<Rightarrow> Inl e) = Inl e' \<Longrightarrow>
   e' = e \<and> (\<forall>i. a \<le> i \<longrightarrow> i < b \<longrightarrow> \<not> p i)"
  by (auto simp: find_upt_None_iff split: option.splits)

section \<open>Lists updated by index\<close>

lemma nth_list_update_if: "i < length xs \<Longrightarrow> xs[i := x] ! j = (if i = j then x else xs ! j)"
  by simp

lemma length_fold_update [simp]:
  "length (fold (\<lambda>(i, x) xs. xs[i := x]) us xs) = length xs"
  by (induction us arbitrary: xs) auto

section \<open>Bitmaps in byte arrays\<close>

text \<open>
  The physical memory manager and both file systems keep bitmaps as byte arrays, bit \<open>i\<close> being
  bit \<open>i mod 8\<close> of byte \<open>i div 8\<close>. The contract they share: setting or clearing a bit changes
  the test of that bit only.
\<close>

locale bit_array =
  fixes idx :: "'i \<Rightarrow> nat"
    and tst :: "bytes \<Rightarrow> 'i \<Rightarrow> bool"
    and st :: "bytes \<Rightarrow> 'i \<Rightarrow> bytes"
  assumes length_st: "length (st bm i) = length bm"
    and tst_st: "idx i < 8 * length bm \<Longrightarrow> tst (st bm i) j = (j = i \<or> tst bm j)"
begin

lemma length_fold_st: "length (fold (\<lambda>i bm. st bm i) is bm) = length bm"
  by (induction "is" arbitrary: bm) (simp_all add: length_st)

lemma tst_fold_st:
  "\<forall>i\<in>set is. idx i < 8 * length bm \<Longrightarrow> tst (fold (\<lambda>i bm. st bm i) is bm) j = (j \<in> set is \<or> tst bm j)"
  by (induction "is" arbitrary: bm) (auto simp: length_st tst_st)

end

locale bit_array_clear = bit_array +
  fixes cl :: "bytes \<Rightarrow> 'a \<Rightarrow> bytes"
  assumes length_cl: "length (cl bm i) = length bm"
    and tst_cl: "idx i < 8 * length bm \<Longrightarrow> tst (cl bm i) j = (j \<noteq> i \<and> tst bm j)"
begin

lemma tst_cl_st: "idx i < 8 * length bm \<Longrightarrow> tst (cl (st bm i) i) j = (j \<noteq> i \<and> tst bm j)"
  by (auto simp: length_st tst_cl tst_st)

lemma length_fold_cl: "length (fold (\<lambda>i bm. cl bm i) is bm) = length bm"
  by (induction "is" arbitrary: bm) (simp_all add: length_cl)

lemma tst_fold_cl:
  "\<forall>i\<in>set is. idx i < 8 * length bm \<Longrightarrow> tst (fold (\<lambda>i bm. cl bm i) is bm) j = (j \<notin> set is \<and> tst bm j)"
  by (induction "is" arbitrary: bm) (auto simp: length_cl tst_cl)

text \<open>The indices of the first \<open>n\<close> bits whose bit is clear, and how one update moves their number.\<close>

definition clear_bits :: "bytes \<Rightarrow> nat \<Rightarrow> 'a set" where
  "clear_bits bm n = {i. idx i < n \<and> \<not> tst bm i}"

lemma clear_bits_st: "n \<le> 8 * length bm \<Longrightarrow> idx i < n \<Longrightarrow> clear_bits (st bm i) n = clear_bits bm n - {i}"
  by (auto simp: clear_bits_def tst_st)

lemma clear_bits_cl: "n \<le> 8 * length bm \<Longrightarrow> idx i < n \<Longrightarrow> clear_bits (cl bm i) n = insert i (clear_bits bm n)"
  by (auto simp: clear_bits_def tst_cl)

end

text \<open>The byte-level facts behind every instance.\<close>

lemma byte_mask_test [simp]: "((x :: u8) AND 2 ^ k = 0) = (\<not> bit x k)"
  by (simp add: and_exp_eq_0_iff_not_bit)

lemma byte_mask_set [simp]:
  "k < 8 \<Longrightarrow> bit ((x :: u8) OR 2 ^ k) n = (n = k \<or> bit x n)"
  by (auto simp: bit_or_iff bit_exp_iff)

lemma byte_mask_clear [simp]:
  "k < 8 \<Longrightarrow> bit ((x :: u8) AND NOT (2 ^ k)) n = (n \<noteq> k \<and> bit x n)"
  by (auto simp: bit_and_iff bit_not_iff bit_exp_iff dest: bit_imp_le_length)

lemma div_mod_8_eq: "(i :: nat) div 8 = j div 8 \<Longrightarrow> i mod 8 = j mod 8 \<Longrightarrow> i = j"
  by (metis div_mult_mod_eq)

lemma bitmap_byte_set:
  assumes "i < 8 * length bm"
  shows "bit (bm[i div 8 := (bm ! (i div 8)) OR 2 ^ (i mod 8)] ! (j div 8)) (j mod 8)
      = (j = i \<or> bit ((bm :: bytes) ! (j div 8)) (j mod 8))"
proof (cases "j div 8 = i div 8")
  case True
  have "j mod 8 = i mod 8 \<longleftrightarrow> j = i" using True div_mod_8_eq by metis
  with True assms show ?thesis by simp
next
  case False
  then have "j \<noteq> i" by auto
  with False show ?thesis by simp
qed

lemma bitmap_byte_clear:
  assumes "i < 8 * length bm"
  shows "bit (bm[i div 8 := (bm ! (i div 8)) AND NOT (2 ^ (i mod 8))] ! (j div 8)) (j mod 8)
      = (j \<noteq> i \<and> bit ((bm :: bytes) ! (j div 8)) (j mod 8))"
proof (cases "j div 8 = i div 8")
  case True
  have "j mod 8 = i mod 8 \<longleftrightarrow> j = i" using True div_mod_8_eq by metis
  with True assms show ?thesis by simp
next
  case False
  then have "j \<noteq> i" by auto
  with False show ?thesis by simp
qed

lemma zero_bitmap_bit: "j < 8 * n \<Longrightarrow> \<not> bit ((replicate n (0 :: u8)) ! (j div 8)) (j mod 8)"
  by simp

section \<open>Sequences of calls\<close>

text \<open>
  A client makes one call after the other and collects the results. The specification of a call relates the abstract
  states before and after it and its result; \<open>calls_pre\<close> are the sequences in which every call is made where its
  specification applies.
\<close>

primrec run_calls :: "('c \<Rightarrow> 's \<Rightarrow> 'r \<times> 's) \<Rightarrow> 'c list \<Rightarrow> 's \<Rightarrow> 'r list \<times> 's" where
  "run_calls call [] s = ([], s)"
| "run_calls call (c # cs) s = (let (r, s1) = call c s; (rs, s2) = run_calls call cs s1 in (r # rs, s2))"

fun calls_spec :: "('a \<Rightarrow> 'c \<Rightarrow> 'r \<Rightarrow> 'a \<Rightarrow> bool) \<Rightarrow> 'a \<Rightarrow> 'c list \<Rightarrow> 'r list \<Rightarrow> 'a \<Rightarrow> bool" where
  "calls_spec spec a [] rs a' = (rs = [] \<and> a' = a)"
| "calls_spec spec a (c # cs) rs a' =
     (case rs of [] \<Rightarrow> False | r # rs' \<Rightarrow> \<exists>a1. spec a c r a1 \<and> calls_spec spec a1 cs rs' a')"

fun calls_pre :: "('a \<Rightarrow> 'c \<Rightarrow> 'r \<Rightarrow> 'a \<Rightarrow> bool) \<Rightarrow> ('a \<Rightarrow> 'c \<Rightarrow> bool) \<Rightarrow> 'a \<Rightarrow> 'c list \<Rightarrow> bool" where
  "calls_pre spec pre a [] = True"
| "calls_pre spec pre a (c # cs) = (pre a c \<and> (\<forall>r a'. spec a c r a' \<longrightarrow> calls_pre spec pre a' cs))"

lemma calls_spec_Cons: "calls_spec spec a (c # cs) rs a' \<longleftrightarrow> (\<exists>r rs' a1. rs = r # rs' \<and> spec a c r a1 \<and> calls_spec spec a1 cs rs' a')"
  by (cases rs) auto

lemma calls_pre_True [simp]: "calls_pre spec (\<lambda>_ _. True) a cs"
  by (induction cs arbitrary: a) simp_all

text \<open>A precondition that the specification keeps holds in all calls when it holds in each of them at the start.\<close>

lemma calls_pre_kept:
  assumes "\<And>a c r a' d. spec a c r a' \<Longrightarrow> pre a c \<Longrightarrow> pre a d \<Longrightarrow> pre a' d" "list_all (pre a) cs"
  shows "calls_pre spec pre a cs"
  using assms(2)
proof (induction cs arbitrary: a)
  case (Cons c cs)
  then show ?case using assms(1) by (auto simp: list_all_iff)
qed simp

text \<open>One call at a time refines its specification; then so does every sequence.\<close>

locale call_refinement =
  fixes call :: "'c \<Rightarrow> 's \<Rightarrow> 'r \<times> 's"
    and spec :: "'a \<Rightarrow> 'c \<Rightarrow> 'r \<Rightarrow> 'a \<Rightarrow> bool"
    and pre :: "'a \<Rightarrow> 'c \<Rightarrow> bool"
    and rel :: "'s \<Rightarrow> 'a \<Rightarrow> bool"
  assumes call_refines: "rel s a \<Longrightarrow> pre a c \<Longrightarrow> call c s = (r, s') \<Longrightarrow> \<exists>a'. spec a c r a' \<and> rel s' a'"
begin

lemma calls_refine:
  assumes "rel s a" "calls_pre spec pre a cs"
  obtains rs s' a' where "run_calls call cs s = (rs, s')" "calls_spec spec a cs rs a'" "rel s' a'"
  using assms
proof (induction cs arbitrary: s a thesis)
  case (Cons c cs)
  obtain r s1 where c: "call c s = (r, s1)" by fastforce
  then obtain a1 where a1: "spec a c r a1" "rel s1 a1" using call_refines [OF Cons(3) _ c] Cons(4) by auto
  have "calls_pre spec pre a1 cs" using Cons(4) a1(1) by simp
  then obtain rs s' a' where "run_calls call cs s1 = (rs, s')" "calls_spec spec a1 cs rs a'" "rel s' a'"
    using Cons(1) [OF _ a1(2)] by blast
  then show ?case using Cons(2) [of "r # rs" s' a'] c a1(1) by auto
qed simp

end

end
