(* ===== verification/Bytes.thy ===== *)
theory Bytes
  imports Prelude
begin

text \<open>
  Byte layout of C data: little-endian integers, arrays of fixed-size elements and C strings.
  The two file systems and the ELF loader read and write their structures through these, the
  way the C code does by casting a byte buffer to a struct pointer on x86-64.
\<close>

section \<open>Little-endian integers\<close>

primrec le_enc :: "nat \<Rightarrow> 'a::len word \<Rightarrow> bytes" where
  "le_enc 0 x = []"
| "le_enc (Suc n) x = ucast x # le_enc n (drop_bit 8 x)"

primrec le_dec :: "bytes \<Rightarrow> 'a::len word" where
  "le_dec [] = 0"
| "le_dec (b # bs) = ucast b OR push_bit 8 (le_dec bs)"

abbreviation enc16 :: "u16 \<Rightarrow> bytes" where "enc16 \<equiv> le_enc 2"
abbreviation enc32 :: "u32 \<Rightarrow> bytes" where "enc32 \<equiv> le_enc 4"
abbreviation enc64 :: "u64 \<Rightarrow> bytes" where "enc64 \<equiv> le_enc 8"

text \<open>The field of \<open>n\<close> bytes at offset \<open>off\<close> of a buffer.\<close>

definition field :: "nat \<Rightarrow> nat \<Rightarrow> bytes \<Rightarrow> bytes" where
  "field off n bs = take n (drop off bs)"

definition get16 :: "nat \<Rightarrow> bytes \<Rightarrow> u16" where "get16 off bs = le_dec (field off 2 bs)"
definition get32 :: "nat \<Rightarrow> bytes \<Rightarrow> u32" where "get32 off bs = le_dec (field off 4 bs)"
definition get64 :: "nat \<Rightarrow> bytes \<Rightarrow> u64" where "get64 off bs = le_dec (field off 8 bs)"

lemma length_le_enc [simp]: "length (le_enc n x) = n"
  by (induction n arbitrary: x) simp_all

lemma le_dec_enc_take_bit: "le_dec (le_enc n (x :: 'a::len word)) = take_bit (8 * n) x"
proof (induction n arbitrary: x)
  case 0
  show ?case by simp
next
  case (Suc n)
  show ?case
    by (rule bit_eqI)
      (auto simp: Suc bit_or_iff bit_push_bit_iff bit_take_bit_iff bit_drop_bit_eq
        bit_ucast_iff unsigned_ucast_eq)
qed

lemma le_dec_enc: "LENGTH('a) \<le> 8 * n \<Longrightarrow> le_dec (le_enc n (x :: 'a::len word)) = x"
  by (simp add: le_dec_enc_take_bit take_bit_word_eq_self)

lemma le_enc_low_bits:
  "take_bit (8 * n) x = take_bit (8 * n) y \<Longrightarrow> le_enc n x = le_enc n (y :: 'a::len word)"
proof (induction n arbitrary: x y)
  case 0
  show ?case by simp
next
  case (Suc n)
  have eq: "bit x k = bit y k" if "k < 8 * Suc n" for k
    using Suc.prems that by (metis bit_take_bit_iff)
  have "ucast x = (ucast y :: u8)"
    by (rule bit_eqI) (auto simp: bit_ucast_iff eq dest: bit_imp_le_length)
  moreover have "le_enc n (drop_bit 8 x) = le_enc n (drop_bit 8 y)"
    by (rule Suc.IH) (rule bit_eqI, auto simp: bit_take_bit_iff bit_drop_bit_eq eq)
  ultimately show ?case by simp
qed

lemma le_enc_dec: "8 * length bs \<le> LENGTH('a) \<Longrightarrow> le_enc (length bs) (le_dec bs :: 'a::len word) = bs"
proof (induction bs)
  case Nil
  show ?case by simp
next
  case (Cons b bs)
  let ?r = "le_dec bs :: 'a word"
  have "ucast (ucast b OR push_bit 8 ?r) = b"
    using Cons.prems
    by (auto intro!: bit_eqI simp: bit_ucast_iff bit_or_iff bit_push_bit_iff)
  moreover have "le_enc (length bs) (drop_bit 8 (ucast b OR push_bit 8 ?r)) = le_enc (length bs) ?r"
    using Cons.prems
    by (intro le_enc_low_bits bit_eqI)
      (auto simp: bit_take_bit_iff bit_drop_bit_eq bit_or_iff bit_push_bit_iff bit_ucast_iff
        dest: bit_imp_le_length)
  ultimately show ?case using Cons by simp
qed

lemma length_field [simp]: "off + n \<le> length bs \<Longrightarrow> length (field off n bs) = n"
  by (simp add: field_def)

lemma enc16_get16 [simp]: "off + 2 \<le> length bs \<Longrightarrow> enc16 (get16 off bs) = field off 2 bs"
  using le_enc_dec [of "field off 2 bs", where 'a = 16] by (simp add: get16_def)

lemma enc32_get32 [simp]: "off + 4 \<le> length bs \<Longrightarrow> enc32 (get32 off bs) = field off 4 bs"
  using le_enc_dec [of "field off 4 bs", where 'a = 32] by (simp add: get32_def)

lemma enc64_get64 [simp]: "off + 8 \<le> length bs \<Longrightarrow> enc64 (get64 off bs) = field off 8 bs"
  using le_enc_dec [of "field off 8 bs", where 'a = 64] by (simp add: get64_def)

lemma dec_enc16 [simp]: "le_dec (enc16 x) = x" by (simp add: le_dec_enc)
lemma dec_enc32 [simp]: "le_dec (enc32 x) = x" by (simp add: le_dec_enc)
lemma dec_enc64 [simp]: "le_dec (enc64 x) = x" by (simp add: le_dec_enc)

text \<open>Reassembling a buffer from its fields.\<close>

lemma field_append_drop [simp]:
  "k = off + n \<Longrightarrow> field off n bs @ drop k bs = drop off bs"
  by (simp add: field_def add.commute flip: drop_drop)

lemma field_append_field [simp]:
  "k = off + n \<Longrightarrow> field off n bs @ field k m bs = field off (n + m) bs"
  using take_add [of n m "drop off bs"] by (simp add: field_def add.commute)

lemma field_append_field_assoc [simp]:
  "k = off + n \<Longrightarrow> field off n bs @ field k m bs @ rest = field off (n + m) bs @ rest"
  by (simp flip: append_assoc)

lemma field_all [simp]: "length bs = n \<Longrightarrow> field 0 n bs = bs"
  by (simp add: field_def)

lemma field_append_left [simp]: "off + n \<le> length xs \<Longrightarrow> field off n (xs @ ys) = field off n xs"
  by (simp add: field_def)

lemma field_append_right [simp]:
  "length xs \<le> off \<Longrightarrow> field off n (xs @ ys) = field (off - length xs) n ys"
  by (simp add: field_def)

lemma field_0_full [simp]: "length xs = n \<Longrightarrow> field 0 n (xs @ ys) = xs"
  by (simp add: field_def)

lemma get16_append [simp]:
  "off + 2 \<le> length xs \<Longrightarrow> get16 off (xs @ ys) = get16 off xs"
  "length xs \<le> off \<Longrightarrow> get16 off (xs @ ys) = get16 (off - length xs) ys"
  by (simp_all add: get16_def)

lemma get32_append [simp]:
  "off + 4 \<le> length xs \<Longrightarrow> get32 off (xs @ ys) = get32 off xs"
  "length xs \<le> off \<Longrightarrow> get32 off (xs @ ys) = get32 (off - length xs) ys"
  by (simp_all add: get32_def)

lemma get64_append [simp]:
  "off + 8 \<le> length xs \<Longrightarrow> get64 off (xs @ ys) = get64 off xs"
  "length xs \<le> off \<Longrightarrow> get64 off (xs @ ys) = get64 (off - length xs) ys"
  by (simp_all add: get64_def)

lemma get_enc [simp]:
  "get16 0 (enc16 a) = a" "get32 0 (enc32 b) = b" "get64 0 (enc64 c) = c"
  by (simp_all add: get16_def get32_def get64_def)

section \<open>Fixed-size codecs and arrays of structures\<close>

text \<open>
  \<open>enc\<close> lays a value out in \<open>w\<close> bytes and \<open>dec\<close> reads it back; \<open>ok\<close> is what every decoded
  value satisfies (the lengths of its embedded arrays). Arrays of structures, the way a block
  buffer is cast to \<open>struct x *\<close>, inherit both round trips.
\<close>

primrec dec_array :: "nat \<Rightarrow> (bytes \<Rightarrow> 'a) \<Rightarrow> nat \<Rightarrow> bytes \<Rightarrow> 'a list" where
  "dec_array w dec 0 bs = []"
| "dec_array w dec (Suc n) bs = dec (take w bs) # dec_array w dec n (drop w bs)"

definition enc_array :: "('a \<Rightarrow> bytes) \<Rightarrow> 'a list \<Rightarrow> bytes" where
  "enc_array enc xs = concat (map enc xs)"

lemma length_dec_array [simp]: "length (dec_array w dec n bs) = n"
  by (induction n arbitrary: bs) simp_all

lemma nth_dec_array: "i < n \<Longrightarrow> dec_array w dec n bs ! i = dec (field (i * w) w bs)"
proof (induction n arbitrary: bs i)
  case (Suc n)
  then show ?case by (cases i) (simp_all add: field_def add.commute)
qed simp

lemma dec_array_append: "n * w \<le> length bs \<Longrightarrow> dec_array w dec n (bs @ cs) = dec_array w dec n bs"
proof (induction n arbitrary: bs)
  case (Suc n)
  then show ?case by (simp add: add.commute)
qed simp

locale fixed_codec =
  fixes w :: nat and enc :: "'a \<Rightarrow> bytes" and dec :: "bytes \<Rightarrow> 'a" and ok :: "'a \<Rightarrow> bool"
  assumes enc_len: "ok x \<Longrightarrow> length (enc x) = w"
    and dec_enc: "ok x \<Longrightarrow> dec (enc x) = x"
    and dec_ok: "length bs = w \<Longrightarrow> ok (dec bs)"
    and enc_dec: "length bs = w \<Longrightarrow> enc (dec bs) = bs"
begin

lemma array_len: "list_all ok xs \<Longrightarrow> length (enc_array enc xs) = length xs * w"
  by (induction xs) (simp_all add: enc_array_def enc_len)

lemma dec_array_enc:
  "list_all ok xs \<Longrightarrow> n = length xs \<Longrightarrow> dec_array w dec n (enc_array enc xs @ ys) = xs"
  by (induction xs arbitrary: n) (simp_all add: enc_array_def enc_len dec_enc)

lemma dec_array_ok: "n * w \<le> length bs \<Longrightarrow> list_all ok (dec_array w dec n bs)"
proof (induction n arbitrary: bs)
  case (Suc n)
  then show ?case by (simp add: dec_ok)
qed simp

lemma enc_array_dec: "n * w \<le> length bs \<Longrightarrow> enc_array enc (dec_array w dec n bs) = take (n * w) bs"
proof (induction n arbitrary: bs)
  case (Suc n)
  then show ?case by (simp add: enc_array_def enc_dec take_add add.commute)
qed (simp add: enc_array_def)

lemma enc_array_dec_tail:
  "n * w \<le> length bs \<Longrightarrow> enc_array enc (dec_array w dec n bs) @ drop (n * w) bs = bs"
  by (simp add: enc_array_dec)

end

interpretation u32_codec: fixed_codec 4 enc32 "le_dec :: bytes \<Rightarrow> u32" "\<lambda>_. True"
proof unfold_locales
  fix bs :: bytes assume "length bs = 4"
  then show "enc32 (le_dec bs) = bs" using le_enc_dec [of bs, where 'a = 32] by simp
qed simp_all

section \<open>C strings\<close>

text \<open>
  A \<open>const char *\<close> argument is the list of the bytes the caller supplies; reading at or past its
  end yields the terminating NUL. Every loop over such a string stops at the first NUL, so what
  lies behind the terminator is never looked at.
\<close>

definition cstr_at :: "bytes \<Rightarrow> nat \<Rightarrow> u8" where
  "cstr_at s i = (if i < length s then s ! i else 0)"

text \<open>\<open>while (n < max && s[n] != 0) n++;\<close>\<close>

definition strlen_bounded :: "bytes \<Rightarrow> nat \<Rightarrow> nat" where
  "strlen_bounded s m = (case List.find (\<lambda>n. cstr_at s n = 0) [0..<m] of Some n \<Rightarrow> n | None \<Rightarrow> m)"

lemma strlen_bounded_le: "strlen_bounded s m \<le> m"
  by (auto simp: strlen_bounded_def split: option.split dest: find_upt_SomeD)

lemma strlen_bounded_nonzero: "i < strlen_bounded s m \<Longrightarrow> cstr_at s i \<noteq> 0"
  by (auto simp: strlen_bounded_def find_upt_None_iff split: option.splits dest: find_upt_SomeD(4))

lemma strlen_bounded_zero: "strlen_bounded s m < m \<Longrightarrow> cstr_at s (strlen_bounded s m) = 0"
  by (auto simp: strlen_bounded_def split: option.splits dest: find_upt_SomeD(3))

lemma strlen_bounded_full: "(\<And>i. i < m \<Longrightarrow> cstr_at s i \<noteq> 0) \<Longrightarrow> strlen_bounded s m = m"
  using strlen_bounded_zero strlen_bounded_le by (metis le_neq_implies_less)

lemma strlen_bounded_unique:
  assumes "n < m" "cstr_at s n = 0" "\<And>i. i < n \<Longrightarrow> cstr_at s i \<noteq> 0"
  shows "strlen_bounded s m = n"
proof (rule linorder_cases [of "strlen_bounded s m" n])
  assume "strlen_bounded s m < n"
  then show ?thesis using assms strlen_bounded_zero [of s m] by auto
next
  assume "n < strlen_bounded s m"
  then show ?thesis using assms strlen_bounded_nonzero by blast
qed

lemma strlen_bounded_le_length: "strlen_bounded s m \<le> length s"
proof (rule ccontr)
  assume "\<not> ?thesis"
  then have "cstr_at s (length s) \<noteq> 0" by (intro strlen_bounded_nonzero [of _ s m]) simp
  then show False by (simp add: cstr_at_def)
qed

end
