(* ===== verification/Journal.thy ===== *)
theory Journal
  imports Bytes
begin

text \<open>
  The MCSFS1J write-ahead journal (\<open>kernel/fs/mcsfs1j/m16_mcsfs_journal.c\<close>, first half): the
  fault-injecting block device, the on-disk layout of the journal header and descriptors, the
  FNV-1a checksum, transactions, commit and recovery. The theorems show that a commit cut off at
  any block write leaves, after recovery, either the old or the new contents of every home block,
  and that recovery may itself be interrupted and repeated.
\<close>

section \<open>Constants and layout\<close>

definition M16_BLOCK_SIZE :: nat where [simp, layout]: "M16_BLOCK_SIZE = 512"
definition M16_MAX_BLOCKS :: nat where [simp, layout]: "M16_MAX_BLOCKS = 128"
definition M16_MAX_INODES :: nat where [simp, layout]: "M16_MAX_INODES = 16"
definition M16_DIRECT_BLOCKS :: nat where [simp, layout]: "M16_DIRECT_BLOCKS = 4"
definition M16_MAX_NAME :: nat where [simp, layout]: "M16_MAX_NAME = 32"
definition M16_MAGIC :: u64 where [layout]: "M16_MAGIC = 0x4d43534631564a31"
definition M16_JMAGIC :: u64 where [layout]: "M16_JMAGIC = 0x4d43534a524e4c31"
definition M16_VERSION :: u32 where [layout]: "M16_VERSION = 1"
definition M16_J_EMPTY :: u32 where [layout]: "M16_J_EMPTY = 0"
definition M16_J_COMMITTED :: u32 where [layout]: "M16_J_COMMITTED = 2"
definition M16_JOURNAL_MAX_RECORDS :: nat where [simp, layout]: "M16_JOURNAL_MAX_RECORDS = 8"
definition M16_JOURNAL_START :: nat where [simp, layout]: "M16_JOURNAL_START = 1"
definition M16_JOURNAL_BLOCKS :: nat where
  [simp, layout]: "M16_JOURNAL_BLOCKS = 1 + 2 * M16_JOURNAL_MAX_RECORDS"
definition M16_INODE_BITMAP_LBA :: nat where
  [simp, layout]: "M16_INODE_BITMAP_LBA = M16_JOURNAL_START + M16_JOURNAL_BLOCKS"
definition M16_BLOCK_BITMAP_LBA :: nat where
  [simp, layout]: "M16_BLOCK_BITMAP_LBA = M16_INODE_BITMAP_LBA + 1"
definition M16_INODE_TABLE_LBA :: nat where
  [simp, layout]: "M16_INODE_TABLE_LBA = M16_BLOCK_BITMAP_LBA + 1"
definition M16_INODE_TABLE_BLOCKS :: nat where [simp, layout]: "M16_INODE_TABLE_BLOCKS = 4"
definition M16_ROOT_DIR_LBA :: nat where
  [simp, layout]: "M16_ROOT_DIR_LBA = M16_INODE_TABLE_LBA + M16_INODE_TABLE_BLOCKS"
definition M16_DATA_START_LBA :: nat where
  [simp, layout]: "M16_DATA_START_LBA = M16_ROOT_DIR_LBA + 1"

text \<open>
  The error codes; success is \<open>Inr\<close>. \<open>M16_FAULT\<close> is no code of the source: it stands for a read
  past the end of a buffer, which C leaves undefined.
\<close>

datatype m16_err = M16_E_INVAL | M16_E_IO | M16_E_NOSPC | M16_E_EXISTS | M16_E_NOENT
  | M16_E_CORRUPT | M16_E_TOOLONG | M16_FAULT

section \<open>The block device\<close>

record m16_blockdev =
  blocks :: "bytes list"
  total_blocks :: u32
  writes :: u64
  fail_after :: int

type_synonym 'a m16_prog = "(m16_blockdev, m16_err, 'a) prog"

definition m16_valid_lba :: "m16_blockdev \<Rightarrow> nat \<Rightarrow> bool" where
  "m16_valid_lba dev lba \<longleftrightarrow> lba < unat (total_blocks dev) \<and> lba < M16_MAX_BLOCKS"

definition m16_read_block :: "nat \<Rightarrow> bytes m16_prog" where
  "m16_read_block lba dev =
     (if \<not> m16_valid_lba dev lba then (Inl M16_E_INVAL, dev) else (Inr (blocks dev ! lba), dev))"

definition m16_write_block :: "nat \<Rightarrow> bytes \<Rightarrow> unit m16_prog" where
  "m16_write_block lba inp dev =
     (if \<not> m16_valid_lba dev lba then (Inl M16_E_INVAL, dev)
      else if fail_after dev = 0 then (Inl M16_E_IO, dev)
      else (Inr (), dev\<lparr>fail_after := (if 0 < fail_after dev then fail_after dev - 1 else fail_after dev),
                        blocks := (blocks dev)[lba := inp], writes := writes dev + 1\<rparr>))"

definition m16_dev_init :: m16_blockdev where
  "m16_dev_init = \<lparr>blocks = replicate M16_MAX_BLOCKS (replicate M16_BLOCK_SIZE 0),
     total_blocks = of_nat M16_MAX_BLOCKS, writes = 0, fail_after = -1\<rparr>"

section \<open>Checksum and journal records\<close>

definition m16_checksum :: "bytes \<Rightarrow> u32" where
  "m16_checksum bs = foldl (\<lambda>h b. (h XOR ucast b) * 16777619) 2166136261 bs"

record m16_journal_header =
  jh_magic :: u64
  jh_version :: u32
  jh_state :: u32
  jh_seq :: u32
  jh_count :: u32
  jh_checksum :: u32
  jh_reserved :: bytes

record m16_journal_desc =
  jd_magic :: u64
  jd_target_lba :: u32
  jd_payload_checksum :: u32
  jd_reserved :: bytes

record m16_jrec =
  target_lba :: u32
  payload :: bytes

text \<open>
  A \<open>struct m16_tx\<close> is the list of its first \<open>count\<close> records; the entries behind them are never
  read.
\<close>

type_synonym m16_tx = "m16_jrec list"

definition enc_header :: "m16_journal_header \<Rightarrow> bytes" where
  "enc_header h = enc64 (jh_magic h) @ enc32 (jh_version h) @ enc32 (jh_state h) @ enc32 (jh_seq h)
     @ enc32 (jh_count h) @ enc32 (jh_checksum h) @ jh_reserved h"

definition dec_header :: "bytes \<Rightarrow> m16_journal_header" where
  "dec_header bs = \<lparr>jh_magic = get64 0 bs, jh_version = get32 8 bs, jh_state = get32 12 bs,
     jh_seq = get32 16 bs, jh_count = get32 20 bs, jh_checksum = get32 24 bs, jh_reserved = drop 28 bs\<rparr>"

definition enc_desc :: "m16_journal_desc \<Rightarrow> bytes" where
  "enc_desc d = enc64 (jd_magic d) @ enc32 (jd_target_lba d) @ enc32 (jd_payload_checksum d)
     @ jd_reserved d"

definition dec_desc :: "bytes \<Rightarrow> m16_journal_desc" where
  "dec_desc bs = \<lparr>jd_magic = get64 0 bs, jd_target_lba = get32 8 bs,
     jd_payload_checksum = get32 12 bs, jd_reserved = drop 16 bs\<rparr>"

definition zero_header :: m16_journal_header where
  "zero_header = \<lparr>jh_magic = 0, jh_version = 0, jh_state = 0, jh_seq = 0, jh_count = 0,
     jh_checksum = 0, jh_reserved = replicate 484 0\<rparr>"

definition m16_header_checksum :: "m16_journal_header \<Rightarrow> u32" where
  "m16_header_checksum h = m16_checksum (enc_header (h\<lparr>jh_checksum := 0\<rparr>))"

section \<open>Commit and recovery\<close>

definition m16_tx_add :: "m16_tx \<Rightarrow> nat \<Rightarrow> bytes \<Rightarrow> m16_err + m16_tx" where
  "m16_tx_add tx lba pl =
     (if M16_JOURNAL_MAX_RECORDS \<le> length tx then Inl M16_E_NOSPC
      else Inr (tx @ [\<lparr>target_lba = of_nat lba, payload = pl\<rparr>]))"

definition m16_journal_clear :: "unit m16_prog" where
  "m16_journal_clear = m16_write_block M16_JOURNAL_START (enc_header zero_header)"

definition commit_desc :: "m16_jrec \<Rightarrow> m16_journal_desc" where
  "commit_desc r = \<lparr>jd_magic = M16_JMAGIC, jd_target_lba = target_lba r,
     jd_payload_checksum = m16_checksum (payload r), jd_reserved = replicate 496 0\<rparr>"

definition commit_header :: "m16_tx \<Rightarrow> u32 \<Rightarrow> m16_journal_header" where
  "commit_header tx seq =
     (let h = zero_header\<lparr>jh_magic := M16_JMAGIC, jh_version := M16_VERSION,
                jh_state := M16_J_COMMITTED, jh_seq := seq, jh_count := of_nat (length tx)\<rparr>
      in h\<lparr>jh_checksum := m16_header_checksum h\<rparr>)"

definition m16_journal_commit :: "m16_tx \<Rightarrow> u32 \<Rightarrow> bool \<Rightarrow> unit m16_prog" where
  "m16_journal_commit tx seq stop_after_commit_record =
     pthen (pguard (length tx \<le> M16_JOURNAL_MAX_RECORDS) M16_E_INVAL)
     (pthen m16_journal_clear
     (pthen (pfor [0..<length tx] (\<lambda>i.
        let desc_lba = M16_JOURNAL_START + 1 + i * 2; data_lba = desc_lba + 1
        in pthen (m16_write_block desc_lba (enc_desc (commit_desc (tx ! i))))
                 (m16_write_block data_lba (payload (tx ! i)))))
     (pthen (m16_write_block M16_JOURNAL_START (enc_header (commit_header tx seq)))
     (if stop_after_commit_record then pret ()
      else pthen (pfor [0..<length tx] (\<lambda>i.
             m16_write_block (unat (target_lba (tx ! i))) (payload (tx ! i))))
           m16_journal_clear))))"

definition m16_replay :: "nat \<Rightarrow> unit m16_prog" where
  "m16_replay i =
     (let desc_lba = M16_JOURNAL_START + 1 + i * 2; data_lba = desc_lba + 1
      in pbind (m16_read_block desc_lba) (\<lambda>raw. let d = dec_desc raw in
         pthen (pcheck (\<lambda>dev. jd_magic d = M16_JMAGIC \<and> m16_valid_lba dev (unat (jd_target_lba d)))
                   M16_E_CORRUPT)
         (pbind (m16_read_block data_lba) (\<lambda>pl.
         pthen (pguard (m16_checksum pl = jd_payload_checksum d) M16_E_CORRUPT)
         (m16_write_block (unat (jd_target_lba d)) pl)))))"

definition m16_journal_recover :: "unit m16_prog" where
  "m16_journal_recover =
     pbind (m16_read_block M16_JOURNAL_START) (\<lambda>raw. let h = dec_header raw in
     if jh_magic h = 0 \<and> jh_state h = M16_J_EMPTY then pret ()
     else if jh_magic h \<noteq> M16_JMAGIC \<or> jh_version h \<noteq> M16_VERSION \<or> jh_state h \<noteq> M16_J_COMMITTED
             \<or> M16_JOURNAL_MAX_RECORDS < unat (jh_count h) then pfail M16_E_CORRUPT
     else if m16_header_checksum h \<noteq> jh_checksum h then pfail M16_E_CORRUPT
     else pthen (pfor [0..<unat (jh_count h)] m16_replay) m16_journal_clear)"

section \<open>Codec laws\<close>

definition header_ok :: "m16_journal_header \<Rightarrow> bool" where
  "header_ok h \<longleftrightarrow> length (jh_reserved h) = 484"

definition desc_ok :: "m16_journal_desc \<Rightarrow> bool" where
  "desc_ok d \<longleftrightarrow> length (jd_reserved d) = 496"

interpretation header_codec: fixed_codec 512 enc_header dec_header header_ok
  by unfold_locales (simp_all add: enc_header_def dec_header_def header_ok_def)

interpretation desc_codec: fixed_codec 512 enc_desc dec_desc desc_ok
  by unfold_locales (simp_all add: enc_desc_def dec_desc_def desc_ok_def)


section \<open>Sequences of block writes\<close>

text \<open>
  A straight-line sequence of writes to valid blocks, under fault injection, performs a prefix of
  itself: this is the only way a power loss shows.
\<close>

abbreviation apply_writes :: "(nat \<times> bytes) list \<Rightarrow> bytes list \<Rightarrow> bytes list" where
  "apply_writes ws bs \<equiv> fold (\<lambda>(i, x) xs. xs[i := x]) ws bs"

definition m16_write_all :: "(nat \<times> bytes) list \<Rightarrow> unit m16_prog" where
  "m16_write_all ws = pfor ws (\<lambda>(lba, b). m16_write_block lba b)"

lemma write_all_Nil [simp]: "m16_write_all [] = pret ()"
  by (simp add: m16_write_all_def)

lemma write_all_Cons: "m16_write_all ((l, b) # ws) = pthen (m16_write_block l b) (m16_write_all ws)"
  by (simp add: m16_write_all_def)

lemma write_all_single [simp]: "m16_write_all [(l, b)] = m16_write_block l b"
  by (simp add: write_all_Cons pthen_pret_unit)

lemma write_all_append: "m16_write_all (vs @ ws) = pthen (m16_write_all vs) (m16_write_all ws)"
  by (simp add: m16_write_all_def pfor_append)

lemma valid_lba_update [simp]:
  "m16_valid_lba (dev\<lparr>blocks := bs\<rparr>) = m16_valid_lba dev"
  "m16_valid_lba (dev\<lparr>fail_after := k\<rparr>) = m16_valid_lba dev"
  "m16_valid_lba (dev\<lparr>writes := w\<rparr>) = m16_valid_lba dev"
  by (rule ext, simp add: m16_valid_lba_def)+

text \<open>What a device that performed the writes \<open>ws\<close> looks like.\<close>

definition wrote :: "m16_blockdev \<Rightarrow> (nat \<times> bytes) list \<Rightarrow> m16_blockdev" where
  "wrote dev ws = dev\<lparr>fail_after := (if fail_after dev < 0 then fail_after dev
                                       else fail_after dev - int (length ws)),
       blocks := apply_writes ws (blocks dev), writes := writes dev + of_nat (length ws)\<rparr>"

lemma wrote_simps [simp]:
  "blocks (wrote dev ws) = apply_writes ws (blocks dev)"
  "total_blocks (wrote dev ws) = total_blocks dev"
  "fail_after (wrote dev ws) < 0 \<longleftrightarrow> fail_after dev < 0 \<or> fail_after dev < int (length ws)"
  "m16_valid_lba (wrote dev ws) = m16_valid_lba dev"
  by (auto simp: wrote_def m16_valid_lba_def)

lemma wrote_Nil [simp]: "wrote dev [] = dev"
  by (simp add: wrote_def)

lemma wrote_wrote:
  "wrote (wrote dev [w]) ws = wrote dev (w # ws)" if "fail_after dev \<noteq> 0"
  using that by (auto simp: wrote_def algebra_simps)

lemma write_block_wrote:
  "m16_valid_lba dev l \<Longrightarrow> fail_after dev \<noteq> 0 \<Longrightarrow> m16_write_block l b dev = (Inr (), wrote dev [(l, b)])"
  by (simp add: m16_write_block_def wrote_def)

lemma write_all_run:
  assumes "\<forall>(l, b)\<in>set ws. m16_valid_lba dev l"
  shows "m16_write_all ws dev =
    (if fail_after dev < 0 \<or> int (length ws) \<le> fail_after dev then (Inr (), wrote dev ws)
     else (Inl M16_E_IO, wrote dev (take (nat (fail_after dev)) ws)))"
  using assms
proof (induction ws arbitrary: dev)
  case Nil
  show ?case by (auto simp: pret_def)
next
  case (Cons w ws)
  obtain l b where w: "w = (l, b)" by force
  have v: "m16_valid_lba dev l" using Cons.prems w by auto
  show ?case
  proof (cases "fail_after dev = 0")
    case True
    then show ?thesis using v w
      by (simp add: write_all_Cons pthen_def pbind_def m16_write_block_def)
  next
    case False
    let ?d = "wrote dev [w]"
    have "m16_write_all (w # ws) dev = m16_write_all ws ?d"
      using write_block_wrote [OF v False] by (simp add: w write_all_Cons pthen_def pbind_def)
    moreover have "\<forall>(l, b)\<in>set ws. m16_valid_lba ?d l" using Cons.prems by simp
    ultimately have run: "m16_write_all (w # ws) dev =
        (if fail_after ?d < 0 \<or> int (length ws) \<le> fail_after ?d then (Inr (), wrote ?d ws)
         else (Inl M16_E_IO, wrote ?d (take (nat (fail_after ?d)) ws)))"
      using Cons.IH by simp
    have fa: "fail_after ?d = (if fail_after dev < 0 then fail_after dev else fail_after dev - 1)"
      by (simp add: wrote_def)
    have "nat (fail_after dev) = Suc (nat (fail_after dev - 1))" if "0 < fail_after dev"
      using that by linarith
    then show ?thesis
      using run False by (auto simp: fa wrote_wrote)
  qed
qed

text \<open>The form used for crash arguments: some prefix was written.\<close>

lemma write_all_prefix:
  assumes "\<forall>(l, b)\<in>set ws. m16_valid_lba dev l"
  obtains k where "k \<le> length ws" "snd (m16_write_all ws dev) = wrote dev (take k ws)"
    and "fst (m16_write_all ws dev) = Inr () \<longleftrightarrow> k = length ws"
proof (cases "fail_after dev < 0 \<or> int (length ws) \<le> fail_after dev")
  case True
  then show ?thesis using write_all_run [OF assms] that [of "length ws"] by simp
next
  case False
  then show ?thesis
    using write_all_run [OF assms] that [of "nat (fail_after dev)"] by auto
qed

lemma write_all_ok:
  "\<forall>(l, b)\<in>set ws. m16_valid_lba dev l \<Longrightarrow> fail_after dev < 0 \<Longrightarrow> m16_write_all ws dev = (Inr (), wrote dev ws)"
  using write_all_run by simp

text \<open>Replaying a sequence of writes over any prefix of itself gives the same blocks.\<close>

lemma apply_writes_nth:
  "i < length bs \<Longrightarrow>
   apply_writes ws bs ! i = (case map_of (rev ws) i of Some b \<Rightarrow> b | None \<Rightarrow> bs ! i)"
proof (induction ws rule: rev_induct)
  case (snoc w ws)
  then show ?case by (cases w) (auto simp: nth_list_update)
qed simp

lemma apply_writes_other: "i \<notin> fst ` set ws \<Longrightarrow> apply_writes ws bs ! i = bs ! i"
proof (induction ws arbitrary: bs)
  case (Cons w ws)
  then show ?case by (cases w) auto
qed simp

lemma apply_writes_prefix_absorb: "apply_writes ws (apply_writes (take k ws) bs) = apply_writes ws bs"
proof (rule nth_equalityI)
  show "length (apply_writes ws (apply_writes (take k ws) bs)) = length (apply_writes ws bs)"
    by simp
  fix i assume "i < length (apply_writes ws (apply_writes (take k ws) bs))"
  then have i: "i < length bs" by simp
  show "apply_writes ws (apply_writes (take k ws) bs) ! i = apply_writes ws bs ! i"
  proof (cases "map_of (rev ws) i")
    case None
    then have "i \<notin> fst ` set ws" by (simp add: map_of_eq_None_iff)
    then have "i \<notin> fst ` set (take k ws)" using set_take_subset [of k ws] by auto
    then have "map_of (rev (take k ws)) i = None" by (simp add: map_of_eq_None_iff)
    with None i show ?thesis by (simp add: apply_writes_nth)
  qed (simp add: apply_writes_nth i)
qed

section \<open>The journal as a sequence of writes\<close>

definition home_writes :: "m16_tx \<Rightarrow> (nat \<times> bytes) list" where
  "home_writes tx = map (\<lambda>r. (unat (target_lba r), payload r)) tx"

definition record_writes :: "m16_tx \<Rightarrow> (nat \<times> bytes) list" where
  "record_writes tx = concat (map (\<lambda>i. [(2 + i * 2, enc_desc (commit_desc (tx ! i))),
                                        (3 + i * 2, payload (tx ! i))]) [0..<length tx])"

definition clear_write :: "nat \<times> bytes" where
  "clear_write = (M16_JOURNAL_START, enc_header zero_header)"

definition commit_write :: "m16_tx \<Rightarrow> u32 \<Rightarrow> nat \<times> bytes" where
  "commit_write tx seq = (M16_JOURNAL_START, enc_header (commit_header tx seq))"

definition commit_writes :: "m16_tx \<Rightarrow> u32 \<Rightarrow> bool \<Rightarrow> (nat \<times> bytes) list" where
  "commit_writes tx seq stop = clear_write # record_writes tx @ commit_write tx seq #
     (if stop then [] else home_writes tx @ [clear_write])"

lemma pfor_two_writes:
  "pfor is (\<lambda>i. pthen (m16_write_block (f i) (g i)) (m16_write_block (f' i) (g' i)))
   = m16_write_all (concat (map (\<lambda>i. [(f i, g i), (f' i, g' i)]) is))"
  by (induction "is") (simp_all add: write_all_Cons pthen_assoc)

lemma home_writes_upt:
  "home_writes tx = map (\<lambda>i. (unat (target_lba (tx ! i)), payload (tx ! i))) [0..<length tx]"
  by (rule nth_equalityI) (simp_all add: home_writes_def)

lemma pfor_home_writes:
  "pfor [0..<length tx] (\<lambda>i. m16_write_block (unat (target_lba (tx ! i))) (payload (tx ! i)))
   = m16_write_all (home_writes tx)"
  by (simp add: home_writes_upt m16_write_all_def pfor_map)

lemma commit_as_writes:
  "length tx \<le> M16_JOURNAL_MAX_RECORDS \<Longrightarrow>
   m16_journal_commit tx seq stop = m16_write_all (commit_writes tx seq stop)"
  unfolding m16_journal_commit_def commit_writes_def m16_journal_clear_def clear_write_def
    commit_write_def record_writes_def Let_def pfor_home_writes pfor_two_writes
  by (simp add: write_all_Cons write_all_append pthen_assoc pthen_pret_unit numeral_3_eq_3)


section \<open>Recovery\<close>

definition in_journal :: "nat \<Rightarrow> bool" where
  "in_journal lba \<longleftrightarrow> M16_JOURNAL_START \<le> lba \<and> lba < M16_JOURNAL_START + M16_JOURNAL_BLOCKS"

definition wf_tx :: "m16_tx \<Rightarrow> bool" where
  "wf_tx tx \<longleftrightarrow> length tx \<le> M16_JOURNAL_MAX_RECORDS \<and>
     list_all (\<lambda>r. length (payload r) = M16_BLOCK_SIZE \<and> unat (target_lba r) < M16_MAX_BLOCKS
                  \<and> \<not> in_journal (unat (target_lba r))) tx"

definition m16_dev_ok :: "m16_blockdev \<Rightarrow> bool" where
  "m16_dev_ok dev \<longleftrightarrow> length (blocks dev) = M16_MAX_BLOCKS \<and> total_blocks dev = of_nat M16_MAX_BLOCKS
     \<and> list_all (\<lambda>b. length b = M16_BLOCK_SIZE) (blocks dev)"

definition journal_holds :: "m16_tx \<Rightarrow> u32 \<Rightarrow> bytes list \<Rightarrow> bool" where
  "journal_holds tx seq bs \<longleftrightarrow> bs ! M16_JOURNAL_START = enc_header (commit_header tx seq) \<and>
     (\<forall>i < length tx. bs ! (2 + i * 2) = enc_desc (commit_desc (tx ! i)) \<and> bs ! (3 + i * 2) = payload (tx ! i))"

definition journal_empty :: "bytes list \<Rightarrow> bool" where
  "journal_empty bs \<longleftrightarrow> jh_magic (dec_header (bs ! M16_JOURNAL_START)) = 0
     \<and> jh_state (dec_header (bs ! M16_JOURNAL_START)) = M16_J_EMPTY"

lemma header_ok_commit [simp]: "header_ok (commit_header tx seq)"
  by (simp add: commit_header_def header_ok_def zero_header_def Let_def)

lemma header_ok_zero [simp]: "header_ok zero_header"
  by (simp add: header_ok_def zero_header_def)

lemma desc_ok_commit [simp]: "desc_ok (commit_desc r)"
  by (simp add: commit_desc_def desc_ok_def)

lemmas m16_codec_simps [simp] =
  header_codec.dec_enc header_codec.enc_len desc_codec.dec_enc desc_codec.enc_len

lemma commit_header_fields [simp]:
  "jh_magic (commit_header tx seq) = M16_JMAGIC"
  "jh_version (commit_header tx seq) = M16_VERSION"
  "jh_state (commit_header tx seq) = M16_J_COMMITTED"
  "jh_count (commit_header tx seq) = of_nat (length tx)"
  by (simp_all add: commit_header_def Let_def)

lemma commit_desc_fields [simp]:
  "jd_magic (commit_desc r) = M16_JMAGIC" "jd_target_lba (commit_desc r) = target_lba r"
  "jd_payload_checksum (commit_desc r) = m16_checksum (payload r)"
  by (simp_all add: commit_desc_def)

lemma commit_header_checksum: "m16_header_checksum (commit_header tx seq) = jh_checksum (commit_header tx seq)"
  by (simp add: commit_header_def Let_def m16_header_checksum_def zero_header_def)

lemma valid_lba_ok [simp]: "m16_dev_ok dev \<Longrightarrow> m16_valid_lba dev l \<longleftrightarrow> l < 128"
  by (simp add: m16_dev_ok_def m16_valid_lba_def)

lemma dev_ok_wrote:
  assumes "m16_dev_ok dev" and "\<forall>(l, b)\<in>set ws. length b = M16_BLOCK_SIZE"
  shows "m16_dev_ok (wrote dev ws)"
proof -
  have "list_all (\<lambda>b. length b = M16_BLOCK_SIZE) bs \<Longrightarrow>
      list_all (\<lambda>b. length b = M16_BLOCK_SIZE) (apply_writes ws bs)" for bs
    using assms(2)
  proof (induction ws arbitrary: bs)
    case (Cons w ws)
    have "list_all (\<lambda>b. length b = M16_BLOCK_SIZE) (bs[fst w := snd w])"
      using Cons.prems by (auto simp: list_all_iff dest!: set_update_subset_insert [THEN subsetD])
    with Cons show ?case by (auto simp: case_prod_beta)
  qed simp
  with assms(1) show ?thesis by (simp add: m16_dev_ok_def)
qed

lemma journal_holds_update:
  "journal_holds tx seq bs \<Longrightarrow> length tx \<le> 8 \<Longrightarrow> \<not> in_journal l \<Longrightarrow> journal_holds tx seq (bs[l := b])"
  by (auto simp: journal_holds_def in_journal_def)

lemma journal_holds_apply:
  "journal_holds tx seq bs \<Longrightarrow> length tx \<le> 8 \<Longrightarrow> \<forall>(l, b)\<in>set ws. \<not> in_journal l
   \<Longrightarrow> journal_holds tx seq (apply_writes ws bs)"
proof (induction ws arbitrary: bs)
  case (Cons w ws)
  then have "journal_holds tx seq (bs[fst w := snd w])"
    by (intro journal_holds_update) (auto simp: case_prod_beta)
  with Cons show ?case by (auto simp: case_prod_beta)
qed simp

lemma wf_txD:
  assumes "wf_tx tx" "i < length tx"
  shows "length (payload (tx ! i)) = 512" "unat (target_lba (tx ! i)) < 128"
    "\<not> in_journal (unat (target_lba (tx ! i)))"
  using assms by (simp_all add: wf_tx_def list_all_length)

lemma wf_tx_length: "wf_tx tx \<Longrightarrow> length tx \<le> 8"
  by (simp add: wf_tx_def)

lemma home_writes_wf:
  assumes "wf_tx tx"
  shows "\<forall>(l, b)\<in>set (home_writes tx). l < 128 \<and> length b = M16_BLOCK_SIZE \<and> \<not> in_journal l"
  using assms by (auto simp: wf_tx_def list_all_iff home_writes_def)

text \<open>With the commit record in place, each replay step is the home write of its record.\<close>

lemma replay_step:
  assumes "journal_holds tx seq (blocks dev)" "wf_tx tx" "m16_dev_ok dev" "i < length tx"
  shows "m16_replay i dev = m16_write_block (unat (target_lba (tx ! i))) (payload (tx ! i)) dev"
proof -
  have i: "i < 8" using assms(2,4) by (simp add: wf_tx_def)
  have d: "blocks dev ! (2 + i * 2) = enc_desc (commit_desc (tx ! i))"
    "blocks dev ! (3 + i * 2) = payload (tx ! i)"
    using assms(1,4) by (auto simp: journal_holds_def)
  have t: "unat (target_lba (tx ! i)) < 128" using wf_txD [OF assms(2,4)] by simp
  show ?thesis
    using i d t assms(3)
    by (simp add: m16_replay_def Let_def prog_run m16_read_block_def numeral_3_eq_3 numeral_2_eq_2)
qed

lemma replay_all:
  assumes "journal_holds tx seq (blocks dev)" "wf_tx tx" "m16_dev_ok dev"
    and "set is \<subseteq> {..<length tx}"
  shows "pfor is m16_replay dev
    = m16_write_all (map (\<lambda>i. (unat (target_lba (tx ! i)), payload (tx ! i))) is) dev"
  using assms(1,3,4)
proof (induction "is" arbitrary: dev)
  case (Cons i "is")
  let ?l = "unat (target_lba (tx ! i))" and ?b = "payload (tx ! i)"
  have i: "i < length tx" using Cons.prems by simp
  have step: "m16_replay i dev = m16_write_block ?l ?b dev"
    using replay_step [OF Cons.prems(1) assms(2) Cons.prems(2) i] .
  note w = wf_txD [OF assms(2) i]
  show ?case
  proof (cases "fail_after dev = 0")
    case True
    then show ?thesis using w Cons.prems
      by (simp add: step write_all_Cons pthen_def pbind_def m16_write_block_def)
  next
    case False
    let ?d = "wrote dev [(?l, ?b)]"
    have wr: "m16_write_block ?l ?b dev = (Inr (), ?d)"
      using w Cons.prems False by (intro write_block_wrote) simp_all
    have "journal_holds tx seq (blocks ?d)"
      using Cons.prems(1) w assms(2) by (simp add: journal_holds_update wf_tx_length)
    moreover have "m16_dev_ok ?d" using Cons.prems(2) w by (intro dev_ok_wrote) simp_all
    ultimately have "pfor is m16_replay ?d
        = m16_write_all (map (\<lambda>i. (unat (target_lba (tx ! i)), payload (tx ! i))) is) ?d"
      using Cons.IH Cons.prems(3) by simp
    then show ?thesis by (simp add: step write_all_Cons pthen_def pbind_def wr)
  qed
qed simp

lemma recover_committed:
  assumes "journal_holds tx seq (blocks dev)" "wf_tx tx" "m16_dev_ok dev"
  shows "m16_journal_recover dev = m16_write_all (home_writes tx @ [clear_write]) dev"
proof -
  have n: "unat (of_nat (length tx) :: u32) = length tx"
    using wf_tx_length [OF assms(2)] by (simp add: unat_of_nat)
  have "m16_journal_recover dev = pthen (pfor [0..<length tx] m16_replay) m16_journal_clear dev"
    using assms(1,3) wf_tx_length [OF assms(2)]
    by (simp add: m16_journal_recover_def pbind_def m16_read_block_def journal_holds_def Let_def n
        commit_header_checksum M16_JMAGIC_def)
  also have "\<dots> = pthen (m16_write_all (home_writes tx)) m16_journal_clear dev"
    using replay_all [OF assms, of "[0..<length tx]"]
    by (simp add: pthen_def pbind_def home_writes_upt atLeast0LessThan)
  finally show ?thesis
    by (simp add: write_all_append clear_write_def m16_journal_clear_def)
qed

lemma recover_empty:
  assumes "journal_empty (blocks dev)" "m16_dev_ok dev"
  shows "m16_journal_recover dev = (Inr (), dev)"
  using assms by (simp add: m16_journal_recover_def pbind_def m16_read_block_def journal_empty_def
      Let_def pret_def)


section \<open>Crash atomicity\<close>

text \<open>
  A power cycle keeps the blocks and lifts the injected fault. Two disks agree on the home area
  when they differ in journal blocks only.
\<close>

definition m16_power_cycle :: "m16_blockdev \<Rightarrow> m16_blockdev" where
  "m16_power_cycle dev = dev\<lparr>fail_after := -1\<rparr>"

definition same_home :: "bytes list \<Rightarrow> bytes list \<Rightarrow> bool" where
  "same_home bs cs \<longleftrightarrow> length bs = length cs \<and> (\<forall>i < length cs. \<not> in_journal i \<longrightarrow> bs ! i = cs ! i)"

lemma power_cycle_simps [simp]:
  "blocks (m16_power_cycle dev) = blocks dev" "fail_after (m16_power_cycle dev) = -1"
  "m16_dev_ok (m16_power_cycle dev) = m16_dev_ok dev"
  by (simp_all add: m16_power_cycle_def m16_dev_ok_def)

lemma same_home_refl [simp]: "same_home bs bs"
  by (simp add: same_home_def)

lemma same_home_trans: "same_home as bs \<Longrightarrow> same_home bs cs \<Longrightarrow> same_home as cs"
  by (simp add: same_home_def)

lemma same_home_journal: "\<forall>(l, b)\<in>set ws. in_journal l \<Longrightarrow> same_home (apply_writes ws bs) bs"
  by (auto simp: same_home_def intro!: apply_writes_other)

lemma same_home_apply:
  assumes "same_home bs cs"
  shows "same_home (apply_writes ws bs) (apply_writes ws cs)"
  using assms by (auto simp: same_home_def apply_writes_nth split: option.split)

lemma in_journal_start [simp]: "in_journal (Suc 0)"
  by (simp add: in_journal_def)

lemma same_home_update: "in_journal l \<Longrightarrow> same_home bs cs \<Longrightarrow> same_home (bs[l := b]) cs"
  by (auto simp: same_home_def intro: nth_list_update_neq [THEN trans])

lemma journal_empty_cleared: "1 < length bs \<Longrightarrow> journal_empty (bs[Suc 0 := enc_header zero_header])"
  by (simp add: journal_empty_def zero_header_def [symmetric])
    (simp add: zero_header_def M16_J_EMPTY_def)

lemma map_fst_record_writes: "map fst (record_writes tx) = [2..<2 + length tx * 2]"
proof -
  have "concat (map (\<lambda>i. [2 + i * 2, 3 + i * 2]) [0..<n]) = [2..<2 + n * 2]" for n :: nat
    by (induction n) simp_all
  then show ?thesis by (simp add: record_writes_def map_concat comp_def)
qed

lemma record_writes_in_journal:
  "length tx \<le> 8 \<Longrightarrow> \<forall>(l, b)\<in>set (record_writes tx). in_journal l \<and> l \<noteq> 1"
proof -
  assume "length tx \<le> 8"
  have "l \<in> {2..<2 + length tx * 2}" if "(l, b) \<in> set (record_writes tx)" for l b
  proof -
    have "l \<in> set (map fst (record_writes tx))" using that by force
    then show ?thesis by (simp only: map_fst_record_writes set_upt)
  qed
  with \<open>length tx \<le> 8\<close> show ?thesis by (fastforce simp: in_journal_def)
qed

lemma apply_writes_distinct:
  "distinct (map fst ws) \<Longrightarrow> (l, b) \<in> set ws \<Longrightarrow> l < length bs \<Longrightarrow> apply_writes ws bs ! l = b"
  by (simp add: apply_writes_nth map_of_is_SomeI rev_map [symmetric])

lemma record_writes_holds:
  assumes "length tx \<le> 8" "length bs = 128"
  shows "journal_holds tx seq (apply_writes (clear_write # record_writes tx @ [commit_write tx seq]) bs)"
proof -
  let ?bs = "apply_writes (record_writes tx) (bs[1 := enc_header zero_header])"
  have eq: "apply_writes (clear_write # record_writes tx @ [commit_write tx seq]) bs
      = ?bs[1 := enc_header (commit_header tx seq)]"
    by (simp add: clear_write_def commit_write_def)
  have "?bs ! (2 + i * 2) = enc_desc (commit_desc (tx ! i)) \<and> ?bs ! (3 + i * 2) = payload (tx ! i)"
    if "i < length tx" for i
  proof -
    have "distinct (map fst (record_writes tx))" by (simp add: map_fst_record_writes)
    moreover have "(2 + i * 2, enc_desc (commit_desc (tx ! i))) \<in> set (record_writes tx)"
      "(3 + i * 2, payload (tx ! i)) \<in> set (record_writes tx)"
      using that by (auto simp: record_writes_def)
    ultimately show ?thesis
      using that assms by (intro conjI apply_writes_distinct) auto
  qed
  then show ?thesis
    using assms unfolding eq journal_holds_def by (simp add: numeral_2_eq_2 numeral_3_eq_3)
qed

text \<open>After the journal was cleared and some records were written, and after the last write of a commit.\<close>

lemma clear_prefix:
  assumes "length tx \<le> 8" "length bs = 128"
  shows "journal_empty (apply_writes (clear_write # take m (record_writes tx)) bs)"
    "same_home (apply_writes (clear_write # take m (record_writes tx)) bs) bs"
proof -
  let ?bs = "apply_writes (clear_write # take m (record_writes tx)) bs"
  have cw: "clear_write = (1, enc_header zero_header)" by (simp add: clear_write_def)
  have inj: "\<forall>(l, b)\<in>set (take m (record_writes tx)). in_journal l \<and> l \<noteq> 1"
    using record_writes_in_journal [OF assms(1)] set_take_subset [of m "record_writes tx"] by blast
  have "?bs ! 1 = enc_header zero_header"
    using inj assms(2) by (force simp: cw intro: apply_writes_other [THEN trans])
  then show "journal_empty ?bs" by (simp add: journal_empty_def) (simp add: zero_header_def M16_J_EMPTY_def)
  show "same_home ?bs bs" using inj by (intro same_home_journal) (auto simp: cw)
qed

lemma whole_commit:
  assumes "same_home cs bs" "length cs = 128"
  shows "journal_empty (apply_writes (ws @ [clear_write]) cs)"
    "same_home (apply_writes (ws @ [clear_write]) cs) (apply_writes ws bs)"
proof -
  have b: "apply_writes (ws @ [clear_write]) cs = (apply_writes ws cs)[1 := enc_header zero_header]" by (simp add: clear_write_def)
  show "same_home (apply_writes (ws @ [clear_write]) cs) (apply_writes ws bs)"
    unfolding b by (intro same_home_update same_home_apply assms(1)) (simp add: in_journal_def)
  show "journal_empty (apply_writes (ws @ [clear_write]) cs)" unfolding b using assms(2) by (simp add: journal_empty_cleared)
qed

text \<open>The four kinds of state a commit can leave behind.\<close>

lemma commit_prefix_cases:
  assumes "wf_tx tx" "length bs = 128" "journal_empty bs" "k \<le> length (commit_writes tx seq stop)"
  defines "bs' \<equiv> apply_writes (take k (commit_writes tx seq stop)) bs"
  obtains (old) "journal_empty bs'" "same_home bs' bs" "k < length (commit_writes tx seq stop)"
    | (logged) cs j where "journal_holds tx seq cs" "same_home cs bs" "length cs = 128"
        "bs' = apply_writes (take j (home_writes tx)) cs" "stop \<or> k < length (commit_writes tx seq stop)"
    | (finished) "journal_empty bs'" "same_home bs' (apply_writes (home_writes tx) bs)"
        "k = length (commit_writes tx seq stop)"
proof -
  let ?R = "record_writes tx" and ?H = "home_writes tx"
  let ?pre = "clear_write # ?R @ [commit_write tx seq]"
  let ?tl = "if stop then [] else ?H @ [clear_write]"
  note n8 = wf_tx_length [OF assms(1)]
  have ws: "commit_writes tx seq stop = ?pre @ ?tl" by (simp add: commit_writes_def)
  have cw: "clear_write = (1, enc_header zero_header)" by (simp add: clear_write_def)
  let ?cs = "apply_writes ?pre bs"
  have cs: "journal_holds tx seq ?cs" "same_home ?cs bs" "length ?cs = 128"
    using record_writes_holds [OF n8 assms(2)] record_writes_in_journal [OF n8] assms(2)
      same_home_journal [of ?pre bs]
    by (auto simp: cw commit_write_def case_prod_beta)
  consider (a) "k = 0" | (b) "0 < k" "k \<le> length ?R + 1" | (c) j where "k = length ?R + 2 + j"
    by (metis add.assoc add_Suc_right leI le_Suc_ex less_one one_add_one plus_1_eq_Suc add.commute Suc_leI not_gr_zero)
  then show thesis
  proof cases
    case a
    then show ?thesis using old assms(3) by (simp add: bs'_def commit_writes_def)
  next
    case b
    then obtain m where m: "k = Suc m" "m \<le> length ?R" by (cases k) auto
    have tk: "take k (commit_writes tx seq stop) = clear_write # take m ?R"
      using m by (simp add: commit_writes_def)
    show ?thesis using old clear_prefix [OF n8 assms(2), of m] m unfolding bs'_def tk by (simp add: commit_writes_def)
  next
    case c
    then have bs': "bs' = apply_writes (take j ?tl) ?cs" by (simp add: bs'_def ws)
    show ?thesis
    proof (cases "stop \<or> j \<le> length ?H")
      case True
      then have "take j ?tl = take (if stop then 0 else j) ?H" by auto
      moreover have "stop \<or> k < length (commit_writes tx seq stop)" using True c ws by auto
      ultimately show ?thesis using logged cs bs' by metis
    next
      case False
      then obtain m where "j = Suc (length ?H + m)" "\<not> stop" using less_imp_Suc_add by force
      then have j: "take j ?tl = ?H @ [clear_write]" by simp
      have "k = length (commit_writes tx seq stop)" using assms(4) c False ws by simp
      then show ?thesis using finished whole_commit [OF cs(2,3), of ?H] by (simp only: bs' j)
    qed
  qed
qed


text \<open>Recovery of what a commit left behind, and of a recovery that was itself cut off.\<close>

lemma recover_logged:
  assumes "journal_holds tx seq cs" "wf_tx tx" "m16_dev_ok dev" "fail_after dev < 0"
    and "blocks dev = apply_writes (take j (home_writes tx)) cs" "length cs = 128"
  shows "m16_journal_recover dev = (Inr (), wrote dev (home_writes tx @ [clear_write]))"
    and "blocks (wrote dev (home_writes tx @ [clear_write]))
      = (apply_writes (home_writes tx) cs)[1 := enc_header zero_header]"
proof -
  have hw: "\<forall>(l, b)\<in>set (home_writes tx). l < 128 \<and> \<not> in_journal l"
    using home_writes_wf [OF assms(2)] by auto
  then have "journal_holds tx seq (blocks dev)"
    unfolding assms(5) using assms(1) wf_tx_length [OF assms(2)] set_take_subset [of j "home_writes tx"]
    by (intro journal_holds_apply) (auto dest: in_set_takeD)
  then show "m16_journal_recover dev = (Inr (), wrote dev (home_writes tx @ [clear_write]))"
    using recover_committed [OF _ assms(2,3)] hw assms(3,4)
    by (simp add: write_all_ok clear_write_def case_prod_beta)
  show "blocks (wrote dev (home_writes tx @ [clear_write]))
      = (apply_writes (home_writes tx) cs)[1 := enc_header zero_header]"
    using assms(5) by (simp add: clear_write_def apply_writes_prefix_absorb)
qed

lemma dev_ok_home_clear:
  "wf_tx tx \<Longrightarrow> m16_dev_ok dev \<Longrightarrow> m16_dev_ok (wrote dev (home_writes tx @ [clear_write]))"
  using home_writes_wf by (intro dev_ok_wrote) (auto simp: clear_write_def)

lemma commit_writes_valid:
  assumes "wf_tx tx"
  shows "\<forall>(l, b)\<in>set (commit_writes tx seq stop). l < 128 \<and> length b = M16_BLOCK_SIZE"
proof -
  have "l < 128 \<and> length b = 512" if "(l, b) \<in> set (record_writes tx)" for l b
  proof
    show "length b = 512" using that wf_txD(1) [OF assms] by (auto simp: record_writes_def)
    show "l < 128"
      using bspec [OF record_writes_in_journal [OF wf_tx_length [OF assms]] that]
      by (simp add: in_journal_def)
  qed
  moreover have "l < 128 \<and> length b = 512" if "(l, b) \<in> set (home_writes tx)" for l b
    using bspec [OF home_writes_wf [OF assms] that] by simp
  ultimately show ?thesis
    by (auto simp: commit_writes_def clear_write_def commit_write_def)
qed

lemma commit_run:
  assumes "wf_tx tx" "m16_dev_ok dev"
  obtains k where "k \<le> length (commit_writes tx seq stop)"
    "snd (m16_journal_commit tx seq stop dev) = wrote dev (take k (commit_writes tx seq stop))"
    "fst (m16_journal_commit tx seq stop dev) = Inr () \<longleftrightarrow> k = length (commit_writes tx seq stop)"
    "m16_dev_ok (snd (m16_journal_commit tx seq stop dev))"
proof -
  let ?ws = "commit_writes tx seq stop"
  have eq: "m16_journal_commit tx seq stop = m16_write_all ?ws"
    using commit_as_writes wf_tx_length [OF assms(1)] by simp
  note v = commit_writes_valid [OF assms(1), of seq stop]
  from v assms(2) obtain k where k: "k \<le> length ?ws" "snd (m16_write_all ?ws dev) = wrote dev (take k ?ws)"
      "fst (m16_write_all ?ws dev) = Inr () \<longleftrightarrow> k = length ?ws"
    by (elim write_all_prefix [rotated]) auto
  moreover have "m16_dev_ok (wrote dev (take k ?ws))"
    using v assms(2) by (intro dev_ok_wrote) (auto dest: in_set_takeD)
  ultimately show ?thesis using that eq by metis
qed

text \<open>
  The outcome of a commit followed by a power cycle and recovery, over every position at which
  the injected fault may strike. The disk is recovered to the old or to the new home contents; to
  the new ones if the commit reported success.
\<close>

lemma commit_crash_recover:
  assumes "wf_tx tx" "m16_dev_ok dev" "journal_empty (blocks dev)"
    and "m16_journal_commit tx seq stop dev = (r, dev1)"
  obtains dev2 where "m16_journal_recover (m16_power_cycle dev1) = (Inr (), dev2)" "m16_dev_ok dev2"
    "journal_empty (blocks dev2)" "fail_after dev2 < 0"
    "same_home (blocks dev2) (apply_writes (home_writes tx) (blocks dev)) \<or>
     r \<noteq> Inr () \<and> same_home (blocks dev2) (blocks dev)"
proof -
  let ?ws = "commit_writes tx seq stop"
  obtain k where k: "k \<le> length ?ws" "dev1 = wrote dev (take k ?ws)" "r = Inr () \<longleftrightarrow> k = length ?ws"
      "m16_dev_ok dev1"
    using commit_run [OF assms(1,2), of seq stop] assms(4) by auto
  have len: "length (blocks dev) = 128" using assms(2) by (simp add: m16_dev_ok_def)
  let ?p = "m16_power_cycle dev1"
  from assms(1) len assms(3) k(1) show thesis
  proof (cases rule: commit_prefix_cases)
    case old
    then show ?thesis using that [of ?p] k recover_empty [of ?p] by simp
  next
    case (logged cs j)
    let ?d = "wrote ?p (home_writes tx @ [clear_write])"
    have b: "blocks ?p = apply_writes (take j (home_writes tx)) cs" using logged k by simp
    note rec = recover_logged [OF logged(1) assms(1) _ _ b logged(3)]
    have "same_home (blocks ?d) (apply_writes (home_writes tx) (blocks dev))"
      using rec(2) k(4) logged(2) by (simp add: same_home_update same_home_apply)
    then show ?thesis
      using that [of ?d] rec k(4) logged(3) dev_ok_home_clear [OF assms(1), of ?p]
      by (simp add: journal_empty_cleared del: wrote_simps(1))
  next
    case finished
    then show ?thesis using that [of ?p] k recover_empty [of ?p] by simp
  qed
qed


text \<open>
  An interrupted recovery: whatever prefix of the replay was written, the journal still holds the
  transaction or has been cleared after all of it reached the home blocks.
\<close>

lemma recover_interrupted:
  assumes "journal_holds tx seq (blocks dev)" "wf_tx tx" "m16_dev_ok dev"
    and "m16_journal_recover dev = (r, dev1)"
  obtains dev2 where "m16_journal_recover (m16_power_cycle dev1) = (Inr (), dev2)"
    "blocks dev2 = (apply_writes (home_writes tx) (blocks dev))[1 := enc_header zero_header]"
proof -
  let ?ws = "home_writes tx @ [clear_write]"
  have v: "\<forall>(l, b)\<in>set ?ws. m16_valid_lba dev l"
    using home_writes_wf [OF assms(2)] assms(3) by (auto simp: clear_write_def)
  obtain k where k: "k \<le> length ?ws" "dev1 = wrote dev (take k ?ws)"
    using write_all_prefix [OF v] recover_committed [OF assms(1-3)] assms(4) by (metis snd_conv)
  have ok: "m16_dev_ok dev1"
    unfolding k(2) using home_writes_wf [OF assms(2)] assms(3)
    by (intro dev_ok_wrote) (auto dest: in_set_takeD simp: clear_write_def)
  have len: "length (blocks dev) = 128" using assms(3) by (simp add: m16_dev_ok_def)
  let ?p = "m16_power_cycle dev1"
  show thesis
  proof (cases "k \<le> length (home_writes tx)")
    case True
    then have "blocks ?p = apply_writes (take k (home_writes tx)) (blocks dev)" using k by simp
    from recover_logged [OF assms(1,2) _ _ this len] ok show ?thesis using that by simp
  next
    case False
    then have "blocks ?p = (apply_writes (home_writes tx) (blocks dev))[1 := enc_header zero_header]"
      using k by (simp add: clear_write_def)
    then show ?thesis
      using that [of ?p] recover_empty [of ?p] ok len by (simp add: journal_empty_cleared)
  qed
qed

text \<open>A commit that ran to its end has the new home contents in place and the journal empty.\<close>

lemma commit_success:
  assumes "wf_tx tx" "m16_dev_ok dev" "journal_empty (blocks dev)"
    and "m16_journal_commit tx seq False dev = (Inr (), dev1)"
  shows "m16_dev_ok dev1 \<and> journal_empty (blocks dev1)
    \<and> same_home (blocks dev1) (apply_writes (home_writes tx) (blocks dev))"
proof -
  let ?ws = "commit_writes tx seq False"
  obtain k where k: "k \<le> length ?ws" "dev1 = wrote dev (take k ?ws)" "k = length ?ws" "m16_dev_ok dev1"
    using commit_run [OF assms(1,2), of seq False] assms(4) by auto
  have "length (blocks dev) = 128" using assms(2) by (simp add: m16_dev_ok_def)
  from assms(1) this assms(3) k(1) show ?thesis
    by (cases rule: commit_prefix_cases) (use k in simp_all)
qed

text \<open>Without an injected fault a commit always runs to its end.\<close>

lemma commit_no_fault:
  assumes "wf_tx tx" "m16_dev_ok dev" "fail_after dev < 0"
  shows "m16_journal_commit tx seq stop dev = (Inr (), wrote dev (commit_writes tx seq stop))"
proof -
  have "\<forall>(l, b)\<in>set (commit_writes tx seq stop). m16_valid_lba dev l"
    using commit_writes_valid [OF assms(1), of seq stop] assms(2) by auto
  then show ?thesis
    using write_all_ok assms(3) commit_as_writes wf_tx_length [OF assms(1)] by simp
qed

section \<open>Properties of the journal\<close>

text \<open>
  A freshly initialised device, and a transaction that replaces the block bitmap: the concrete
  instance used in the witnesses.
\<close>

definition sample_tx :: m16_tx where
  "sample_tx = [\<lparr>target_lba = 19, payload = replicate 512 255\<rparr>]"

lemma sample_tx_wf: "wf_tx sample_tx"
  by (simp add: sample_tx_def wf_tx_def in_journal_def)

lemma dev_init_ok: "m16_dev_ok m16_dev_init"
  by (simp add: m16_dev_init_def m16_dev_ok_def list_all_iff)

lemma zero_block_header: "enc_header zero_header = replicate 512 0"
  by (simp add: enc_header_def zero_header_def numeral_eq_Suc)

lemma dev_init_journal_empty: "journal_empty (blocks m16_dev_init)"
proof -
  have "blocks m16_dev_init ! 1 = enc_header zero_header"
    by (simp add: m16_dev_init_def zero_block_header)
  then show ?thesis
    by (simp add: journal_empty_def) (simp add: zero_header_def M16_J_EMPTY_def)
qed

text \<open>
  C2. Crash atomicity of \<open>m16_journal_commit\<close>: let the device fail at any block write (any value
  of \<open>fail_after\<close>, on any disk with an empty journal) and let \<open>tx\<close> be a transaction of at most eight
  records with targets outside the journal. After a power cycle \<open>m16_journal_recover\<close> succeeds,
  leaves the journal empty, and every block outside the journal has its old contents, or every
  one of them has its new contents; if the commit reported success it is the new contents.
\<close>

theorem journal_commit_crash_atomic:
  assumes "wf_tx tx" "m16_dev_ok dev" "journal_empty (blocks dev)"
    and "m16_journal_commit tx seq stop dev = (r, dev1)"
    and "m16_journal_recover (m16_power_cycle dev1) = (r2, dev2)"
  shows "r2 = Inr () \<and> journal_empty (blocks dev2) \<and> m16_dev_ok dev2 \<and>
    (same_home (blocks dev2) (apply_writes (home_writes tx) (blocks dev)) \<or>
     r \<noteq> Inr () \<and> same_home (blocks dev2) (blocks dev))"
  using commit_crash_recover [OF assms(1-4)] assms(5) by force

theorem journal_commit_crash_atomic_witness:
  "\<exists>r dev1 r2 dev2. m16_journal_commit sample_tx 7 False (m16_dev_init\<lparr>fail_after := 3\<rparr>) = (r, dev1)
     \<and> m16_journal_recover (m16_power_cycle dev1) = (r2, dev2) \<and> r2 = Inr ()"
proof -
  let ?d = "m16_dev_init\<lparr>fail_after := 3\<rparr>"
  have ok: "m16_dev_ok ?d" "journal_empty (blocks ?d)"
    using dev_init_ok dev_init_journal_empty by (simp_all add: m16_dev_ok_def)
  obtain r dev1 where c: "m16_journal_commit sample_tx 7 False ?d = (r, dev1)" by force
  obtain r2 dev2 where d: "m16_journal_recover (m16_power_cycle dev1) = (r2, dev2)" by force
  show ?thesis
    using c d journal_commit_crash_atomic [OF sample_tx_wf ok c d] by blast
qed

text \<open>
  C3. Recovery is idempotent under crashes: if the journal holds a committed transaction and
  recovery is itself cut off by a fault at any write, a second recovery after the power cycle
  succeeds and brings every home block of the transaction to its logged contents.
\<close>

theorem journal_recover_restartable:
  assumes "journal_holds tx seq (blocks dev)" "wf_tx tx" "m16_dev_ok dev"
    and "m16_journal_recover dev = (r, dev1)"
    and "m16_journal_recover (m16_power_cycle dev1) = (r2, dev2)"
  shows "r2 = Inr () \<and>
    blocks dev2 = (apply_writes (home_writes tx) (blocks dev))[M16_JOURNAL_START := enc_header zero_header]"
  using recover_interrupted [OF assms(1-4)] assms(5) by force

lemma sample_logged:
  "journal_holds sample_tx 7 (blocks (wrote m16_dev_init (commit_writes sample_tx 7 True)))"
  using record_writes_holds [of sample_tx "blocks m16_dev_init" 7] dev_init_ok
  by (simp add: m16_dev_ok_def commit_writes_def sample_tx_def)

theorem journal_recover_restartable_witness:
  "\<exists>dev1 r dev2. m16_journal_recover ((wrote m16_dev_init (commit_writes sample_tx 7 True))\<lparr>fail_after := 1\<rparr>) = (r, dev1)
     \<and> m16_journal_recover (m16_power_cycle dev1) = (Inr (), dev2)
     \<and> blocks dev2 = (apply_writes (home_writes sample_tx)
          (blocks (wrote m16_dev_init (commit_writes sample_tx 7 True))))[M16_JOURNAL_START := enc_header zero_header]"
proof -
  let ?w = "wrote m16_dev_init (commit_writes sample_tx 7 True)"
  let ?d = "?w\<lparr>fail_after := 1\<rparr>"
  have w: "m16_dev_ok ?w"
    using commit_writes_valid [OF sample_tx_wf, of 7 True] dev_init_ok by (intro dev_ok_wrote) auto
  then have ok: "m16_dev_ok ?d" by (simp add: m16_dev_ok_def)
  have h: "journal_holds sample_tx 7 (blocks ?d)" using sample_logged by simp
  obtain r dev1 where c: "m16_journal_recover ?d = (r, dev1)" by force
  obtain r2 dev2 where d: "m16_journal_recover (m16_power_cycle dev1) = (r2, dev2)" by force
  show ?thesis
    using c d journal_recover_restartable [OF h sample_tx_wf ok c d] by auto
qed

end
