(* ===== verification/Journal_Fs.thy ===== *)
theory Journal_Fs
  imports Journal
begin

text \<open>
  The MCSFS1J file system on top of the journal (\<open>kernel/fs/mcsfs1j/m16_mcsfs_journal.c\<close>, second
  half): super block, inode table, root directory, bitmaps, and the operations format, mount,
  write_file, read_file and fsck. The abstract view is a finite map from names to file contents;
  the theorems relate every operation to it, on success, on error and across a crash.
\<close>

section \<open>On-disk structures\<close>

record m16_super =
  sb_magic :: u64
  sb_version :: u32
  sb_block_size :: u32
  sb_total_blocks :: u32
  sb_journal_start :: u32
  sb_journal_blocks :: u32
  sb_inode_bitmap_lba :: u32
  sb_block_bitmap_lba :: u32
  sb_inode_table_lba :: u32
  sb_inode_table_blocks :: u32
  sb_root_dir_lba :: u32
  sb_data_start_lba :: u32
  sb_clean_generation :: u32
  sb_reserved :: bytes

record m16_inode =
  in_used :: u32
  in_kind :: u32
  in_size :: u32
  in_direct :: "u32 list"
  in_reserved :: bytes

record m16_dirent =
  de_used :: u32
  de_ino :: u32
  de_name :: bytes

definition enc_super :: "m16_super \<Rightarrow> bytes" where
  "enc_super sb = enc64 (sb_magic sb) @ enc32 (sb_version sb) @ enc32 (sb_block_size sb)
     @ enc32 (sb_total_blocks sb) @ enc32 (sb_journal_start sb) @ enc32 (sb_journal_blocks sb)
     @ enc32 (sb_inode_bitmap_lba sb) @ enc32 (sb_block_bitmap_lba sb) @ enc32 (sb_inode_table_lba sb)
     @ enc32 (sb_inode_table_blocks sb) @ enc32 (sb_root_dir_lba sb) @ enc32 (sb_data_start_lba sb)
     @ enc32 (sb_clean_generation sb) @ sb_reserved sb"

definition dec_super :: "bytes \<Rightarrow> m16_super" where
  "dec_super bs = \<lparr>sb_magic = get64 0 bs, sb_version = get32 8 bs, sb_block_size = get32 12 bs,
     sb_total_blocks = get32 16 bs, sb_journal_start = get32 20 bs, sb_journal_blocks = get32 24 bs,
     sb_inode_bitmap_lba = get32 28 bs, sb_block_bitmap_lba = get32 32 bs,
     sb_inode_table_lba = get32 36 bs, sb_inode_table_blocks = get32 40 bs,
     sb_root_dir_lba = get32 44 bs, sb_data_start_lba = get32 48 bs,
     sb_clean_generation = get32 52 bs, sb_reserved = drop 56 bs\<rparr>"

definition enc_inode :: "m16_inode \<Rightarrow> bytes" where
  "enc_inode n = enc32 (in_used n) @ enc32 (in_kind n) @ enc32 (in_size n)
     @ enc_array enc32 (in_direct n) @ in_reserved n"

definition dec_inode :: "bytes \<Rightarrow> m16_inode" where
  "dec_inode bs = \<lparr>in_used = get32 0 bs, in_kind = get32 4 bs, in_size = get32 8 bs,
     in_direct = dec_array 4 le_dec M16_DIRECT_BLOCKS (field 12 16 bs), in_reserved = drop 28 bs\<rparr>"

definition enc_dirent :: "m16_dirent \<Rightarrow> bytes" where
  "enc_dirent d = enc32 (de_used d) @ enc32 (de_ino d) @ de_name d"

definition dec_dirent :: "bytes \<Rightarrow> m16_dirent" where
  "dec_dirent bs = \<lparr>de_used = get32 0 bs, de_ino = get32 4 bs, de_name = drop 8 bs\<rparr>"

text \<open>The cast \<open>(struct m16_dirent *)dir_block\<close>: twelve entries of 40 bytes, 32 bytes unused.\<close>

definition M16_DIRENTS :: nat where [simp, layout]: "M16_DIRENTS = M16_BLOCK_SIZE div 40"

definition dec_dir :: "bytes \<Rightarrow> m16_dirent list" where
  "dec_dir bs = dec_array 40 dec_dirent M16_DIRENTS bs"

definition enc_dir :: "bytes \<Rightarrow> m16_dirent list \<Rightarrow> bytes" where
  "enc_dir old dir = enc_array enc_dirent dir @ drop (M16_DIRENTS * 40) old"

section \<open>Helpers\<close>

definition m16_bitmap_set :: "bytes \<Rightarrow> nat \<Rightarrow> bytes" where
  "m16_bitmap_set bm b = bm[b div 8 := (bm ! (b div 8)) OR push_bit (b mod 8) 1]"

definition m16_bitmap_get :: "bytes \<Rightarrow> nat \<Rightarrow> bool" where
  "m16_bitmap_get bm b \<longleftrightarrow> (bm ! (b div 8)) AND push_bit (b mod 8) 1 \<noteq> 0"

definition m16_streq :: "bytes \<Rightarrow> bytes \<Rightarrow> bool" where
  "m16_streq a b =
     (case List.find (\<lambda>i. a ! i \<noteq> cstr_at b i \<or> a ! i = 0) [0..<M16_MAX_NAME] of
        None \<Rightarrow> True
      | Some i \<Rightarrow> \<not> a ! i \<noteq> cstr_at b i)"

definition m16_load_inode_table :: "m16_inode list m16_prog" where
  "m16_load_inode_table =
     pbind (pmapM (\<lambda>i. m16_read_block (M16_INODE_TABLE_LBA + i)) [0..<M16_INODE_TABLE_BLOCKS])
       (\<lambda>raw. pret (dec_array 128 dec_inode M16_MAX_INODES (concat raw)))"

definition m16_store_inode_table :: "m16_tx \<Rightarrow> m16_inode list \<Rightarrow> m16_err + m16_tx" where
  "m16_store_inode_table tx inodes =
     (if M16_JOURNAL_MAX_RECORDS < length tx + M16_INODE_TABLE_BLOCKS then Inl M16_E_NOSPC
      else let raw = enc_array enc_inode inodes in
        Inr (tx @ map (\<lambda>i. \<lparr>target_lba = of_nat (M16_INODE_TABLE_LBA + i),
                              payload = field (i * M16_BLOCK_SIZE) M16_BLOCK_SIZE raw\<rparr>)
                     [0..<M16_INODE_TABLE_BLOCKS]))"

definition m16_find_free_inode :: "bytes \<Rightarrow> m16_err + nat" where
  "m16_find_free_inode ib =
     (case List.find (\<lambda>i. \<not> m16_bitmap_get ib i) [1..<M16_MAX_INODES] of
        Some i \<Rightarrow> Inr i | None \<Rightarrow> Inl M16_E_NOSPC)"

definition m16_find_free_block :: "bytes \<Rightarrow> m16_err + nat" where
  "m16_find_free_block bb =
     (case List.find (\<lambda>i. \<not> m16_bitmap_get bb i) [M16_DATA_START_LBA..<M16_MAX_BLOCKS] of
        Some i \<Rightarrow> Inr i | None \<Rightarrow> Inl M16_E_NOSPC)"

definition m16_find_dirent :: "m16_dirent list \<Rightarrow> bytes \<Rightarrow> m16_err + nat" where
  "m16_find_dirent dir name =
     (case List.find (\<lambda>i. de_used (dir ! i) \<noteq> 0 \<and> m16_streq (de_name (dir ! i)) name) [0..<M16_DIRENTS] of
        Some i \<Rightarrow> Inr i | None \<Rightarrow> Inl M16_E_NOENT)"

definition m16_find_free_dirent :: "m16_dirent list \<Rightarrow> m16_err + nat" where
  "m16_find_free_dirent dir =
     (case List.find (\<lambda>i. de_used (dir ! i) = 0) [0..<M16_DIRENTS] of
        Some i \<Rightarrow> Inr i | None \<Rightarrow> Inl M16_E_NOSPC)"

section \<open>Format and mount\<close>

definition format_super :: "u32 \<Rightarrow> m16_super" where
  "format_super tb = \<lparr>sb_magic = M16_MAGIC, sb_version = M16_VERSION,
     sb_block_size = of_nat M16_BLOCK_SIZE, sb_total_blocks = tb,
     sb_journal_start = of_nat M16_JOURNAL_START, sb_journal_blocks = of_nat M16_JOURNAL_BLOCKS,
     sb_inode_bitmap_lba = of_nat M16_INODE_BITMAP_LBA, sb_block_bitmap_lba = of_nat M16_BLOCK_BITMAP_LBA,
     sb_inode_table_lba = of_nat M16_INODE_TABLE_LBA,
     sb_inode_table_blocks = of_nat M16_INODE_TABLE_BLOCKS, sb_root_dir_lba = of_nat M16_ROOT_DIR_LBA,
     sb_data_start_lba = of_nat M16_DATA_START_LBA, sb_clean_generation = 1,
     sb_reserved = replicate 456 0\<rparr>"

definition zero_inode :: m16_inode where
  "zero_inode = \<lparr>in_used = 0, in_kind = 0, in_size = 0, in_direct = [0, 0, 0, 0],
     in_reserved = replicate 100 0\<rparr>"

definition format_inodes :: "m16_inode list" where
  "format_inodes = (replicate M16_MAX_INODES zero_inode)[0 :=
     zero_inode\<lparr>in_used := 1, in_kind := 2, in_size := 0,
                in_direct := (in_direct zero_inode)[0 := of_nat M16_ROOT_DIR_LBA]\<rparr>]"

definition m16_format :: "unit m16_prog" where
  "m16_format =
     pthen (\<lambda>dev. pret () (dev\<lparr>blocks := replicate M16_MAX_BLOCKS (replicate M16_BLOCK_SIZE 0)\<rparr>))
     (pthen (\<lambda>dev. m16_write_block 0 (enc_super (format_super (total_blocks dev))) dev)
     (let zero = replicate M16_BLOCK_SIZE 0;
          ib = m16_bitmap_set zero 0;
          bb = fold (\<lambda>i bm. m16_bitmap_set bm i) [0..<M16_DATA_START_LBA] zero;
          raw = enc_array enc_inode format_inodes
      in pthen (m16_write_block M16_INODE_BITMAP_LBA ib)
         (pthen (m16_write_block M16_BLOCK_BITMAP_LBA bb)
         (pthen (pfor [0..<M16_INODE_TABLE_BLOCKS] (\<lambda>i.
            m16_write_block (M16_INODE_TABLE_LBA + i) (field (i * M16_BLOCK_SIZE) M16_BLOCK_SIZE raw)))
         (pthen (m16_write_block M16_ROOT_DIR_LBA zero)
         m16_journal_clear)))))"

definition m16_mount :: "m16_super m16_prog" where
  "m16_mount =
     pthen m16_journal_recover
     (pbind (m16_read_block 0) (\<lambda>raw. let sb = dec_super raw in
      if sb_magic sb \<noteq> M16_MAGIC \<or> sb_version sb \<noteq> M16_VERSION \<or> sb_block_size sb \<noteq> of_nat M16_BLOCK_SIZE
      then pfail M16_E_CORRUPT
      else if sb_data_start_lba sb \<noteq> of_nat M16_DATA_START_LBA \<or> sb_root_dir_lba sb \<noteq> of_nat M16_ROOT_DIR_LBA
      then pfail M16_E_CORRUPT
      else pret sb))"

section \<open>Write, read and check\<close>

text \<open>
  Pointer arguments that may be NULL are options; a buffer and its length are one byte list.
\<close>

definition m16_write_file_ex :: "bytes option \<Rightarrow> bytes option \<Rightarrow> bool \<Rightarrow> unit m16_prog" where
  "m16_write_file_ex name_ptr data_ptr stop_after_commit_record =
     (case (name_ptr, data_ptr) of (Some name, Some data) \<Rightarrow>
        let name_len = strlen_bounded name M16_MAX_NAME in
        pthen (pguard (\<not> (name_len = 0 \<or> M16_MAX_NAME \<le> name_len)) M16_E_TOOLONG)
        (pthen (pguard (length data \<le> M16_BLOCK_SIZE) M16_E_INVAL)
        (pbind m16_mount (\<lambda>sb.
        pbind (m16_read_block M16_INODE_BITMAP_LBA) (\<lambda>ib.
        pbind (m16_read_block M16_BLOCK_BITMAP_LBA) (\<lambda>bb.
        pbind m16_load_inode_table (\<lambda>inodes.
        pbind (m16_read_block M16_ROOT_DIR_LBA) (\<lambda>dir_block. let dir = dec_dir dir_block in
        pthen (pguard (case m16_find_dirent dir name of Inl _ \<Rightarrow> True | Inr _ \<Rightarrow> False) M16_E_EXISTS)
        (pbind (plift (m16_find_free_inode ib)) (\<lambda>ino.
        pbind (plift (m16_find_free_block bb)) (\<lambda>data_block.
        pbind (plift (m16_find_free_dirent dir)) (\<lambda>slot.
        let data_blk = data @ replicate (M16_BLOCK_SIZE - length data) 0;
            ib' = m16_bitmap_set ib ino;
            bb' = m16_bitmap_set bb data_block;
            inodes' = inodes[ino := (inodes ! ino)\<lparr>in_used := 1, in_kind := 1,
                        in_size := of_nat (length data),
                        in_direct := (in_direct (inodes ! ino))[0 := of_nat data_block]\<rparr>];
            dir' = dir[slot := \<lparr>de_used = 1, de_ino = of_nat ino,
                        de_name = take name_len name @ replicate (M16_MAX_NAME - name_len) 0\<rparr>]
        in
        pbind (plift (m16_tx_add [] M16_INODE_BITMAP_LBA ib')) (\<lambda>tx.
        pbind (plift (m16_tx_add tx M16_BLOCK_BITMAP_LBA bb')) (\<lambda>tx.
        pbind (plift (m16_store_inode_table tx inodes')) (\<lambda>tx.
        pthen (m16_journal_commit tx (sb_clean_generation sb + 1) False)
        (pbind (plift (m16_tx_add [] M16_ROOT_DIR_LBA (enc_dir dir_block dir'))) (\<lambda>tx.
        pbind (plift (m16_tx_add tx data_block data_blk)) (\<lambda>tx.
        m16_journal_commit tx (sb_clean_generation sb + 2) stop_after_commit_record)))))))))))))))))
      | _ \<Rightarrow> pfail M16_E_INVAL)"

definition m16_write_file :: "bytes option \<Rightarrow> bytes option \<Rightarrow> unit m16_prog" where
  "m16_write_file name data = m16_write_file_ex name data False"

text \<open>
  \<open>m16_read_file\<close> copies \<open>size\<close> bytes out of the 512-byte local buffer \<open>blk\<close>. A size beyond the
  buffer is a read outside it, made explicit as \<open>M16_FAULT\<close>.
\<close>

definition m16_read_file :: "bytes option \<Rightarrow> nat option \<Rightarrow> bytes m16_prog" where
  "m16_read_file name_ptr out_ptr =
     (case (name_ptr, out_ptr) of (Some name, Some out_cap) \<Rightarrow>
        pbind m16_mount (\<lambda>sb.
        pbind m16_load_inode_table (\<lambda>inodes.
        pbind (m16_read_block M16_ROOT_DIR_LBA) (\<lambda>dir_block. let dir = dec_dir dir_block in
        pbind (plift (m16_find_dirent dir name)) (\<lambda>slot.
        let ino = unat (de_ino (dir ! slot)) in
        pthen (pguard (\<not> (M16_MAX_INODES \<le> ino \<or> in_used (inodes ! ino) = 0 \<or> in_kind (inodes ! ino) \<noteq> 1))
                 M16_E_CORRUPT)
        (pthen (pcheck (\<lambda>dev. \<not> (out_cap < unat (in_size (inodes ! ino))
                             \<or> total_blocks dev \<le> in_direct (inodes ! ino) ! 0)) M16_E_INVAL)
        (pbind (m16_read_block (unat (in_direct (inodes ! ino) ! 0))) (\<lambda>blk.
        if length blk < unat (in_size (inodes ! ino)) then pfail M16_FAULT
        else pret (take (unat (in_size (inodes ! ino))) blk))))))))
      | _ \<Rightarrow> pfail M16_E_INVAL)"

definition fsck_dirent :: "u32 \<Rightarrow> bytes \<Rightarrow> bytes \<Rightarrow> m16_inode list \<Rightarrow> m16_dirent \<Rightarrow> bool" where
  "fsck_dirent tb ib bb inodes d \<longleftrightarrow>
     \<not> (M16_MAX_INODES \<le> unat (de_ino d) \<or> \<not> m16_bitmap_get ib (unat (de_ino d))) \<and>
     (let inode = inodes ! unat (de_ino d) in
      \<not> (in_used inode = 0 \<or> in_kind inode \<noteq> 1 \<or> M16_BLOCK_SIZE < unat (in_size inode)) \<and>
      \<not> (unat (in_direct inode ! 0) < M16_DATA_START_LBA \<or> tb \<le> in_direct inode ! 0
         \<or> \<not> m16_bitmap_get bb (unat (in_direct inode ! 0))))"

definition m16_fsck :: "unit m16_prog" where
  "m16_fsck =
     pbind m16_mount (\<lambda>sb.
     pbind (m16_read_block M16_INODE_BITMAP_LBA) (\<lambda>ib.
     pbind (m16_read_block M16_BLOCK_BITMAP_LBA) (\<lambda>bb.
     pbind m16_load_inode_table (\<lambda>inodes.
     pbind (m16_read_block M16_ROOT_DIR_LBA) (\<lambda>dir_block. let dir = dec_dir dir_block in
     pthen (pguard (m16_bitmap_get ib 0 \<and> in_used (inodes ! 0) = 1 \<and> in_kind (inodes ! 0) = 2
                    \<and> in_direct (inodes ! 0) ! 0 = of_nat M16_ROOT_DIR_LBA) M16_E_CORRUPT)
     (pthen (pfor [0..<M16_DATA_START_LBA] (\<lambda>b. pguard (m16_bitmap_get bb b) M16_E_CORRUPT))
     (pfor [0..<M16_DIRENTS] (\<lambda>i.
        if de_used (dir ! i) \<noteq> 0
        then pcheck (\<lambda>dev. fsck_dirent (total_blocks dev) ib bb inodes (dir ! i)) M16_E_CORRUPT
        else pret ()))))))))"


section \<open>Laws of the layout, the bitmaps and the names\<close>

definition super_fits :: "m16_super \<Rightarrow> bool" where
  "super_fits sb \<longleftrightarrow> length (sb_reserved sb) = 456"

definition inode_fits :: "m16_inode \<Rightarrow> bool" where
  "inode_fits n \<longleftrightarrow> length (in_direct n) = 4 \<and> length (in_reserved n) = 100"

definition dirent_fits :: "m16_dirent \<Rightarrow> bool" where
  "dirent_fits d \<longleftrightarrow> length (de_name d) = 32"

interpretation super_codec: fixed_codec 512 enc_super dec_super super_fits
  by unfold_locales (simp_all add: enc_super_def dec_super_def super_fits_def)

interpretation dirent_codec: fixed_codec 40 enc_dirent dec_dirent dirent_fits
  by unfold_locales (simp_all add: enc_dirent_def dec_dirent_def dirent_fits_def)

interpretation inode_codec: fixed_codec 128 enc_inode dec_inode inode_fits
proof unfold_locales
  show "inode_fits x \<Longrightarrow> length (enc_inode x) = 128" for x
    by (simp add: enc_inode_def inode_fits_def u32_codec.array_len list_all_iff)
  show "dec_inode (enc_inode x) = x" if "inode_fits x" for x
  proof -
    have len: "length (enc_array enc32 (in_direct x)) = 16"
      using that by (simp add: inode_fits_def u32_codec.array_len list_all_iff)
    have "dec_array 4 le_dec 4 (enc_array enc32 (in_direct x)) = in_direct x"
      using that u32_codec.dec_array_enc [of "in_direct x" 4 "[]"]
      by (simp add: inode_fits_def list_all_iff)
    then show ?thesis by (simp add: enc_inode_def dec_inode_def len)
  qed
  show "length bs = 128 \<Longrightarrow> inode_fits (dec_inode bs)" for bs
    by (simp add: inode_fits_def dec_inode_def)
  show "length bs = 128 \<Longrightarrow> enc_inode (dec_inode bs) = bs" for bs
    by (simp add: enc_inode_def dec_inode_def u32_codec.enc_array_dec)
qed

interpretation m16_bm: bit_array "\<lambda>i. i" m16_bitmap_get m16_bitmap_set
proof unfold_locales
  show "length (m16_bitmap_set bm i) = length bm" for bm i
    by (simp add: m16_bitmap_set_def)
  show "i < 8 * length bm \<Longrightarrow> m16_bitmap_get (m16_bitmap_set bm i) j = (j = i \<or> m16_bitmap_get bm j)" for i bm j
    using bitmap_byte_set [of i bm j] by (simp add: m16_bitmap_get_def m16_bitmap_set_def)
qed

text \<open>What a name denotes: its bytes before the first NUL, 32 at most.\<close>

definition m16_key :: "bytes \<Rightarrow> bytes" where
  "m16_key s = map (cstr_at s) [0..<strlen_bounded s M16_MAX_NAME]"

lemma length_m16_key: "length (m16_key s) = strlen_bounded s 32"
  by (simp add: m16_key_def)

lemma m16_streq_key:
  assumes "length a = 32"
  shows "m16_streq a b \<longleftrightarrow> m16_key a = m16_key b"
proof -
  have a: "i < 32 \<Longrightarrow> cstr_at a i = a ! i" for i using assms by (simp add: cstr_at_def)
  show ?thesis
  proof (cases "List.find (\<lambda>i. a ! i \<noteq> cstr_at b i \<or> a ! i = 0) [0..<32]")
    case None
    then have eq: "i < 32 \<Longrightarrow> a ! i = cstr_at b i" "i < 32 \<Longrightarrow> cstr_at b i \<noteq> 0" for i
      by (auto simp: find_upt_None_iff)
    have "strlen_bounded a 32 = 32" "strlen_bounded b 32 = 32"
      using a eq by (auto intro!: strlen_bounded_full)
    then have "m16_key a = m16_key b"
      using a eq by (simp add: m16_key_def)
    with None show ?thesis by (simp add: m16_streq_def)
  next
    case (Some i)
    note f = find_upt_SomeD [OF Some]
    have pre: "j < i \<Longrightarrow> cstr_at a j = cstr_at b j \<and> cstr_at b j \<noteq> 0" for j
      using f(2,4) a by fastforce
    have len: "x = i" if "x = strlen_bounded s 32" "cstr_at s i = 0" "\<And>j. j < i \<Longrightarrow> cstr_at s j \<noteq> 0" for s x
      using strlen_bounded_unique [of i 32 s] that f(2) by simp
    have longer: "i < strlen_bounded s 32" if "cstr_at s i \<noteq> 0" "\<And>j. j < i \<Longrightarrow> cstr_at s j \<noteq> 0" for s
      using that strlen_bounded_zero [of s 32] f(2) by (metis linorder_neqE_nat order.strict_trans)
    show ?thesis
    proof (cases "a ! i = cstr_at b i")
      case True
      then have "strlen_bounded a 32 = i" "strlen_bounded b 32 = i"
        using f(2,3) a pre len by auto
      then have "m16_key a = m16_key b" using pre by (simp add: m16_key_def)
      with True Some show ?thesis by (simp add: m16_streq_def)
    next
      case False
      have "m16_key a \<noteq> m16_key b"
      proof
        assume k: "m16_key a = m16_key b"
        then have l: "strlen_bounded a 32 = strlen_bounded b 32" using length_m16_key by metis
        have "i < strlen_bounded a 32 \<or> i < strlen_bounded b 32"
          using longer [of a] longer [of b] False a f(2) pre by fastforce
        then have "m16_key a ! i = a ! i" "m16_key b ! i = cstr_at b i"
          using l a f(2) by (simp_all add: m16_key_def)
        with k False show False by simp
      qed
      with False Some show ?thesis by (simp add: m16_streq_def)
    qed
  qed
qed

text \<open>The name field \<open>m16_write_file_ex\<close> stores denotes the name it was given.\<close>

lemma m16_key_stored:
  assumes "n = strlen_bounded s 32" "n < 32"
  shows "m16_key (take n s @ replicate (32 - n) 0) = m16_key s"
proof -
  let ?t = "take n s @ replicate (32 - n) (0 :: u8)"
  have n: "n \<le> length s" using assms strlen_bounded_le_length by simp
  have t: "cstr_at ?t i = (if i < n then cstr_at s i else 0)" for i
    using n by (auto simp: cstr_at_def nth_append)
  have nz: "i < n \<Longrightarrow> cstr_at s i \<noteq> 0" for i using assms(1) strlen_bounded_nonzero by simp
  have "strlen_bounded ?t 32 = n"
    by (rule strlen_bounded_unique [OF assms(2)]) (use nz in \<open>simp_all add: t\<close>)
  then have "m16_key ?t = map (cstr_at ?t) [0..<n]" by (simp only: m16_key_def M16_MAX_NAME_def)
  also have "\<dots> = map (cstr_at s) [0..<n]" by (simp add: t)
  finally show ?thesis using assms(1) by (simp only: m16_key_def M16_MAX_NAME_def)
qed


section \<open>The disk as the operations see it\<close>

definition disk_inodes :: "bytes list \<Rightarrow> m16_inode list" where
  "disk_inodes bs = dec_array 128 dec_inode M16_MAX_INODES
     (concat (map (\<lambda>i. bs ! (M16_INODE_TABLE_LBA + i)) [0..<M16_INODE_TABLE_BLOCKS]))"

definition disk_dir :: "bytes list \<Rightarrow> m16_dirent list" where
  "disk_dir bs = dec_dir (bs ! M16_ROOT_DIR_LBA)"

definition super_ok :: "m16_super \<Rightarrow> bool" where
  "super_ok sb \<longleftrightarrow> sb_magic sb = M16_MAGIC \<and> sb_version sb = M16_VERSION
     \<and> sb_block_size sb = of_nat M16_BLOCK_SIZE \<and> sb_data_start_lba sb = of_nat M16_DATA_START_LBA
     \<and> sb_root_dir_lba sb = of_nat M16_ROOT_DIR_LBA"

definition fsck_ok :: "bytes list \<Rightarrow> bool" where
  "fsck_ok bs \<longleftrightarrow>
     m16_bitmap_get (bs ! M16_INODE_BITMAP_LBA) 0 \<and> in_used (disk_inodes bs ! 0) = 1
     \<and> in_kind (disk_inodes bs ! 0) = 2 \<and> in_direct (disk_inodes bs ! 0) ! 0 = of_nat M16_ROOT_DIR_LBA
     \<and> (\<forall>b < M16_DATA_START_LBA. m16_bitmap_get (bs ! M16_BLOCK_BITMAP_LBA) b)
     \<and> (\<forall>i < M16_DIRENTS. de_used (disk_dir bs ! i) \<noteq> 0 \<longrightarrow>
          fsck_dirent (of_nat M16_MAX_BLOCKS) (bs ! M16_INODE_BITMAP_LBA) (bs ! M16_BLOCK_BITMAP_LBA)
            (disk_inodes bs) (disk_dir bs ! i))"

text \<open>A device the file system can work on: what format establishes and every operation keeps.\<close>

definition m16_clean :: "m16_blockdev \<Rightarrow> bool" where
  "m16_clean dev \<longleftrightarrow> m16_dev_ok dev \<and> journal_empty (blocks dev)
     \<and> super_ok (dec_super (blocks dev ! 0)) \<and> fsck_ok (blocks dev)"

text \<open>The abstract file system: names to contents.\<close>

definition file_slot :: "m16_dirent list \<Rightarrow> bytes \<Rightarrow> nat option" where
  "file_slot dir k = List.find (\<lambda>i. de_used (dir ! i) \<noteq> 0 \<and> m16_key (de_name (dir ! i)) = k) [0..<M16_DIRENTS]"

definition file_data :: "bytes list \<Rightarrow> m16_dirent \<Rightarrow> bytes" where
  "file_data bs d = (let n = disk_inodes bs ! unat (de_ino d)
     in take (unat (in_size n)) (bs ! unat (in_direct n ! 0)))"

definition m16_files :: "bytes list \<Rightarrow> bytes \<Rightarrow> bytes option" where
  "m16_files bs k = map_option (\<lambda>i. file_data bs (disk_dir bs ! i)) (file_slot (disk_dir bs) k)"

lemma dev_ok_nth: "m16_dev_ok dev \<Longrightarrow> l < 128 \<Longrightarrow> length (blocks dev ! l) = 512"
  by (simp add: m16_dev_ok_def list_all_length)

lemma read_block_ok [simp]:
  "m16_dev_ok dev \<Longrightarrow> l < 128 \<Longrightarrow> m16_read_block l dev = (Inr (blocks dev ! l), dev)"
  by (simp add: m16_read_block_def)

lemma load_inode_table_ok [simp]:
  assumes "m16_dev_ok dev"
  shows "m16_load_inode_table dev = (Inr (disk_inodes (blocks dev)), dev)"
proof -
  have "pmapM (\<lambda>i. m16_read_block (M16_INODE_TABLE_LBA + i)) [0..<M16_INODE_TABLE_BLOCKS] dev
      = (Inr (map (\<lambda>i. blocks dev ! (M16_INODE_TABLE_LBA + i)) [0..<M16_INODE_TABLE_BLOCKS]), dev)"
    using assms by (intro pmapM_ok) simp
  then show ?thesis
    unfolding m16_load_inode_table_def disk_inodes_def by (simp only: prog_run sum.case prod.case)
qed

lemma mount_ok:
  assumes "m16_dev_ok dev" "journal_empty (blocks dev)"
  shows "m16_mount dev = (if super_ok (dec_super (blocks dev ! 0))
     then (Inr (dec_super (blocks dev ! 0)), dev) else (Inl M16_E_CORRUPT, dev))"
  using assms recover_empty [OF assms(2,1)]
  by (simp add: m16_mount_def prog_run Let_def super_ok_def)

lemma length_disk_dir [simp]: "length (disk_dir bs) = 12"
  by (simp add: disk_dir_def dec_dir_def)

lemma length_disk_inodes [simp]: "length (disk_inodes bs) = 16"
  by (simp add: disk_inodes_def)

lemma disk_dir_fits:
  assumes "m16_dev_ok dev" "i < 12"
  shows "length (de_name (disk_dir (blocks dev) ! i)) = 32"
proof -
  have "length (blocks dev ! 24) = 512" using dev_ok_nth [OF assms(1)] by simp
  then have "list_all dirent_fits (disk_dir (blocks dev))"
    using dirent_codec.dec_array_ok [of 12 "blocks dev ! 24"] by (simp add: disk_dir_def dec_dir_def)
  then show ?thesis using assms(2) by (simp add: list_all_length dirent_fits_def)
qed

lemma find_dirent_slot:
  assumes "m16_dev_ok dev"
  shows "m16_find_dirent (disk_dir (blocks dev)) name =
    (case file_slot (disk_dir (blocks dev)) (m16_key name) of Some i \<Rightarrow> Inr i | None \<Rightarrow> Inl M16_E_NOENT)"
proof -
  have "List.find (\<lambda>i. de_used (disk_dir (blocks dev) ! i) \<noteq> 0 \<and> m16_streq (de_name (disk_dir (blocks dev) ! i)) name) [0..<12]
      = file_slot (disk_dir (blocks dev)) (m16_key name)"
    unfolding file_slot_def
    by (rule find_cong) (auto simp: m16_streq_key disk_dir_fits [OF assms])
  then show ?thesis by (simp add: m16_find_dirent_def)
qed

lemma dec_dir_disk [simp]: "dec_dir (bs ! 24) = disk_dir bs"
  by (simp add: disk_dir_def)

text \<open>\<open>m16_fsck\<close> decides exactly the consistency predicate.\<close>

lemma fsck_run:
  assumes "m16_dev_ok dev" "journal_empty (blocks dev)"
  shows "m16_fsck dev = (if super_ok (dec_super (blocks dev ! 0)) \<and> fsck_ok (blocks dev)
     then Inr () else Inl M16_E_CORRUPT, dev)"
proof -
  have tb: "total_blocks dev = 128" using assms(1) by (simp add: m16_dev_ok_def)
  have sz: "(\<forall>b\<in>set [0..<n]. P b) = (\<forall>b<n. P b)" for P n
    by auto
  show ?thesis
    using assms(1) unfolding m16_fsck_def pfor_guard pfor_guard_state sz
    by (simp add: prog_run mount_ok [OF assms] Let_def fsck_ok_def tb) blast
qed


section \<open>Reading\<close>

lemma file_slot_SomeD:
  assumes "file_slot dir k = Some i"
  shows "i < 12" "de_used (dir ! i) \<noteq> 0" "m16_key (de_name (dir ! i)) = k"
  using find_upt_SomeD [OF assms [unfolded file_slot_def]] by auto

lemma fsck_direntD:
  assumes "fsck_dirent 128 ib bb inodes d"
  shows "unat (de_ino d) < 16" "m16_bitmap_get ib (unat (de_ino d))"
    "in_used (inodes ! unat (de_ino d)) \<noteq> 0" "in_kind (inodes ! unat (de_ino d)) = 1"
    "unat (in_size (inodes ! unat (de_ino d))) \<le> 512"
    "25 \<le> unat (in_direct (inodes ! unat (de_ino d)) ! 0)"
    "unat (in_direct (inodes ! unat (de_ino d)) ! 0) < 128"
    "m16_bitmap_get bb (unat (in_direct (inodes ! unat (de_ino d)) ! 0))"
  using assms by (auto simp: fsck_dirent_def Let_def word_less_nat_alt not_le)

lemma clean_dirent:
  assumes "m16_clean dev" "i < 12" "de_used (disk_dir (blocks dev) ! i) \<noteq> 0"
  shows "fsck_dirent 128 (blocks dev ! 18) (blocks dev ! 19) (disk_inodes (blocks dev)) (disk_dir (blocks dev) ! i)"
  using assms by (simp add: m16_clean_def fsck_ok_def)

lemma clean_mount: "m16_clean dev \<Longrightarrow> m16_mount dev = (Inr (dec_super (blocks dev ! 0)), dev)"
  by (simp add: m16_clean_def mount_ok)

lemma cleanD: "m16_clean dev \<Longrightarrow> m16_dev_ok dev \<and> journal_empty (blocks dev)"
  by (simp add: m16_clean_def)

lemma read_file_run:
  assumes "m16_clean dev"
  shows "m16_read_file (Some name) (Some cap) dev =
    (case m16_files (blocks dev) (m16_key name) of
       None \<Rightarrow> Inl M16_E_NOENT
     | Some d \<Rightarrow> if cap < length d then Inl M16_E_INVAL else Inr d, dev)"
proof (cases "file_slot (disk_dir (blocks dev)) (m16_key name)")
  case None
  then show ?thesis
    using cleanD [OF assms] clean_mount [OF assms]
    by (simp add: m16_read_file_def prog_run Let_def find_dirent_slot m16_files_def)
next
  case (Some i)
  note i = file_slot_SomeD [OF Some]
  note d = fsck_direntD [OF clean_dirent [OF assms i(1,2)]]
  let ?d = "disk_dir (blocks dev) ! i"
  let ?n = "disk_inodes (blocks dev) ! unat (de_ino ?d)"
  have ok: "m16_dev_ok dev" using cleanD [OF assms] by simp
  have tb: "total_blocks dev = 128" using ok by (simp add: m16_dev_ok_def)
  have len: "length (blocks dev ! unat (in_direct ?n ! 0)) = 512" using dev_ok_nth [OF ok d(7)] .
  have fd: "length (file_data (blocks dev) ?d) = unat (in_size ?n)"
    using len d(5) by (simp add: file_data_def Let_def)
  show ?thesis
    using ok clean_mount [OF assms] Some d len fd
    by (simp add: m16_read_file_def prog_run Let_def find_dirent_slot m16_files_def tb not_le
        word_le_nat_alt) (simp add: file_data_def Let_def)
qed

section \<open>Writing\<close>

text \<open>The two transactions of \<open>m16_write_file_ex\<close>.\<close>

definition write_inode :: "m16_inode \<Rightarrow> nat \<Rightarrow> nat \<Rightarrow> m16_inode" where
  "write_inode n sz blk = n\<lparr>in_used := 1, in_kind := 1, in_size := of_nat sz,
     in_direct := (in_direct n)[0 := of_nat blk]\<rparr>"

definition write_dirent :: "nat \<Rightarrow> bytes \<Rightarrow> m16_dirent" where
  "write_dirent ino name = \<lparr>de_used = 1, de_ino = of_nat ino,
     de_name = take (strlen_bounded name 32) name @ replicate (32 - strlen_bounded name 32) 0\<rparr>"

definition write_inodes :: "bytes list \<Rightarrow> nat \<Rightarrow> nat \<Rightarrow> nat \<Rightarrow> m16_inode list" where
  "write_inodes bs ino sz blk = (disk_inodes bs)[ino := write_inode (disk_inodes bs ! ino) sz blk]"

definition write_tx1 :: "bytes list \<Rightarrow> nat \<Rightarrow> nat \<Rightarrow> nat \<Rightarrow> m16_tx" where
  "write_tx1 bs ino sz blk =
     [\<lparr>target_lba = 18, payload = m16_bitmap_set (bs ! 18) ino\<rparr>,
      \<lparr>target_lba = 19, payload = m16_bitmap_set (bs ! 19) blk\<rparr>] @
     map (\<lambda>i. \<lparr>target_lba = of_nat (20 + i),
                 payload = field (i * 512) 512 (enc_array enc_inode (write_inodes bs ino sz blk))\<rparr>) [0..<4]"

definition write_tx2 :: "bytes list \<Rightarrow> nat \<Rightarrow> nat \<Rightarrow> nat \<Rightarrow> bytes \<Rightarrow> bytes \<Rightarrow> m16_tx" where
  "write_tx2 bs ino blk slot name data =
     [\<lparr>target_lba = 24, payload = enc_dir (bs ! 24) ((disk_dir bs)[slot := write_dirent ino name])\<rparr>,
      \<lparr>target_lba = of_nat blk, payload = data @ replicate (512 - length data) 0\<rparr>]"

lemma write_file_run:
  assumes "m16_clean dev" "0 < strlen_bounded name 32" "strlen_bounded name 32 < 32" "length data \<le> 512"
    and "file_slot (disk_dir (blocks dev)) (m16_key name) = None"
    and "m16_find_free_inode (blocks dev ! 18) = Inr ino" "m16_find_free_block (blocks dev ! 19) = Inr blk"
    and "m16_find_free_dirent (disk_dir (blocks dev)) = Inr slot"
  shows "m16_write_file_ex (Some name) (Some data) stop dev =
    pthen (m16_journal_commit (write_tx1 (blocks dev) ino (length data) blk)
             (sb_clean_generation (dec_super (blocks dev ! 0)) + 1) False)
      (m16_journal_commit (write_tx2 (blocks dev) ino blk slot name data)
             (sb_clean_generation (dec_super (blocks dev ! 0)) + 2) stop) dev"
  using assms cleanD [OF assms(1)] clean_mount [OF assms(1)]
  by (simp add: m16_write_file_ex_def pthen_def pbind_def pret_def plift_def pguard_apply Let_def
      find_dirent_slot m16_tx_add_def m16_store_inode_table_def write_tx1_def write_tx2_def
      write_inodes_def write_inode_def write_dirent_def)
    (simp split: prod.split sum.split)


text \<open>The home contents after each of the two transactions.\<close>

abbreviation after1 :: "bytes list \<Rightarrow> nat \<Rightarrow> nat \<Rightarrow> nat \<Rightarrow> bytes list" where
  "after1 bs ino sz blk \<equiv> apply_writes (home_writes (write_tx1 bs ino sz blk)) bs"

abbreviation after2 :: "bytes list \<Rightarrow> nat \<Rightarrow> nat \<Rightarrow> nat \<Rightarrow> bytes \<Rightarrow> bytes \<Rightarrow> bytes list" where
  "after2 bs ino blk slot name data \<equiv>
     apply_writes (home_writes (write_tx2 bs ino blk slot name data)) (after1 bs ino (length data) blk)"

lemma upt_0_4: "[0..<4] = [0, 1, 2, 3]"
  by code_simp

lemma tx1_home:
  "home_writes (write_tx1 bs ino sz blk) =
    (let raw = enc_array enc_inode (write_inodes bs ino sz blk) in
     [(18, m16_bitmap_set (bs ! 18) ino), (19, m16_bitmap_set (bs ! 19) blk),
      (20, field 0 512 raw), (21, field 512 512 raw), (22, field 1024 512 raw), (23, field 1536 512 raw)])"
  by (simp add: home_writes_def write_tx1_def Let_def upt_0_4)

lemma tx2_home:
  "blk < 128 \<Longrightarrow> home_writes (write_tx2 bs ino blk slot name data) =
     [(24, enc_dir (bs ! 24) ((disk_dir bs)[slot := write_dirent ino name])),
      (blk, data @ replicate (512 - length data) 0)]"
  by (simp add: home_writes_def write_tx2_def unat_of_nat)

lemma disk_inodes_fits:
  assumes "m16_dev_ok dev"
  shows "list_all inode_fits (disk_inodes (blocks dev))"
proof -
  have "length (blocks dev ! l) = 512" if "l < 128" for l using dev_ok_nth [OF assms that] .
  then show ?thesis
    unfolding disk_inodes_def by (intro inode_codec.dec_array_ok) (simp add: upt_0_4)
qed

lemma write_inodes_fits:
  assumes "m16_dev_ok dev" "ino < 16"
  shows "list_all inode_fits (write_inodes (blocks dev) ino sz blk)"
    "length (enc_array enc_inode (write_inodes (blocks dev) ino sz blk)) = 2048"
proof -
  show fits: "list_all inode_fits (write_inodes (blocks dev) ino sz blk)"
    using disk_inodes_fits [OF assms(1)] assms(2)
    by (auto simp: write_inodes_def list_all_length nth_list_update write_inode_def inode_fits_def)
  then show "length (enc_array enc_inode (write_inodes (blocks dev) ino sz blk)) = 2048"
    using inode_codec.array_len by (simp add: write_inodes_def)
qed

lemma tx1_wf:
  assumes "m16_dev_ok dev" "ino < 16"
  shows "wf_tx (write_tx1 (blocks dev) ino sz blk)"
  using write_inodes_fits [OF assms] dev_ok_nth [OF assms(1)]
  by (simp add: wf_tx_def write_tx1_def in_journal_def m16_bm.length_st upt_0_4)

lemma enc_dir_length:
  assumes "m16_dev_ok dev" "dirent_fits d"
  shows "length (enc_dir (blocks dev ! 24) ((disk_dir (blocks dev))[slot := d])) = 512"
    and "list_all dirent_fits ((disk_dir (blocks dev))[slot := d])"
proof -
  have l: "length (blocks dev ! 24) = 512" using dev_ok_nth [OF assms(1)] by simp
  have "list_all dirent_fits (disk_dir (blocks dev))"
    using dirent_codec.dec_array_ok [of 12 "blocks dev ! 24"] l by (simp add: disk_dir_def dec_dir_def)
  then show fits: "list_all dirent_fits ((disk_dir (blocks dev))[slot := d])"
    using assms(2) by (auto simp: list_all_iff dest!: set_update_subset_insert [THEN subsetD])
  show "length (enc_dir (blocks dev ! 24) ((disk_dir (blocks dev))[slot := d])) = 512"
    using dirent_codec.array_len [OF fits] l by (simp add: enc_dir_def)
qed

lemma write_dirent_fits: "strlen_bounded name 32 < 32 \<Longrightarrow> dirent_fits (write_dirent ino name)"
  using strlen_bounded_le_length [of name 32] by (simp add: write_dirent_def dirent_fits_def)

lemma tx2_wf:
  assumes "m16_dev_ok dev" "25 \<le> blk" "blk < 128" "strlen_bounded name 32 < 32" "length data \<le> 512"
  shows "wf_tx (write_tx2 (blocks dev) ino blk slot name data)"
  using assms enc_dir_length(1) [OF assms(1) write_dirent_fits [OF assms(4)]]
  by (simp add: wf_tx_def write_tx2_def in_journal_def unat_of_nat)

lemma after1_disk:
  assumes "m16_dev_ok dev" "ino < 16"
  defines "bs \<equiv> blocks dev"
  shows "after1 bs ino sz blk ! 18 = m16_bitmap_set (bs ! 18) ino"
    "after1 bs ino sz blk ! 19 = m16_bitmap_set (bs ! 19) blk"
    "disk_inodes (after1 bs ino sz blk) = write_inodes bs ino sz blk"
    "\<And>i. \<not> (18 \<le> i \<and> i < 24) \<Longrightarrow> after1 bs ino sz blk ! i = bs ! i"
proof -
  let ?raw = "enc_array enc_inode (write_inodes bs ino sz blk)"
  have len: "length bs = 128" using assms by (simp add: m16_dev_ok_def bs_def)
  show "after1 bs ino sz blk ! 18 = m16_bitmap_set (bs ! 18) ino"
    "after1 bs ino sz blk ! 19 = m16_bitmap_set (bs ! 19) blk"
    using len by (simp_all add: tx1_home Let_def)
  show "\<And>i. \<not> (18 \<le> i \<and> i < 24) \<Longrightarrow> after1 bs ino sz blk ! i = bs ! i"
    by (rule apply_writes_other) (auto simp: tx1_home Let_def)
  note fits = write_inodes_fits [OF assms(1,2), of sz blk, folded bs_def]
  have "concat (map (\<lambda>i. after1 bs ino sz blk ! (20 + i)) [0..<4]) = ?raw"
    using len fits(2) by (simp add: tx1_home Let_def upt_0_4)
  then show "disk_inodes (after1 bs ino sz blk) = write_inodes bs ino sz blk"
    using inode_codec.dec_array_enc [OF fits(1), of 16 "[]"] by (simp add: disk_inodes_def write_inodes_def)
qed

lemma after2_disk:
  assumes "m16_dev_ok dev" "ino < 16" "25 \<le> blk" "blk < 128" "strlen_bounded name 32 < 32"
  defines "bs \<equiv> blocks dev"
  shows "disk_dir (after2 bs ino blk slot name data) = (disk_dir bs)[slot := write_dirent ino name]"
    "after2 bs ino blk slot name data ! blk = data @ replicate (512 - length data) 0"
    "\<And>i. i \<noteq> 24 \<Longrightarrow> i \<noteq> blk \<Longrightarrow> after2 bs ino blk slot name data ! i = after1 bs ino (length data) blk ! i"
    "disk_inodes (after2 bs ino blk slot name data) = write_inodes bs ino (length data) blk"
proof -
  have len: "length bs = 128" using assms by (simp add: m16_dev_ok_def bs_def)
  let ?dir = "(disk_dir bs)[slot := write_dirent ino name]"
  have "list_all dirent_fits ?dir"
    using enc_dir_length(2) [OF assms(1) write_dirent_fits [OF assms(5)]] by (simp add: bs_def)
  then have "dec_dir (enc_dir (bs ! 24) ?dir) = ?dir"
    using dirent_codec.dec_array_enc [of ?dir 12] by (simp add: dec_dir_def enc_dir_def)
  then show "disk_dir (after2 bs ino blk slot name data) = ?dir"
    using assms(3,4) len unfolding disk_dir_def [of "after2 bs ino blk slot name data"]
    by (simp add: tx2_home del: dec_dir_disk)
  show "after2 bs ino blk slot name data ! blk = data @ replicate (512 - length data) 0"
    using assms(3,4) len by (simp add: tx2_home)
  show other: "\<And>i. i \<noteq> 24 \<Longrightarrow> i \<noteq> blk \<Longrightarrow>
      after2 bs ino blk slot name data ! i = after1 bs ino (length data) blk ! i"
    using assms(4) by (simp add: tx2_home)
  have "disk_inodes (after2 bs ino blk slot name data) = disk_inodes (after1 bs ino (length data) blk)"
    using assms(3) unfolding disk_inodes_def by (simp add: other upt_0_4)
  then show "disk_inodes (after2 bs ino blk slot name data) = write_inodes bs ino (length data) blk"
    using after1_disk(3) [OF assms(1,2)] by (simp add: bs_def)
qed


text \<open>What the three searches guarantee.\<close>

lemma find_free_inodeD:
  assumes "m16_find_free_inode ib = Inr ino"
  shows "1 \<le> ino" "ino < 16" "\<not> m16_bitmap_get ib ino"
  using find_upt_case [OF assms [unfolded m16_find_free_inode_def]] by simp_all

lemma find_free_blockD:
  assumes "m16_find_free_block bb = Inr blk"
  shows "25 \<le> blk" "blk < 128" "\<not> m16_bitmap_get bb blk"
  using find_upt_case [OF assms [unfolded m16_find_free_block_def]] by simp_all

lemma find_free_direntD:
  assumes "m16_find_free_dirent dir = Inr slot"
  shows "slot < 12" "de_used (dir ! slot) = 0"
  using find_upt_case [OF assms [unfolded m16_find_free_dirent_def]] by simp_all

lemma file_slot_insert:
  assumes "length dir = 12" "slot < 12" "de_used (dir ! slot) = 0" "de_used d \<noteq> 0"
    and "file_slot dir (m16_key (de_name d)) = None"
  shows "file_slot (dir[slot := d]) k = (if k = m16_key (de_name d) then Some slot else file_slot dir k)"
proof (cases "k = m16_key (de_name d)")
  case True
  let ?P = "\<lambda>i. de_used (dir[slot := d] ! i) \<noteq> 0 \<and> m16_key (de_name (dir[slot := d] ! i)) = k"
  have none: "\<not> (de_used (dir ! i) \<noteq> 0 \<and> m16_key (de_name (dir ! i)) = k)" if "i < 12" for i
    using assms(5) True that unfolding file_slot_def find_upt_None_iff by simp
  have "i < 12 \<Longrightarrow> ?P i \<Longrightarrow> i = slot" for i
    using none [of i] by (metis nth_list_update_neq)
  moreover have "?P slot" using assms True by simp
  then obtain j where j: "List.find ?P [0..<12] = Some j"
    using find_upt_Some_exI [of ?P slot 0 12] assms(2) by auto
  ultimately have "List.find ?P [0..<12] = Some slot"
    using find_upt_SomeD(2,3) [OF j] j by simp
  then show ?thesis using True by (simp add: file_slot_def)
next
  case False
  have "file_slot (dir[slot := d]) k = file_slot dir k"
    unfolding file_slot_def using assms(1-3) False
    by (intro find_cong) (auto simp: nth_list_update)
  with False show ?thesis by simp
qed

lemma fsck_dirent_mono:
  assumes "fsck_dirent 128 ib bb inodes d" "inodes' ! unat (de_ino d) = inodes ! unat (de_ino d)"
    and "\<And>i. m16_bitmap_get ib i \<Longrightarrow> m16_bitmap_get ib' i" "\<And>i. m16_bitmap_get bb i \<Longrightarrow> m16_bitmap_get bb' i"
  shows "fsck_dirent 128 ib' bb' inodes' d"
  using assms by (simp add: fsck_dirent_def Let_def)

text \<open>
  The setting of the two consistency lemmas: a clean device and the results of the searches.
\<close>

definition write_alloc :: "m16_blockdev \<Rightarrow> nat \<Rightarrow> nat \<Rightarrow> bool" where
  "write_alloc dev ino blk \<longleftrightarrow> m16_clean dev \<and> 1 \<le> ino \<and> ino < 16 \<and> 25 \<le> blk \<and> blk < 128
     \<and> \<not> m16_bitmap_get (blocks dev ! 18) ino \<and> \<not> m16_bitmap_get (blocks dev ! 19) blk"

lemma write_alloc_bits:
  assumes "write_alloc dev ino blk"
  shows "m16_bitmap_get (m16_bitmap_set (blocks dev ! 18) ino) j = (j = ino \<or> m16_bitmap_get (blocks dev ! 18) j)"
    "m16_bitmap_get (m16_bitmap_set (blocks dev ! 19) blk) j = (j = blk \<or> m16_bitmap_get (blocks dev ! 19) j)"
proof -
  have "length (blocks dev ! 18) = 512" "length (blocks dev ! 19) = 512"
    using assms dev_ok_nth by (simp_all add: write_alloc_def m16_clean_def)
  then show "m16_bitmap_get (m16_bitmap_set (blocks dev ! 18) ino) j = (j = ino \<or> m16_bitmap_get (blocks dev ! 18) j)"
    "m16_bitmap_get (m16_bitmap_set (blocks dev ! 19) blk) j = (j = blk \<or> m16_bitmap_get (blocks dev ! 19) j)"
    using assms by (auto simp: write_alloc_def m16_bm.tst_st)
qed

text \<open>An existing file owns neither the new inode nor the new block.\<close>

lemma write_alloc_other:
  assumes "write_alloc dev ino blk" "i < 12" "de_used (disk_dir (blocks dev) ! i) \<noteq> 0"
  defines "d \<equiv> disk_dir (blocks dev) ! i"
  shows "unat (de_ino d) \<noteq> ino" "unat (in_direct (disk_inodes (blocks dev) ! unat (de_ino d)) ! 0) \<noteq> blk"
    "25 \<le> unat (in_direct (disk_inodes (blocks dev) ! unat (de_ino d)) ! 0)"
    "write_inodes (blocks dev) ino sz blk ! unat (de_ino d) = disk_inodes (blocks dev) ! unat (de_ino d)"
    "fsck_dirent 128 (m16_bitmap_set (blocks dev ! 18) ino) (m16_bitmap_set (blocks dev ! 19) blk)
       (write_inodes (blocks dev) ino sz blk) d"
proof -
  have f: "fsck_dirent 128 (blocks dev ! 18) (blocks dev ! 19) (disk_inodes (blocks dev)) d"
    using assms clean_dirent by (simp add: write_alloc_def)
  show ino: "unat (de_ino d) \<noteq> ino"
    and "unat (in_direct (disk_inodes (blocks dev) ! unat (de_ino d)) ! 0) \<noteq> blk"
    and "25 \<le> unat (in_direct (disk_inodes (blocks dev) ! unat (de_ino d)) ! 0)"
    using fsck_direntD [OF f] assms(1) by (auto simp: write_alloc_def)
  show same: "write_inodes (blocks dev) ino sz blk ! unat (de_ino d) = disk_inodes (blocks dev) ! unat (de_ino d)"
    using ino by (simp add: write_inodes_def)
  show "fsck_dirent 128 (m16_bitmap_set (blocks dev ! 18) ino) (m16_bitmap_set (blocks dev ! 19) blk)
       (write_inodes (blocks dev) ino sz blk) d"
    using fsck_dirent_mono [OF f same] write_alloc_bits [OF assms(1)] by simp
qed

text \<open>The parts of the consistency check that do not concern directory entries.\<close>

lemma write_alloc_base:
  assumes "write_alloc dev ino blk" and "bs ! 18 = m16_bitmap_set (blocks dev ! 18) ino"
    and "bs ! 19 = m16_bitmap_set (blocks dev ! 19) blk" "disk_inodes bs = write_inodes (blocks dev) ino sz blk"
    and "\<And>i. i < 12 \<Longrightarrow> de_used (disk_dir bs ! i) \<noteq> 0 \<Longrightarrow>
      fsck_dirent 128 (bs ! 18) (bs ! 19) (disk_inodes bs) (disk_dir bs ! i)"
  shows "fsck_ok bs"
proof -
  have "fsck_ok (blocks dev)" "ino \<noteq> 0" using assms(1) by (auto simp: write_alloc_def m16_clean_def)
  then show ?thesis
    using assms(2-5) write_alloc_bits [OF assms(1)]
    by (simp add: fsck_ok_def) (simp add: write_inodes_def)
qed

lemma after1_consistent:
  assumes "write_alloc dev ino blk"
  shows "fsck_ok (after1 (blocks dev) ino sz blk)"
    and "m16_files (after1 (blocks dev) ino sz blk) = m16_files (blocks dev)"
    and "after1 (blocks dev) ino sz blk ! 0 = blocks dev ! 0"
proof -
  let ?bs = "after1 (blocks dev) ino sz blk"
  have ok: "m16_dev_ok dev" "ino < 16" using assms by (auto simp: write_alloc_def m16_clean_def)
  note a = after1_disk [OF ok, where sz = sz and blk = blk]
  note other = write_alloc_other [OF assms]
  have dir: "disk_dir ?bs = disk_dir (blocks dev)"
    using a(4) [where i = 24] by (simp add: disk_dir_def del: dec_dir_disk)
  show "fsck_ok ?bs"
    by (rule write_alloc_base [OF assms a(1-3)]) (simp add: a(1-3) dir other(5))
  have "file_data ?bs (disk_dir (blocks dev) ! i) = file_data (blocks dev) (disk_dir (blocks dev) ! i)"
    if "file_slot (disk_dir (blocks dev)) k = Some i" for i k
    using other [OF file_slot_SomeD(1,2) [OF that]] a(3,4) by (simp add: file_data_def Let_def)
  then show "m16_files ?bs = m16_files (blocks dev)"
    unfolding m16_files_def dir map_option_case by (auto split: option.split)
  show "?bs ! 0 = blocks dev ! 0" using a(4) [where i = 0] by simp
qed

lemma after2_consistent:
  assumes "write_alloc dev ino blk" "strlen_bounded name 32 < 32" "length data \<le> 512"
    and "slot < 12" "de_used (disk_dir (blocks dev) ! slot) = 0"
    and "file_slot (disk_dir (blocks dev)) (m16_key name) = None"
  defines "bs \<equiv> after2 (blocks dev) ino blk slot name data"
  shows "fsck_ok bs" and "m16_files bs = (m16_files (blocks dev))(m16_key name \<mapsto> data)"
    and "bs ! 0 = blocks dev ! 0"
proof -
  have w: "m16_dev_ok dev" "ino < 16" "25 \<le> blk" "blk < 128"
    using assms(1) by (auto simp: write_alloc_def m16_clean_def)
  let ?d = "write_dirent ino name" and ?sz = "length data"
  note a1 = after1_disk [OF w(1,2), where sz = ?sz and blk = blk]
  note a2 = after2_disk [OF w assms(2), where slot = slot and data = data, folded bs_def]
  note other = write_alloc_other [OF assms(1)]
  have b: "bs ! 18 = m16_bitmap_set (blocks dev ! 18) ino" "bs ! 19 = m16_bitmap_set (blocks dev ! 19) blk"
    using a1(1,2) a2(3) w(3) by auto
  have dir: "disk_dir bs ! i = (if i = slot then ?d else disk_dir (blocks dev) ! i)" if "i < 12" for i
    using that assms(4) by (auto simp: a2(1) nth_list_update)
  have len: "length (in_direct (disk_inodes (blocks dev) ! ino)) = 4"
    using disk_inodes_fits [OF w(1)] w(2) by (simp add: list_all_length inode_fits_def)
  have inode: "disk_inodes bs ! ino = write_inode (disk_inodes (blocks dev) ! ino) ?sz blk"
    using w(2) by (simp add: a2(4) write_inodes_def)
  have d: "de_used ?d = 1" "unat (de_ino ?d) = ino" "m16_key (de_name ?d) = m16_key name"
    using w(2) m16_key_stored [OF refl assms(2)] by (simp_all add: write_dirent_def unat_of_nat)
  have new: "fsck_dirent 128 (bs ! 18) (bs ! 19) (disk_inodes bs) ?d"
    using d inode len w(2-4) assms(3) write_alloc_bits [OF assms(1)]
    by (simp add: fsck_dirent_def Let_def b write_inode_def unat_of_nat word_le_nat_alt)
  show "fsck_ok bs"
    by (rule write_alloc_base [OF assms(1) b a2(4)]) (use new other(5) dir b a2(4) in \<open>auto split: if_splits\<close>)
  have data: "file_data bs ?d = data"
    using d inode len w(4) assms(3) a2(2) by (simp add: file_data_def write_inode_def unat_of_nat)
  have old: "file_data bs (disk_dir (blocks dev) ! i) = file_data (blocks dev) (disk_dir (blocks dev) ! i)"
    if "i < 12" "de_used (disk_dir (blocks dev) ! i) \<noteq> 0" for i
    using other [OF that] a1(4) a2(3) by (simp add: file_data_def Let_def a2(4))
  have slot: "file_slot (disk_dir bs) k = (if k = m16_key name then Some slot else file_slot (disk_dir (blocks dev)) k)" for k
    using file_slot_insert [of "disk_dir (blocks dev)" slot ?d k] assms(4-6) d by (simp add: a2(1))
  show "m16_files bs = (m16_files (blocks dev))(m16_key name \<mapsto> data)"
  proof
    fix k
    show "m16_files bs k = ((m16_files (blocks dev))(m16_key name \<mapsto> data)) k"
      using slot [of k] data dir assms(4,5) file_slot_SomeD(1,2) [of "disk_dir (blocks dev)" k]
      by (cases "file_slot (disk_dir (blocks dev)) k") (auto simp: m16_files_def old)
  qed
  show "bs ! 0 = blocks dev ! 0" using a1(4) [where i = 0] a2(3) [where i = 0] w(3) by auto
qed


section \<open>Whole operations\<close>

text \<open>Every view of the disk depends on the home blocks only.\<close>

lemma same_home_views:
  assumes "same_home bs cs" "length cs = 128"
  shows "bs ! 0 = cs ! 0" "disk_inodes bs = disk_inodes cs" "disk_dir bs = disk_dir cs"
    "bs ! 18 = cs ! 18" "bs ! 19 = cs ! 19"
proof -
  have h: "bs ! i = cs ! i" if "i = 0 \<or> 18 \<le> i" "i < 128" for i
    using assms that by (auto simp: same_home_def in_journal_def)
  show "bs ! 0 = cs ! 0" "bs ! 18 = cs ! 18" "bs ! 19 = cs ! 19"
    and "disk_inodes bs = disk_inodes cs" "disk_dir bs = disk_dir cs"
    by (simp_all add: h disk_inodes_def disk_dir_def upt_0_4 del: dec_dir_disk)
qed

lemma same_home_fsck:
  assumes "same_home bs cs" "length cs = 128"
  shows "fsck_ok bs = fsck_ok cs"
  using same_home_views [OF assms] by (simp add: fsck_ok_def)

lemma same_home_files:
  assumes "same_home bs cs" "length cs = 128" "fsck_ok cs"
  shows "m16_files bs = m16_files cs"
proof
  fix k
  note v = same_home_views [OF assms(1,2)]
  show "m16_files bs k = m16_files cs k"
  proof (cases "file_slot (disk_dir cs) k")
    case (Some i)
    note i = file_slot_SomeD [OF Some]
    have "fsck_dirent 128 (cs ! 18) (cs ! 19) (disk_inodes cs) (disk_dir cs ! i)"
      using assms(3) i(1,2) by (simp add: fsck_ok_def)
    note d = fsck_direntD(6,7) [OF this]
    have "\<not> in_journal (unat (in_direct (disk_inodes cs ! unat (de_ino (disk_dir cs ! i))) ! 0))"
      using d by (simp add: in_journal_def)
    then have "file_data bs (disk_dir cs ! i) = file_data cs (disk_dir cs ! i)"
      using assms(1,2) d by (simp add: file_data_def Let_def v same_home_def)
    then show ?thesis using Some by (simp add: m16_files_def v)
  qed (simp add: m16_files_def v)
qed

lemma clean_same_home:
  assumes "m16_dev_ok dev" "journal_empty (blocks dev)" "same_home (blocks dev) cs" "length cs = 128"
    and "fsck_ok cs" "super_ok (dec_super (cs ! 0))"
  shows "m16_clean dev" "m16_files (blocks dev) = m16_files cs"
  using assms same_home_views(1) [OF assms(3,4)] same_home_fsck [OF assms(3,4)]
    same_home_files [OF assms(3-5)]
  by (simp_all add: m16_clean_def)

text \<open>A write that gets past its checks: the searches succeeded and two commits follow.\<close>

lemma write_file_searches:
  assumes c: "m16_clean dev" and n: "0 < strlen_bounded name 32" "strlen_bounded name 32 < 32" and d: "length data \<le> 512"
    and f: "file_slot (disk_dir (blocks dev)) (m16_key name) = None"
  shows "m16_write_file_ex (Some name) (Some data) stop dev = (case m16_find_free_inode (blocks dev ! 18) of Inl e \<Rightarrow> (Inl e, dev)
    | Inr ino \<Rightarrow> case m16_find_free_block (blocks dev ! 19) of Inl e \<Rightarrow> (Inl e, dev)
    | Inr blk \<Rightarrow> case m16_find_free_dirent (disk_dir (blocks dev)) of Inl e \<Rightarrow> (Inl e, dev)
    | Inr slot \<Rightarrow> pthen (m16_journal_commit (write_tx1 (blocks dev) ino (length data) blk)
                    (sb_clean_generation (dec_super (blocks dev ! 0)) + 1) False)
             (m16_journal_commit (write_tx2 (blocks dev) ino blk slot name data)
                    (sb_clean_generation (dec_super (blocks dev ! 0)) + 2) stop) dev)"
proof -
  note run = m16_write_file_ex_def pthen_def pbind_def pret_def pfail_def plift_def pguard_apply Let_def
  note base = n d f cleanD [OF c] clean_mount [OF c]
  show ?thesis
  proof (cases "m16_find_free_inode (blocks dev ! 18)")
    case (Inl e)
    then show ?thesis using base by (simp add: run find_dirent_slot)
  next
    case ino: (Inr ino)
    show ?thesis
    proof (cases "m16_find_free_block (blocks dev ! 19)")
      case (Inl e)
      then show ?thesis using base ino by (simp add: run find_dirent_slot)
    next
      case blk: (Inr blk)
      show ?thesis
      proof (cases "m16_find_free_dirent (disk_dir (blocks dev))")
        case (Inl e)
        then show ?thesis using base ino blk by (simp add: run find_dirent_slot)
      next
        case (Inr slot)
        then show ?thesis using write_file_run [OF c n d f ino blk Inr] ino blk by simp
      qed
    qed
  qed
qed

lemma write_new_cases:
  assumes c: "m16_clean dev" and ok: "0 < strlen_bounded name 32" "strlen_bounded name 32 < 32" "length data \<le> 512"
    "file_slot (disk_dir (blocks dev)) (m16_key name) = None"
  obtains (full) "m16_write_file_ex (Some name) (Some data) stop dev = (Inl M16_E_NOSPC, dev)"
      "(\<forall>i. 1 \<le> i \<longrightarrow> i < 16 \<longrightarrow> m16_bitmap_get (blocks dev ! 18) i)
       \<or> (\<forall>i. 25 \<le> i \<longrightarrow> i < 128 \<longrightarrow> m16_bitmap_get (blocks dev ! 19) i)
       \<or> (\<forall>i < 12. de_used (disk_dir (blocks dev) ! i) \<noteq> 0)"
    | (found) ino blk slot where "write_alloc dev ino blk" "slot < 12" "de_used (disk_dir (blocks dev) ! slot) = 0"
        "m16_write_file_ex (Some name) (Some data) stop dev =
           pthen (m16_journal_commit (write_tx1 (blocks dev) ino (length data) blk)
                    (sb_clean_generation (dec_super (blocks dev ! 0)) + 1) False)
             (m16_journal_commit (write_tx2 (blocks dev) ino blk slot name data)
                    (sb_clean_generation (dec_super (blocks dev ! 0)) + 2) stop) dev"
proof -
  note w = write_file_searches [OF c ok, of stop]
  consider (ino) e where "m16_find_free_inode (blocks dev ! 18) = Inl e"
    | (blk) i e where "m16_find_free_inode (blocks dev ! 18) = Inr i" "m16_find_free_block (blocks dev ! 19) = Inl e"
    | (slot) i b e where "m16_find_free_inode (blocks dev ! 18) = Inr i" "m16_find_free_block (blocks dev ! 19) = Inr b"
        "m16_find_free_dirent (disk_dir (blocks dev)) = Inl e"
    | (all) i b s where "m16_find_free_inode (blocks dev ! 18) = Inr i" "m16_find_free_block (blocks dev ! 19) = Inr b"
        "m16_find_free_dirent (disk_dir (blocks dev)) = Inr s"
    by (metis sumE)
  then show thesis
  proof cases
    case ino
    then show ?thesis using w full find_upt_case_Inl [OF ino [unfolded m16_find_free_inode_def]] by auto
  next
    case blk
    then show ?thesis using w full find_upt_case_Inl [OF blk(2) [unfolded m16_find_free_block_def]] by auto
  next
    case slot
    then show ?thesis using w full find_upt_case_Inl [OF slot(3) [unfolded m16_find_free_dirent_def]] by auto
  next
    case all
    have "write_alloc dev i b" using find_free_inodeD [OF all(1)] find_free_blockD [OF all(2)] c by (simp add: write_alloc_def)
    then show ?thesis using found find_free_direntD [OF all(3)] w all by simp
  qed
qed

lemma write_file_cases:
  assumes "m16_clean dev"
  obtains (refused) e where "m16_write_file_ex (Some name) (Some data) stop dev = (Inl e, dev)"
      and "e = M16_E_TOOLONG \<and> \<not> (0 < strlen_bounded name 32 \<and> strlen_bounded name 32 < 32)
         \<or> e = M16_E_INVAL \<and> 512 < length data
         \<or> e = M16_E_EXISTS \<and> m16_files (blocks dev) (m16_key name) \<noteq> None
         \<or> e = M16_E_NOSPC \<and> ((\<forall>i. 1 \<le> i \<longrightarrow> i < 16 \<longrightarrow> m16_bitmap_get (blocks dev ! 18) i)
              \<or> (\<forall>i. 25 \<le> i \<longrightarrow> i < 128 \<longrightarrow> m16_bitmap_get (blocks dev ! 19) i)
              \<or> (\<forall>i < 12. de_used (disk_dir (blocks dev) ! i) \<noteq> 0))"
    | (accepted) ino blk slot where "write_alloc dev ino blk" "strlen_bounded name 32 < 32" 
        "length data \<le> 512" "slot < 12" "de_used (disk_dir (blocks dev) ! slot) = 0"
        "file_slot (disk_dir (blocks dev)) (m16_key name) = None"
        "m16_write_file_ex (Some name) (Some data) stop dev =
           pthen (m16_journal_commit (write_tx1 (blocks dev) ino (length data) blk)
                    (sb_clean_generation (dec_super (blocks dev ! 0)) + 1) False)
             (m16_journal_commit (write_tx2 (blocks dev) ino blk slot name data)
                    (sb_clean_generation (dec_super (blocks dev ! 0)) + 2) stop) dev"
        "0 < strlen_bounded name 32"
proof -
  let ?w = "m16_write_file_ex (Some name) (Some data) stop dev"
  note run = m16_write_file_ex_def pthen_def pbind_def pret_def pfail_def plift_def pguard_apply Let_def
  note base = cleanD [OF assms] clean_mount [OF assms]
  consider (name) "\<not> (0 < strlen_bounded name 32 \<and> strlen_bounded name 32 < 32)"
    | (size) "0 < strlen_bounded name 32 \<and> strlen_bounded name 32 < 32" "512 < length data"
    | (taken) i where "0 < strlen_bounded name 32" "strlen_bounded name 32 < 32" "length data \<le> 512"
        "file_slot (disk_dir (blocks dev)) (m16_key name) = Some i"
    | (ok) "0 < strlen_bounded name 32" "strlen_bounded name 32 < 32" "length data \<le> 512"
        "file_slot (disk_dir (blocks dev)) (m16_key name) = None"
    by (metis not_None_eq not_le)
  then show thesis
  proof cases
    case name
    then have "?w = (Inl M16_E_TOOLONG, dev)" by (auto simp: run)
    with name show ?thesis using refused by blast
  next
    case size
    then have "?w = (Inl M16_E_INVAL, dev)" by (auto simp: run)
    with size show ?thesis using refused by blast
  next
    case taken
    then have "?w = (Inl M16_E_EXISTS, dev)" using base by (simp add: run find_dirent_slot)
    with taken show ?thesis using refused by (simp add: m16_files_def)
  next
    case ok
    from assms ok show ?thesis
    proof (cases rule: write_new_cases [where stop = stop])
      case full
      then show ?thesis using refused by blast
    next
      case (found ino blk slot)
      then show ?thesis using accepted ok by blast
    qed
  qed
qed


text \<open>One successful transaction after the other, each cut off anywhere.\<close>

lemma first_commit_crash:
  assumes a: "write_alloc dev ino blk"
    and t: "m16_journal_commit (write_tx1 (blocks dev) ino len blk) seq stop dev = (r, dev1)"
  obtains dev2 where "m16_journal_recover (m16_power_cycle dev1) = (Inr (), dev2)" "m16_clean dev2"
    "m16_files (blocks dev2) = m16_files (blocks dev)"
proof -
  let ?bs = "blocks dev" and ?bs1 = "after1 (blocks dev) ino len blk"
  have w: "m16_dev_ok dev" "ino < 16" "journal_empty ?bs" "fsck_ok ?bs" "super_ok (dec_super (?bs ! 0))" "length ?bs = 128"
    using a by (auto simp: write_alloc_def m16_clean_def m16_dev_ok_def)
  note c1 = after1_consistent [OF a, of len]
  obtain dev2 where d: "m16_journal_recover (m16_power_cycle dev1) = (Inr (), dev2)" "m16_dev_ok dev2"
      "journal_empty (blocks dev2)" and sh: "same_home (blocks dev2) ?bs1 \<or> same_home (blocks dev2) ?bs"
    using commit_crash_recover [OF tx1_wf [OF w(1,2)] w(1,3) t] by metis
  from sh have "m16_clean dev2 \<and> m16_files (blocks dev2) = m16_files ?bs"
  proof
    assume "same_home (blocks dev2) ?bs1"
    with clean_same_home [OF d(2,3) this] c1 w(5,6) show ?thesis by simp
  next
    assume "same_home (blocks dev2) ?bs"
    with clean_same_home [OF d(2,3) this] w show ?thesis by simp
  qed
  then show ?thesis using that [of dev2] d by auto
qed

lemma second_commit_crash:
  assumes a: "write_alloc dev ino blk" "strlen_bounded name 32 < 32" "length data \<le> 512" "slot < 12"
      "de_used (disk_dir (blocks dev) ! slot) = 0" "file_slot (disk_dir (blocks dev)) (m16_key name) = None"
    and d1: "m16_dev_ok d1" "journal_empty (blocks d1)" "same_home (blocks d1) (after1 (blocks dev) ino (length data) blk)"
    and t: "m16_journal_commit (write_tx2 (blocks dev) ino blk slot name data) seq stop d1 = (r, dev1)"
  obtains dev2 where "m16_journal_recover (m16_power_cycle dev1) = (Inr (), dev2)" "m16_clean dev2"
    "m16_files (blocks dev2) = (m16_files (blocks dev))(m16_key name \<mapsto> data) \<or>
     r \<noteq> Inr () \<and> m16_files (blocks dev2) = m16_files (blocks dev)"
proof -
  let ?bs = "blocks dev"
  have w: "m16_dev_ok dev" "25 \<le> blk" "blk < 128" "super_ok (dec_super (?bs ! 0))" "length ?bs = 128"
    using a(1) by (auto simp: write_alloc_def m16_clean_def m16_dev_ok_def)
  note c1 = after1_consistent [OF a(1), of "length data"] and c2 = after2_consistent [OF a]
  obtain dev2 where d: "m16_journal_recover (m16_power_cycle dev1) = (Inr (), dev2)" "m16_dev_ok dev2"
      "journal_empty (blocks dev2)"
      and sh: "same_home (blocks dev2) (apply_writes (home_writes (write_tx2 ?bs ino blk slot name data)) (blocks d1))
        \<or> r \<noteq> Inr () \<and> same_home (blocks dev2) (blocks d1)"
    using commit_crash_recover [OF tx2_wf [OF w(1,2,3) a(2,3)] d1(1,2) t] by metis
  from sh show ?thesis
  proof
    assume "same_home (blocks dev2) (apply_writes (home_writes (write_tx2 ?bs ino blk slot name data)) (blocks d1))"
    then have "same_home (blocks dev2) (after2 ?bs ino blk slot name data)" using same_home_trans same_home_apply [OF d1(3)] by blast
    with clean_same_home [OF d(2,3) this] c2 w(4,5)
    show ?thesis using that [of dev2] d(1) by simp
  next
    assume old: "r \<noteq> Inr () \<and> same_home (blocks dev2) (blocks d1)"
    then have "same_home (blocks dev2) (after1 ?bs ino (length data) blk)" using same_home_trans d1(3) by blast
    with clean_same_home [OF d(2,3) this] c1 w(4,5) old
    show ?thesis using that [of dev2] d(1) by simp
  qed
qed

lemma write_file_crash:
  assumes "m16_clean dev" "m16_write_file_ex (Some name) (Some data) stop dev = (r, dev1)"
  obtains dev2 where "m16_journal_recover (m16_power_cycle dev1) = (Inr (), dev2)" "m16_clean dev2"
    "m16_files (blocks dev2) = (m16_files (blocks dev))(m16_key name \<mapsto> data) \<or>
     r \<noteq> Inr () \<and> m16_files (blocks dev2) = m16_files (blocks dev)"
  using assms(1)
proof (cases rule: write_file_cases [where name = name and data = data and stop = stop])
  case (refused e)
  have c: "m16_clean (m16_power_cycle dev)" using assms(1) by (simp add: m16_clean_def)
  then have "m16_journal_recover (m16_power_cycle dev) = (Inr (), m16_power_cycle dev)"
    using recover_empty cleanD by blast
  then show ?thesis using that [of "m16_power_cycle dev"] refused assms(2) c by auto
next
  case (accepted ino blk slot)
  let ?g = "sb_clean_generation (dec_super (blocks dev ! 0))"
  have w: "m16_dev_ok dev" "ino < 16" "journal_empty (blocks dev)"
    using accepted(1) by (auto simp: write_alloc_def m16_clean_def)
  obtain r1 d1 where t1: "m16_journal_commit (write_tx1 (blocks dev) ino (length data) blk) (?g + 1) False dev = (r1, d1)"
    by force
  show ?thesis
  proof (cases r1)
    case (Inl e)
    then have "r = Inl e" "dev1 = d1" using t1 accepted(7) assms(2) by (simp_all add: pthen_def pbind_def)
    then show ?thesis using first_commit_crash [OF accepted(1) t1] that by (metis Inl_not_Inr)
  next
    case (Inr u)
    have "m16_dev_ok d1" "journal_empty (blocks d1)" "same_home (blocks d1) (after1 (blocks dev) ino (length data) blk)"
      using commit_success [OF tx1_wf [OF w(1,2)] w(1,3), of "length data" blk "?g + 1" d1] t1 [unfolded Inr] by simp_all
    moreover have "m16_journal_commit (write_tx2 (blocks dev) ino blk slot name data) (?g + 2) stop d1 = (r, dev1)"
      using t1 [unfolded Inr] accepted(7) assms(2) by (simp add: pthen_def pbind_def)
    ultimately show ?thesis using second_commit_crash [OF accepted(1-6)] that by metis
  qed
qed


section \<open>Formatting\<close>

definition format_writes :: "(nat \<times> bytes) list" where
  "format_writes =
     (let zero = replicate 512 0; raw = enc_array enc_inode format_inodes in
      [(0, enc_super (format_super 128)), (18, m16_bitmap_set zero 0),
       (19, fold (\<lambda>i bm. m16_bitmap_set bm i) [0..<25] zero), (20, field 0 512 raw), (21, field 512 512 raw),
       (22, field 1024 512 raw), (23, field 1536 512 raw), (24, zero), (1, enc_header zero_header)])"

definition format_blocks :: "bytes list" where
  "format_blocks = apply_writes format_writes (replicate 128 (replicate 512 0))"

lemma format_inodes_fits:
  "list_all inode_fits format_inodes" "length format_inodes = 16"
  "length (enc_array enc_inode format_inodes) = 2048"
proof -
  show f: "list_all inode_fits format_inodes" "length format_inodes = 16"
    by (auto simp: format_inodes_def list_all_length nth_list_update inode_fits_def zero_inode_def)
  show "length (enc_array enc_inode format_inodes) = 2048" using inode_codec.array_len [OF f(1)] f(2) by simp
qed

lemma format_writes_valid: "\<forall>(l, b)\<in>set format_writes. l < 128 \<and> length b = M16_BLOCK_SIZE"
  using format_inodes_fits(3)
  by (simp add: format_writes_def Let_def m16_bm.length_st m16_bm.length_fold_st super_codec.enc_len
      super_fits_def format_super_def del: upt_rec_numeral)

lemma format_run:
  assumes "total_blocks dev = 128" "fail_after dev < 0"
  shows "m16_format dev = (Inr (), wrote (dev\<lparr>blocks := replicate 128 (replicate 512 0)\<rparr>) format_writes)"
proof -
  let ?d = "dev\<lparr>blocks := replicate 128 (replicate 512 0)\<rparr>"
  have "m16_format dev = m16_write_all format_writes ?d"
    using assms(1)
    by (simp add: m16_format_def format_writes_def Let_def upt_0_4 write_all_Cons m16_journal_clear_def
        pthen_assoc pthen_pret_unit del: upt_rec_numeral)
      (simp add: pthen_def pbind_def pret_def)
  moreover have "\<forall>(l, b)\<in>set format_writes. m16_valid_lba ?d l"
    using format_writes_valid assms(1) by (auto simp: m16_valid_lba_def)
  ultimately show ?thesis using write_all_ok [of format_writes ?d] assms(2) by simp
qed

lemma zero_dir_unused:
  assumes "i < 12"
  shows "de_used (dec_dir (replicate 512 0) ! i) = 0"
proof -
  have "field (i * 40) 40 (replicate 512 (0 :: u8)) = replicate 40 0"
    using assms by (simp add: field_def)
  then have "dec_dir (replicate 512 0) ! i = dec_dirent (replicate 40 0)"
    using assms by (simp add: dec_dir_def nth_dec_array)
  moreover have "get32 0 (replicate 40 0) = 0"
    by (simp add: get32_def field_def numeral_eq_Suc)
  ultimately show ?thesis by (simp add: dec_dirent_def)
qed

lemma format_disk:
  "format_blocks ! 0 = enc_super (format_super 128)" "format_blocks ! 1 = enc_header zero_header"
  "format_blocks ! 18 = m16_bitmap_set (replicate 512 0) 0"
  "format_blocks ! 19 = fold (\<lambda>i bm. m16_bitmap_set bm i) [0..<25] (replicate 512 0)"
  "disk_inodes format_blocks = format_inodes" "disk_dir format_blocks = dec_dir (replicate 512 0)"
proof -
  show "format_blocks ! 0 = enc_super (format_super 128)" "format_blocks ! 1 = enc_header zero_header"
    "format_blocks ! 18 = m16_bitmap_set (replicate 512 0) 0"
    "format_blocks ! 19 = fold (\<lambda>i bm. m16_bitmap_set bm i) [0..<25] (replicate 512 0)"
    "disk_dir format_blocks = dec_dir (replicate 512 0)"
    by (simp_all add: format_blocks_def format_writes_def Let_def disk_dir_def del: upt_rec_numeral dec_dir_disk)
  have "concat (map (\<lambda>i. format_blocks ! (20 + i)) [0..<4]) = enc_array enc_inode format_inodes"
    using format_inodes_fits(3)
    by (simp add: format_blocks_def format_writes_def Let_def upt_0_4 del: upt_rec_numeral)
  then show "disk_inodes format_blocks = format_inodes"
    using inode_codec.dec_array_enc [OF format_inodes_fits(1), of 16 "[]"] format_inodes_fits(2)
    by (simp add: disk_inodes_def)
qed

lemma format_fsck_ok: "fsck_ok format_blocks"
  using zero_dir_unused
  by (simp add: fsck_ok_def format_disk m16_bm.tst_st m16_bm.tst_fold_st del: upt_rec_numeral)
    (simp add: format_inodes_def zero_inode_def)

lemma format_clean:
  assumes "total_blocks dev = 128" "fail_after dev < 0" "m16_format dev = (r, dev1)"
  shows "r = Inr () \<and> m16_clean dev1 \<and> m16_files (blocks dev1) = Map.empty \<and> fail_after dev1 < 0"
proof -
  let ?d = "dev\<lparr>blocks := replicate 128 (replicate 512 0)\<rparr>"
  have run: "r = Inr ()" "dev1 = wrote ?d format_writes" using format_run [OF assms(1,2)] assms(3) by auto
  then have b: "blocks dev1 = format_blocks" by (simp add: format_blocks_def)
  have "m16_dev_ok ?d" using assms(1) by (simp add: m16_dev_ok_def list_all_iff)
  then have "m16_dev_ok dev1"
    unfolding run(2) using format_writes_valid by (intro dev_ok_wrote) auto
  moreover have "journal_empty format_blocks"
    by (simp add: journal_empty_def format_disk(2) [simplified]) (simp add: zero_header_def M16_J_EMPTY_def)
  moreover have "super_ok (dec_super (format_blocks ! 0))"
    by (simp add: format_disk(1) super_codec.dec_enc super_fits_def format_super_def super_ok_def)
  moreover have "file_slot (disk_dir format_blocks) k = None" for k
    using zero_dir_unused by (simp add: file_slot_def format_disk(6) find_upt_None_iff)
  then have "m16_files format_blocks = Map.empty" by (auto simp: m16_files_def)
  ultimately show ?thesis
    using run b format_fsck_ok assms(2) by (simp add: m16_clean_def)
qed


section \<open>Properties of the file system\<close>

text \<open>The device of the witnesses: freshly initialised and formatted.\<close>

definition sample_dev :: m16_blockdev where
  "sample_dev = snd (m16_format m16_dev_init)"

lemma sample_dev_clean: "m16_clean sample_dev" "fail_after sample_dev < 0" "m16_files (blocks sample_dev) = Map.empty"
  using format_clean [of m16_dev_init "fst (m16_format m16_dev_init)" sample_dev]
  by (simp_all add: sample_dev_def m16_dev_init_def)

definition sample_name :: bytes where "sample_name = [104, 105]"

lemma sample_name_len: "strlen_bounded sample_name 32 = 2"
  by code_simp

lemma sample_dev_space:
  "\<not> m16_bitmap_get (blocks sample_dev ! 18) 1" "\<not> m16_bitmap_get (blocks sample_dev ! 19) 25"
  "de_used (disk_dir (blocks sample_dev) ! 0) = 0"
proof -
  have b: "blocks sample_dev = format_blocks"
    using format_run [of m16_dev_init] by (simp add: sample_dev_def m16_dev_init_def format_blocks_def)
  have z: "\<not> m16_bitmap_get (replicate 512 0) i" if "i < 4096" for i
    using that by (simp add: m16_bitmap_get_def)
  show "\<not> m16_bitmap_get (blocks sample_dev ! 18) 1" "\<not> m16_bitmap_get (blocks sample_dev ! 19) 25"
    "de_used (disk_dir (blocks sample_dev) ! 0) = 0"
    using z zero_dir_unused [of 0]
    by (simp_all add: b format_disk m16_bm.tst_st m16_bm.tst_fold_st del: upt_rec_numeral)
qed

text \<open>
  Crash safety of \<open>m16_write_file_ex\<close>: on a clean file system, cut the write off at any block
  write (any \<open>fail_after\<close>) or let it finish; after a power cycle \<open>m16_journal_recover\<close> succeeds,
  the file system is clean again (so \<open>m16_fsck\<close> accepts it), and the map from names to contents is
  either the old one or the old one with the new file added. If the call reported success, the
  file is there, also when it stopped right after the commit record.
\<close>

theorem m16_write_file_crash_safe:
  assumes "m16_clean dev" "m16_write_file_ex (Some name) (Some data) stop dev = (r, dev1)"
    and "m16_journal_recover (m16_power_cycle dev1) = (r2, dev2)"
  shows "r2 = Inr () \<and> m16_clean dev2 \<and>
    (m16_files (blocks dev2) = (m16_files (blocks dev))(m16_key name \<mapsto> data) \<or>
     r \<noteq> Inr () \<and> m16_files (blocks dev2) = m16_files (blocks dev))"
  using write_file_crash [OF assms(1,2)] assms(3) by force

theorem m16_write_file_crash_safe_witness:
  "\<exists>r dev1 r2 dev2. m16_write_file_ex (Some sample_name) (Some [1, 2, 3]) True (sample_dev\<lparr>fail_after := 17\<rparr>) = (r, dev1)
     \<and> m16_journal_recover (m16_power_cycle dev1) = (r2, dev2) \<and> r2 = Inr () \<and> m16_clean dev2"
proof -
  let ?d = "sample_dev\<lparr>fail_after := 17\<rparr>"
  have c: "m16_clean ?d" using sample_dev_clean(1) by (simp add: m16_clean_def m16_dev_ok_def)
  obtain r dev1 where w: "m16_write_file_ex (Some sample_name) (Some [1, 2, 3]) True ?d = (r, dev1)" by force
  obtain r2 dev2 where v: "m16_journal_recover (m16_power_cycle dev1) = (r2, dev2)" by force
  show ?thesis using w v m16_write_file_crash_safe [OF c w v] by blast
qed

text \<open>
  C4. What \<open>m16_write_file\<close> does when no fault is injected: it adds the file and keeps the file
  system clean, or it refuses and changes nothing, with \<open>TOOLONG\<close> exactly for an empty name or one
  of 32 bytes and more, \<open>INVAL\<close> for more than one block of data, \<open>EXISTS\<close> for a name in use, and
  \<open>NOSPC\<close> only when the inodes, the data blocks or the directory entries have run out.
\<close>

theorem m16_write_file_spec:
  assumes "m16_clean dev" "fail_after dev < 0" "m16_write_file (Some name) (Some data) dev = (r, dev1)"
  shows "r = Inr () \<and> m16_clean dev1 \<and> fail_after dev1 < 0 \<and>
         m16_files (blocks dev1) = (m16_files (blocks dev))(m16_key name \<mapsto> data) \<and>
         m16_files (blocks dev) (m16_key name) = None \<and>
         0 < strlen_bounded name 32 \<and> strlen_bounded name 32 < 32 \<and> length data \<le> 512
    \<or> (\<exists>e. r = Inl e \<and> dev1 = dev \<and>
         (e = M16_E_TOOLONG \<and> \<not> (0 < strlen_bounded name 32 \<and> strlen_bounded name 32 < 32)
         \<or> e = M16_E_INVAL \<and> 512 < length data
         \<or> e = M16_E_EXISTS \<and> m16_files (blocks dev) (m16_key name) \<noteq> None
         \<or> e = M16_E_NOSPC \<and> ((\<forall>i. 1 \<le> i \<longrightarrow> i < 16 \<longrightarrow> m16_bitmap_get (blocks dev ! 18) i)
              \<or> (\<forall>i. 25 \<le> i \<longrightarrow> i < 128 \<longrightarrow> m16_bitmap_get (blocks dev ! 19) i)
              \<or> (\<forall>i < 12. de_used (disk_dir (blocks dev) ! i) \<noteq> 0))))"
  using assms(1)
proof (cases rule: write_file_cases [where name = name and data = data and stop = False])
  case (refused e)
  then show ?thesis using assms(3) by (auto simp: m16_write_file_def)
next
  case (accepted ino blk slot)
  let ?bs = "blocks dev" and ?g = "sb_clean_generation (dec_super (blocks dev ! 0))"
  have w: "m16_dev_ok dev" "ino < 16" "25 \<le> blk" "blk < 128" "journal_empty ?bs"
      "super_ok (dec_super (?bs ! 0))" "length ?bs = 128"
    using accepted(1) by (auto simp: write_alloc_def m16_clean_def m16_dev_ok_def)
  note tx1 = tx1_wf [OF w(1,2), of "length data" blk]
  note tx2 = tx2_wf [OF w(1,3,4) accepted(2,3), of ino slot]
  let ?d1 = "wrote dev (commit_writes (write_tx1 ?bs ino (length data) blk) (?g + 1) False)"
  let ?d2 = "wrote ?d1 (commit_writes (write_tx2 ?bs ino blk slot name data) (?g + 2) False)"
  have t1: "m16_journal_commit (write_tx1 ?bs ino (length data) blk) (?g + 1) False dev = (Inr (), ?d1)"
    by (rule commit_no_fault [OF tx1 w(1) assms(2)])
  note d1 = commit_success [OF tx1 w(1,5) t1]
  have f1: "fail_after ?d1 < 0" using assms(2) by (simp add: wrote_def)
  have t2: "m16_journal_commit (write_tx2 ?bs ino blk slot name data) (?g + 2) False ?d1 = (Inr (), ?d2)"
    by (rule commit_no_fault [OF tx2 _ f1]) (use d1 in simp)
  have "m16_dev_ok ?d2 \<and> journal_empty (blocks ?d2) \<and>
      same_home (blocks ?d2) (apply_writes (home_writes (write_tx2 ?bs ino blk slot name data)) (blocks ?d1))"
    using commit_success [OF tx2 _ _ t2] d1 by blast
  then have d2: "m16_dev_ok ?d2" "journal_empty (blocks ?d2)" "same_home (blocks ?d2) (after2 ?bs ino blk slot name data)"
    using same_home_trans same_home_apply d1 by blast+
  have "m16_clean ?d2 \<and> m16_files (blocks ?d2) = (m16_files ?bs)(m16_key name \<mapsto> data)"
    using clean_same_home [OF d2] after2_consistent [OF accepted(1-6)] w(6,7) by simp
  moreover have "r = Inr ()" "dev1 = ?d2"
    using accepted(7) t1 t2 assms(3) by (simp_all add: m16_write_file_def pthen_def pbind_def)
  moreover have "fail_after ?d2 < 0" using f1 by (simp add: wrote_def)
  moreover have "m16_files ?bs (m16_key name) = None" using accepted(6) by (simp add: m16_files_def)
  ultimately show ?thesis using accepted(2,3,8) by simp
qed

theorem m16_write_file_spec_witness:
  "\<exists>dev1. m16_write_file (Some sample_name) (Some [1, 2, 3]) sample_dev = (Inr (), dev1) \<and> m16_clean dev1
     \<and> m16_files (blocks dev1) (m16_key sample_name) = Some [1, 2, 3]"
proof -
  obtain r dev1 where w: "m16_write_file (Some sample_name) (Some [1, 2, 3]) sample_dev = (r, dev1)" by force
  show ?thesis
    using w m16_write_file_spec [OF sample_dev_clean(1,2) w] sample_name_len sample_dev_clean(3)
      sample_dev_space by auto
qed

text \<open>
  \<open>m16_read_file\<close> returns exactly the contents the abstract map gives: \<open>NOENT\<close> for a name that
  is not there, \<open>INVAL\<close> when the caller's buffer is too small, the contents otherwise; it never
  faults and never changes the disk of a clean file system. In particular what was written is
  what is read back.
\<close>

theorem m16_read_file_spec:
  assumes "m16_clean dev"
  shows "m16_read_file (Some name) (Some cap) dev =
    (case m16_files (blocks dev) (m16_key name) of
       None \<Rightarrow> Inl M16_E_NOENT
     | Some d \<Rightarrow> if cap < length d then Inl M16_E_INVAL else Inr d, dev)"
  by (rule read_file_run [OF assms])

theorem m16_read_file_spec_witness:
  "m16_read_file (Some sample_name) (Some 64) sample_dev = (Inl M16_E_NOENT, sample_dev)"
  using m16_read_file_spec [OF sample_dev_clean(1), of sample_name 64] sample_dev_clean(3) by simp

text \<open>
  \<open>m16_format\<close> on a 128-block device succeeds whatever the disk held, and leaves a clean file
  system with no files, which \<open>m16_fsck\<close> accepts.
\<close>

theorem m16_format_clean:
  assumes "total_blocks dev = 128" "fail_after dev < 0" "m16_format dev = (r, dev1)"
  shows "r = Inr () \<and> m16_clean dev1 \<and> m16_files (blocks dev1) = Map.empty \<and> m16_fsck dev1 = (Inr (), dev1)"
proof -
  have c: "r = Inr () \<and> m16_clean dev1 \<and> m16_files (blocks dev1) = Map.empty"
    using format_clean [OF assms] by simp
  then have "m16_fsck dev1 = (Inr (), dev1)" using fsck_run [of dev1] by (simp add: m16_clean_def)
  with c show ?thesis by simp
qed

theorem m16_format_clean_witness:
  "m16_fsck (snd (m16_format m16_dev_init)) = (Inr (), snd (m16_format m16_dev_init))"
  using m16_format_clean [of m16_dev_init "fst (m16_format m16_dev_init)" "snd (m16_format m16_dev_init)"]
  by (simp add: m16_dev_init_def)

end
