(* ===== verification/Journal_History.thy ===== *)
theory Journal_History
  imports Journal_Fs
begin

text \<open>
  Histories of the journaling file system (\<open>src/kernel/fs/mcsfs1j/m16_mcsfs_journal.c\<close>): file writes, reads and
  consistency checks in any order, with power losses between them and write faults inside them, those of a recovery included.
  The invariant \<open>recovers\<close> describes a disk that recovery will bring to given home contents, however often it is cut off;
  every operation keeps it, so that a history is one of a map from names to contents (an instance of \<open>call_refinement\<close>).
\<close>

section \<open>Disks on their way to given contents\<close>

definition home_ok :: "bytes list \<Rightarrow> bool" where
  "home_ok cs \<longleftrightarrow> length cs = 128 \<and> super_ok (dec_super (cs ! 0)) \<and> fsck_ok cs"

text \<open>The journal holds a committed transaction; some of its home writes may have been made.\<close>

definition pending :: "bytes list \<Rightarrow> bytes list \<Rightarrow> bool" where
  "pending bs cs \<longleftrightarrow> (\<exists>tx seq base j. wf_tx tx \<and> journal_holds tx seq base \<and> length base = 128 \<and>
     bs = apply_writes (take j (home_writes tx)) base \<and> same_home (apply_writes (home_writes tx) base) cs)"

definition settled :: "bytes list \<Rightarrow> bytes list \<Rightarrow> bool" where
  "settled bs cs \<longleftrightarrow> journal_empty bs \<and> same_home bs cs"

definition recovers :: "m16_blockdev \<Rightarrow> bytes list \<Rightarrow> bool" where
  "recovers dev cs \<longleftrightarrow> m16_dev_ok dev \<and> home_ok cs \<and> (settled (blocks dev) cs \<or> pending (blocks dev) cs)"

lemma settled_clean:
  assumes "m16_dev_ok dev" "home_ok cs" "settled (blocks dev) cs"
  shows "m16_clean dev" "m16_files (blocks dev) = m16_files cs"
  using clean_same_home [OF assms(1), of cs] assms(2,3) by (simp_all add: settled_def home_ok_def)

lemma clean_settled: "m16_clean dev \<Longrightarrow> home_ok (blocks dev) \<and> settled (blocks dev) (blocks dev)"
  by (simp add: m16_clean_def home_ok_def settled_def m16_dev_ok_def)

lemma clean_recovers: "m16_clean dev \<Longrightarrow> recovers dev (blocks dev)"
  using clean_settled [of dev] by (simp add: recovers_def m16_clean_def)

text \<open>Room for new files: so many inodes, data blocks and directory entries are free.\<close>

definition free_inodes :: "bytes list \<Rightarrow> nat set" where
  "free_inodes bs = {i \<in> {1..<16}. \<not> m16_bitmap_get (bs ! 18) i}"

definition free_data :: "bytes list \<Rightarrow> nat set" where
  "free_data bs = {b \<in> {25..<128}. \<not> m16_bitmap_get (bs ! 19) b}"

definition free_entries :: "bytes list \<Rightarrow> nat set" where
  "free_entries bs = {i \<in> {..<12}. de_used (disk_dir bs ! i) = 0}"

definition m16_room :: "bytes list \<Rightarrow> nat \<Rightarrow> bool" where
  "m16_room bs m \<longleftrightarrow> m \<le> card (free_inodes bs) \<and> m \<le> card (free_data bs) \<and> m \<le> card (free_entries bs)"

lemma card_less_one:
  assumes "m \<le> card X" "X - {x} \<subseteq> Y" "finite Y"
  shows "m - 1 \<le> card Y"
  using diff_card_le_card_Diff [of "{x}" X] card_mono [OF assms(3,2)] assms(1) by simp

lemma finite_free [simp]: "finite (free_inodes bs)" "finite (free_data bs)" "finite (free_entries bs)"
  by (simp_all add: free_inodes_def free_data_def free_entries_def)

lemma room_less:
  assumes "m16_room bs m" "free_inodes bs - {a} \<subseteq> free_inodes cs" "free_data bs - {b} \<subseteq> free_data cs" "free_entries bs - {c} \<subseteq> free_entries cs"
  shows "m16_room cs (m - 1)"
  using assms card_less_one [of m _ _ "free_inodes cs"] card_less_one [of m _ _ "free_data cs"] card_less_one [of m _ _ "free_entries cs"]
  by (auto simp: m16_room_def)

lemma room_write:
  assumes a: "write_alloc dev ino blk" "strlen_bounded name 32 < 32" "length data \<le> 512" "slot < 12" and r: "m16_room (blocks dev) m"
  shows "m16_room (after1 (blocks dev) ino (length data) blk) (m - 1)" "m16_room (after2 (blocks dev) ino blk slot name data) (m - 1)"
proof -
  have w: "m16_dev_ok dev" "ino < 16" "25 \<le> blk" "blk < 128" using a(1) by (auto simp: write_alloc_def m16_clean_def)
  note d1 = after1_disk [OF w(1,2), where sz = "length data" and blk = blk]
    and d2 = after2_disk [OF w a(2), where slot = slot and data = data]
  have "disk_dir (after1 (blocks dev) ino (length data) blk) = disk_dir (blocks dev)"
    using d1(4) [of 24] by (simp add: disk_dir_def del: dec_dir_disk)
  then show "m16_room (after1 (blocks dev) ino (length data) blk) (m - 1)"
    using d1(1,2) write_alloc_bits [OF a(1)]
    by (intro room_less [OF r, where a = ino and b = blk and c = slot]) (auto simp: free_inodes_def free_data_def free_entries_def)
  have "after2 (blocks dev) ino blk slot name data ! 18 = m16_bitmap_set (blocks dev ! 18) ino"
    "after2 (blocks dev) ino blk slot name data ! 19 = m16_bitmap_set (blocks dev ! 19) blk"
    using d1(1,2) d2(3) [of 18] d2(3) [of 19] w(3) by simp_all
  then show "m16_room (after2 (blocks dev) ino blk slot name data) (m - 1)"
    using d2(1) write_alloc_bits [OF a(1)]
    by (intro room_less [OF r, where a = ino and b = blk and c = slot]) (auto simp: free_inodes_def free_data_def free_entries_def)
qed

lemma room_mono: "m16_room bs m \<Longrightarrow> k \<le> m \<Longrightarrow> m16_room bs k"
  by (simp add: m16_room_def)

lemma room_some:
  assumes "m16_room bs m" "0 < m"
  obtains i b e where "i \<in> free_inodes bs" "b \<in> free_data bs" "e \<in> free_entries bs"
  using assms by (fastforce simp: m16_room_def dest: card_gt_0_iff [THEN iffD1, OF less_le_trans])

lemma same_home_m16_room: "same_home bs cs \<Longrightarrow> length cs = 128 \<Longrightarrow> m16_room bs m = m16_room cs m"
  using same_home_views [of bs cs] by (simp add: m16_room_def free_inodes_def free_data_def free_entries_def)

text \<open>A run of writes keeps the sign of the fault counter, and a fault is an I/O error.\<close>

lemma write_all_fault:
  assumes "\<forall>(l, b)\<in>set ws. m16_valid_lba dev l" "m16_write_all ws dev = (r, dev1)"
  obtains k where "k \<le> length ws" "dev1 = wrote dev (take k ws)" "r = Inr () \<longleftrightarrow> k = length ws"
    "r \<noteq> Inr () \<Longrightarrow> r = Inl M16_E_IO \<and> 0 \<le> fail_after dev" "fail_after dev1 < 0 \<longleftrightarrow> fail_after dev < 0"
proof (cases "fail_after dev < 0 \<or> int (length ws) \<le> fail_after dev")
  case True
  then show ?thesis using that [of "length ws"] write_all_run [OF assms(1)] assms(2) by (auto simp: wrote_def)
next
  case False
  then show ?thesis using that [of "nat (fail_after dev)"] write_all_run [OF assms(1)] assms(2) by (auto simp: wrote_def)
qed

section \<open>Recovery, with or without a fault\<close>

lemma recover_pending:
  assumes ok: "m16_dev_ok dev" and p: "pending (blocks dev) cs" and run: "m16_journal_recover dev = (r, dev1)"
  shows "m16_dev_ok dev1" "fail_after dev1 < 0 \<longleftrightarrow> fail_after dev < 0" "r = Inr () \<Longrightarrow> settled (blocks dev1) cs"
    "r \<noteq> Inr () \<Longrightarrow> r = Inl M16_E_IO \<and> 0 \<le> fail_after dev \<and> pending (blocks dev1) cs"
proof -
  obtain tx seq base j where tx: "wf_tx tx" "journal_holds tx seq base" "length base = 128"
    "blocks dev = apply_writes (take j (home_writes tx)) base" "same_home (apply_writes (home_writes tx) base) cs"
    using p by (auto simp: pending_def)
  have h: "journal_holds tx seq (blocks dev)"
    unfolding tx(4) using tx(2) home_writes_wf [OF tx(1)] by (intro journal_holds_apply wf_tx_length [OF tx(1)]) (auto dest: in_set_takeD)
  have home: "apply_writes (home_writes tx) (blocks dev) = apply_writes (home_writes tx) base"
    by (simp add: tx(4) apply_writes_prefix_absorb)
  have len: "length (blocks dev) = 128" using tx(3,4) by simp
  let ?ws = "home_writes tx @ [clear_write]"
  have "\<forall>(l, b)\<in>set ?ws. m16_valid_lba dev l" using home_writes_wf [OF tx(1)] ok by (auto simp: clear_write_def)
  from write_all_fault [OF this] recover_committed [OF h tx(1) ok] run obtain k where
    k: "k \<le> length ?ws" "dev1 = wrote dev (take k ?ws)" "r = Inr () \<longleftrightarrow> k = length ?ws"
      "r \<noteq> Inr () \<Longrightarrow> r = Inl M16_E_IO \<and> 0 \<le> fail_after dev" "fail_after dev1 < 0 \<longleftrightarrow> fail_after dev < 0" by metis
  show "fail_after dev1 < 0 \<longleftrightarrow> fail_after dev < 0" by (rule k(5))
  show "m16_dev_ok dev1"
    unfolding k(2) using home_writes_wf [OF tx(1)] ok by (intro dev_ok_wrote) (auto dest: in_set_takeD simp: clear_write_def)
  show "settled (blocks dev1) cs" if "r = Inr ()"
  proof -
    have "blocks dev1 = (apply_writes (home_writes tx) base)[1 := enc_header zero_header]"
      using k(2,3) that home by (simp add: clear_write_def)
    then show ?thesis using tx(3,5) by (simp add: settled_def journal_empty_cleared same_home_update)
  qed
  show "r = Inl M16_E_IO \<and> 0 \<le> fail_after dev \<and> pending (blocks dev1) cs" if "r \<noteq> Inr ()"
  proof -
    have "take k ?ws = take k (home_writes tx)" using k(1,3) that by simp
    then have "blocks dev1 = apply_writes (take k (home_writes tx)) (blocks dev)" using k(2) by simp
    then have "pending (blocks dev1) cs" unfolding pending_def using tx(1,5) h home len by metis
    then show ?thesis using k(4) that by blast
  qed
qed

lemma recover_step:
  assumes "recovers dev cs" "m16_journal_recover dev = (r, dev1)"
  shows "recovers dev1 cs" "fail_after dev1 < 0 \<longleftrightarrow> fail_after dev < 0"
    "r = Inr () \<Longrightarrow> m16_clean dev1 \<and> m16_files (blocks dev1) = m16_files cs \<and> same_home (blocks dev1) cs"
    "r \<noteq> Inr () \<Longrightarrow> r = Inl M16_E_IO \<and> 0 \<le> fail_after dev"
proof -
  have ok: "m16_dev_ok dev" "home_ok cs" using assms(1) by (simp_all add: recovers_def)
  have "recovers dev1 cs \<and> (fail_after dev1 < 0 \<longleftrightarrow> fail_after dev < 0) \<and> (r = Inr () \<longrightarrow> m16_dev_ok dev1 \<and> settled (blocks dev1) cs) \<and>
      (r \<noteq> Inr () \<longrightarrow> r = Inl M16_E_IO \<and> 0 \<le> fail_after dev)"
  proof (cases "settled (blocks dev) cs")
    case True
    then show ?thesis using recover_empty [of dev] assms ok by (simp add: settled_def)
  next
    case False
    then have p: "pending (blocks dev) cs" using assms(1) by (simp add: recovers_def)
    show ?thesis using recover_pending [OF ok(1) p assms(2)] ok(2) by (auto simp: recovers_def)
  qed
  then show "recovers dev1 cs" "fail_after dev1 < 0 \<longleftrightarrow> fail_after dev < 0"
    "r = Inr () \<Longrightarrow> m16_clean dev1 \<and> m16_files (blocks dev1) = m16_files cs \<and> same_home (blocks dev1) cs"
    "r \<noteq> Inr () \<Longrightarrow> r = Inl M16_E_IO \<and> 0 \<le> fail_after dev"
    using settled_clean [of dev1 cs] ok(2) by (auto simp: settled_def)
qed

text \<open>Every operation mounts first; on a disk that is not clean, mounting is where recovery happens.\<close>

lemma mount_step:
  assumes "recovers dev cs"
  obtains (io) dev1 where "m16_mount dev = (Inl M16_E_IO, dev1)" "recovers dev1 cs" "0 \<le> fail_after dev" "0 \<le> fail_after dev1"
  | (up) dev1 sb where "m16_mount dev = (Inr sb, dev1)" "m16_mount dev1 = (Inr sb, dev1)" "m16_clean dev1"
      "m16_files (blocks dev1) = m16_files cs" "fail_after dev1 < 0 \<longleftrightarrow> fail_after dev < 0" "same_home (blocks dev1) cs"
proof -
  obtain r dev1 where run: "m16_journal_recover dev = (r, dev1)" by force
  note st = recover_step [OF assms run]
  show thesis
  proof (cases "r = Inr ()")
    case True
    have c: "m16_clean dev1" "m16_files (blocks dev1) = m16_files cs" "same_home (blocks dev1) cs" using st(3) [OF True] by simp_all
    then have "super_ok (dec_super (blocks dev1 ! 0))" "m16_dev_ok dev1" by (simp_all add: m16_clean_def)
    then have "m16_mount dev = (Inr (dec_super (blocks dev1 ! 0)), dev1)"
      using run True by (simp add: m16_mount_def prog_run Let_def super_ok_def)
    then show thesis using up clean_mount [OF c(1)] c st(2) by blast
  next
    case False
    then have "m16_mount dev = (Inl M16_E_IO, dev1)" using run st(4) by (simp add: m16_mount_def prog_run)
    then show thesis using io st False by (metis not_le)
  qed
qed

lemma pbind_mount: "m16_mount dev = (Inr sb, dev1) \<Longrightarrow> m16_mount dev1 = (Inr sb, dev1) \<Longrightarrow> pbind m16_mount f dev = pbind m16_mount f dev1"
  by (simp add: pbind_def)

lemma pbind_mount_io: "m16_mount dev = (Inl e, dev1) \<Longrightarrow> pbind m16_mount f dev = (Inl e, dev1)"
  by (simp add: pbind_def)

section \<open>Commits, with or without a fault\<close>

lemma commit_step:
  assumes tx: "wf_tx tx" and ok: "m16_dev_ok dev" "settled (blocks dev) cs"
    and home: "home_ok cs" "home_ok cs'" "same_home (apply_writes (home_writes tx) (blocks dev)) cs'"
    and run: "m16_journal_commit tx seq stop dev = (r, dev1)"
  shows "fail_after dev1 < 0 \<longleftrightarrow> fail_after dev < 0" "r \<noteq> Inr () \<Longrightarrow> r = Inl M16_E_IO \<and> 0 \<le> fail_after dev"
    "recovers dev1 cs' \<or> r \<noteq> Inr () \<and> recovers dev1 cs" "m16_dev_ok dev1" "r = Inr () \<Longrightarrow> \<not> stop \<Longrightarrow> settled (blocks dev1) cs'"
proof -
  let ?ws = "commit_writes tx seq stop"
  have len: "length (blocks dev) = 128" and je: "journal_empty (blocks dev)" and sh: "same_home (blocks dev) cs"
    using ok by (simp_all add: m16_dev_ok_def settled_def)
  have v: "\<forall>(l, b)\<in>set ?ws. m16_valid_lba dev l" using commit_writes_valid [OF tx, of seq stop] ok(1) by auto
  have "m16_write_all ?ws dev = (r, dev1)" using run commit_as_writes [of tx seq stop] wf_tx_length [OF tx] by simp
  from write_all_fault [OF v this] obtain k where
    k: "k \<le> length ?ws" "dev1 = wrote dev (take k ?ws)" "r = Inr () \<longleftrightarrow> k = length ?ws"
      "r \<noteq> Inr () \<Longrightarrow> r = Inl M16_E_IO \<and> 0 \<le> fail_after dev" "fail_after dev1 < 0 \<longleftrightarrow> fail_after dev < 0" by metis
  show "fail_after dev1 < 0 \<longleftrightarrow> fail_after dev < 0" "r \<noteq> Inr () \<Longrightarrow> r = Inl M16_E_IO \<and> 0 \<le> fail_after dev" using k(4,5) by blast+
  show ok': "m16_dev_ok dev1"
    unfolding k(2) using commit_writes_valid [OF tx, of seq stop] ok(1) by (intro dev_ok_wrote) (auto dest: in_set_takeD)
  have b: "blocks dev1 = apply_writes (take k ?ws) (blocks dev)" using k(2) by simp
  show "recovers dev1 cs' \<or> r \<noteq> Inr () \<and> recovers dev1 cs"
    using tx len je k(1)
  proof (cases rule: commit_prefix_cases)
    case old
    then have "settled (blocks dev1) cs" using same_home_trans [OF _ sh] by (simp add: settled_def b)
    then show ?thesis using old(3) k(3) ok' home(1) by (simp add: recovers_def)
  next
    case (logged base j)
    have "same_home (apply_writes (home_writes tx) base) cs'" using same_home_trans [OF same_home_apply [OF logged(2)] home(3)] .
    then have "pending (blocks dev1) cs'" unfolding pending_def b using tx logged(1,3,4) by blast
    then show ?thesis using ok' home(2) by (simp add: recovers_def)
  next
    case finished
    then have "settled (blocks dev1) cs'" using same_home_trans [OF _ home(3)] by (simp add: settled_def b)
    then show ?thesis using ok' home(2) by (simp add: recovers_def)
  qed
  show "settled (blocks dev1) cs'" if "r = Inr ()" "\<not> stop"
    using tx len je k(1)
  proof (cases rule: commit_prefix_cases)
    case finished
    then show ?thesis using same_home_trans [OF _ home(3)] by (simp add: settled_def b)
  qed (use that k(3) in auto)
qed

section \<open>Operations of a history\<close>

datatype m16_op = J_Write bytes bytes bool | J_Read bytes nat | J_Fsck | J_Recover | J_Power int

definition m16_call :: "m16_op \<Rightarrow> m16_blockdev \<Rightarrow> (m16_err + bytes) \<times> m16_blockdev" where
  "m16_call op dev = (case op of
     J_Write name data stop \<Rightarrow> pthen (m16_write_file_ex (Some name) (Some data) stop) (pret []) dev
   | J_Read name cap \<Rightarrow> m16_read_file (Some name) (Some cap) dev
   | J_Fsck \<Rightarrow> pthen m16_fsck (pret []) dev
   | J_Recover \<Rightarrow> pthen m16_journal_recover (pret []) dev
   | J_Power n \<Rightarrow> (Inr [], dev\<lparr>fail_after := n\<rparr>))"

text \<open>
  The state of the specification: the files, whether the device is free of faults, and the number of writes that succeeded or
  were interrupted. An I/O error is possible only while there is a fault; an interrupted write is then in the map or not, and nothing
  else changes. The first twelve writes find room: there are twelve directory entries, fifteen inodes and 103 data blocks, and an
  interrupted write costs at most one of each.
\<close>

type_synonym m16_abs = "(bytes \<Rightarrow> bytes option) \<times> bool \<times> nat"

fun m16_spec :: "m16_abs \<Rightarrow> m16_op \<Rightarrow> m16_err + bytes \<Rightarrow> m16_abs \<Rightarrow> bool" where
  "m16_spec (M, up, n) (J_Write name data stop) r a' =
     (let k = m16_key name; named = (0 < strlen_bounded name 32 \<and> strlen_bounded name 32 < 32);
          new = (named \<and> length data \<le> 512 \<and> M k = None)
      in r = Inr [] \<and> new \<and> a' = (M(k \<mapsto> data), up, Suc n)
       \<or> r = Inl M16_E_TOOLONG \<and> \<not> named \<and> a' = (M, up, n)
       \<or> r = Inl M16_E_INVAL \<and> named \<and> 512 < length data \<and> a' = (M, up, n)
       \<or> r = Inl M16_E_EXISTS \<and> named \<and> M k \<noteq> None \<and> a' = (M, up, n)
       \<or> r = Inl M16_E_NOSPC \<and> new \<and> 12 \<le> n \<and> a' = (M, up, n)
       \<or> r = Inl M16_E_IO \<and> \<not> up \<and> (a' = (M, up, Suc n) \<or> new \<and> a' = (M(k \<mapsto> data), up, Suc n)))"
| "m16_spec (M, up, n) (J_Read name cap) r a' =
     (a' = (M, up, n) \<and> (r = (case M (m16_key name) of None \<Rightarrow> Inl M16_E_NOENT
        | Some d \<Rightarrow> if cap < length d then Inl M16_E_INVAL else Inr d) \<or> r = Inl M16_E_IO \<and> \<not> up))"
| "m16_spec (M, up, n) J_Fsck r a' = (a' = (M, up, n) \<and> (r = Inr [] \<or> r = Inl M16_E_IO \<and> \<not> up))"
| "m16_spec (M, up, n) J_Recover r a' = (a' = (M, up, n) \<and> (r = Inr [] \<or> r = Inl M16_E_IO \<and> \<not> up))"
| "m16_spec (M, up, n) (J_Power k) r a' = (r = Inr [] \<and> a' = (M, k < 0, n))"

definition m16_rel :: "m16_blockdev \<Rightarrow> m16_abs \<Rightarrow> bool" where
  "m16_rel dev a \<longleftrightarrow> (\<exists>cs n. recovers dev cs \<and> m16_room cs (12 - n) \<and> a = (m16_files cs, fail_after dev < 0, n))"

lemma m16_relI: "recovers dev cs \<Longrightarrow> m16_room cs (12 - n) \<Longrightarrow> m16_files cs = M \<Longrightarrow> up = (fail_after dev < 0) \<Longrightarrow> m16_rel dev (M, up, n)"
  by (auto simp: m16_rel_def)

lemma m16_rel_Suc: "m16_rel dev (M, up, n) \<Longrightarrow> m16_rel dev (M, up, Suc n)"
  unfolding m16_rel_def using room_mono [of _ "12 - n" "12 - Suc n"] by auto

lemma clean_rel: "m16_clean dev \<Longrightarrow> m16_room (blocks dev) (12 - n) \<Longrightarrow> m16_files (blocks dev) = M \<Longrightarrow> up = (fail_after dev < 0) \<Longrightarrow> m16_rel dev (M, up, n)"
  by (rule m16_relI [OF clean_recovers])

section \<open>Every operation keeps the invariant\<close>

text \<open>A write that is accepted is two commits, each of which a fault can cut off.\<close>

lemma write_commits_step:
  assumes a: "write_alloc dev ino blk" "strlen_bounded name 32 < 32" "length data \<le> 512" "slot < 12"
      "de_used (disk_dir (blocks dev) ! slot) = 0" "file_slot (disk_dir (blocks dev)) (m16_key name) = None"
    and room: "m16_room (blocks dev) (12 - n)"
    and run: "pthen (m16_journal_commit (write_tx1 (blocks dev) ino (length data) blk) g1 False)
      (m16_journal_commit (write_tx2 (blocks dev) ino blk slot name data) g2 stop) dev = (r, dev2)"
  defines "M \<equiv> m16_files (blocks dev)" and "up \<equiv> fail_after dev < 0"
  shows "m16_rel dev2 (M(m16_key name \<mapsto> data), up, Suc n) \<or> r \<noteq> Inr () \<and> m16_rel dev2 (M, up, Suc n)"
    and "r \<noteq> Inr () \<Longrightarrow> r = Inl M16_E_IO \<and> \<not> up"
proof -
  let ?bs = "blocks dev" and ?tx1 = "write_tx1 (blocks dev) ino (length data) blk" and ?tx2 = "write_tx2 (blocks dev) ino blk slot name data"
  let ?bs1 = "after1 ?bs ino (length data) blk" and ?bs2 = "after2 ?bs ino blk slot name data"
  have w: "m16_clean dev" "m16_dev_ok dev" "ino < 16" "25 \<le> blk" "blk < 128" "length ?bs = 128"
    using a(1) by (auto simp: write_alloc_def m16_clean_def m16_dev_ok_def)
  note c0 = clean_settled [OF w(1)]
  note c1 = after1_consistent [OF a(1), of "length data"] and c2 = after2_consistent [OF a]
  have h: "home_ok ?bs1" "home_ok ?bs2" using c0 c1 c2 by (simp_all add: home_ok_def)
  have rooms: "m16_room ?bs (12 - Suc n)" "m16_room ?bs1 (12 - Suc n)" "m16_room ?bs2 (12 - Suc n)"
    using room_mono [OF room, of "12 - Suc n"] room_write [OF a(1-4) room] by simp_all
  note tx = tx1_wf [OF w(2,3), of "length data" blk] tx2_wf [OF w(2,4,5) a(2,3), of ino slot]
  obtain r1 d1 where t1: "m16_journal_commit ?tx1 g1 False dev = (r1, d1)" by force
  note s1 = commit_step [OF tx(1) w(2) c0 [THEN conjunct2] c0 [THEN conjunct1] h(1) same_home_refl t1]
  have up: "up = (fail_after d1 < 0)" using s1(1) up_def by simp
  have "(m16_rel dev2 (M(m16_key name \<mapsto> data), up, Suc n) \<or> r \<noteq> Inr () \<and> m16_rel dev2 (M, up, Suc n)) \<and>
      (r \<noteq> Inr () \<longrightarrow> r = Inl M16_E_IO \<and> \<not> up)"
  proof (cases "r1 = Inr ()")
    case False
    then have "r = r1" "dev2 = d1" using t1 s1(2) run by (auto simp: pthen_def pbind_def)
    moreover have "m16_rel d1 (M, up, Suc n)"
      using s1(3) m16_relI [OF _ rooms(1) _ up] m16_relI [OF _ rooms(2) _ up] c1(2) M_def by auto
    ultimately show ?thesis using False s1(2) up_def by auto
  next
    case True
    have t2: "m16_journal_commit ?tx2 g2 stop d1 = (r, dev2)" using t1 run True by (simp add: pthen_def pbind_def)
    have "settled (blocks d1) ?bs1" using s1(5) True by simp
    moreover have "same_home (apply_writes (home_writes ?tx2) (blocks d1)) ?bs2"
      using calculation by (simp add: settled_def same_home_apply)
    ultimately have s2: "fail_after dev2 < 0 \<longleftrightarrow> fail_after d1 < 0" "r \<noteq> Inr () \<Longrightarrow> r = Inl M16_E_IO \<and> 0 \<le> fail_after d1"
      "recovers dev2 ?bs2 \<or> r \<noteq> Inr () \<and> recovers dev2 ?bs1" using commit_step [OF tx(2) s1(4) _ h _ t2] by auto
    have up2: "up = (fail_after dev2 < 0)" using s2(1) up by simp
    have "m16_rel dev2 (M(m16_key name \<mapsto> data), up, Suc n) \<or> r \<noteq> Inr () \<and> m16_rel dev2 (M, up, Suc n)"
      using s2(3) m16_relI [OF _ rooms(2) _ up2] m16_relI [OF _ rooms(3) _ up2] c1(2) c2(2) M_def by auto
    then show ?thesis using s2(2) up by auto
  qed
  then show "m16_rel dev2 (M(m16_key name \<mapsto> data), up, Suc n) \<or> r \<noteq> Inr () \<and> m16_rel dev2 (M, up, Suc n)"
    "r \<noteq> Inr () \<Longrightarrow> r = Inl M16_E_IO \<and> \<not> up" by blast+
qed

lemma write_clean_step:
  assumes c: "m16_clean dev" and room: "m16_room (blocks dev) (12 - n)"
    and run: "m16_write_file_ex (Some name) (Some data) stop dev = (r, dev1)"
    and v: "0 < strlen_bounded name 32" "strlen_bounded name 32 < 32" and d: "length data \<le> 512"
  obtains a' where "m16_spec (m16_files (blocks dev), fail_after dev < 0, n) (J_Write name data stop) (map_sum id (\<lambda>_. []) r) a'"
    "m16_rel dev1 a'"
proof (cases "m16_files (blocks dev) (m16_key name)")
  let ?M = "m16_files (blocks dev)" and ?up = "fail_after dev < 0"
  case (Some old)
  then obtain i where "file_slot (disk_dir (blocks dev)) (m16_key name) = Some i" by (auto simp: m16_files_def)
  then have "m16_write_file_ex (Some name) (Some data) stop dev = (Inl M16_E_EXISTS, dev)"
    using v d cleanD [OF c] clean_mount [OF c]
    by (simp add: m16_write_file_ex_def pthen_def pbind_def pret_def pfail_def plift_def pguard_apply Let_def find_dirent_slot)
  then show ?thesis using that [of "(?M, ?up, n)"] run Some v clean_rel [OF c room] by (simp add: Let_def)
next
  let ?M = "m16_files (blocks dev)" and ?up = "fail_after dev < 0"
  case None
  from c show ?thesis
  proof (cases rule: write_file_cases [where name = name and data = data and stop = stop])
    case (refused e)
    then have e: "r = Inl M16_E_NOSPC" "dev1 = dev" using v d None run by auto
    have "\<not> 0 < 12 - n"
    proof
      assume "0 < 12 - n"
      with room obtain i b s where "i \<in> free_inodes (blocks dev)" "b \<in> free_data (blocks dev)" "s \<in> free_entries (blocks dev)"
        by (rule room_some)
      then have "\<not> (\<forall>i. 1 \<le> i \<longrightarrow> i < 16 \<longrightarrow> m16_bitmap_get (blocks dev ! 18) i)"
        "\<not> (\<forall>i. 25 \<le> i \<longrightarrow> i < 128 \<longrightarrow> m16_bitmap_get (blocks dev ! 19) i)"
        "\<not> (\<forall>i < 12. de_used (disk_dir (blocks dev) ! i) \<noteq> 0)"
        by (auto simp: free_inodes_def free_data_def free_entries_def)
      then show False using refused(2) None v d by (elim disjE conjE) simp_all
    qed
    then show ?thesis using that [of "(?M, ?up, n)"] e None v d clean_rel [OF c room] by (simp add: Let_def)
  next
    case (accepted ino blk slot)
    note st = write_commits_step [OF accepted(1-6) room run [unfolded accepted(7)]]
    from st(1) show ?thesis
    proof (elim disjE conjE)
      assume rel: "m16_rel dev1 (?M(m16_key name \<mapsto> data), ?up, Suc n)"
      have "r = Inr () \<or> r = Inl M16_E_IO \<and> \<not> ?up" using st(2) by blast
      then have "m16_spec (?M, ?up, n) (J_Write name data stop) (map_sum id (\<lambda>_. []) r) (?M(m16_key name \<mapsto> data), ?up, Suc n)"
        using None v d by (elim disjE conjE) (simp_all add: Let_def)
      then show ?thesis using rel by (rule that)
    next
      assume "r \<noteq> Inr ()" "m16_rel dev1 (?M, ?up, Suc n)"
      then show ?thesis using that [of "(?M, ?up, Suc n)"] st(2) by (simp add: Let_def)
    qed
  qed
qed

text \<open>On a disk that is not clean the mount comes first; the rest runs on the clean disk it leaves, or not at all.\<close>

lemma mount_first:
  assumes rel: "m16_rel dev (M, up, n)" and f: "\<And>d. p d = pbind m16_mount f d" and run: "p dev = (r, dev1)"
  obtains (io) "r = Inl M16_E_IO" "\<not> up" "m16_rel dev1 (M, up, n)"
  | (clean) d1 where "p d1 = (r, dev1)" "m16_clean d1" "m16_files (blocks d1) = M" "fail_after d1 < 0 \<longleftrightarrow> up" "m16_room (blocks d1) (12 - n)"
proof -
  obtain cs where cs: "recovers dev cs" "m16_room cs (12 - n)" and M: "M = m16_files cs" and up: "up = (fail_after dev < 0)"
    using rel by (auto simp: m16_rel_def)
  from cs(1) show thesis
  proof (cases rule: mount_step)
    case (io d1)
    have "r = Inl M16_E_IO" "dev1 = d1" using run f [of dev] io(1) by (simp_all add: pbind_mount_io)
    then show thesis using that(1) m16_relI [OF io(2) cs(2), of M up] M up io(3,4) by simp
  next
    case (up d1 sb)
    have "p d1 = p dev" unfolding f by (rule pbind_mount [OF up(1,2), symmetric])
    then have "p d1 = (r, dev1)" using run by simp
    moreover have "m16_room (blocks d1) (12 - n)" using same_home_m16_room [OF up(6)] cs by (simp add: recovers_def home_ok_def)
    ultimately show thesis using that(2) up(3-5) M \<open>up = _\<close> by simp
  qed
qed

lemma write_step:
  assumes rel: "m16_rel dev (M, up, n)" and run: "m16_write_file_ex (Some name) (Some data) stop dev = (r, dev1)"
  obtains a' where "m16_spec (M, up, n) (J_Write name data stop) (map_sum id (\<lambda>_. []) r) a'" "m16_rel dev1 a'"
proof -
  let ?named = "0 < strlen_bounded name 32 \<and> strlen_bounded name 32 < 32"
  consider (name) "\<not> ?named" | (size) "?named" "512 < length data" | (ok) "?named" "length data \<le> 512" by linarith
  then show thesis
  proof cases
    case name
    then have "r = Inl M16_E_TOOLONG" "dev1 = dev" using run by (auto simp: m16_write_file_ex_def pthen_def pbind_def pfail_def pguard_apply Let_def)
    then show thesis using that [of "(M, up, n)"] rel name by (simp add: Let_def)
  next
    case size
    then have "r = Inl M16_E_INVAL" "dev1 = dev"
      using run by (auto simp: m16_write_file_ex_def pthen_def pbind_def pret_def pfail_def pguard_apply Let_def)
    then show thesis using that [of "(M, up, n)"] rel size by (simp add: Let_def)
  next
    case ok
    then obtain f where "m16_write_file_ex (Some name) (Some data) stop d = pbind m16_mount f d" for d
      by (simp add: m16_write_file_ex_def pthen_def pguard_apply pbind_def pret_def Let_def)
    from rel this run show thesis
    proof (cases rule: mount_first)
      case io
      then show thesis using that [of "(M, up, Suc n)"] m16_rel_Suc by (simp add: Let_def)
    next
      case (clean d1)
      from write_clean_step [OF clean(2,5,1)] ok that clean(3,4) show thesis by auto
    qed
  qed
qed

lemma read_step:
  assumes rel: "m16_rel dev (M, up, n)" and run: "m16_read_file (Some name) (Some cap) dev = (r, dev1)"
  shows "m16_spec (M, up, n) (J_Read name cap) r (M, up, n) \<and> m16_rel dev1 (M, up, n)"
proof -
  obtain f where "m16_read_file (Some name) (Some cap) d = pbind m16_mount f d" for d by (simp add: m16_read_file_def)
  from rel this run show ?thesis
  proof (cases rule: mount_first)
    case (clean d1)
    then show ?thesis using read_file_run [OF clean(2)] clean_rel [OF clean(2,5)] by auto
  qed simp
qed

lemma fsck_step:
  assumes rel: "m16_rel dev (M, up, n)" and run: "m16_fsck dev = (r, dev1)"
  shows "m16_spec (M, up, n) J_Fsck (map_sum id (\<lambda>_. []) r) (M, up, n) \<and> m16_rel dev1 (M, up, n)"
proof -
  obtain f where "m16_fsck d = pbind m16_mount f d" for d by (simp add: m16_fsck_def)
  from rel this run show ?thesis
  proof (cases rule: mount_first)
    case (clean d1)
    then show ?thesis using fsck_run [of d1] clean_rel [OF clean(2,5)] by (auto simp: m16_clean_def)
  qed simp
qed

lemma recover_call_step:
  assumes rel: "m16_rel dev (M, up, n)" and run: "m16_journal_recover dev = (r, dev1)"
  shows "m16_spec (M, up, n) J_Recover (map_sum id (\<lambda>_. []) r) (M, up, n) \<and> m16_rel dev1 (M, up, n)"
proof -
  obtain cs where cs: "recovers dev cs" "m16_room cs (12 - n)" "M = m16_files cs" "up = (fail_after dev < 0)" using rel by (auto simp: m16_rel_def)
  note st = recover_step [OF cs(1) run]
  then show ?thesis using cs m16_relI [OF st(1) cs(2)] by (cases r) auto
qed

lemma power_step: "m16_rel dev (M, up, n) \<Longrightarrow> m16_rel (dev\<lparr>fail_after := k\<rparr>) (M, k < 0, n)"
  by (auto simp: m16_rel_def recovers_def m16_dev_ok_def)

lemma pthen_ret_map: "pthen p (pret []) dev = (map_sum id (\<lambda>_. []) (fst (p dev)), snd (p dev))"
  by (cases "p dev"; cases "fst (p dev)") (auto simp: pthen_def pbind_def pret_def)

interpretation m16: call_refinement m16_call m16_spec "\<lambda>_ _. True" m16_rel
proof unfold_locales
  fix dev dev1 :: m16_blockdev and a op r
  assume rel: "m16_rel dev a" and run: "m16_call op dev = (r, dev1)"
  obtain M up n where a: "a = (M, up, n)" by (cases a) blast
  show "\<exists>a'. m16_spec a op r a' \<and> m16_rel dev1 a'"
  proof (cases op)
    case (J_Write name data stop)
    obtain r' where "m16_write_file_ex (Some name) (Some data) stop dev = (r', dev1)" "r = map_sum id (\<lambda>_. []) r'"
      using run by (cases "m16_write_file_ex (Some name) (Some data) stop dev") (simp add: J_Write m16_call_def pthen_ret_map)
    with write_step [OF rel [unfolded a]] show ?thesis unfolding J_Write a by blast
  next
    case (J_Read name cap)
    then show ?thesis using run read_step [OF rel [unfolded a]] unfolding a by (simp only: m16_call_def m16_op.case) blast
  next
    case J_Fsck
    obtain r' where "m16_fsck dev = (r', dev1)" "r = map_sum id (\<lambda>_. []) r'"
      using run by (cases "m16_fsck dev") (simp add: J_Fsck m16_call_def pthen_ret_map)
    with fsck_step [OF rel [unfolded a]] show ?thesis unfolding J_Fsck a by blast
  next
    case J_Recover
    obtain r' where "m16_journal_recover dev = (r', dev1)" "r = map_sum id (\<lambda>_. []) r'"
      using run by (cases "m16_journal_recover dev") (simp add: J_Recover m16_call_def pthen_ret_map)
    with recover_call_step [OF rel [unfolded a]] show ?thesis unfolding J_Recover a by blast
  next
    case (J_Power n)
    then show ?thesis using run power_step [OF rel [unfolded a]] a by (auto simp: m16_call_def)
  qed
qed

section \<open>Histories\<close>

lemma card_upt_prefix: "{a..<b} \<subseteq> X \<Longrightarrow> finite X \<Longrightarrow> b - a \<le> card X" for a b :: nat
  using card_mono [of X "{a..<b}"] by simp

lemma format_m16_room: "m16_room format_blocks 12"
proof -
  have z: "\<not> m16_bitmap_get (replicate 512 0) i" if "i < 4096" for i
    using that by (simp add: m16_bitmap_get_def)
  have "{1..<13} \<subseteq> free_inodes format_blocks" "{25..<37} \<subseteq> free_data format_blocks" "{0..<12} \<subseteq> free_entries format_blocks"
    using z zero_dir_unused
    by (auto simp: free_inodes_def free_data_def free_entries_def format_disk m16_bm.tst_st m16_bm.tst_fold_st simp del: upt_rec_numeral)
  from this [THEN card_upt_prefix] show ?thesis by (simp add: m16_room_def)
qed

lemma format_rel:
  assumes "total_blocks dev = 128" "fail_after dev < 0"
  shows "m16_rel (snd (m16_format dev)) (Map.empty, True, 0)"
proof -
  have "blocks (snd (m16_format dev)) = format_blocks" using format_run [OF assms] by (simp add: format_blocks_def)
  then show ?thesis using format_clean [OF assms surjective_pairing] format_m16_room by (intro clean_rel) simp_all
qed

lemma rel_recovers:
  assumes "m16_rel dev (M, up, n)"
  obtains dev1 where "m16_journal_recover (m16_power_cycle dev) = (Inr (), dev1)" "m16_clean dev1" "m16_files (blocks dev1) = M"
proof -
  obtain cs where cs: "recovers (m16_power_cycle dev) cs" "M = m16_files cs" using assms by (auto simp: m16_rel_def recovers_def)
  obtain r dev1 where r: "m16_journal_recover (m16_power_cycle dev) = (r, dev1)" by force
  show thesis using that [of dev1] recover_step [OF cs(1) r] cs(2) r by auto
qed

text \<open>
  C1. From \<open>m16_format\<close> on, any sequence of writes, reads, checks and recoveries, with faults injected and power lost anywhere
  (also in the middle of a recovery), behaves like a map from names to contents: each call gives what \<open>m16_spec\<close> allows, an I/O
  error only while a fault is armed, a full volume only after twelve writes, and an interrupted write is there as a whole or
  not at all. Whenever the sequence ends, a power cycle and \<open>m16_journal_recover\<close> bring back a consistent disk with exactly the
  files of that map.
\<close>

theorem m16_history_refines:
  assumes "total_blocks dev = 128" "fail_after dev < 0"
  shows "\<exists>rs dev1 M up n dev2. run_calls m16_call ops (snd (m16_format dev)) = (rs, dev1) \<and>
    calls_spec m16_spec (Map.empty, True, 0) ops rs (M, up, n) \<and>
    m16_journal_recover (m16_power_cycle dev1) = (Inr (), dev2) \<and> m16_clean dev2 \<and> m16_files (blocks dev2) = M"
proof -
  from format_rel [OF assms] calls_pre_True obtain rs dev1 a where calls: "run_calls m16_call ops (snd (m16_format dev)) = (rs, dev1)"
      "calls_spec m16_spec (Map.empty, True, 0) ops rs a" "m16_rel dev1 a"
    by (rule m16.calls_refine)
  obtain M up n where a: "a = (M, up, n)" by (cases a) blast
  obtain dev2 where "m16_journal_recover (m16_power_cycle dev1) = (Inr (), dev2)" "m16_clean dev2" "m16_files (blocks dev2) = M"
    using rel_recovers [OF calls(3) [unfolded a]] .
  with calls(1,2) a show ?thesis by (intro exI conjI) simp_all
qed

text \<open>A write cut off inside its second transaction, a look at the disk while the device still fails, and one after the power is back.\<close>

theorem m16_history_refines_witness:
  "\<exists>rs dev1 M dev2. run_calls m16_call
      [J_Power 14, J_Write sample_name [1, 2, 3] False, J_Read sample_name 8, J_Power (-1), J_Read sample_name 8, J_Fsck]
      (snd (m16_format m16_dev_init)) = (rs, dev1) \<and> length rs = 6 \<and> rs ! 5 = Inr [] \<and>
    m16_journal_recover (m16_power_cycle dev1) = (Inr (), dev2) \<and> m16_files (blocks dev2) = M \<and>
    (M = Map.empty \<and> rs ! 4 = Inl M16_E_NOENT \<or> M = [m16_key sample_name \<mapsto> [1, 2, 3]] \<and> rs ! 4 = Inr [1, 2, 3])"
proof -
  let ?ops = "[J_Power 14, J_Write sample_name [1, 2, 3] False, J_Read sample_name 8, J_Power (-1), J_Read sample_name 8, J_Fsck]"
  obtain rs dev1 M up n dev2 where h: "run_calls m16_call ?ops (snd (m16_format m16_dev_init)) = (rs, dev1)"
    "calls_spec m16_spec (Map.empty, True, 0) ?ops rs (M, up, n)"
    "m16_journal_recover (m16_power_cycle dev1) = (Inr (), dev2)" "m16_clean dev2" "m16_files (blocks dev2) = M"
    using m16_history_refines [of m16_dev_init ?ops] by (auto simp: m16_dev_init_def)
  have "length rs = 6 \<and> rs ! 5 = Inr [] \<and>
    (M = Map.empty \<and> rs ! 4 = Inl M16_E_NOENT \<or> M = [m16_key sample_name \<mapsto> [1, 2, 3]] \<and> rs ! 4 = Inr [1, 2, 3])"
    using h(2) by (auto simp: calls_spec_Cons Let_def sample_name_len simp del: calls_spec.simps(2))
  then show ?thesis using h by blast
qed

end
