(* ===== verification/Journal_Damage.thy ===== *)
theory Journal_Damage
  imports Journal_History
begin

text \<open>
  Recovery from a journal area with arbitrary contents (\<open>m16_journal_recover\<close> in
  \<open>src/kernel/fs/mcsfs1j/m16_mcsfs_journal.c\<close>): what it accepts, what it writes, and where it stops. The second part is the
  host test at the end of that file, which damages a descriptor.
\<close>

section \<open>The journal area as it is on disk\<close>

definition rec_desc :: "bytes list \<Rightarrow> nat \<Rightarrow> m16_journal_desc" where
  "rec_desc bs i = dec_desc (bs ! (2 + i * 2))"

definition rec_write :: "bytes list \<Rightarrow> nat \<Rightarrow> nat \<times> bytes" where
  "rec_write bs i = (unat (jd_target_lba (rec_desc bs i)), bs ! (3 + i * 2))"

definition intact :: "bytes list \<Rightarrow> nat \<Rightarrow> bool" where
  "intact bs i \<longleftrightarrow> jd_magic (rec_desc bs i) = M16_JMAGIC \<and> fst (rec_write bs i) < 128 \<and>
     m16_checksum (snd (rec_write bs i)) = jd_payload_checksum (rec_desc bs i)"

definition committed :: "bytes list \<Rightarrow> bool" where
  "committed bs \<longleftrightarrow> (let h = dec_header (bs ! 1) in jh_magic h = M16_JMAGIC \<and> jh_version h = M16_VERSION \<and>
     jh_state h = M16_J_COMMITTED \<and> unat (jh_count h) \<le> 8 \<and> m16_header_checksum h = jh_checksum h)"

definition records :: "bytes list \<Rightarrow> nat list" where
  "records bs = [0..<unat (jh_count (dec_header (bs ! 1)))]"

text \<open>The records that recovery applies: those before the first damaged one.\<close>

definition replayed :: "bytes list \<Rightarrow> (nat \<times> bytes) list" where
  "replayed bs = map (rec_write bs) (takeWhile (intact bs) (records bs))"

definition outside_journal :: "(nat \<times> bytes) list \<Rightarrow> bool" where
  "outside_journal ws \<longleftrightarrow> list_all (\<lambda>(l, b). \<not> in_journal l) ws"

section \<open>Replaying\<close>

definition same_log :: "bytes list \<Rightarrow> bytes list \<Rightarrow> bool" where
  "same_log bs cs \<longleftrightarrow> (\<forall>l. in_journal l \<longrightarrow> bs ! l = cs ! l)"

lemma same_log_record:
  assumes "same_log bs cs" "i < 8"
  shows "rec_desc bs i = rec_desc cs i" "rec_write bs i = rec_write cs i" "intact bs i = intact cs i"
  using assms by (simp_all add: same_log_def rec_desc_def rec_write_def intact_def in_journal_def)

lemma same_log_header:
  assumes "same_log bs cs"
  shows "journal_empty bs = journal_empty cs" "committed bs = committed cs" "records bs = records cs"
  using assms by (simp_all add: same_log_def in_journal_def journal_empty_def committed_def records_def)

lemma same_log_write: "\<not> in_journal l \<Longrightarrow> same_log (bs[l := b]) bs"
  by (auto simp: same_log_def) (metis nth_list_update_neq)

lemma replay_record:
  assumes "m16_dev_ok dev" "i < 8"
  shows "m16_replay i dev = (if intact (blocks dev) i
     then m16_write_block (fst (rec_write (blocks dev) i)) (snd (rec_write (blocks dev) i)) dev else (Inl M16_E_CORRUPT, dev))"
  using assms by (simp add: m16_replay_def Let_def prog_run m16_read_block_def intact_def rec_write_def rec_desc_def
      numeral_3_eq_3 numeral_2_eq_2)

lemma replay_some:
  assumes "m16_dev_ok dev" "fail_after dev < 0" "set is \<subseteq> {..<8}"
    and "outside_journal (map (rec_write (blocks dev)) (takeWhile (intact (blocks dev)) is))"
  shows "pfor is m16_replay dev = (if list_all (intact (blocks dev)) is then Inr () else Inl M16_E_CORRUPT,
     wrote dev (map (rec_write (blocks dev)) (takeWhile (intact (blocks dev)) is)))"
  using assms
proof (induction "is" arbitrary: dev)
  case Nil
  then show ?case by (simp add: pret_def wrote_def)
next
  case (Cons i "is")
  let ?bs = "blocks dev"
  obtain l b where w: "rec_write ?bs i = (l, b)" by fastforce
  have i: "i < 8" using Cons.prems(3) by simp
  show ?case
  proof (cases "intact ?bs i")
    case False
    then show ?thesis using replay_record [OF Cons.prems(1) i] by (simp add: pthen_def pbind_def wrote_def)
  next
    case True
    let ?d = "wrote dev [(l, b)]"
    have l: "l < 128" "\<not> in_journal l" "b = ?bs ! (3 + i * 2)" using True w Cons.prems(4) by (auto simp: intact_def outside_journal_def rec_write_def)
    have run: "m16_replay i dev = (Inr (), ?d)"
      using replay_record [OF Cons.prems(1) i] True w l Cons.prems(1,2) by (simp add: write_block_wrote)
    have log: "same_log (blocks ?d) ?bs" using same_log_write [OF l(2)] by simp
    have j: "rec_write (blocks ?d) k = rec_write ?bs k" "intact (blocks ?d) k = intact ?bs k" if "k \<in> set is" for k
      using same_log_record [OF log, of k] Cons.prems(3) that by auto
    have tw: "takeWhile (intact (blocks ?d)) is = takeWhile (intact ?bs) is" using j(2) by (rule takeWhile_cong [OF refl])
    have eq: "map (rec_write (blocks ?d)) (takeWhile (intact (blocks ?d)) is) = map (rec_write ?bs) (takeWhile (intact ?bs) is)"
      unfolding tw using j(1) set_takeWhileD by (metis (no_types, lifting) map_cong)
    have all: "list_all (intact (blocks ?d)) is = list_all (intact ?bs) is" using j(2) by (simp add: list_all_iff)
    have ok: "m16_dev_ok ?d" using Cons.prems(1) l dev_ok_nth [OF Cons.prems(1), of "3 + i * 2"] i by (intro dev_ok_wrote) simp_all
    have "pfor is m16_replay ?d = (if list_all (intact ?bs) is then Inr () else Inl M16_E_CORRUPT,
        wrote ?d (map (rec_write ?bs) (takeWhile (intact ?bs) is)))"
      using Cons.IH [OF ok] Cons.prems(2-4) eq all True by (simp add: outside_journal_def)
    then show ?thesis using run True w Cons.prems(2) by (simp add: pthen_def pbind_def wrote_def)
  qed
qed

lemma recover_any:
  assumes ok: "m16_dev_ok dev" "fail_after dev < 0" and out: "committed (blocks dev) \<Longrightarrow> outside_journal (replayed (blocks dev))"
  shows "m16_journal_recover dev =
    (if journal_empty (blocks dev) then (Inr (), dev)
     else if \<not> committed (blocks dev) then (Inl M16_E_CORRUPT, dev)
     else if list_all (intact (blocks dev)) (records (blocks dev)) then (Inr (), wrote dev (replayed (blocks dev) @ [clear_write]))
     else (Inl M16_E_CORRUPT, wrote dev (replayed (blocks dev))))"
proof (cases "committed (blocks dev)")
  case False
  then show ?thesis
    using ok by (auto simp: m16_journal_recover_def prog_run m16_read_block_def Let_def journal_empty_def committed_def)
next
  case True
  let ?bs = "blocks dev" and ?h = "dec_header (blocks dev ! 1)"
  have h: "jh_magic ?h = M16_JMAGIC" "jh_version ?h = M16_VERSION" "jh_state ?h = M16_J_COMMITTED" "unat (jh_count ?h) \<le> 8"
    "m16_header_checksum ?h = jh_checksum ?h" using True by (simp_all add: committed_def Let_def)
  then have ne: "\<not> journal_empty ?bs" by (simp add: journal_empty_def M16_JMAGIC_def)
  have "m16_journal_recover dev = pthen (pfor (records ?bs) m16_replay) m16_journal_clear dev"
    using h ok(1) by (simp add: m16_journal_recover_def pbind_def m16_read_block_def records_def Let_def M16_JMAGIC_def)
  moreover have "set (records ?bs) \<subseteq> {..<8}" using h(4) by (auto simp: records_def)
  then have "pfor (records ?bs) m16_replay dev =
      (if list_all (intact ?bs) (records ?bs) then Inr () else Inl M16_E_CORRUPT, wrote dev (replayed ?bs))"
    using replay_some [OF ok] out [OF True] by (simp add: replayed_def)
  ultimately show ?thesis
    using True ne ok by (simp add: pthen_def pbind_def m16_journal_clear_def m16_write_block_def wrote_def clear_write_def
        m16_dev_ok_def m16_valid_lba_def)
qed

lemma records_less: "committed bs \<Longrightarrow> \<forall>i\<in>set (records bs). i < 8"
  by (auto simp: records_def committed_def Let_def)

text \<open>What was replayed leaves the journal as it was, and replaying it again changes nothing.\<close>

lemma replayed_log:
  assumes "outside_journal (replayed bs)"
  shows "same_log (apply_writes (replayed bs) bs) bs"
  using assms by (auto simp: same_log_def outside_journal_def list_all_iff intro!: apply_writes_other)

lemma replayed_again:
  assumes "same_log cs bs" "committed bs"
  shows "replayed cs = replayed bs"
proof -
  note r = records_less [OF assms(2)]
  then have "takeWhile (intact cs) (records bs) = takeWhile (intact bs) (records bs)"
    using same_log_record(3) [OF assms(1)] by (intro takeWhile_cong) auto
  then show ?thesis
    using same_log_record(2) [OF assms(1)] r same_log_header(3) [OF assms(1)] by (auto simp: replayed_def dest!: set_takeWhileD)
qed

lemma recover_stuck:
  assumes ok: "m16_dev_ok dev" "fail_after dev < 0" and out: "committed (blocks dev) \<Longrightarrow> outside_journal (replayed (blocks dev))"
    and run: "m16_journal_recover dev = (Inl e, dev1)"
  shows "m16_dev_ok dev1 \<and> fail_after dev1 < 0 \<and> (committed (blocks dev1) \<longrightarrow> outside_journal (replayed (blocks dev1))) \<and>
    (\<exists>dev2. m16_journal_recover dev1 = (Inl M16_E_CORRUPT, dev2) \<and> m16_mount dev1 = (Inl M16_E_CORRUPT, dev2) \<and>
      blocks dev2 = blocks dev1)"
proof -
  have "m16_dev_ok dev1 \<and> fail_after dev1 < 0 \<and> (committed (blocks dev1) \<longrightarrow> outside_journal (replayed (blocks dev1))) \<and>
    (\<exists>dev2. m16_journal_recover dev1 = (Inl M16_E_CORRUPT, dev2) \<and> blocks dev2 = blocks dev1)"
  proof (cases "committed (blocks dev)")
    case False
    then show ?thesis using recover_any [OF ok out] run ok by (auto split: if_splits)
  next
    case c: True
    let ?ws = "replayed (blocks dev)"
    have d1: "dev1 = wrote dev ?ws" "\<not> journal_empty (blocks dev)" "\<not> list_all (intact (blocks dev)) (records (blocks dev))"
      using recover_any [OF ok out] run c by (auto split: if_splits)
    have log: "same_log (blocks dev1) (blocks dev)" using replayed_log [OF out [OF c]] d1(1) by simp
    note r = records_less [OF c]
    have len: "\<forall>(l, b)\<in>set ?ws. length b = 512"
      using r dev_ok_nth [OF ok(1)] by (auto simp: replayed_def rec_write_def dest!: set_takeWhileD)
    have ok1: "m16_dev_ok dev1" "fail_after dev1 < 0" unfolding d1(1) using ok len by (auto intro!: dev_ok_wrote)
    have "m16_journal_recover dev1 = (Inl M16_E_CORRUPT, wrote dev1 ?ws)"
      using recover_any [OF ok1] out [OF c] c d1(2,3) r same_log_header [OF log] replayed_again [OF log c] same_log_record(3) [OF log]
      by (auto simp: list_all_iff)
    moreover have "apply_writes ?ws (blocks dev1) = blocks dev1"
      using apply_writes_prefix_absorb [of ?ws "length ?ws" "blocks dev"] d1(1) by simp
    ultimately show ?thesis using ok1 out [OF c] replayed_again [OF log c] by simp
  qed
  then show ?thesis by (auto simp: m16_mount_def pthen_def pbind_def)
qed

text \<open>Mounts one after the other, whatever each returns.\<close>

primrec mounts :: "nat \<Rightarrow> m16_blockdev \<Rightarrow> (m16_err + m16_super) list \<times> m16_blockdev" where
  "mounts 0 dev = ([], dev)"
| "mounts (Suc n) dev = (let (r, dev1) = m16_mount dev; (rs, dev2) = mounts n dev1 in (r # rs, dev2))"

lemma mounts_stuck:
  assumes "m16_dev_ok dev" "fail_after dev < 0" "committed (blocks dev) \<Longrightarrow> outside_journal (replayed (blocks dev))"
    and "m16_journal_recover dev = (Inl e, dev1)"
  shows "\<exists>dev2. mounts n dev1 = (replicate n (Inl M16_E_CORRUPT), dev2) \<and> blocks dev2 = blocks dev1"
  using assms
proof (induction n arbitrary: dev e dev1)
  case (Suc n)
  obtain dev2 where s: "m16_dev_ok dev1" "fail_after dev1 < 0" "committed (blocks dev1) \<longrightarrow> outside_journal (replayed (blocks dev1))"
    "m16_journal_recover dev1 = (Inl M16_E_CORRUPT, dev2)" "m16_mount dev1 = (Inl M16_E_CORRUPT, dev2)" "blocks dev2 = blocks dev1"
    using recover_stuck [OF Suc.prems] by blast
  obtain dev3 where "mounts n dev2 = (replicate n (Inl M16_E_CORRUPT), dev3)" "blocks dev3 = blocks dev2"
    using Suc.IH [OF s(1,2) _ s(4)] s(3) by blast
  then show ?case using s(5,6) by simp
qed simp

section \<open>The host test\<close>

text \<open>
  \<open>m16_expect\<close> without its message; \<open>read_out\<close> is what a call of \<open>m16_read_file\<close> leaves in the buffer \<open>out\<close> and in \<open>out_size\<close>;
  \<open>flip_descriptor\<close> is the assignment to \<open>dev.blocks\<close> in the third part of \<open>main\<close>.
\<close>

definition m16_expect :: "bool \<Rightarrow> nat" where
  "m16_expect cond = (if cond then 0 else 1)"

definition read_out :: "bytes \<times> u32 \<Rightarrow> m16_err + bytes \<Rightarrow> bytes \<times> u32" where
  "read_out buf r = (case r of Inl _ \<Rightarrow> buf | Inr d \<Rightarrow> (d @ drop (length d) (fst buf), of_nat (length d)))"

definition flip_descriptor :: "m16_blockdev \<Rightarrow> m16_blockdev" where
  "flip_descriptor dev = dev\<lparr>blocks := (blocks dev)[M16_JOURNAL_START + 1 :=
     (blocks dev ! (M16_JOURNAL_START + 1))[0 := (blocks dev ! (M16_JOURNAL_START + 1) ! 0) XOR 0x7F]]\<rparr>"

definition hello_txt :: bytes where "hello_txt = [104, 101, 108, 108, 111, 46, 116, 120, 116]"
definition crash_txt :: bytes where "crash_txt = [99, 114, 97, 115, 104, 46, 116, 120, 116]"
definition bad_txt :: bytes where "bad_txt = [98, 97, 100, 46, 116, 120, 116]"
definition hello :: bytes where "hello = [104, 101, 108, 108, 111, 45, 109, 49, 54]"
definition crashy :: bytes where "crashy = [99, 114, 97, 115, 104, 45, 114, 101, 112, 108, 97, 121]"

text \<open>\<open>main\<close>; its argument is what the uninitialised buffer \<open>out\<close> holds, its value the exit status.\<close>

definition m16_host_main :: "bytes \<Rightarrow> nat" where
  "m16_host_main out0 =
    (let (r1, dev) = m16_format m16_dev_init;
         (r2, dev) = m16_fsck dev;
         (r3, dev) = m16_write_file (Some hello_txt) (Some hello) dev;
         (r4, dev) = m16_read_file (Some hello_txt) (Some 64) dev;
         (out, out_size) = read_out (out0, 0) r4;
         fails = m16_expect (r1 = Inr ()) + m16_expect (r2 = Inr ()) + m16_expect (r3 = Inr ()) + m16_expect (\<exists>d. r4 = Inr d)
           + m16_expect (out_size = of_nat (length hello)) + m16_expect (out ! 0 = 104 \<and> out ! 8 = 54);
         (r5, dev) = m16_fsck dev;
         (r6, dev) = m16_write_file_ex (Some crash_txt) (Some crashy) True dev;
         (r7, dev) = m16_journal_recover dev;
         (r8, dev) = m16_read_file (Some crash_txt) (Some 64) dev;
         (out, out_size) = read_out (out, out_size) r8;
         (r9, dev) = m16_fsck dev;
         fails = fails + m16_expect (r5 = Inr ()) + m16_expect (r6 = Inr ()) + m16_expect (r7 = Inr ()) + m16_expect (\<exists>d. r8 = Inr d)
           + m16_expect (out_size = of_nat (length crashy)) + m16_expect (out ! 0 = 99 \<and> out ! 11 = 121) + m16_expect (r9 = Inr ());
         (r10, dev) = m16_format m16_dev_init;
         (r11, dev) = m16_write_file_ex (Some bad_txt) (Some crashy) True dev;
         (r12, dev) = m16_journal_recover (flip_descriptor dev);
         fails = fails + m16_expect (r10 = Inr ()) + m16_expect (r11 = Inr ()) + m16_expect (r12 = Inl M16_E_CORRUPT)
     in if fails = 0 then 0 else 1)"

text \<open>A write that stops after its second commit record leaves a committed transaction.\<close>

lemma write_stopped:
  assumes c: "m16_clean dev" "fail_after dev < 0" and run: "m16_write_file_ex (Some name) (Some data) True dev = (Inr (), dev1)"
  obtains tx seq where "wf_tx tx" "0 < length tx" "journal_holds tx seq (blocks dev1)" "m16_dev_ok dev1" "fail_after dev1 < 0"
  using c(1)
proof (cases rule: write_file_cases [where name = name and data = data and stop = True])
  case (refused e)
  then show ?thesis using run by simp
next
  case (accepted ino blk slot)
  let ?bs = "blocks dev" and ?g = "sb_clean_generation (dec_super (blocks dev ! 0))"
  let ?tx1 = "write_tx1 ?bs ino (length data) blk" and ?tx2 = "write_tx2 ?bs ino blk slot name data"
  have w: "m16_dev_ok dev" "ino < 16" "25 \<le> blk" "blk < 128" "journal_empty ?bs"
    using accepted(1) by (auto simp: write_alloc_def m16_clean_def)
  note tx = tx1_wf [OF w(1,2), of "length data" blk] tx2_wf [OF w(1,3,4) accepted(2,3), of ino slot]
  let ?ws = "commit_writes ?tx2 (?g + 2) True"
  have t: "m16_journal_commit ?tx1 (?g + 1) False dev = (Inr (), wrote dev (commit_writes ?tx1 (?g + 1) False))"
    by (rule commit_no_fault [OF tx(1) w(1) c(2)])
  obtain d1 where t1: "m16_journal_commit ?tx1 (?g + 1) False dev = (Inr (), d1)" and d1: "m16_dev_ok d1" "fail_after d1 < 0"
    using t commit_success [OF tx(1) w(1,5) t] c(2) by (auto simp: wrote_def)
  have "dev1 = wrote d1 ?ws" using run accepted(7) t1 commit_no_fault [OF tx(2) d1, of "?g + 2" True] by (simp add: pthen_def pbind_def)
  moreover have "m16_dev_ok (wrote d1 ?ws)" using commit_writes_valid [OF tx(2), of "?g + 2" True] d1(1) by (intro dev_ok_wrote) auto
  moreover have "length (blocks d1) = 128" using d1(1) by (simp add: m16_dev_ok_def)
  then have "journal_holds ?tx2 (?g + 2) (blocks (wrote d1 ?ws))"
    using record_writes_holds [OF wf_tx_length [OF tx(2)], of "blocks d1" "?g + 2"] by (simp add: commit_writes_def)
  ultimately show ?thesis using that [OF tx(2)] d1(2) by (simp add: write_tx2_def wrote_def)
qed

text \<open>With its first byte changed, the descriptor has not the magic number, and recovery refuses the journal.\<close>

lemma journal_holds_committed:
  assumes "journal_holds tx seq bs" "wf_tx tx"
  shows "committed bs" "records bs = [0..<length tx]"
  using assms wf_tx_length [OF assms(2)]
  by (simp_all add: committed_def records_def journal_holds_def commit_header_checksum unat_of_nat)

lemma flipped_magic:
  assumes "8 \<le> length bs"
  shows "get64 0 (bs[0 := (bs ! 0) XOR 0x7F]) \<noteq> get64 0 bs"
proof
  let ?x = "bs ! 0"
  assume "get64 0 (bs[0 := ?x XOR 0x7F]) = get64 0 bs"
  then have "enc64 (get64 0 (bs[0 := ?x XOR 0x7F])) = enc64 (get64 0 bs)" by simp
  then have "field 0 8 (bs[0 := ?x XOR 0x7F]) = field 0 8 bs" using assms by simp
  then have "?x XOR 0x7F = ?x" using assms by (cases bs) (simp_all add: field_def)
  then have "?x XOR (?x XOR 0x7F) = 0" by simp
  then show False by (simp add: xor.assoc [symmetric])
qed

lemma flipped_log:
  assumes h: "journal_holds tx seq (blocks dev)" "wf_tx tx" "0 < length tx" and ok: "m16_dev_ok dev" "fail_after dev < 0"
  defines "d \<equiv> flip_descriptor dev"
  shows "m16_dev_ok d" "fail_after d < 0" "committed (blocks d)" "\<not> journal_empty (blocks d)" "replayed (blocks d) = []"
    "\<not> list_all (intact (blocks d)) (records (blocks d))"
proof -
  let ?b = "(blocks dev ! 2)[0 := (blocks dev ! 2 ! 0) XOR 0x7F]"
  have len: "length (blocks dev) = 128" "length (blocks dev ! 2) = 512" using ok(1) dev_ok_nth [OF ok(1), of 2] by (simp_all add: m16_dev_ok_def)
  have b: "blocks d = (blocks dev)[2 := ?b]" by (simp add: d_def flip_descriptor_def numeral_2_eq_2)
  show "m16_dev_ok d" "fail_after d < 0"
    using ok len by (auto simp: d_def flip_descriptor_def m16_dev_ok_def list_all_iff numeral_2_eq_2 dest!: set_update_subset_insert [THEN subsetD])
  have "blocks dev ! (2 + 0 * 2) = enc_desc (commit_desc (tx ! 0))" using h(1,3) unfolding journal_holds_def by blast
  then have "dec_desc (blocks dev ! 2) = commit_desc (tx ! 0)" by simp
  then have "get64 0 (blocks dev ! 2) = M16_JMAGIC" using commit_desc_fields(1) [of "tx ! 0"] by (simp add: dec_desc_def commit_desc_def)
  then have "jd_magic (rec_desc (blocks d) 0) \<noteq> M16_JMAGIC"
    using flipped_magic [of "blocks dev ! 2"] len by (simp add: rec_desc_def b dec_desc_def)
  then have bad: "\<not> intact (blocks d) 0" by (simp add: intact_def)
  have "blocks d ! 1 = blocks dev ! 1" using b by simp
  then have c: "committed (blocks d)" and r: "records (blocks d) = 0 # [1..<length tx]"
    using journal_holds_committed [OF h(1,2)] h(3) by (simp_all add: committed_def records_def upt_rec)
  show "committed (blocks d)" by (rule c)
  show "\<not> journal_empty (blocks d)" using c by (auto simp: committed_def journal_empty_def Let_def M16_JMAGIC_def)
  show "replayed (blocks d) = []" "\<not> list_all (intact (blocks d)) (records (blocks d))" using bad r by (simp_all add: replayed_def)
qed

lemma recover_flipped:
  assumes h: "journal_holds tx seq (blocks dev)" "wf_tx tx" "0 < length tx" and ok: "m16_dev_ok dev" "fail_after dev < 0"
  shows "m16_journal_recover (flip_descriptor dev) = (Inl M16_E_CORRUPT, flip_descriptor dev)"
proof -
  note f = flipped_log [OF assms]
  have "wrote (flip_descriptor dev) [] = flip_descriptor dev" using f(2) by (simp add: wrote_def)
  then show ?thesis using recover_any [OF f(1,2)] f(3-6) by (simp add: outside_journal_def)
qed

text \<open>The three parts of the test. A history in which nothing fails and at most twelve files are written has one outcome.\<close>

lemma host_history:
  assumes "m16_format m16_dev_init = (r1, d1)" "m16_fsck d1 = (r2, d2)" "m16_write_file_ex (Some hello_txt) (Some hello) False d2 = (r3, d3)"
    and "m16_read_file (Some hello_txt) (Some 64) d3 = (r4, d4)" "m16_fsck d4 = (r5, d5)"
    and "m16_write_file_ex (Some crash_txt) (Some crashy) True d5 = (r6, d6)" "m16_journal_recover d6 = (r7, d7)"
    and "m16_read_file (Some crash_txt) (Some 64) d7 = (r8, d8)" "m16_fsck d8 = (r9, d9)"
  shows "r1 = Inr ()" "r2 = Inr ()" "r3 = Inr ()" "r4 = Inr hello" "r5 = Inr ()" "r6 = Inr ()" "r7 = Inr ()" "r8 = Inr crashy" "r9 = Inr ()"
proof -
  let ?ops = "[J_Fsck, J_Write hello_txt hello False, J_Read hello_txt 64, J_Fsck, J_Write crash_txt crashy True, J_Recover, J_Read crash_txt 64, J_Fsck]"
  have init: "total_blocks m16_dev_init = 128" "fail_after m16_dev_init < 0" by (simp_all add: m16_dev_init_def)
  show "r1 = Inr ()" using format_clean [OF init assms(1)] by simp
  have "m16_rel d1 (Map.empty, True, 0)" using format_rel [OF init] assms(1) by simp
  then obtain rs d a where calls: "run_calls m16_call ?ops d1 = (rs, d)" "calls_spec m16_spec (Map.empty, True, 0) ?ops rs a"
    using m16.calls_refine [OF _ calls_pre_True] by blast
  have rs: "rs = [map_sum id (\<lambda>_. []) r2, map_sum id (\<lambda>_. []) r3, r4, map_sum id (\<lambda>_. []) r5, map_sum id (\<lambda>_. []) r6,
      map_sum id (\<lambda>_. []) r7, r8, map_sum id (\<lambda>_. []) r9]"
    using calls(1) assms(2-) by (simp add: m16_call_def pthen_ret_map)
  have names: "strlen_bounded hello_txt 32 = 9" "strlen_bounded crash_txt 32 = 9" by code_simp+
  have keys: "m16_key crash_txt \<noteq> m16_key hello_txt" by code_simp
  have len: "length hello = 9" "length crashy = 12" by (simp_all add: hello_def crashy_def)
  have unit: "map_sum id (\<lambda>_. []) r = Inr [] \<longleftrightarrow> r = Inr ()" for r :: "m16_err + unit" by (cases r) simp_all
  have "r2 = Inr () \<and> r3 = Inr () \<and> r4 = Inr hello \<and> r5 = Inr () \<and> r6 = Inr () \<and> r7 = Inr () \<and> r8 = Inr crashy \<and> r9 = Inr ()"
    using calls(2) unfolding rs by (auto simp: calls_spec_Cons Let_def names keys len unit simp del: calls_spec.simps(2))
  then show "r2 = Inr ()" "r3 = Inr ()" "r4 = Inr hello" "r5 = Inr ()" "r6 = Inr ()" "r7 = Inr ()" "r8 = Inr crashy" "r9 = Inr ()" by simp_all
qed

lemma host_damage:
  assumes "m16_format m16_dev_init = (r1, d1)" "m16_write_file_ex (Some bad_txt) (Some crashy) True d1 = (r2, d2)"
    and "m16_journal_recover (flip_descriptor d2) = (r3, d3)"
  shows "r2 = Inr ()" "r3 = Inl M16_E_CORRUPT"
proof -
  have init: "total_blocks m16_dev_init = 128" "fail_after m16_dev_init < 0" by (simp_all add: m16_dev_init_def)
  have "m16_rel d1 (Map.empty, True, 0)" using format_rel [OF init] assms(1) by simp
  moreover have "strlen_bounded bad_txt 32 = 7" by code_simp
  moreover have "length crashy = 12" by (simp add: crashy_def)
  ultimately show r2: "r2 = Inr ()"
    using write_step [OF _ assms(2), of Map.empty True 0] by (cases r2) (auto simp: Let_def)
  have d1: "m16_clean d1" "fail_after d1 < 0" using format_clean [OF init assms(1)] by simp_all
  obtain tx seq where "wf_tx tx" "0 < length tx" "journal_holds tx seq (blocks d2)" "m16_dev_ok d2" "fail_after d2 < 0"
    using write_stopped [OF d1 assms(2) [unfolded r2]] .
  then show "r3 = Inl M16_E_CORRUPT" using recover_flipped assms(3) by simp
qed

section \<open>Properties of recovery\<close>

text \<open>
  C5. What \<open>m16_journal_recover\<close> does on a device without faults for any contents of the journal area, damaged ones included, as long
  as no record it replays has its target inside the journal: nothing for an empty header; the error \<open>CORRUPT\<close> and no write for a header that is not a committed
  one with a right checksum; the home writes of all records and the clearing of the header when every record is intact; otherwise the
  home writes of the records before the first damaged one, and \<open>CORRUPT\<close>. After that error every number of mounts one after the other
  fails in the same way, each of them, and changes no block any more.
\<close>

theorem m16_journal_recover_exact:
  assumes "m16_dev_ok dev" "fail_after dev < 0" "committed (blocks dev) \<Longrightarrow> outside_journal (replayed (blocks dev))"
  shows "m16_journal_recover dev =
      (if journal_empty (blocks dev) then (Inr (), dev)
       else if \<not> committed (blocks dev) then (Inl M16_E_CORRUPT, dev)
       else if list_all (intact (blocks dev)) (records (blocks dev)) then (Inr (), wrote dev (replayed (blocks dev) @ [clear_write]))
       else (Inl M16_E_CORRUPT, wrote dev (replayed (blocks dev)))) \<and>
    (\<forall>e dev1 n. m16_journal_recover dev = (Inl e, dev1) \<longrightarrow>
       (\<exists>dev2. mounts n dev1 = (replicate n (Inl M16_E_CORRUPT), dev2) \<and> blocks dev2 = blocks dev1))"
  using recover_any [OF assms] mounts_stuck [OF assms] by blast

text \<open>The damaged disk of the host test.\<close>

definition damaged_dev :: m16_blockdev where
  "damaged_dev = flip_descriptor (snd (m16_write_file_ex (Some bad_txt) (Some crashy) True (snd (m16_format m16_dev_init))))"

lemma damaged_dev_log:
  "m16_dev_ok damaged_dev" "fail_after damaged_dev < 0" "committed (blocks damaged_dev)" "\<not> journal_empty (blocks damaged_dev)"
  "replayed (blocks damaged_dev) = []" "\<not> list_all (intact (blocks damaged_dev)) (records (blocks damaged_dev))"
proof -
  obtain r1 d1 r2 d2 where d: "m16_format m16_dev_init = (r1, d1)" "m16_write_file_ex (Some bad_txt) (Some crashy) True d1 = (r2, d2)"
    by (metis surj_pair)
  have r2: "r2 = Inr ()" using host_damage [OF d surjective_pairing] by simp
  have d1: "m16_clean d1" "fail_after d1 < 0" using format_clean [OF _ _ d(1)] by (simp_all add: m16_dev_init_def)
  obtain tx seq where tx: "wf_tx tx" "0 < length tx" "journal_holds tx seq (blocks d2)" "m16_dev_ok d2" "fail_after d2 < 0"
    using write_stopped [OF d1 d(2) [unfolded r2]] .
  have "damaged_dev = flip_descriptor d2" using d by (simp add: damaged_dev_def)
  with flipped_log [OF tx(3,1,2,4,5)] show "m16_dev_ok damaged_dev" "fail_after damaged_dev < 0" "committed (blocks damaged_dev)"
    "\<not> journal_empty (blocks damaged_dev)" "replayed (blocks damaged_dev) = []"
    "\<not> list_all (intact (blocks damaged_dev)) (records (blocks damaged_dev))" by simp_all
qed

theorem m16_journal_recover_exact_witness:
  "m16_journal_recover damaged_dev = (Inl M16_E_CORRUPT, damaged_dev) \<and>
   fst (mounts 2 damaged_dev) = [Inl M16_E_CORRUPT, Inl M16_E_CORRUPT]"
proof -
  note d = damaged_dev_log
  have "wrote damaged_dev [] = damaged_dev" using d(2) by (simp add: wrote_def)
  moreover note x = m16_journal_recover_exact [OF d(1,2)]
  ultimately have "m16_journal_recover damaged_dev = (Inl M16_E_CORRUPT, damaged_dev)" using d(3-6) by (auto simp: outside_journal_def)
  moreover from this have "\<exists>dev2. mounts 2 damaged_dev = (replicate 2 (Inl M16_E_CORRUPT), dev2)"
    using x d(5) by (simp add: outside_journal_def) blast
  ultimately show ?thesis by (auto simp: numeral_2_eq_2)
qed

text \<open>
  The host test of the journal passes: \<open>main\<close> returns 0, whatever the buffer held. Its three parts write and read a file, recover a
  write that stopped after its commit record, and refuse a journal with a damaged descriptor.
\<close>

theorem m16_host_test_passes: "m16_host_main out0 = 0"
proof -
  obtain r1 d1 where r1: "m16_format m16_dev_init = (r1, d1)" by force
  obtain r2 d2 where r2: "m16_fsck d1 = (r2, d2)" by force
  obtain r3 d3 where r3: "m16_write_file_ex (Some hello_txt) (Some hello) False d2 = (r3, d3)" by force
  obtain r4 d4 where r4: "m16_read_file (Some hello_txt) (Some 64) d3 = (r4, d4)" by force
  obtain r5 d5 where r5: "m16_fsck d4 = (r5, d5)" by force
  obtain r6 d6 where r6: "m16_write_file_ex (Some crash_txt) (Some crashy) True d5 = (r6, d6)" by force
  obtain r7 d7 where r7: "m16_journal_recover d6 = (r7, d7)" by force
  obtain r8 d8 where r8: "m16_read_file (Some crash_txt) (Some 64) d7 = (r8, d8)" by force
  obtain r9 d9 where r9: "m16_fsck d8 = (r9, d9)" by force
  obtain r11 d11 where r11: "m16_write_file_ex (Some bad_txt) (Some crashy) True d1 = (r11, d11)" by force
  obtain r12 d12 where r12: "m16_journal_recover (flip_descriptor d11) = (r12, d12)" by force
  note calls = r1 r2 r3 r4 r5 r6 r7 r8 r9 r11 r12
  note res = host_history [OF r1 r2 r3 r4 r5 r6 r7 r8 r9] host_damage [OF r1 r11 r12]
  have "hello ! 0 = 104" "hello ! 8 = 54" "crashy ! 0 = 99" "crashy ! 11 = 121" "length hello = 9" "length crashy = 12"
    by (simp_all add: hello_def crashy_def)
  then show ?thesis
    by (simp add: m16_host_main_def m16_write_file_def calls res read_out_def m16_expect_def nth_append)
qed

end
