(* ===== verification/Pmm.thy ===== *)
theory Pmm
  imports Prelude
begin

text \<open>
  The physical memory manager (\<open>src/pmm.c\<close>, \<open>include/pmm.h\<close>): a frame bitmap built from the boot
  memory map, with allocation, release and reservation of 4 KiB frames. Addresses and counters are
  64-bit words, so every wrap-around of the C code is in the model. The invariant ties the counters
  to the bitmap and says that no frame below \<open>next_hint\<close> is free.
\<close>

section \<open>Data\<close>

definition PMM_PAGE_SIZE :: u64 where [simp, layout]: "PMM_PAGE_SIZE = 4096"
definition PMM_INVALID_FRAME :: u64 where [layout]: "PMM_INVALID_FRAME = 0xffffffffffffffff"
definition UINT64_MAX :: u64 where [layout]: "UINT64_MAX = 0xffffffffffffffff"

definition BOOT_MEM_USABLE :: u32 where [layout]: "BOOT_MEM_USABLE = 1"

record boot_mem_region =
  rg_base :: u64
  rg_length :: u64
  rg_type :: u32

text \<open>\<open>bitmap\<close> is the storage the pointer designates; a NULL pointer is the empty list.\<close>

record pmm_state =
  bitmap :: bytes
  bitmap_bytes :: u64
  max_phys :: u64
  frame_count :: u64
  free_frames :: u64
  used_frames :: u64
  reserved_frames :: u64
  ignored_frames :: u64
  next_hint :: u64
  initialized :: bool

section \<open>Helpers\<close>

definition align_down :: "u64 \<Rightarrow> u64 \<Rightarrow> u64" where
  "align_down v a = v AND NOT (a - 1)"

definition align_up :: "u64 \<Rightarrow> u64 \<Rightarrow> u64" where
  "align_up v a = (v + a - 1) AND NOT (a - 1)"

definition checked_add_u64 :: "u64 \<Rightarrow> u64 \<Rightarrow> u64 option" where
  "checked_add_u64 a b = (if UINT64_MAX - a < b then None else Some (a + b))"

definition bitmap_set :: "bytes \<Rightarrow> u64 \<Rightarrow> bytes" where
  "bitmap_set bm i = bm[unat (drop_bit 3 i) := (bm ! unat (drop_bit 3 i)) OR push_bit (unat (i AND 7)) 1]"

definition bitmap_clear :: "bytes \<Rightarrow> u64 \<Rightarrow> bytes" where
  "bitmap_clear bm i =
     bm[unat (drop_bit 3 i) := (bm ! unat (drop_bit 3 i)) AND NOT (push_bit (unat (i AND 7)) 1)]"

definition bitmap_test :: "bytes \<Rightarrow> u64 \<Rightarrow> bool" where
  "bitmap_test bm i \<longleftrightarrow> (bm ! unat (drop_bit 3 i)) AND push_bit (unat (i AND 7)) 1 \<noteq> 0"

section \<open>Operations\<close>

definition mark_frame_free :: "u64 \<Rightarrow> pmm_state \<Rightarrow> pmm_state" where
  "mark_frame_free frame pmm =
     (if frame_count pmm \<le> frame then pmm
      else if bitmap_test (bitmap pmm) frame then
        pmm\<lparr>bitmap := bitmap_clear (bitmap pmm) frame,
            free_frames := free_frames pmm + 1,
            used_frames := (if 0 < used_frames pmm then used_frames pmm - 1 else used_frames pmm),
            next_hint := (if frame < next_hint pmm then frame else next_hint pmm)\<rparr>
      else pmm)"

definition mark_frame_used :: "u64 \<Rightarrow> pmm_state \<Rightarrow> pmm_state" where
  "mark_frame_used frame pmm =
     (if frame_count pmm \<le> frame then pmm
      else if \<not> bitmap_test (bitmap pmm) frame then
        pmm\<lparr>bitmap := bitmap_set (bitmap pmm) frame,
            free_frames := (if 0 < free_frames pmm then free_frames pmm - 1 else free_frames pmm),
            used_frames := used_frames pmm + 1\<rparr>
      else pmm)"

text \<open>
  The addresses visited by \<open>for (addr = start; addr < stop; addr += PMM_PAGE_SIZE)\<close>. Start and
  stop are page aligned wherever the code runs this loop, so the sum never wraps past \<open>stop\<close>; the
  unfolding lemma below states that this is the loop.
\<close>

definition page_addrs :: "u64 \<Rightarrow> u64 \<Rightarrow> u64 list" where
  "page_addrs start stop = map (\<lambda>i. start + of_nat i * PMM_PAGE_SIZE)
     [0..<(unat stop - unat start + 4095) div 4096]"

definition mark_range_free :: "u64 \<Rightarrow> u64 \<Rightarrow> pmm_state \<Rightarrow> pmm_state" where
  "mark_range_free base len pmm =
     (case (if len = 0 then None else checked_add_u64 base len) of
        None \<Rightarrow> pmm
      | Some endp \<Rightarrow>
          let start = align_up base PMM_PAGE_SIZE; stop = align_down endp PMM_PAGE_SIZE in
          if stop \<le> start then pmm
          else if max_phys pmm \<le> start then pmm
          else let (stop', pmm') =
                 (if max_phys pmm < stop
                  then (max_phys pmm, pmm\<lparr>ignored_frames := ignored_frames pmm +
                          (align_down endp PMM_PAGE_SIZE - max_phys pmm) div PMM_PAGE_SIZE\<rparr>)
                  else (stop, pmm))
               in fold (\<lambda>addr. mark_frame_free (addr div PMM_PAGE_SIZE)) (page_addrs start stop') pmm')"

definition reserve_page :: "u64 \<Rightarrow> pmm_state \<Rightarrow> pmm_state" where
  "reserve_page addr pmm =
     (let was_free = \<not> bitmap_test (bitmap pmm) (addr div PMM_PAGE_SIZE);
          pmm' = mark_frame_used (addr div PMM_PAGE_SIZE) pmm
      in if was_free then pmm'\<lparr>reserved_frames := reserved_frames pmm' + 1\<rparr> else pmm')"

definition mark_range_used :: "u64 \<Rightarrow> u64 \<Rightarrow> pmm_state \<Rightarrow> pmm_state" where
  "mark_range_used base len pmm =
     (case (if len = 0 then None else checked_add_u64 base len) of
        None \<Rightarrow> pmm
      | Some endp \<Rightarrow>
          let start = align_down base PMM_PAGE_SIZE; stop = align_up endp PMM_PAGE_SIZE in
          if stop \<le> start then pmm
          else if max_phys pmm \<le> start then pmm
          else fold reserve_page
                 (page_addrs start (if max_phys pmm < stop then max_phys pmm else stop)) pmm)"

definition pmm_zero_state :: pmm_state where
  "pmm_zero_state = \<lparr>bitmap = [], bitmap_bytes = 0, max_phys = 0, frame_count = 0, free_frames = 0,
     used_frames = 0, reserved_frames = 0, ignored_frames = 0, next_hint = 0, initialized = False\<rparr>"

text \<open>
  \<open>pmm_init_from_map\<close>: \<open>regions\<close> and \<open>storage\<close> are NULL-able pointers; the storage's size argument is
  the length of the list. The result pairs the returned bool with the state the pointer holds.
\<close>

definition pmm_init_from_map ::
  "pmm_state \<Rightarrow> boot_mem_region list option \<Rightarrow> bytes option \<Rightarrow> u64 \<Rightarrow> bool \<times> pmm_state" where
  "pmm_init_from_map pmm regions_ptr storage_ptr max_phys_bytes =
     (case (regions_ptr, storage_ptr) of (Some regions, Some storage) \<Rightarrow>
        if regions = [] then (False, pmm)
        else if max_phys_bytes = 0 \<or> max_phys_bytes AND (PMM_PAGE_SIZE - 1) \<noteq> 0 then (False, pmm)
        else let fc = max_phys_bytes div PMM_PAGE_SIZE; required = (fc + 7) div 8 in
          if length storage < unat required then (False, pmm)
          else let p0 = pmm_zero_state\<lparr>
                     bitmap := replicate (unat required) 255 @ drop (unat required) storage,
                     bitmap_bytes := required, max_phys := max_phys_bytes, frame_count := fc,
                     free_frames := 0, used_frames := fc, next_hint := 0\<rparr>;
                   p1 = fold (\<lambda>r p. if rg_type r = BOOT_MEM_USABLE
                                       then mark_range_free (rg_base r) (rg_length r) p else p) regions p0;
                   p2 = mark_range_used 0 PMM_PAGE_SIZE p1;
                   p3 = fold (\<lambda>r p. if rg_type r \<noteq> BOOT_MEM_USABLE
                                       then mark_range_used (rg_base r) (rg_length r) p else p) regions p2
               in (True, p3\<lparr>initialized := True\<rparr>)
      | _ \<Rightarrow> (False, pmm))"

definition pmm_alloc_frame :: "pmm_state \<Rightarrow> u64 \<times> pmm_state" where
  "pmm_alloc_frame pmm =
     (if \<not> initialized pmm \<or> free_frames pmm = 0 then (PMM_INVALID_FRAME, pmm)
      else case List.find (\<lambda>f. \<not> bitmap_test (bitmap pmm) (of_nat f)) [unat (next_hint pmm)..<unat (frame_count pmm)] of
        Some f \<Rightarrow> (of_nat f * PMM_PAGE_SIZE, (mark_frame_used (of_nat f) pmm)\<lparr>next_hint := of_nat f + 1\<rparr>)
      | None \<Rightarrow>
        (case List.find (\<lambda>f. \<not> bitmap_test (bitmap pmm) (of_nat f)) [0..<unat (next_hint pmm)] of
           Some f \<Rightarrow> (of_nat f * PMM_PAGE_SIZE, (mark_frame_used (of_nat f) pmm)\<lparr>next_hint := of_nat f + 1\<rparr>)
         | None \<Rightarrow> (PMM_INVALID_FRAME, pmm)))"

definition pmm_free_frame :: "pmm_state \<Rightarrow> u64 \<Rightarrow> bool \<times> pmm_state" where
  "pmm_free_frame pmm phys_addr =
     (if \<not> initialized pmm then (False, pmm)
      else if phys_addr AND (PMM_PAGE_SIZE - 1) \<noteq> 0 \<or> phys_addr = 0 \<or> max_phys pmm \<le> phys_addr then (False, pmm)
      else if \<not> bitmap_test (bitmap pmm) (phys_addr div PMM_PAGE_SIZE) then (False, pmm)
      else (True, mark_frame_free (phys_addr div PMM_PAGE_SIZE) pmm))"

definition pmm_reserve_range :: "pmm_state \<Rightarrow> u64 \<Rightarrow> u64 \<Rightarrow> bool \<times> pmm_state" where
  "pmm_reserve_range pmm base len =
     (if \<not> initialized pmm \<or> len = 0 then (False, pmm) else (True, mark_range_used base len pmm))"

definition pmm_is_frame_free :: "pmm_state \<Rightarrow> u64 \<Rightarrow> bool" where
  "pmm_is_frame_free pmm phys_addr \<longleftrightarrow> initialized pmm
     \<and> \<not> (phys_addr AND (PMM_PAGE_SIZE - 1) \<noteq> 0 \<or> max_phys pmm \<le> phys_addr)
     \<and> \<not> bitmap_test (bitmap pmm) (phys_addr div PMM_PAGE_SIZE)"

definition pmm_free_count :: "pmm_state option \<Rightarrow> u64" where
  "pmm_free_count p = (case p of Some pmm \<Rightarrow> free_frames pmm | None \<Rightarrow> 0)"

definition pmm_used_count :: "pmm_state option \<Rightarrow> u64" where
  "pmm_used_count p = (case p of Some pmm \<Rightarrow> used_frames pmm | None \<Rightarrow> 0)"

definition pmm_frame_count :: "pmm_state option \<Rightarrow> u64" where
  "pmm_frame_count p = (case p of Some pmm \<Rightarrow> frame_count pmm | None \<Rightarrow> 0)"

section \<open>Bits and alignment\<close>

lemma unat_drop_bit_3: "unat (drop_bit 3 (i :: u64)) = unat i div 8"
  by (simp add: drop_bit_eq_div unat_div)

lemma unat_and_7: "unat ((i :: u64) AND 7) = unat i mod 8"
proof -
  have "i AND 7 = take_bit 3 i" by (simp add: take_bit_eq_mask mask_eq_exp_minus_1)
  then show ?thesis by (simp add: take_bit_eq_mod unat_mod)
qed

lemma unat_and_page_mask: "unat ((v :: u64) AND 4095) = unat v mod 4096"
proof -
  have "v AND 4095 = take_bit 12 v" by (simp add: take_bit_eq_mask mask_eq_exp_minus_1)
  then show ?thesis by (simp add: take_bit_eq_mod unat_mod)
qed

lemma and_page_mask: "(v :: u64) AND 4095 = 0 \<longleftrightarrow> unat v mod 4096 = 0"
  using unat_and_page_mask [of v] by (metis unat_0 unat_eq_zero)

lemma unat_mul_page: "unat (v :: u64) * 4096 < 2 ^ 64 \<Longrightarrow> unat (v * 4096) = unat v * 4096"
  by (simp add: unat_word_ariths)

lemma unat_div_page: "unat ((v :: u64) div 4096) = unat v div 4096"
  by (simp add: unat_div)

lemma unat_align_down: "unat (align_down v 4096) = unat v div 4096 * 4096"
proof -
  have "(4096 :: u64) - 1 = mask 12" by (simp add: mask_eq_exp_minus_1)
  then show ?thesis using unat_and_not_mask [of 12 v] by (simp add: align_down_def)
qed

lemma align_up_down: "align_up v 4096 = align_down (v + 4095) 4096"
  by (simp add: align_up_def align_down_def algebra_simps)

lemma unat_align_up: "unat v \<le> 2 ^ 64 - 4096 \<Longrightarrow> unat (align_up v 4096) = (unat v + 4095) div 4096 * 4096"
  by (simp add: align_up_down unat_align_down unat_word_ariths)

lemma checked_add_u64_Some:
  "checked_add_u64 a b = Some c \<longleftrightarrow> unat a + unat b < 2 ^ 64 \<and> c = a + b"
proof -
  have "unat (UINT64_MAX - a) = unat UINT64_MAX - unat a"
    using unat_u64_lt [of a] by (intro unat_sub) (simp add: UINT64_MAX_def word_le_nat_alt)
  then show ?thesis
    using unat_u64_lt [of a] unat_u64_lt [of b]
    by (auto simp: checked_add_u64_def word_less_nat_alt UINT64_MAX_def)
qed

section \<open>The bitmap as a bit array\<close>

lemma bitmap_test_bit: "bitmap_test bm i = bit (bm ! (unat i div 8)) (unat i mod 8)"
  by (simp add: bitmap_test_def unat_drop_bit_3 unat_and_7)

interpretation pmm_bm: bit_array_clear unat bitmap_test bitmap_set bitmap_clear
proof unfold_locales
  fix bm and i j :: u64
  show "length (bitmap_set bm i) = length bm" by (simp add: bitmap_set_def)
  show "length (bitmap_clear bm i) = length bm" by (simp add: bitmap_clear_def)
  assume i: "unat i < 8 * length bm"
  show "bitmap_test (bitmap_set bm i) j = (j = i \<or> bitmap_test bm j)"
    using bitmap_byte_set [OF i, of "unat j"]
    by (simp add: bitmap_test_bit bitmap_set_def unat_drop_bit_3 unat_and_7 word_unat_eq_iff)
  show "bitmap_test (bitmap_clear bm i) j = (j \<noteq> i \<and> bitmap_test bm j)"
    using bitmap_byte_clear [OF i, of "unat j"]
    by (simp add: bitmap_test_bit bitmap_clear_def unat_drop_bit_3 unat_and_7 word_unat_eq_iff)
qed

section \<open>The invariant\<close>

definition free_set :: "pmm_state \<Rightarrow> u64 set" where
  "free_set p = {i. i < frame_count p \<and> \<not> bitmap_test (bitmap p) i}"

text \<open>What every helper keeps, already during initialisation.\<close>

definition pmm_wf :: "pmm_state \<Rightarrow> bool" where
  "pmm_wf p \<longleftrightarrow> unat (max_phys p) = unat (frame_count p) * 4096
     \<and> unat (frame_count p) \<le> 8 * length (bitmap p)
     \<and> unat (free_frames p) = card (free_set p)
     \<and> unat (free_frames p) + unat (used_frames p) = unat (frame_count p)
     \<and> (\<forall>i\<in>free_set p. next_hint p \<le> i)"

text \<open>What holds between the operations of an initialised manager: frame 0 is never free.\<close>

definition pmm_inv :: "pmm_state \<Rightarrow> bool" where
  "pmm_inv p \<longleftrightarrow> initialized p \<and> pmm_wf p \<and> 0 \<notin> free_set p"

abbreviation same_frame :: "pmm_state \<Rightarrow> pmm_state \<Rightarrow> bool" where
  "same_frame p q \<equiv> max_phys q = max_phys p \<and> frame_count q = frame_count p
     \<and> initialized q = initialized p \<and> length (bitmap q) = length (bitmap p)"

lemma finite_free_set [simp]: "finite (free_set p)"
  by (rule finite_subset [OF subset_UNIV]) simp

lemma pmm_frame_in_bitmap: "pmm_wf p \<Longrightarrow> i < frame_count p \<Longrightarrow> unat i < 8 * length (bitmap p)"
  unfolding pmm_wf_def using unat_mono [of i "frame_count p"] by linarith

lemma mark_frame_free_same: "same_frame p (mark_frame_free f p)"
  by (simp add: mark_frame_free_def pmm_bm.length_cl)

lemma mark_frame_used_same: "same_frame p (mark_frame_used f p)"
  by (simp add: mark_frame_used_def pmm_bm.length_st)

lemma free_set_mark_free:
  "pmm_wf p \<Longrightarrow> free_set (mark_frame_free f p) = free_set p \<union> ({f} \<inter> {..<frame_count p})"
  using pmm_frame_in_bitmap [of p f]
  by (auto simp: mark_frame_free_def free_set_def pmm_bm.tst_cl not_le)

lemma free_set_mark_used: "pmm_wf p \<Longrightarrow> free_set (mark_frame_used f p) = free_set p - {f}"
  using pmm_frame_in_bitmap [of p f]
  by (auto simp: mark_frame_used_def free_set_def pmm_bm.tst_st not_le)

lemma unat_inc: "unat (x :: u64) < unat (y :: u64) \<Longrightarrow> unat (x + 1) = Suc (unat x)"
  using unat_u64_lt [of y] by (simp add: unat_word_ariths)

lemma unat_dec: "0 < unat (x :: u64) \<Longrightarrow> unat (x - 1) = unat x - 1"
  by (subst unat_sub) (auto simp: word_le_nat_alt)

lemma unat_image_lessThan: "unat ` {..<(w :: u64)} = {..<unat w}"
proof (intro equalityI subsetI)
  fix n assume n: "n \<in> {..<unat w}"
  then have "unat (of_nat n :: u64) = n"
    using unat_u64_lt [of w] by (simp add: unat_of_nat)
  then show "n \<in> unat ` {..<w}" using n by (intro image_eqI [of _ _ "of_nat n"]) (auto simp: word_less_nat_alt)
qed (auto simp: word_less_nat_alt)

lemma card_frames: "card {..<(w :: u64)} = unat w"
proof -
  have "inj_on unat {..<w}" by (auto simp: inj_on_def word_unat_eq_iff)
  from card_image [OF this] show ?thesis by (simp add: unat_image_lessThan)
qed

lemma card_free_less: "f < frame_count p \<Longrightarrow> f \<notin> free_set p \<Longrightarrow> card (free_set p) < unat (frame_count p)"
proof -
  assume f: "f < frame_count p" "f \<notin> free_set p"
  then have "free_set p \<subset> {..<frame_count p}" by (auto simp: free_set_def)
  from psubset_card_mono [OF _ this] show ?thesis by (simp add: card_frames)
qed

lemma mark_frame_free_wf:
  assumes wf: "pmm_wf p"
  shows "pmm_wf (mark_frame_free f p)"
proof (cases "f < frame_count p \<and> bitmap_test (bitmap p) f")
  case True
  then have f: "f \<notin> free_set p" "f < frame_count p" by (auto simp: free_set_def)
  have fs: "free_set (mark_frame_free f p) = insert f (free_set p)"
    using f by (simp add: free_set_mark_free [OF wf])
  have lt: "unat (free_frames p) < unat (frame_count p)"
    using wf card_free_less [OF f(2,1)] by (simp add: pmm_wf_def)
  then have pos: "0 < unat (used_frames p)" using wf by (simp add: pmm_wf_def)
  note u = unat_dec [OF pos] pos
  have eqs: "free_frames (mark_frame_free f p) = free_frames p + 1"
    "used_frames (mark_frame_free f p) = used_frames p - 1"
    "next_hint (mark_frame_free f p) = min f (next_hint p)"
    using True u(2) by (auto simp: mark_frame_free_def not_le word_greater_zero_iff min_def)
  show ?thesis
    using wf lt u f unfolding pmm_wf_def fs eqs
    by (auto simp: mark_frame_free_same unat_inc [OF lt] min.coboundedI2)
next
  case False
  then have "mark_frame_free f p = p" by (auto simp: mark_frame_free_def)
  with wf show ?thesis by simp
qed

lemma mark_frame_used_wf:
  assumes wf: "pmm_wf p"
  shows "pmm_wf (mark_frame_used f p)"
proof (cases "f \<in> free_set p")
  case True
  then have f: "f < frame_count p" "\<not> bitmap_test (bitmap p) f" by (auto simp: free_set_def)
  have pos: "0 < unat (free_frames p)"
    using wf True by (auto simp: pmm_wf_def card_gt_0_iff)
  have lt: "unat (used_frames p) < unat (frame_count p)" using wf pos by (simp add: pmm_wf_def)
  have eqs: "free_frames (mark_frame_used f p) = free_frames p - 1"
    "used_frames (mark_frame_used f p) = used_frames p + 1"
    "next_hint (mark_frame_used f p) = next_hint p"
    using f pos by (auto simp: mark_frame_used_def not_le word_greater_zero_iff)
  show ?thesis
    using wf pos True unfolding pmm_wf_def free_set_mark_used [OF wf] eqs
    by (auto simp: mark_frame_used_same unat_inc [OF lt] unat_dec)
next
  case False
  then have "mark_frame_used f p = p" by (auto simp: mark_frame_used_def free_set_def)
  with wf show ?thesis by simp
qed

section \<open>Ranges\<close>

text \<open>\<open>page_addrs\<close> is the loop of the code, for the aligned bounds the code runs it with.\<close>

lemma page_addrs_unfold:
  assumes "unat start mod 4096 = 0" "unat stop mod 4096 = 0"
  shows "page_addrs start stop = (if start < stop then start # page_addrs (start + PMM_PAGE_SIZE) stop else [])"
proof (cases "start < stop")
  case True
  have lt: "unat start < unat stop" using True by (simp add: word_less_nat_alt)
  obtain a b where ab: "unat start = 4096 * a" "unat stop = 4096 * b" using assms by (auto elim!: dvdE simp: mod_eq_0_iff_dvd)
  have bnd: "unat start + 4096 \<le> unat stop" using lt unfolding ab by simp
  then have s: "unat (start + 4096) = unat start + 4096"
    using unat_u64_lt [of stop] by (simp add: unat_word_ariths)
  have n: "(unat stop - unat start + 4095) div 4096 = Suc ((unat stop - unat (start + 4096) + 4095) div 4096)"
    using bnd unfolding s by simp
  show ?thesis
    using True unfolding page_addrs_def PMM_PAGE_SIZE_def n map_upt_Suc
    by (simp add: distrib_right add.assoc del: upt_Suc)
next
  case False
  then have "unat stop \<le> unat start" by (simp add: word_less_nat_alt)
  with False show ?thesis by (simp add: page_addrs_def)
qed

lemma page_addrs_frames:
  assumes "unat start mod 4096 = 0" "unat stop mod 4096 = 0"
  shows "(\<lambda>a. a div 4096) ` set (page_addrs start stop)
    = {i. unat start \<le> unat i * 4096 \<and> unat i * 4096 < unat stop}"
proof -
  obtain a b where ab: "unat start = 4096 * a" "unat stop = 4096 * b"
    using assms by (auto elim!: dvdE simp: mod_eq_0_iff_dvd)
  have page: "unat ((start + of_nat k * 4096) div 4096) = a + k" if "k < b - a" for k
  proof -
    have "a + k < b" using that by simp
    then have lt: "4096 * (a + k) < 18446744073709551616"
      using unat_u64_lt [of stop] unfolding ab by simp
    have "start = of_nat (4096 * a)" by (simp flip: ab(1))
    then have "start + of_nat k * 4096 = of_nat (4096 * (a + k))" by simp
    then have "unat (start + of_nat k * 4096) = 4096 * (a + k)"
      using lt by (simp only: unat_of_nat) simp
    then show ?thesis by (simp add: unat_div_page)
  qed
  have N: "(unat stop - unat start + 4095) div 4096 = b - a" unfolding ab by simp
  show ?thesis
  proof (intro equalityI subsetI)
    fix i assume "i \<in> (\<lambda>a. a div 4096) ` set (page_addrs start stop)"
    then obtain k where "k < b - a" "i = (start + of_nat k * 4096) div 4096"
      unfolding page_addrs_def N by auto
    with page [of k] show "i \<in> {i. unat start \<le> unat i * 4096 \<and> unat i * 4096 < unat stop}"
      unfolding ab by simp
  next
    fix i :: u64 assume "i \<in> {i. unat start \<le> unat i * 4096 \<and> unat i * 4096 < unat stop}"
    then have k: "unat i - a < b - a" "a \<le> unat i" unfolding ab by auto
    define j where "j = unat i - a"
    have "i = (start + of_nat j * 4096) div 4096" "j < b - a"
      unfolding word_unat_eq_iff j_def using page [OF k(1)] k by simp_all
    then show "i \<in> (\<lambda>a. a div 4096) ` set (page_addrs start stop)"
      unfolding page_addrs_def N by (intro image_eqI) auto
  qed
qed

text \<open>What folding the marks over a list of addresses does to the set of free frames.\<close>

lemma fold_mark_free:
  assumes "pmm_wf p"
  shows "pmm_wf (fold (\<lambda>a. mark_frame_free (a div PMM_PAGE_SIZE)) as p)
    \<and> same_frame p (fold (\<lambda>a. mark_frame_free (a div PMM_PAGE_SIZE)) as p)
    \<and> free_set (fold (\<lambda>a. mark_frame_free (a div PMM_PAGE_SIZE)) as p)
        = free_set p \<union> ((\<lambda>a. a div 4096) ` set as \<inter> {..<frame_count p})"
  using assms
proof (induction as arbitrary: p)
  case (Cons a as)
  from Cons.IH [OF mark_frame_free_wf [OF Cons.prems, of "a div 4096"]] Cons.prems
  show ?case by (auto simp: mark_frame_free_same free_set_mark_free)
qed simp

lemma reserve_page_eq:
  "\<exists>r. reserve_page a p = (mark_frame_used (a div 4096) p)\<lparr>reserved_frames := r\<rparr>"
  unfolding reserve_page_def Let_def PMM_PAGE_SIZE_def
  by (rule exI [of _ "if \<not> bitmap_test (bitmap p) (a div 4096) then reserved_frames (mark_frame_used (a div 4096) p) + 1
    else reserved_frames (mark_frame_used (a div 4096) p)"]) simp

lemma pmm_wf_reserved [simp]: "pmm_wf (p\<lparr>reserved_frames := r\<rparr>) = pmm_wf p"
  "free_set (p\<lparr>reserved_frames := r\<rparr>) = free_set p"
  "pmm_wf (p\<lparr>ignored_frames := r\<rparr>) = pmm_wf p"
  "free_set (p\<lparr>ignored_frames := r\<rparr>) = free_set p"
  by (simp_all add: pmm_wf_def free_set_def)

lemma reserve_page_wf:
  assumes "pmm_wf p"
  shows "pmm_wf (reserve_page a p)" "same_frame p (reserve_page a p)"
    "free_set (reserve_page a p) = free_set p - {a div 4096}"
proof -
  obtain r where "reserve_page a p = (mark_frame_used (a div 4096) p)\<lparr>reserved_frames := r\<rparr>"
    using reserve_page_eq by blast
  with assms show "pmm_wf (reserve_page a p)" "same_frame p (reserve_page a p)"
    "free_set (reserve_page a p) = free_set p - {a div 4096}"
    by (simp_all add: mark_frame_used_wf mark_frame_used_same free_set_mark_used)
qed

lemma fold_reserve:
  assumes "pmm_wf p"
  shows "pmm_wf (fold reserve_page as p) \<and> same_frame p (fold reserve_page as p)
    \<and> free_set (fold reserve_page as p) = free_set p - (\<lambda>a. a div 4096) ` set as"
  using assms
proof (induction as arbitrary: p)
  case (Cons a as)
  from Cons.IH [OF reserve_page_wf(1) [OF Cons.prems, of a]]
  show ?case by (auto simp: reserve_page_wf [OF Cons.prems])
qed simp

text \<open>
  The pages of a usable region are those it contains entirely; a reservation touches every page it
  overlaps. Regions end at least a page below the top of the address space, otherwise the
  rounding of the code wraps around.
\<close>

definition range_ok :: "u64 \<Rightarrow> u64 \<Rightarrow> bool" where
  "range_ok base len \<longleftrightarrow> unat base + unat len \<le> 2 ^ 64 - 4096"

definition contains_frame :: "u64 \<Rightarrow> u64 \<Rightarrow> u64 \<Rightarrow> bool" where
  "contains_frame base len i \<longleftrightarrow> unat base \<le> unat i * 4096 \<and> unat i * 4096 + 4096 \<le> unat base + unat len"

definition overlaps_frame :: "u64 \<Rightarrow> u64 \<Rightarrow> u64 \<Rightarrow> bool" where
  "overlaps_frame base len i \<longleftrightarrow> 0 < unat len \<and> unat base < unat i * 4096 + 4096 \<and> unat i * 4096 < unat base + unat len"

lemma range_ok_add:
  assumes "range_ok base len"
  shows "checked_add_u64 base len = Some (base + len)" "unat (base + len) = unat base + unat len"
  using assms by (simp_all add: range_ok_def checked_add_u64_Some unat_word_ariths)

lemma page_bounds:
  "(n + 4095) div 4096 \<le> i \<longleftrightarrow> (n :: nat) \<le> i * 4096"
  "i < n div 4096 \<longleftrightarrow> i * 4096 + 4096 \<le> (n :: nat)"
  "n div 4096 \<le> i \<longleftrightarrow> (n :: nat) < i * 4096 + 4096"
  "i < (n + 4095) div 4096 \<longleftrightarrow> i * 4096 < (n :: nat)"
  by auto

lemma page_aligned:
  "unat (align_down v 4096) mod 4096 = 0" "unat (align_up v 4096) mod 4096 = 0"
  by (simp_all add: unat_align_down align_up_down)

text \<open>The frames of a clipped address interval, as frame numbers below \<open>frame_count\<close>.\<close>

lemma clipped_frames:
  assumes wf: "pmm_wf p" and al: "unat start mod 4096 = 0" "unat stop mod 4096 = 0"
  shows "(\<lambda>a. a div 4096) ` set (page_addrs start (if max_phys p < stop then max_phys p else stop))
    = {i. i < frame_count p \<and> unat start \<le> unat i * 4096 \<and> unat i * 4096 < unat stop}"
proof -
  let ?s = "if max_phys p < stop then max_phys p else stop"
  have m: "unat (max_phys p) = unat (frame_count p) * 4096" using wf by (simp add: pmm_wf_def)
  then have "unat ?s mod 4096 = 0" using al(2) by simp
  note eq = page_addrs_frames [OF al(1) this]
  have "i * 4096 < unat ?s \<longleftrightarrow> i < unat (frame_count p) \<and> i * 4096 < unat stop" for i
    using m by (auto simp: word_less_nat_alt)
  then show ?thesis unfolding eq by (auto simp: word_less_nat_alt)
qed

lemma clipped_none:
  assumes "pmm_wf p" "stop \<le> start \<or> max_phys p \<le> start"
  shows "{i. i < frame_count p \<and> unat start \<le> unat i * 4096 \<and> unat i * 4096 < unat stop} = {}"
  using assms by (auto simp: pmm_wf_def word_less_nat_alt word_le_nat_alt)

lemma contains_frames:
  assumes "range_ok base len"
  shows "contains_frame base len i \<longleftrightarrow>
    unat (align_up base 4096) \<le> unat i * 4096 \<and> unat i * 4096 < unat (align_down (base + len) 4096)"
  using assms by (simp add: unat_align_up unat_align_down range_ok_add page_bounds contains_frame_def range_ok_def
      less_Suc_eq_le)

lemma overlaps_frames:
  assumes "range_ok base len" "len \<noteq> 0"
  shows "overlaps_frame base len i \<longleftrightarrow>
    unat (align_down base 4096) \<le> unat i * 4096 \<and> unat i * 4096 < unat (align_up (base + len) 4096)"
  using assms
  by (simp add: unat_align_up unat_align_down range_ok_add page_bounds overlaps_frame_def range_ok_def
      unat_gt_0 Suc_le_eq)

lemma mark_range_free_spec:
  assumes wf: "pmm_wf p" and ok: "range_ok base len"
  shows "pmm_wf (mark_range_free base len p) \<and> same_frame p (mark_range_free base len p)
    \<and> free_set (mark_range_free base len p)
        = free_set p \<union> {i. i < frame_count p \<and> contains_frame base len i}"
proof (cases "len = 0 \<or> align_down (base + len) 4096 \<le> align_up base 4096 \<or> max_phys p \<le> align_up base 4096")
  case True
  then have "{i. i < frame_count p \<and> contains_frame base len i} = {}"
  proof
    assume "len = 0" then show ?thesis by (auto simp: contains_frame_def)
  next
    assume "align_down (base + len) 4096 \<le> align_up base 4096 \<or> max_phys p \<le> align_up base 4096"
    from clipped_none [OF wf this] show ?thesis unfolding contains_frames [OF ok] .
  qed
  moreover have "mark_range_free base len p = p"
    using True by (auto simp: mark_range_free_def Let_def range_ok_add [OF ok])
  ultimately show ?thesis using wf by auto
next
  case False
  let ?stop = "align_down (base + len) 4096"
  let ?pages = "page_addrs (align_up base 4096) (if max_phys p < ?stop then max_phys p else ?stop)"
  define q where "q = (if max_phys p < ?stop then p\<lparr>ignored_frames := ignored_frames p
    + (?stop - max_phys p) div 4096\<rparr> else p)"
  have "mark_range_free base len p = fold (\<lambda>a. mark_frame_free (a div PMM_PAGE_SIZE)) ?pages q"
    using False by (simp add: mark_range_free_def range_ok_add [OF ok] q_def Let_def)
  moreover have "pmm_wf q" "same_frame p q" "free_set q = free_set p"
    using wf by (simp_all add: q_def)
  moreover have "(\<lambda>a. a div 4096) ` set ?pages = {i. i < frame_count p \<and> contains_frame base len i}"
    unfolding contains_frames [OF ok] by (rule clipped_frames [OF wf page_aligned(2,1)])
  ultimately show ?thesis
    using fold_mark_free [of q ?pages] by auto
qed

lemma mark_range_used_spec:
  assumes wf: "pmm_wf p" and ok: "range_ok base len"
  shows "pmm_wf (mark_range_used base len p) \<and> same_frame p (mark_range_used base len p)
    \<and> free_set (mark_range_used base len p) = free_set p - {i. overlaps_frame base len i}"
proof (cases "len = 0")
  case True
  then show ?thesis using wf by (simp add: mark_range_used_def overlaps_frame_def)
next
  case len: False
  let ?start = "align_down base 4096" and ?stop = "align_up (base + len) 4096"
  let ?pages = "page_addrs ?start (if max_phys p < ?stop then max_phys p else ?stop)"
  have fr: "free_set p - {i. overlaps_frame base len i}
    = free_set p - {i. i < frame_count p \<and> overlaps_frame base len i}"
    by (auto simp: free_set_def)
  show ?thesis
  proof (cases "?stop \<le> ?start \<or> max_phys p \<le> ?start")
    case True
    have "mark_range_used base len p = p"
      using True by (auto simp: mark_range_used_def Let_def range_ok_add [OF ok])
    moreover have "{i. i < frame_count p \<and> overlaps_frame base len i} = {}"
      using clipped_none [OF wf True] unfolding overlaps_frames [OF ok len] .
    ultimately show ?thesis using wf unfolding fr by auto
  next
    case False
    have "mark_range_used base len p = fold reserve_page ?pages p"
      using False len by (simp add: mark_range_used_def range_ok_add [OF ok] Let_def)
    moreover have "(\<lambda>a. a div 4096) ` set ?pages = {i. i < frame_count p \<and> overlaps_frame base len i}"
      unfolding overlaps_frames [OF ok len] by (rule clipped_frames [OF wf page_aligned(1,2)])
    ultimately show ?thesis unfolding fr using fold_reserve [OF wf, of ?pages] by simp
  qed
qed

section \<open>Initialisation\<close>

definition free_regions :: "boot_mem_region list \<Rightarrow> pmm_state \<Rightarrow> pmm_state" where
  "free_regions = fold (\<lambda>r p. if rg_type r = BOOT_MEM_USABLE then mark_range_free (rg_base r) (rg_length r) p else p)"

definition reserve_regions :: "boot_mem_region list \<Rightarrow> pmm_state \<Rightarrow> pmm_state" where
  "reserve_regions = fold (\<lambda>r p. if rg_type r \<noteq> BOOT_MEM_USABLE then mark_range_used (rg_base r) (rg_length r) p else p)"

abbreviation region_ok :: "boot_mem_region \<Rightarrow> bool" where
  "region_ok r \<equiv> range_ok (rg_base r) (rg_length r)"

lemma free_regions_spec:
  assumes "pmm_wf p" "\<forall>r\<in>set rs. region_ok r"
  shows "pmm_wf (free_regions rs p) \<and> same_frame p (free_regions rs p)
    \<and> free_set (free_regions rs p) = free_set p \<union> {i. i < frame_count p
        \<and> (\<exists>r\<in>set rs. rg_type r = BOOT_MEM_USABLE \<and> contains_frame (rg_base r) (rg_length r) i)}"
  using assms
proof (induction rs arbitrary: p)
  case (Cons r rs)
  then have "range_ok (rg_base r) (rg_length r)" by simp
  note spec = mark_range_free_spec [OF Cons.prems(1) this]
  show ?case
  proof (cases "rg_type r = BOOT_MEM_USABLE")
    case True
    then have "free_regions (r # rs) p = free_regions rs (mark_range_free (rg_base r) (rg_length r) p)"
      by (simp add: free_regions_def)
    with Cons.IH [of "mark_range_free (rg_base r) (rg_length r) p"] Cons.prems spec True
    show ?thesis by auto
  next
    case False
    then have "free_regions (r # rs) p = free_regions rs p" by (simp add: free_regions_def)
    with Cons.IH [of p] Cons.prems False show ?thesis by auto
  qed
qed (simp add: free_regions_def)

lemma reserve_regions_spec:
  assumes "pmm_wf p" "\<forall>r\<in>set rs. region_ok r"
  shows "pmm_wf (reserve_regions rs p) \<and> same_frame p (reserve_regions rs p)
    \<and> free_set (reserve_regions rs p) = free_set p -
        {i. \<exists>r\<in>set rs. rg_type r \<noteq> BOOT_MEM_USABLE \<and> overlaps_frame (rg_base r) (rg_length r) i}"
  using assms
proof (induction rs arbitrary: p)
  case (Cons r rs)
  then have "range_ok (rg_base r) (rg_length r)" by simp
  note spec = mark_range_used_spec [OF Cons.prems(1) this]
  show ?case
  proof (cases "rg_type r \<noteq> BOOT_MEM_USABLE")
    case True
    then have "reserve_regions (r # rs) p = reserve_regions rs (mark_range_used (rg_base r) (rg_length r) p)"
      by (simp add: reserve_regions_def)
    with Cons.IH [of "mark_range_used (rg_base r) (rg_length r) p"] Cons.prems spec True
    show ?thesis by auto
  next
    case False
    then have "reserve_regions (r # rs) p = reserve_regions rs p" by (simp add: reserve_regions_def)
    with Cons.IH [of p] Cons.prems False show ?thesis by auto
  qed
qed (simp add: reserve_regions_def)

text \<open>The state after the bitmap is filled with ones.\<close>

definition init_state :: "bytes \<Rightarrow> u64 \<Rightarrow> pmm_state" where
  "init_state storage m =
     (let fc = m div PMM_PAGE_SIZE; required = (fc + 7) div 8 in
      pmm_zero_state\<lparr>bitmap := replicate (unat required) 255 @ drop (unat required) storage,
        bitmap_bytes := required, max_phys := m, frame_count := fc,
        free_frames := 0, used_frames := fc, next_hint := 0\<rparr>)"

lemma unat_required:
  fixes m :: u64
  shows "unat (m div 4096 + 7) = unat m div 4096 + 7"
    "unat ((m div 4096 + 7) div 8) = (unat m div 4096 + 7) div 8"
proof -
  show "unat (m div 4096 + 7) = unat m div 4096 + 7"
    using unat_u64_lt [of m] by (simp add: unat_word_ariths unat_div)
  then show "unat ((m div 4096 + 7) div 8) = (unat m div 4096 + 7) div 8" by (simp add: unat_div)
qed

lemma bit_u8_255: "bit (255 :: u8) k \<longleftrightarrow> k < 8"
proof -
  have "(255 :: u8) = mask 8" by (simp add: mask_eq_exp_minus_1)
  then show ?thesis by (simp only: bit_mask_iff) simp
qed

lemma init_state_wf:
  assumes "unat m mod 4096 = 0" "unat ((m div PMM_PAGE_SIZE + 7) div 8) \<le> length storage"
  shows "pmm_wf (init_state storage m)" "free_set (init_state storage m) = {}"
    "max_phys (init_state storage m) = m" "frame_count (init_state storage m) = m div 4096"
proof -
  have "bitmap_test (bitmap (init_state storage m)) i" if "i < m div 4096" for i
  proof -
    have "unat i < unat m div 4096" using unat_mono [OF that] by (simp add: unat_div)
    then have "unat i div 8 < (unat m div 4096 + 7) div 8" by (simp add: less_eq_div_iff_mult_less_eq)
    then have "bitmap (init_state storage m) ! (unat i div 8) = 255"
      by (simp add: init_state_def Let_def nth_append unat_required)
    then show ?thesis unfolding bitmap_test_bit by (simp only: bit_u8_255 mod_less_divisor)
  qed
  then show free: "free_set (init_state storage m) = {}" by (auto simp: free_set_def init_state_def Let_def)
  show "max_phys (init_state storage m) = m" "frame_count (init_state storage m) = m div 4096"
    by (simp_all add: init_state_def Let_def)
  have "unat m div 4096 * 4096 = unat m"
    using div_mult_mod_eq [of "unat m" 4096] assms(1) by simp
  moreover have "unat m div 4096 \<le> 8 * ((unat m div 4096 + 7) div 8)" by simp
  ultimately show "pmm_wf (init_state storage m)"
    using assms(2) unfolding pmm_wf_def free
    by (simp add: init_state_def Let_def unat_div unat_required pmm_zero_state_def)
qed

lemma pmm_init_eq:
  "pmm_init_from_map pmm rsp stp m = (True, p') \<longleftrightarrow>
   (\<exists>rs storage. rsp = Some rs \<and> stp = Some storage \<and> rs \<noteq> [] \<and> m \<noteq> 0 \<and> unat m mod 4096 = 0
     \<and> unat ((m div PMM_PAGE_SIZE + 7) div 8) \<le> length storage
     \<and> p' = (reserve_regions rs (mark_range_used 0 PMM_PAGE_SIZE (free_regions rs (init_state storage m))))
              \<lparr>initialized := True\<rparr>)"
  unfolding pmm_init_from_map_def free_regions_def reserve_regions_def init_state_def
  by (auto simp: Let_def and_page_mask not_less split: option.splits)

definition init_free :: "boot_mem_region list \<Rightarrow> u64 \<Rightarrow> u64 set" where
  "init_free rs m = {i. i < m div PMM_PAGE_SIZE \<and> i \<noteq> 0
     \<and> (\<exists>r\<in>set rs. rg_type r = BOOT_MEM_USABLE \<and> contains_frame (rg_base r) (rg_length r) i)
     \<and> \<not> (\<exists>r\<in>set rs. rg_type r \<noteq> BOOT_MEM_USABLE \<and> overlaps_frame (rg_base r) (rg_length r) i)}"

lemma pmm_wf_initialized [simp]:
  "pmm_wf (p\<lparr>initialized := b\<rparr>) = pmm_wf p" "free_set (p\<lparr>initialized := b\<rparr>) = free_set p"
  by (simp_all add: pmm_wf_def free_set_def)

lemma overlaps_frame_zero: "overlaps_frame 0 4096 i \<longleftrightarrow> i = 0"
  by (auto simp: overlaps_frame_def word_unat_eq_iff)

lemma pmm_init_result:
  assumes "pmm_init_from_map pmm (Some rs) (Some storage) m = (True, p)"
    and "\<forall>r\<in>set rs. region_ok r"
  shows "pmm_inv p \<and> max_phys p = m \<and> free_set p = init_free rs m"
proof -
  let ?p0 = "init_state storage m"
  let ?p1 = "free_regions rs ?p0"
  let ?p2 = "mark_range_used 0 4096 ?p1"
  from assms(1) have m: "unat m mod 4096 = 0" "unat ((m div PMM_PAGE_SIZE + 7) div 8) \<le> length storage"
    and p: "p = (reserve_regions rs ?p2)\<lparr>initialized := True\<rparr>"
    by (auto simp: pmm_init_eq)
  note i = init_state_wf [OF m]
  note s1 = free_regions_spec [OF i(1) assms(2)]
  have "range_ok 0 4096" by (simp add: range_ok_def)
  note s2 = mark_range_used_spec [OF conjunct1 [OF s1] this]
  note s3 = reserve_regions_spec [OF conjunct1 [OF s2] assms(2)]
  have "free_set p = init_free rs m"
    using s1 s2 s3 i by (auto simp: p init_free_def overlaps_frame_zero)
  moreover from this have "0 \<notin> free_set p" by (simp add: init_free_def)
  ultimately show ?thesis using s1 s2 s3 i(3) by (simp add: p pmm_inv_def)
qed

definition init_args_ok :: "boot_mem_region list \<Rightarrow> bytes \<Rightarrow> u64 \<Rightarrow> bool" where
  "init_args_ok rs storage m \<longleftrightarrow> rs \<noteq> [] \<and> m \<noteq> 0 \<and> unat m mod 4096 = 0
     \<and> (unat m div 4096 + 7) div 8 \<le> length storage"

text \<open>
  C6. Initialisation from a boot memory map. It succeeds exactly when there is a region, the size of
  physical memory is a positive number of pages and the bitmap storage has a bit for every frame;
  otherwise the state is untouched. On success, if no region reaches the last page of the address
  space, the invariant holds and the free frames are exactly the frames other than frame 0 that lie
  inside a usable region and that no region of another type touches.
\<close>

theorem pmm_init_spec:
  "if init_args_ok rs storage m
    then (\<exists>p. pmm_init_from_map pmm (Some rs) (Some storage) m = (True, p)
      \<and> ((\<forall>r\<in>set rs. region_ok r) \<longrightarrow> pmm_inv p \<and> max_phys p = m \<and> free_set p = init_free rs m))
    else pmm_init_from_map pmm (Some rs) (Some storage) m = (False, pmm)"
proof (cases "init_args_ok rs storage m")
  case True
  then obtain p where "pmm_init_from_map pmm (Some rs) (Some storage) m = (True, p)"
    by (auto simp: init_args_ok_def pmm_init_eq unat_required)
  with True pmm_init_result [OF this] show ?thesis by auto
next
  case False
  then show ?thesis
    by (auto simp: init_args_ok_def pmm_init_from_map_def Let_def and_page_mask unat_required not_le)
qed

section \<open>Allocation, release, reservation\<close>

lemma of_nat_frame: "n < unat (w :: u64) \<Longrightarrow> unat (of_nat n :: u64) = n \<and> (of_nat n :: u64) < w"
  using unat_u64_lt [of w] by (simp add: word_less_nat_alt unat_of_nat)

lemma find_free_frame:
  assumes "free_set p \<noteq> {}" "\<forall>i\<in>free_set p. next_hint p \<le> i"
  shows "List.find (\<lambda>f. \<not> bitmap_test (bitmap p) (of_nat f)) [unat (next_hint p)..<unat (frame_count p)]
    = Some (unat (Min (free_set p)))"
proof -
  let ?P = "\<lambda>f. \<not> bitmap_test (bitmap p) (of_nat f)"
  let ?f = "Min (free_set p)"
  have f: "?f \<in> free_set p" using assms(1) by (simp add: Min_in)
  then have lim: "unat (next_hint p) \<le> unat ?f" "unat ?f < unat (frame_count p)" "?P (unat ?f)"
    using assms(2) by (auto simp: free_set_def word_le_nat_alt word_less_nat_alt)
  from lim(3,1,2) obtain j where j: "List.find ?P [unat (next_hint p)..<unat (frame_count p)] = Some j"
    by (rule find_upt_Some_exI)
  note jD = find_upt_SomeD [OF j]
  have "of_nat j \<in> free_set p" using jD(2,3) of_nat_frame by (auto simp: free_set_def)
  then have "?f \<le> of_nat j" by simp
  then have "unat ?f \<le> j" using of_nat_frame [OF jD(2)] by (simp add: word_le_nat_alt)
  moreover have "\<not> unat ?f < j" using jD(4) [OF lim(1)] lim(3) by blast
  ultimately show ?thesis using j by simp
qed

lemma frame_addr:
  assumes "pmm_wf p" "i < frame_count p"
  shows "unat (i * 4096) = unat i * 4096" "i * 4096 < max_phys p" "i * 4096 div 4096 = i"
    "i \<noteq> 0 \<Longrightarrow> i * 4096 \<noteq> 0"
proof -
  have lt: "unat i * 4096 < unat (max_phys p)"
    using assms by (simp add: pmm_wf_def word_less_nat_alt)
  then show u: "unat (i * 4096) = unat i * 4096"
    using unat_u64_lt [of "max_phys p"] by (intro unat_mul_page) simp
  show "i * 4096 < max_phys p" using lt u by (simp add: word_less_nat_alt)
  show "i * 4096 div 4096 = i" by (simp add: word_unat_eq_iff unat_div_page u)
  show "i * 4096 \<noteq> 0" if "i \<noteq> 0" using u that by (metis unat_eq_zero mult_is_0 numeral_eq_Suc nat.distinct(1))
qed

lemma alloc_keeps:
  assumes inv: "pmm_inv p" and f: "f \<in> free_set p" "\<forall>i\<in>free_set p. f \<le> i"
  defines "p' \<equiv> (mark_frame_used f p)\<lparr>next_hint := f + 1\<rparr>"
  shows "pmm_inv p' \<and> same_frame p p' \<and> free_set p' = free_set p - {f}"
proof -
  have wf: "pmm_wf p" using inv by (simp add: pmm_inv_def)
  have fs: "free_set p' = free_set p - {f}"
    using free_set_mark_used [OF wf, of f] by (simp add: p'_def free_set_def)
  have "f + 1 \<le> i" if "i \<in> free_set p - {f}" for i
    using f(2) that by (intro inc_le) (auto simp: less_le)
  then have "pmm_wf p'"
    using mark_frame_used_wf [OF wf, of f] fs unfolding pmm_wf_def
    by (simp add: p'_def free_set_def)
  then show ?thesis
    using fs inv by (simp add: pmm_inv_def p'_def mark_frame_used_same)
qed

lemma pmm_alloc_empty:
  assumes inv: "pmm_inv p" and none: "free_set p = {}"
  shows "pmm_alloc_frame p = (PMM_INVALID_FRAME, p)"
proof -
  have "free_frames p = 0" using inv none by (auto simp: pmm_inv_def pmm_wf_def unat_eq_zero)
  then show ?thesis by (simp add: pmm_alloc_frame_def)
qed

lemma pmm_alloc_first_fit:
  assumes inv: "pmm_inv p" and some: "free_set p \<noteq> {}"
  defines "f \<equiv> Min (free_set p)"
  obtains p' where "pmm_alloc_frame p = (f * 4096, p')" "pmm_inv p'" "same_frame p p'"
    "free_set p' = free_set p - {f}" "f \<in> free_set p"
    "unat (f * 4096) mod 4096 = 0" "f * 4096 \<noteq> 0" "f * 4096 < max_phys p" "f * 4096 div 4096 = f"
proof -
  have wf: "pmm_wf p" "\<forall>i\<in>free_set p. next_hint p \<le> i" using inv by (auto simp: pmm_inv_def pmm_wf_def)
  have f: "f \<in> free_set p" "\<forall>i\<in>free_set p. f \<le> i" using some by (simp_all add: f_def)
  then have fc: "f < frame_count p" "f \<noteq> 0" using inv by (auto simp: free_set_def pmm_inv_def)
  have ff: "free_frames p \<noteq> 0" using wf(1) some by (auto simp: pmm_wf_def)
  have eq: "pmm_alloc_frame p = (f * 4096, (mark_frame_used f p)\<lparr>next_hint := f + 1\<rparr>)"
    using ff inv find_free_frame [OF some wf(2)] by (simp add: pmm_alloc_frame_def pmm_inv_def f_def)
  show thesis
    by (rule that [OF eq]) (use alloc_keeps [OF inv f] frame_addr [OF wf(1) fc(1)] fc(2) f(1) in simp_all)
qed

text \<open>
  C7. Allocation is first-fit: as long as any frame is free the lowest one is returned as a page
  address below \<open>max_phys\<close>, it alone leaves the free set and the invariant is kept; the invalid
  frame comes back, with the state unchanged, exactly when nothing is free.
\<close>

theorem pmm_alloc_frame_spec:
  assumes "pmm_inv p"
  shows "if free_set p = {} then pmm_alloc_frame p = (PMM_INVALID_FRAME, p)
    else (\<exists>p'. pmm_alloc_frame p = (Min (free_set p) * PMM_PAGE_SIZE, p')
      \<and> pmm_inv p' \<and> same_frame p p' \<and> free_set p' = free_set p - {Min (free_set p)}
      \<and> Min (free_set p) * PMM_PAGE_SIZE < max_phys p \<and> Min (free_set p) * PMM_PAGE_SIZE \<noteq> 0)"
proof (cases "free_set p = {}")
  case True
  then show ?thesis using pmm_alloc_empty [OF assms] by simp
next
  case False
  from pmm_alloc_first_fit [OF assms False] obtain p' where
    "pmm_alloc_frame p = (Min (free_set p) * 4096, p')" "pmm_inv p'" "same_frame p p'"
    "free_set p' = free_set p - {Min (free_set p)}"
    "Min (free_set p) * 4096 < max_phys p" "Min (free_set p) * 4096 \<noteq> 0" by metis
  with False show ?thesis by simp
qed

definition releasable :: "pmm_state \<Rightarrow> u64 \<Rightarrow> bool" where
  "releasable p a \<longleftrightarrow> unat a mod 4096 = 0 \<and> a \<noteq> 0 \<and> a < max_phys p \<and> a div PMM_PAGE_SIZE \<notin> free_set p"

lemma addr_frame_lt: "pmm_wf p \<Longrightarrow> a < max_phys p \<Longrightarrow> a div 4096 < frame_count p"
  by (simp add: pmm_wf_def word_less_nat_alt unat_div_page less_mult_imp_div_less)

lemma pmm_free_rejected:
  assumes "pmm_inv p" "\<not> releasable p a"
  shows "pmm_free_frame p a = (False, p)"
  using assms addr_frame_lt [of p a]
  by (auto simp: releasable_def pmm_inv_def pmm_free_frame_def and_page_mask free_set_def not_le)

lemma pmm_free_accepted:
  assumes inv: "pmm_inv p" and ok: "releasable p a"
  obtains p' where "pmm_free_frame p a = (True, p')" "pmm_inv p'" "same_frame p p'"
    "free_set p' = insert (a div 4096) (free_set p)"
proof -
  have wf: "pmm_wf p" using inv by (simp add: pmm_inv_def)
  have f: "a div 4096 < frame_count p" "bitmap_test (bitmap p) (a div 4096)"
    using ok addr_frame_lt [OF wf, of a] by (auto simp: releasable_def free_set_def)
  have nz: "a div 4096 \<noteq> 0" using ok by (auto simp: releasable_def word_unat_eq_iff unat_div_page)
  have fs: "free_set (mark_frame_free (a div 4096) p) = insert (a div 4096) (free_set p)"
    using f(1) by (simp add: free_set_mark_free [OF wf])
  have eq: "pmm_free_frame p a = (True, mark_frame_free (a div 4096) p)"
    using ok inv f by (auto simp: pmm_free_frame_def pmm_inv_def releasable_def and_page_mask)
  show thesis
    by (rule that [OF eq])
      (use inv nz fs in \<open>simp_all add: pmm_inv_def mark_frame_free_wf mark_frame_free_same\<close>)
qed

text \<open>
  C8. Releasing a frame succeeds exactly for a page-aligned non-zero address below \<open>max_phys\<close> whose
  frame is in use; then that frame joins the free set. Everything else, a double free included, is
  rejected and changes nothing. The invariant is kept in both cases.
\<close>

theorem pmm_free_frame_spec:
  assumes "pmm_inv p"
  shows "if releasable p a
    then (\<exists>p'. pmm_free_frame p a = (True, p') \<and> pmm_inv p' \<and> same_frame p p'
      \<and> free_set p' = insert (a div PMM_PAGE_SIZE) (free_set p) \<and> pmm_free_frame p' a = (False, p'))
    else pmm_free_frame p a = (False, p)"
proof (cases "releasable p a")
  case True
  from pmm_free_accepted [OF assms this] obtain p' where p': "pmm_free_frame p a = (True, p')" "pmm_inv p'"
    "same_frame p p'" "free_set p' = insert (a div 4096) (free_set p)" .
  then have "\<not> releasable p' a" by (simp add: releasable_def)
  with pmm_free_rejected [OF p'(2)] True p' show ?thesis by simp
qed (simp add: pmm_free_rejected assms)

lemma mark_range_used_wf:
  assumes "pmm_wf p"
  shows "pmm_wf (mark_range_used base len p)" "same_frame p (mark_range_used base len p)"
    "free_set (mark_range_used base len p) \<subseteq> free_set p"
proof -
  have "mark_range_used base len p = p \<or> (\<exists>as. mark_range_used base len p = fold reserve_page as p)"
    by (auto simp: mark_range_used_def Let_def split: option.splits)
  then show "pmm_wf (mark_range_used base len p)" "same_frame p (mark_range_used base len p)"
    "free_set (mark_range_used base len p) \<subseteq> free_set p"
    using assms fold_reserve [OF assms] by auto
qed

section \<open>Runs of an initialised manager\<close>

text \<open>
  A client that owns the frames it was given: \<open>held\<close> are the addresses returned by the allocator and
  not yet released. It releases only what it holds and may reserve any range.
\<close>

inductive pmm_run :: "pmm_state \<times> u64 set \<Rightarrow> bool" where
  pmm_run_init: "pmm_init_from_map pmm (Some rs) (Some storage) m = (True, p) \<Longrightarrow> \<forall>r\<in>set rs. region_ok r
    \<Longrightarrow> pmm_run (p, {})"
| pmm_run_alloc: "pmm_run (p, held) \<Longrightarrow> pmm_alloc_frame p = (a, p') \<Longrightarrow>
    pmm_run (p', if a = PMM_INVALID_FRAME then held else insert a held)"
| pmm_run_free: "pmm_run (p, held) \<Longrightarrow> a \<in> held \<Longrightarrow> pmm_free_frame p a = (r, p') \<Longrightarrow> pmm_run (p', held - {a})"
| pmm_run_reserve: "pmm_run (p, held) \<Longrightarrow> pmm_reserve_range p base len = (r, p') \<Longrightarrow> pmm_run (p', held)"

definition run_inv :: "pmm_state \<times> u64 set \<Rightarrow> bool" where
  "run_inv s \<longleftrightarrow> pmm_inv (fst s) \<and> (\<forall>a\<in>snd s. unat a mod 4096 = 0 \<and> a \<noteq> 0 \<and> a < max_phys (fst s)
     \<and> a div 4096 \<notin> free_set (fst s))"

lemma pmm_reserve_keeps:
  assumes "pmm_inv p" "pmm_reserve_range p base len = (r, p')"
  shows "pmm_inv p' \<and> max_phys p' = max_phys p \<and> free_set p' \<subseteq> free_set p"
  using assms mark_range_used_wf [of p base len]
  by (auto simp: pmm_reserve_range_def pmm_inv_def split: if_splits)

lemma frame_inj: "unat (a :: u64) mod 4096 = 0 \<Longrightarrow> unat b mod 4096 = 0 \<Longrightarrow> a div 4096 = b div 4096 \<Longrightarrow> a = b"
  by (metis div_mult_mod_eq add.right_neutral unat_div_page word_unat_eq_iff)

lemma pmm_run_inv: "pmm_run s \<Longrightarrow> run_inv s"
proof (induction rule: pmm_run.induct)
  case (pmm_run_init pmm rs storage m p)
  then show ?case using pmm_init_result by (auto simp: run_inv_def)
next
  case (pmm_run_alloc p held a p')
  then have inv: "pmm_inv p" by (simp add: run_inv_def)
  show ?case
  proof (cases "free_set p = {}")
    case True
    with pmm_run_alloc pmm_alloc_empty [OF inv] show ?thesis by simp
  next
    case False
    from pmm_alloc_first_fit [OF inv this] pmm_run_alloc(2) obtain f where
      "pmm_inv p'" "same_frame p p'" "free_set p' = free_set p - {f}"
      "unat a mod 4096 = 0" "a \<noteq> 0" "a < max_phys p" "a div 4096 = f"
      by (metis prod.inject)
    with pmm_run_alloc(3) show ?thesis by (auto simp: run_inv_def)
  qed
next
  case (pmm_run_free p held a r p')
  then have inv: "pmm_inv p" and rel: "releasable p a" by (auto simp: run_inv_def releasable_def)
  from pmm_free_accepted [OF this] pmm_run_free(3) have
    "pmm_inv p'" "same_frame p p'" "free_set p' = insert (a div 4096) (free_set p)" by (metis prod.inject)+
  moreover have "b div 4096 \<noteq> a div 4096" if "b \<in> held" "b \<noteq> a" for b
    using frame_inj [of a b] pmm_run_free.IH pmm_run_free(2) that by (auto simp: run_inv_def)
  ultimately show ?case using pmm_run_free.IH by (auto simp: run_inv_def)
next
  case (pmm_run_reserve p held base len r p')
  then show ?case using pmm_reserve_keeps [of p base len r p'] by (auto simp: run_inv_def)
qed


text \<open>
  C9. No run of the allocator hands out a frame that is still held: in every reachable state, what an
  allocation returns is either the invalid marker or a non-zero page address below \<open>max_phys\<close> that
  no earlier allocation still owns.
\<close>

theorem pmm_no_double_allocation:
  assumes "pmm_run (p, held)" "pmm_alloc_frame p = (a, p')"
  shows "a = PMM_INVALID_FRAME \<or> a \<notin> held \<and> a \<noteq> 0 \<and> a < max_phys p \<and> unat a mod 4096 = 0"
proof -
  have inv: "pmm_inv p" "run_inv (p, held)" using pmm_run_inv [OF assms(1)] by (auto simp: run_inv_def)
  show ?thesis
  proof (cases "free_set p = {}")
    case True
    then show ?thesis using pmm_alloc_empty [OF inv(1)] assms(2) by simp
  next
    case False
    from pmm_alloc_first_fit [OF inv(1) this] assms(2) obtain f where
      "f \<in> free_set p" "unat a mod 4096 = 0" "a \<noteq> 0" "a < max_phys p" "a div 4096 = f"
      by (metis prod.inject)
    with inv(2) show ?thesis by (auto simp: run_inv_def)
  qed
qed

section \<open>A concrete machine\<close>

text \<open>Eight frames, all usable but the one a firmware table lies in.\<close>

definition demo_map :: "boot_mem_region list" where
  "demo_map = [\<lparr>rg_base = 0, rg_length = 0x8000, rg_type = 1\<rparr>, \<lparr>rg_base = 0x1010, rg_length = 0x20, rg_type = 7\<rparr>]"

definition demo_pmm :: pmm_state where
  "demo_pmm = snd (pmm_init_from_map pmm_zero_state (Some demo_map) (Some [0]) 0x8000)"

lemma demo_map_ok: "\<forall>r\<in>set demo_map. region_ok r" "init_args_ok demo_map [0] 0x8000"
  by (simp_all add: demo_map_def range_ok_def init_args_ok_def)

lemma demo_init: "pmm_init_from_map pmm_zero_state (Some demo_map) (Some [0]) 0x8000 = (True, demo_pmm)"
proof -
  obtain p where "pmm_init_from_map pmm_zero_state (Some demo_map) (Some [0]) 0x8000 = (True, p)"
    using demo_map_ok(2) by (auto simp: init_args_ok_def pmm_init_eq unat_required)
  then show ?thesis by (simp add: demo_pmm_def)
qed

lemma demo_inv: "pmm_inv demo_pmm" "max_phys demo_pmm = 0x8000" "free_set demo_pmm = init_free demo_map 0x8000"
  using pmm_init_result [OF demo_init demo_map_ok(1)] by simp_all

lemma demo_free: "2 \<in> free_set demo_pmm" "1 \<notin> free_set demo_pmm" "free_set demo_pmm \<noteq> {}"
proof -
  show "2 \<in> free_set demo_pmm" "1 \<notin> free_set demo_pmm"
    by (simp_all add: demo_inv init_free_def demo_map_def BOOT_MEM_USABLE_def contains_frame_def
        overlaps_frame_def word_less_nat_alt)
  then show "free_set demo_pmm \<noteq> {}" by auto
qed

theorem pmm_init_spec_witness:
  "\<exists>p. pmm_init_from_map pmm_zero_state (Some demo_map) (Some [0]) 0x8000 = (True, p)
    \<and> pmm_inv p \<and> max_phys p = 0x8000 \<and> free_set p = init_free demo_map 0x8000"
  using pmm_init_spec [of demo_map "[0]" "0x8000" pmm_zero_state] demo_map_ok by simp

theorem pmm_alloc_frame_spec_witness:
  "pmm_inv demo_pmm \<and> free_set demo_pmm \<noteq> {}
    \<and> (\<exists>p'. pmm_alloc_frame demo_pmm = (Min (free_set demo_pmm) * PMM_PAGE_SIZE, p')
      \<and> pmm_inv p' \<and> same_frame demo_pmm p' \<and> free_set p' = free_set demo_pmm - {Min (free_set demo_pmm)}
      \<and> Min (free_set demo_pmm) * PMM_PAGE_SIZE < max_phys demo_pmm
      \<and> Min (free_set demo_pmm) * PMM_PAGE_SIZE \<noteq> 0)"
  using pmm_alloc_frame_spec [OF demo_inv(1)] demo_free(3) demo_inv(1) by simp

lemma demo_releasable: "releasable demo_pmm 0x1000"
  using demo_free(2) by (simp add: releasable_def demo_inv)

theorem pmm_free_frame_spec_witness:
  "releasable demo_pmm 0x1000 \<and> (\<exists>p'. pmm_free_frame demo_pmm 0x1000 = (True, p') \<and> pmm_inv p'
     \<and> same_frame demo_pmm p' \<and> free_set p' = insert (0x1000 div PMM_PAGE_SIZE) (free_set demo_pmm)
     \<and> pmm_free_frame p' 0x1000 = (False, p'))"
  using pmm_free_frame_spec [OF demo_inv(1), of "0x1000"] demo_releasable by simp

theorem pmm_no_double_allocation_witness:
  "\<exists>a p'. pmm_run (demo_pmm, {}) \<and> pmm_alloc_frame demo_pmm = (a, p') \<and> a \<noteq> PMM_INVALID_FRAME
    \<and> (\<exists>b p''. pmm_alloc_frame p' = (b, p'') \<and> (b = PMM_INVALID_FRAME \<or> b \<noteq> a))"
proof -
  have run: "pmm_run (demo_pmm, {})" by (rule pmm_run_init [OF demo_init demo_map_ok(1)])
  from pmm_alloc_first_fit [OF demo_inv(1) demo_free(3)] obtain a p' where
    a: "pmm_alloc_frame demo_pmm = (a, p')" "a < max_phys demo_pmm" by metis
  then have ne: "a \<noteq> PMM_INVALID_FRAME" by (auto simp: demo_inv PMM_INVALID_FRAME_def)
  have run': "pmm_run (p', {a})" using pmm_run_alloc [OF run a(1)] ne by simp
  obtain b p'' where b: "pmm_alloc_frame p' = (b, p'')" by fastforce
  from pmm_no_double_allocation [OF run' b] run a(1) ne b show ?thesis by blast
qed

end
