(* ===== verification/Vmm.thy ===== *)
theory Vmm
  imports Pmm "HOL-Library.Sublist"
begin

text \<open>
  The virtual memory manager (\<open>src/vmm.c\<close>, \<open>include/vmm.h\<close>) and its wiring to the frame allocator
  (\<open>src/kernel_memory.c\<close>). Page tables live in an explicit memory of 64-bit cells, reached through
  the \<open>phys_to_virt\<close> callback, so sharing of tables and of cells is part of the model. The
  interface to the allocator is the locale \<open>frame_source\<close>; the map, query and unmap lemmas are
  proved over it and the kernel's own callbacks are its instance.
\<close>

section \<open>Data\<close>

definition VMM_PAGE_SIZE :: u64 where [simp, layout]: "VMM_PAGE_SIZE = 4096"
definition VMM_ENTRIES_PER_TABLE :: nat where [layout]: "VMM_ENTRIES_PER_TABLE = 512"
definition VMM_INVALID_PHYS :: u64 where [layout]: "VMM_INVALID_PHYS = UINT64_MAX"

definition VMM_PTE_PRESENT :: u64 where [layout]: "VMM_PTE_PRESENT = push_bit 0 1"
definition VMM_PTE_WRITABLE :: u64 where [layout]: "VMM_PTE_WRITABLE = push_bit 1 1"
definition VMM_PTE_USER :: u64 where [layout]: "VMM_PTE_USER = push_bit 2 1"
definition VMM_PTE_WRITE_THROUGH :: u64 where [layout]: "VMM_PTE_WRITE_THROUGH = push_bit 3 1"
definition VMM_PTE_CACHE_DISABLE :: u64 where [layout]: "VMM_PTE_CACHE_DISABLE = push_bit 4 1"
definition VMM_PTE_HUGE :: u64 where [layout]: "VMM_PTE_HUGE = push_bit 7 1"
definition VMM_PTE_GLOBAL :: u64 where [layout]: "VMM_PTE_GLOBAL = push_bit 8 1"
definition VMM_PTE_NO_EXECUTE :: u64 where [layout]: "VMM_PTE_NO_EXECUTE = push_bit 63 1"
definition VMM_PTE_ADDR_MASK :: u64 where [layout]: "VMM_PTE_ADDR_MASK = 0x000FFFFFFFFFF000"

datatype vmm_err = VMM_ERR_INVAL | VMM_ERR_NOMEM | VMM_ERR_EXISTS | VMM_ERR_NOT_FOUND

text \<open>
  The callbacks of a space are NULL-able function pointers. What their \<open>ctx\<close> argument points to is
  the component \<open>vctx\<close> of the machine, because allocating and releasing change it.
\<close>

record 'c vmm_space =
  root_paddr :: u64
  alloc_frame :: "('c \<Rightarrow> u64 \<times> 'c) option"
  free_frame :: "('c \<Rightarrow> u64 \<Rightarrow> 'c) option"
  phys_to_virt :: "('c \<Rightarrow> u64 \<Rightarrow> u64) option"

record vmm_mapping =
  mp_vaddr :: u64
  mp_paddr :: u64
  mp_flags :: u64

record 'c machine =
  vmem :: "u64 \<Rightarrow> u64"
  vctx :: 'c
  tlb_invalidated :: "u64 list"

type_synonym ('c, 'a) vmm_prog = "('c machine, vmm_err, 'a) prog"

text \<open>Entry \<open>i\<close> of the table a pointer designates is the 8-byte cell at \<open>ptr + 8 i\<close>.\<close>

abbreviation cell_addr :: "u64 \<Rightarrow> nat \<Rightarrow> u64" where
  "cell_addr table i \<equiv> table + 8 * of_nat i"

section \<open>Operations\<close>

definition vmm_zero_page :: "u64 \<Rightarrow> (u64 \<Rightarrow> u64) \<Rightarrow> (u64 \<Rightarrow> u64)" where
  "vmm_zero_page page M = fold (\<lambda>i M. M(cell_addr page i := 0)) [0..<VMM_ENTRIES_PER_TABLE] M"

definition vmm_is_aligned_4k :: "u64 \<Rightarrow> bool" where
  "vmm_is_aligned_4k v \<longleftrightarrow> v AND (VMM_PAGE_SIZE - 1) = 0"

definition vmm_is_canonical :: "u64 \<Rightarrow> bool" where
  "vmm_is_canonical vaddr =
     (let sign = drop_bit 47 vaddr AND 1; upper = drop_bit 48 vaddr in
      if sign \<noteq> 0 then upper = 0xFFFF else upper = 0)"

definition idx_pml4 :: "u64 \<Rightarrow> nat" where "idx_pml4 vaddr = unat (drop_bit 39 vaddr AND 0x1FF)"
definition idx_pdpt :: "u64 \<Rightarrow> nat" where "idx_pdpt vaddr = unat (drop_bit 30 vaddr AND 0x1FF)"
definition idx_pd :: "u64 \<Rightarrow> nat" where "idx_pd vaddr = unat (drop_bit 21 vaddr AND 0x1FF)"
definition idx_pt :: "u64 \<Rightarrow> nat" where "idx_pt vaddr = unat (drop_bit 12 vaddr AND 0x1FF)"

text \<open>The table pointer of a physical address, \<open>None\<close> for NULL.\<close>

definition table_from_phys :: "'c vmm_space \<Rightarrow> 'c \<Rightarrow> u64 \<Rightarrow> u64 option" where
  "table_from_phys sp c paddr =
     (case phys_to_virt sp of
        None \<Rightarrow> None
      | Some p2v \<Rightarrow> if \<not> vmm_is_aligned_4k paddr then None
                    else let v = p2v c paddr in if v = 0 then None else Some v)"

definition get_or_alloc_next_table :: "'c vmm_space \<Rightarrow> u64 \<Rightarrow> nat \<Rightarrow> ('c, u64) vmm_prog" where
  "get_or_alloc_next_table sp table index m =
     (let entry = vmem m (cell_addr table index) in
      if entry AND VMM_PTE_PRESENT \<noteq> 0 then
        if entry AND VMM_PTE_HUGE \<noteq> 0 then (Inl VMM_ERR_EXISTS, m)
        else (case table_from_phys sp (vctx m) (entry AND VMM_PTE_ADDR_MASK) of
                None \<Rightarrow> (Inl VMM_ERR_INVAL, m)
              | Some nxt \<Rightarrow> (Inr nxt, m))
      else case alloc_frame sp of
        None \<Rightarrow> (Inl VMM_ERR_NOMEM, m)
      | Some alloc \<Rightarrow>
          let (new_paddr, c') = alloc (vctx m); m' = m\<lparr>vctx := c'\<rparr> in
          if new_paddr = VMM_INVALID_PHYS \<or> \<not> vmm_is_aligned_4k new_paddr then (Inl VMM_ERR_NOMEM, m')
          else case table_from_phys sp c' new_paddr of
            None \<Rightarrow> (Inl VMM_ERR_INVAL,
                      (case free_frame sp of None \<Rightarrow> m' | Some free \<Rightarrow> m'\<lparr>vctx := free c' new_paddr\<rparr>))
          | Some new_table \<Rightarrow>
              (Inr new_table, m'\<lparr>vmem := (vmm_zero_page new_table (vmem m'))
                 (cell_addr table index := (new_paddr AND VMM_PTE_ADDR_MASK) OR VMM_PTE_PRESENT OR VMM_PTE_WRITABLE)\<rparr>))"

definition vmm_space_init ::
  "u64 \<Rightarrow> ('c \<Rightarrow> u64 \<times> 'c) option \<Rightarrow> ('c \<Rightarrow> u64 \<Rightarrow> 'c) option \<Rightarrow> ('c \<Rightarrow> u64 \<Rightarrow> u64) option
   \<Rightarrow> vmm_err + 'c vmm_space" where
  "vmm_space_init root alloc free p2v =
     (if p2v = None \<or> \<not> vmm_is_aligned_4k root then Inl VMM_ERR_INVAL
      else Inr \<lparr>root_paddr = root, alloc_frame = alloc, free_frame = free, phys_to_virt = p2v\<rparr>)"

definition map_flags_allowed :: u64 where
  "map_flags_allowed = VMM_PTE_WRITABLE OR VMM_PTE_USER OR VMM_PTE_WRITE_THROUGH OR
     VMM_PTE_CACHE_DISABLE OR VMM_PTE_GLOBAL OR VMM_PTE_NO_EXECUTE"

definition set_pte :: "u64 \<Rightarrow> nat \<Rightarrow> u64 \<Rightarrow> 'c machine \<Rightarrow> 'c machine" where
  "set_pte table i v m = m\<lparr>vmem := (vmem m)(cell_addr table i := v)\<rparr>"

definition vmm_map_page :: "'c vmm_space \<Rightarrow> u64 \<Rightarrow> u64 \<Rightarrow> u64 \<Rightarrow> ('c, unit) vmm_prog" where
  "vmm_map_page sp vaddr paddr flags m =
     (if \<not> vmm_is_canonical vaddr \<or> \<not> vmm_is_aligned_4k vaddr \<or> \<not> vmm_is_aligned_4k paddr
      then (Inl VMM_ERR_INVAL, m)
      else case table_from_phys sp (vctx m) (root_paddr sp) of
        None \<Rightarrow> (Inl VMM_ERR_INVAL, m)
      | Some pml4 \<Rightarrow>
          pbind (get_or_alloc_next_table sp pml4 (idx_pml4 vaddr)) (\<lambda>pdpt.
          pbind (get_or_alloc_next_table sp pdpt (idx_pdpt vaddr)) (\<lambda>pd.
          pbind (get_or_alloc_next_table sp pd (idx_pd vaddr)) (\<lambda>pt m'.
            if vmem m' (cell_addr pt (idx_pt vaddr)) AND VMM_PTE_PRESENT \<noteq> 0 then (Inl VMM_ERR_EXISTS, m')
            else (Inr (), set_pte pt (idx_pt vaddr)
                    ((paddr AND VMM_PTE_ADDR_MASK) OR VMM_PTE_PRESENT OR (flags AND map_flags_allowed)) m')))) m)"

text \<open>
  One level of the read-only walk that \<open>vmm_query_page\<close> and \<open>vmm_unmap_page\<close> spell out three times
  each, and the walk down to the page table.
\<close>

definition next_table :: "'c vmm_space \<Rightarrow> u64 \<Rightarrow> nat \<Rightarrow> ('c, u64) vmm_prog" where
  "next_table sp table index m =
     (let e = vmem m (cell_addr table index) in
      if e AND VMM_PTE_PRESENT = 0 \<or> e AND VMM_PTE_HUGE \<noteq> 0 then (Inl VMM_ERR_NOT_FOUND, m)
      else case table_from_phys sp (vctx m) (e AND VMM_PTE_ADDR_MASK) of
        None \<Rightarrow> (Inl VMM_ERR_INVAL, m)
      | Some t \<Rightarrow> (Inr t, m))"

definition find_pt :: "'c vmm_space \<Rightarrow> u64 \<Rightarrow> ('c, u64) vmm_prog" where
  "find_pt sp vaddr m =
     (case table_from_phys sp (vctx m) (root_paddr sp) of
        None \<Rightarrow> (Inl VMM_ERR_INVAL, m)
      | Some pml4 \<Rightarrow>
          pbind (next_table sp pml4 (idx_pml4 vaddr)) (\<lambda>pdpt.
          pbind (next_table sp pdpt (idx_pdpt vaddr)) (\<lambda>pd.
          next_table sp pd (idx_pd vaddr))) m)"

text \<open>\<open>out\<close> is the caller's result buffer, \<open>None\<close> for NULL; its new contents are the result.\<close>

definition vmm_query_page :: "'c vmm_space \<Rightarrow> u64 \<Rightarrow> vmm_mapping option \<Rightarrow> ('c, vmm_mapping) vmm_prog" where
  "vmm_query_page sp vaddr out m =
     (if out = None \<or> \<not> vmm_is_canonical vaddr \<or> \<not> vmm_is_aligned_4k vaddr then (Inl VMM_ERR_INVAL, m)
      else pbind (find_pt sp vaddr) (\<lambda>pt m'.
        let e = vmem m' (cell_addr pt (idx_pt vaddr)) in
        if e AND VMM_PTE_PRESENT = 0 then (Inl VMM_ERR_NOT_FOUND, m')
        else (Inr \<lparr>mp_vaddr = vaddr, mp_paddr = e AND VMM_PTE_ADDR_MASK,
                   mp_flags = e AND NOT VMM_PTE_ADDR_MASK\<rparr>, m')) m)"

definition vmm_invalidate_page :: "u64 \<Rightarrow> 'c machine \<Rightarrow> 'c machine" where
  "vmm_invalidate_page vaddr m = m\<lparr>tlb_invalidated := vaddr # tlb_invalidated m\<rparr>"

definition vmm_unmap_page :: "'c vmm_space \<Rightarrow> u64 \<Rightarrow> ('c, unit) vmm_prog" where
  "vmm_unmap_page sp vaddr m =
     (if \<not> vmm_is_canonical vaddr \<or> \<not> vmm_is_aligned_4k vaddr then (Inl VMM_ERR_INVAL, m)
      else pbind (find_pt sp vaddr) (\<lambda>pt m'.
        if vmem m' (cell_addr pt (idx_pt vaddr)) AND VMM_PTE_PRESENT = 0 then (Inl VMM_ERR_NOT_FOUND, m')
        else (Inr (), vmm_invalidate_page vaddr (set_pte pt (idx_pt vaddr) 0 m'))) m)"

section \<open>The kernel's callbacks\<close>

record kernel_mem =
  hhdm_offset :: u64
  kernel_pmm :: pmm_state

definition kernel_vmm_alloc :: "kernel_mem \<Rightarrow> u64 \<times> kernel_mem" where
  "kernel_vmm_alloc c = (let (a, p) = pmm_alloc_frame (kernel_pmm c) in (a, c\<lparr>kernel_pmm := p\<rparr>))"

definition kernel_vmm_free :: "kernel_mem \<Rightarrow> u64 \<Rightarrow> kernel_mem" where
  "kernel_vmm_free c a = c\<lparr>kernel_pmm := snd (pmm_free_frame (kernel_pmm c) a)\<rparr>"

definition kernel_phys_to_virt :: "kernel_mem \<Rightarrow> u64 \<Rightarrow> u64" where
  "kernel_phys_to_virt c paddr = hhdm_offset c + paddr"

definition kernel_space_init :: "u64 \<Rightarrow> vmm_err + kernel_mem vmm_space" where
  "kernel_space_init root = vmm_space_init root (Some kernel_vmm_alloc) (Some kernel_vmm_free) (Some kernel_phys_to_virt)"

text \<open>
  \<open>kernel_memory_init\<close>; a call of \<open>kernel_panic_at\<close> does not return, so it ends the run with its
  message. The memory map pointer is NULL-able; the two null storage arguments are the code's.
\<close>

definition local_memzero :: "u64 \<Rightarrow> nat \<Rightarrow> (u64 \<Rightarrow> u64) \<Rightarrow> (u64 \<Rightarrow> u64)" where
  "local_memzero ptr n M = fold (\<lambda>i M. M(cell_addr ptr i := 0)) [0..<n div 8] M"

definition kernel_memory_init ::
  "boot_mem_region list option \<Rightarrow> (kernel_mem machine, string, kernel_mem vmm_space) prog" where
  "kernel_memory_init regions m =
     (let c = vctx m;
          (pmm_ok, p) = pmm_init_from_map (kernel_pmm c) regions None 0;
          m1 = m\<lparr>vctx := c\<lparr>kernel_pmm := p\<rparr>\<rparr>
      in if \<not> pmm_ok then (Inl ''M7: Gagal inisialisasi PMM dari boot map'', m1)
         else let (root, p') = pmm_alloc_frame p; m2 = m1\<lparr>vctx := c\<lparr>kernel_pmm := p'\<rparr>\<rparr> in
           if root = VMM_INVALID_PHYS then (Inl ''M7: cannot allocate root page table'', m2)
           else let m3 = m2\<lparr>vmem := local_memzero (kernel_phys_to_virt (vctx m2) root) 4096 (vmem m2)\<rparr> in
             case kernel_space_init root of
               Inl e \<Rightarrow> (Inl ''M7: vmm_space_init failed'', m3)
             | Inr sp \<Rightarrow> (Inr sp, m3))"

section \<open>Page table trees\<close>

text \<open>
  A path lists table indices, the deepest first; \<open>tab M P r p\<close> is the physical address of the table
  at the end of path \<open>p\<close> below root \<open>r\<close>.
\<close>

primrec tab :: "(u64 \<Rightarrow> u64) \<Rightarrow> (u64 \<Rightarrow> u64) \<Rightarrow> u64 \<Rightarrow> nat list \<Rightarrow> u64 option" where
  "tab M P r [] = Some r"
| "tab M P r (i # p) =
     (case tab M P r p of
        None \<Rightarrow> None
      | Some t \<Rightarrow> let e = M (cell_addr (P t) i) in
          if e AND VMM_PTE_PRESENT \<noteq> 0 \<and> e AND VMM_PTE_HUGE = 0 then Some (e AND VMM_PTE_ADDR_MASK) else None)"

definition vpath :: "nat list \<Rightarrow> bool" where
  "vpath p \<longleftrightarrow> length p \<le> 3 \<and> (\<forall>i\<in>set p. i < 512)"

text \<open>Cells of different tables, and of different entries, are different cells.\<close>

definition disj_pages :: "(u64 \<Rightarrow> u64) \<Rightarrow> u64 set \<Rightarrow> bool" where
  "disj_pages P U \<longleftrightarrow> (\<forall>s\<in>U. \<forall>t\<in>U. \<forall>i<512. \<forall>j<512. cell_addr (P s) i = cell_addr (P t) j \<longrightarrow> s = t \<and> i = j)"

text \<open>
  The tables form a tree inside the set \<open>U\<close> of frames: every path ends in a frame of \<open>U\<close>, no frame
  is the table of two paths, and no directory entry is a huge page.
\<close>

definition table_tree :: "(u64 \<Rightarrow> u64) \<Rightarrow> (u64 \<Rightarrow> u64) \<Rightarrow> u64 \<Rightarrow> u64 set \<Rightarrow> bool" where
  "table_tree M P r U \<longleftrightarrow>
     (\<forall>p t. vpath p \<longrightarrow> tab M P r p = Some t \<longrightarrow> t \<in> U) \<and>
     (\<forall>p q t. vpath p \<longrightarrow> vpath q \<longrightarrow> tab M P r p = Some t \<longrightarrow> tab M P r q = Some t \<longrightarrow> p = q) \<and>
     (\<forall>p i t. vpath (i # p) \<longrightarrow> tab M P r p = Some t \<longrightarrow> M (cell_addr (P t) i) AND VMM_PTE_PRESENT \<noteq> 0
        \<longrightarrow> M (cell_addr (P t) i) AND VMM_PTE_HUGE = 0)"

lemma table_tree_in: "table_tree M P r U \<Longrightarrow> vpath p \<Longrightarrow> tab M P r p = Some t \<Longrightarrow> t \<in> U"
  by (simp add: table_tree_def)

lemma table_tree_inj:
  "table_tree M P r U \<Longrightarrow> vpath p \<Longrightarrow> vpath q \<Longrightarrow> tab M P r p = Some t \<Longrightarrow> tab M P r q = Some t \<Longrightarrow> p = q"
  by (simp add: table_tree_def)

lemma table_tree_huge:
  "table_tree M P r U \<Longrightarrow> vpath (i # p) \<Longrightarrow> tab M P r p = Some t \<Longrightarrow>
   M (cell_addr (P t) i) AND VMM_PTE_PRESENT \<noteq> 0 \<Longrightarrow> M (cell_addr (P t) i) AND VMM_PTE_HUGE = 0"
  unfolding table_tree_def by blast

lemma table_tree_entry:
  "table_tree M P r U \<Longrightarrow> vpath (i # p) \<Longrightarrow> tab M P r p = Some t \<Longrightarrow> tab M P r (i # p) =
   (if M (cell_addr (P t) i) AND VMM_PTE_PRESENT = 0 then None else Some (M (cell_addr (P t) i) AND VMM_PTE_ADDR_MASK))"
  using table_tree_huge [of M P r U i p t] by (simp add: Let_def)

lemma disj_pagesD:
  "disj_pages P U \<Longrightarrow> s \<in> U \<Longrightarrow> t \<in> U \<Longrightarrow> i < 512 \<Longrightarrow> j < 512 \<Longrightarrow>
   cell_addr (P s) i = cell_addr (P t) j \<longleftrightarrow> s = t \<and> i = j"
  unfolding disj_pages_def by blast

lemma vpath_tl: "vpath (i # p) \<Longrightarrow> vpath p" "vpath (i # p) \<Longrightarrow> i < 512"
  by (auto simp: vpath_def)

text \<open>A memory that agrees on every entry the paths go through has the same tables.\<close>

lemma tab_cong:
  assumes "vpath p"
    and "\<And>i q t. vpath (i # q) \<Longrightarrow> suffix (i # q) p \<Longrightarrow> tab M P r q = Some t \<Longrightarrow>
      M' (cell_addr (P t) i) = M (cell_addr (P t) i)"
  shows "tab M' P r p = tab M P r p"
  using assms
proof (induction p)
  case (Cons i p)
  from Cons.prems(1) have vp: "vpath p" by (rule vpath_tl)
  have "tab M' P r p = tab M P r p"
    by (rule Cons.IH [OF vp], rule Cons.prems(2)) (auto simp: suffix_Cons)
  moreover have "M' (cell_addr (P t) i) = M (cell_addr (P t) i)" if "tab M P r p = Some t" for t
    using Cons.prems that by simp
  ultimately show ?case by (auto split: option.split)
qed simp

lemma zero_page_at: "vmm_zero_page page M a = (if \<exists>i<512. a = cell_addr page i then 0 else M a)"
proof -
  have "fold (\<lambda>i M. M(cell_addr page i := 0)) [0..<n] M a = (if \<exists>i<n. a = cell_addr page i then 0 else M a)" for n
    by (induction n) (auto simp: less_Suc_eq)
  then show ?thesis by (simp add: vmm_zero_page_def VMM_ENTRIES_PER_TABLE_def)
qed

text \<open>Writing one entry changes only the paths through it.\<close>

lemma tab_write_entry:
  assumes tr: "table_tree M P r U" and dj: "disj_pages P U"
    and p0: "vpath p0" "tab M P r p0 = Some t0" "i0 < 512"
    and q: "vpath q" "\<not> suffix (i0 # p0) q"
  shows "tab (M(cell_addr (P t0) i0 := v)) P r q = tab M P r q"
proof (rule tab_cong [OF q(1)])
  fix i p t assume p: "vpath (i # p)" "suffix (i # p) q" "tab M P r p = Some t"
  have "\<not> (t = t0 \<and> i = i0)"
    using table_tree_inj [OF tr _ p0(1) p(3)] p0(2) p q(2) vpath_tl by blast
  then have "cell_addr (P t) i \<noteq> cell_addr (P t0) i0"
    using disj_pagesD [OF dj table_tree_in [OF tr _ p(3)] table_tree_in [OF tr p0(1,2)] _ p0(3)] p(1) vpath_tl
    by blast
  then show "(M(cell_addr (P t0) i0 := v)) (cell_addr (P t) i) = M (cell_addr (P t) i)" by simp
qed

text \<open>The translation the hardware makes of an address, as the walk of the tables.\<close>

definition pt_path :: "u64 \<Rightarrow> nat list" where
  "pt_path vaddr = [idx_pd vaddr, idx_pdpt vaddr, idx_pml4 vaddr]"

definition pt_entry :: "(u64 \<Rightarrow> u64) \<Rightarrow> (u64 \<Rightarrow> u64) \<Rightarrow> u64 \<Rightarrow> nat list \<Rightarrow> nat \<Rightarrow> u64 option" where
  "pt_entry M P r p i =
     (case tab M P r p of
        None \<Rightarrow> None
      | Some t \<Rightarrow> let e = M (cell_addr (P t) i) in if e AND VMM_PTE_PRESENT = 0 then None else Some e)"

lemma new_entry_bits:
  fixes a :: u64
  assumes "a AND VMM_PTE_ADDR_MASK = a"
  defines "e \<equiv> (a AND VMM_PTE_ADDR_MASK) OR VMM_PTE_PRESENT OR VMM_PTE_WRITABLE"
  shows "e AND VMM_PTE_PRESENT \<noteq> 0" "e AND VMM_PTE_HUGE = 0" "e AND VMM_PTE_ADDR_MASK = a"
proof -
  have m: "a = a AND 0x000FFFFFFFFFF000" using assms(1) by (simp add: VMM_PTE_ADDR_MASK_def)
  have e: "e = a OR 1 OR 2"
    unfolding e_def assms(1) by (simp add: VMM_PTE_PRESENT_def VMM_PTE_WRITABLE_def)
  show "e AND VMM_PTE_PRESENT \<noteq> 0"
  proof
    assume "e AND VMM_PTE_PRESENT = 0"
    then have "bit (e AND VMM_PTE_PRESENT) 0 = False" by simp
    then show False by (simp add: e VMM_PTE_PRESENT_def bit_and_iff bit_or_iff)
  qed
  have h: "(0xFFFFFFFFFF000 :: u64) AND 0x80 = 0" "(1 :: u64) AND 0x80 = 0" "(2 :: u64) AND 0x80 = 0"
    "(1 :: u64) AND 0xFFFFFFFFFF000 = 0" "(2 :: u64) AND 0xFFFFFFFFFF000 = 0" by simp_all
  have "e AND 0x80 = 0" unfolding e
    by (subst m) (simp add: bit.conj_disj_distrib2 and.assoc h)
  then show "e AND VMM_PTE_HUGE = 0" by (simp add: VMM_PTE_HUGE_def)
  have "e AND 0xFFFFFFFFFF000 = a AND 0xFFFFFFFFFF000" unfolding e by (simp add: bit.conj_disj_distrib2 h)
  then show "e AND VMM_PTE_ADDR_MASK = a" using m by (simp add: VMM_PTE_ADDR_MASK_def)
qed

lemma tab_None_above: "tab M P r p = None \<Longrightarrow> tab M P r (q @ p) = None"
  by (induction q) simp_all

definition add_table :: "(u64 \<Rightarrow> u64) \<Rightarrow> u64 \<Rightarrow> u64 \<Rightarrow> nat \<Rightarrow> (u64 \<Rightarrow> u64) \<Rightarrow> (u64 \<Rightarrow> u64)" where
  "add_table P a t0 i0 M = (vmm_zero_page (P a) M)
     (cell_addr (P t0) i0 := (a AND VMM_PTE_ADDR_MASK) OR VMM_PTE_PRESENT OR VMM_PTE_WRITABLE)"

lemma add_table_cells:
  assumes dj: "disj_pages P (insert a U)" and a: "a \<notin> U" and t0: "t0 \<in> U" "i0 < 512"
  shows "t \<in> U \<Longrightarrow> i < 512 \<Longrightarrow> t \<noteq> t0 \<or> i \<noteq> i0 \<Longrightarrow> add_table P a t0 i0 M (cell_addr (P t) i) = M (cell_addr (P t) i)"
    and "i < 512 \<Longrightarrow> add_table P a t0 i0 M (cell_addr (P a) i) = 0"
proof -
  note d = disj_pagesD [OF dj]
  show "add_table P a t0 i0 M (cell_addr (P t) i) = M (cell_addr (P t) i)"
    if t: "t \<in> U" "i < 512" "t \<noteq> t0 \<or> i \<noteq> i0"
  proof -
    have "t \<noteq> a" using a t by auto
    with d [of t a i] d [of t t0 i i0] t t0 show ?thesis by (auto simp: add_table_def zero_page_at)
  qed
  show "add_table P a t0 i0 M (cell_addr (P a) i) = 0" if "i < 512"
  proof -
    have "t0 \<noteq> a" using a t0 by auto
    with d [of a t0 i i0] t0 that show ?thesis by (auto simp: add_table_def zero_page_at)
  qed
qed

lemma tab_add_table:
  assumes tr: "table_tree M P r U" and dj: "disj_pages P (insert a U)" and a: "a \<notin> U" "a AND VMM_PTE_ADDR_MASK = a"
    and p0: "vpath (i0 # p0)" "tab M P r p0 = Some t0" and absent: "M (cell_addr (P t0) i0) AND VMM_PTE_PRESENT = 0"
    and q: "vpath q"
  shows "tab (add_table P a t0 i0 M) P r q = (if q = i0 # p0 then Some a else tab M P r q)"
proof -
  let ?M = "add_table P a t0 i0 M"
  have t0: "t0 \<in> U" "i0 < 512" using table_tree_in [OF tr _ p0(2)] p0(1) vpath_tl by blast+
  note cells = add_table_cells [OF dj a(1) t0, where M = M]
  have off: "tab ?M P r q = tab M P r q" if "vpath q" "\<not> suffix (i0 # p0) q" for q
  proof (rule tab_cong [OF that(1)])
    fix i p t assume p: "vpath (i # p)" "suffix (i # p) q" "tab M P r p = Some t"
    have "t \<noteq> t0 \<or> i \<noteq> i0"
      using table_tree_inj [OF tr _ _ p(3)] p0 p that(2) vpath_tl by blast
    then show "?M (cell_addr (P t) i) = M (cell_addr (P t) i)"
      using cells(1) table_tree_in [OF tr _ p(3)] p(1) vpath_tl by blast
  qed
  have "\<not> suffix (i0 # p0) p0" by (auto dest: suffix_length_le)
  then have "tab ?M P r p0 = Some t0" using off p0 vpath_tl by metis
  then have at: "tab ?M P r (i0 # p0) = Some a"
    using new_entry_bits [OF a(2)] by (simp add: add_table_def Let_def)
  have below: "tab ?M P r (s @ i0 # p0) = None" if "s \<noteq> []" "vpath (s @ i0 # p0)" for s
    using that
  proof (induction s)
    case (Cons i s)
    show ?case
    proof (cases "s = []")
      case True
      then show ?thesis using at cells(2) [of i] Cons.prems by (simp add: Let_def vpath_def)
    next
      case False
      then show ?thesis using Cons by (simp add: vpath_def)
    qed
  qed simp
  have none: "tab M P r (s @ i0 # p0) = None" for s
    by (rule tab_None_above) (use p0 absent in \<open>simp add: Let_def\<close>)
  show ?thesis
  proof (cases "suffix (i0 # p0) q")
    case True
    then obtain s where "q = s @ i0 # p0" by (auto simp: suffix_def)
    with at below [of s] none [of s] q show ?thesis by (cases s) auto
  qed (use off q in auto)
qed

lemma tree_add_table:
  assumes tr: "table_tree M P r U" and dj: "disj_pages P (insert a U)" and a: "a \<notin> U" "a AND VMM_PTE_ADDR_MASK = a"
    and p0: "vpath (i0 # p0)" "tab M P r p0 = Some t0" and absent: "M (cell_addr (P t0) i0) AND VMM_PTE_PRESENT = 0"
  shows "table_tree (add_table P a t0 i0 M) P r (insert a U)"
proof -
  let ?M = "add_table P a t0 i0 M"
  note tabs = tab_add_table [OF assms]
  have t0: "t0 \<in> U" "i0 < 512" using table_tree_in [OF tr _ p0(2)] p0(1) vpath_tl by blast+
  note cells = add_table_cells [OF dj a(1) t0, where M = M]
  have huge: "?M (cell_addr (P t) i) AND VMM_PTE_HUGE = 0"
    if p: "vpath (i # p)" "tab ?M P r p = Some t" "?M (cell_addr (P t) i) AND VMM_PTE_PRESENT \<noteq> 0" for i p t
  proof (cases "p = i0 # p0 \<or> t = t0 \<and> i = i0")
    case True
    have "t \<noteq> a" if "p = i0 # p0" using p(3) cells(2) [OF vpath_tl(2) [OF p(1)]] by auto
    with True tabs [OF vpath_tl(1) [OF p(1)]] p(2) have "t = t0 \<and> i = i0" by auto
    with new_entry_bits(2) [OF a(2)] show ?thesis by (simp add: add_table_def)
  next
    case False
    then have t: "tab M P r p = Some t" using tabs [OF vpath_tl(1) [OF p(1)]] p(2) by simp
    then have "?M (cell_addr (P t) i) = M (cell_addr (P t) i)"
      using cells(1) [OF table_tree_in [OF tr vpath_tl(1) [OF p(1)] t] vpath_tl(2) [OF p(1)]] False by blast
    with table_tree_huge [OF tr p(1) t] p(3) show ?thesis by simp
  qed
  have "p = q" if "vpath p" "vpath q" "tab ?M P r p = Some t" "tab ?M P r q = Some t" for p q t
    using that tabs [OF that(1)] tabs [OF that(2)] table_tree_inj [OF tr that(1,2)] table_tree_in [OF tr] a(1)
    by (auto split: if_splits)
  moreover have "t \<in> insert a U" if "vpath p" "tab ?M P r p = Some t" for p t
    using that tabs [OF that(1)] table_tree_in [OF tr that(1)] by (auto split: if_splits)
  ultimately show ?thesis unfolding table_tree_def using huge by blast
qed

lemma pt_entry_add_table:
  assumes tr: "table_tree M P r U" and dj: "disj_pages P (insert a U)" and a: "a \<notin> U" "a AND VMM_PTE_ADDR_MASK = a"
    and p0: "vpath (i0 # p0)" "tab M P r p0 = Some t0" and absent: "M (cell_addr (P t0) i0) AND VMM_PTE_PRESENT = 0"
    and q: "vpath q" "length q = 3" "i < 512"
  shows "pt_entry (add_table P a t0 i0 M) P r q i = pt_entry M P r q i"
proof -
  have t0: "t0 \<in> U" "i0 < 512" using table_tree_in [OF tr _ p0(2)] p0(1) vpath_tl by blast+
  note cells = add_table_cells [OF dj a(1) t0, where M = M]
  note tabs = tab_add_table [OF assms(1-7) q(1)]
  show ?thesis
  proof (cases "q = i0 # p0")
    case True
    then have "tab M P r q = None" using p0 absent by (simp add: Let_def)
    then show ?thesis using True tabs cells(2) [OF q(3)] by (simp add: pt_entry_def)
  next
    case False
    have "t \<noteq> t0" if "tab M P r q = Some t" for t
    proof
      assume "t = t0"
      then have "q = p0" using table_tree_inj [OF tr q(1) vpath_tl(1) [OF p0(1)]] that p0(2) by blast
      with p0(1) q(2) show False by (simp add: vpath_def)
    qed
    then show ?thesis
      using False tabs cells(1) table_tree_in [OF tr q(1)] q(3) by (auto simp: pt_entry_def split: option.split)
  qed
qed

lemma tree_write_leaf:
  fixes v :: u64
  assumes tr: "table_tree M P r U" and dj: "disj_pages P U"
    and p0: "vpath p0" "length p0 = 3" "tab M P r p0 = Some t0" "i0 < 512"
  defines "M' \<equiv> M(cell_addr (P t0) i0 := v)"
  shows "table_tree M' P r U"
    and "vpath q \<Longrightarrow> i < 512 \<Longrightarrow> pt_entry M' P r q i =
      (if q = p0 \<and> i = i0 then if v AND VMM_PTE_PRESENT = 0 then None else Some v else pt_entry M P r q i)"
proof -
  have tabs: "tab M' P r q = tab M P r q" if "vpath q" for q
    unfolding M'_def using that p0
    by (intro tab_write_entry [OF tr dj p0(1,3,4) that]) (auto simp: vpath_def dest: suffix_length_le)
  have cells: "M' (cell_addr (P t) i) = (if q = p0 \<and> i = i0 then v else M (cell_addr (P t) i))"
    if "vpath q" "tab M P r q = Some t" "i < 512" for q t i
    using disj_pagesD [OF dj table_tree_in [OF tr that(1,2)] table_tree_in [OF tr p0(1,3)] that(3) p0(4)]
      table_tree_inj [OF tr that(1) p0(1) that(2)] p0(3) that(2) by (auto simp: M'_def)
  show "table_tree M' P r U"
    unfolding table_tree_def
  proof (intro conjI allI impI)
    fix p i t assume p: "vpath (i # p)" "tab M' P r p = Some t" "M' (cell_addr (P t) i) AND VMM_PTE_PRESENT \<noteq> 0"
    have "p \<noteq> p0" using p(1) p0(2) by (auto simp: vpath_def)
    with p cells [OF vpath_tl(1) [OF p(1)], of t i] tabs [OF vpath_tl(1) [OF p(1)]] vpath_tl(2) [OF p(1)]
    show "M' (cell_addr (P t) i) AND VMM_PTE_HUGE = 0" using table_tree_huge [OF tr p(1)] by simp
  qed (use tabs table_tree_in [OF tr] table_tree_inj [OF tr] in auto)
  show "pt_entry M' P r q i = (if q = p0 \<and> i = i0 then if v AND VMM_PTE_PRESENT = 0 then None else Some v
      else pt_entry M P r q i)" if "vpath q" "i < 512"
    using that p0(3) by (auto simp: pt_entry_def tabs cells Let_def split: option.split)
qed

section \<open>Addresses and indices\<close>

lemma and_1FF: "(v :: u64) AND 0x1FF = take_bit 9 v"
  by (simp add: take_bit_eq_mask mask_eq_exp_minus_1)

lemma idx_less: "idx_pml4 va < 512" "idx_pdpt va < 512" "idx_pd va < 512" "idx_pt va < 512"
proof -
  have "unat ((v :: u64) AND 0x1FF) < 512" for v
    unfolding and_1FF by (simp add: take_bit_eq_mod unat_mod)
  then show "idx_pml4 va < 512" "idx_pdpt va < 512" "idx_pd va < 512" "idx_pt va < 512"
    by (simp_all add: idx_pml4_def idx_pdpt_def idx_pd_def idx_pt_def)
qed

lemma pt_path_ok [simp]: "vpath (pt_path va)" "length (pt_path va) = 3"
  by (simp_all add: vpath_def pt_path_def idx_less)

lemma idx_bit:
  assumes "unat (drop_bit k (va :: u64) AND 0x1FF) = unat (drop_bit k (vb :: u64) AND 0x1FF)" "n < 9"
  shows "bit va (k + n) = bit vb (k + n)"
proof -
  have "take_bit 9 (drop_bit k va) = take_bit 9 (drop_bit k vb)"
    using assms(1) by (simp add: word_unat_eq_iff and_1FF)
  then have "bit (take_bit 9 (drop_bit k va)) n = bit (take_bit 9 (drop_bit k vb)) n" by simp
  then show ?thesis using assms(2) by (simp add: bit_take_bit_iff bit_drop_bit_eq)
qed

lemma aligned_low_bits: "vmm_is_aligned_4k va \<Longrightarrow> n < 12 \<Longrightarrow> \<not> bit va n"
proof -
  assume al: "vmm_is_aligned_4k va" and n: "n < 12"
  have "va AND 4095 = take_bit 12 va" by (simp add: take_bit_eq_mask mask_eq_exp_minus_1)
  then have "take_bit 12 va = 0" using al by (simp add: vmm_is_aligned_4k_def)
  then have "\<not> bit (take_bit 12 va) n" by simp
  then show ?thesis using n by (simp add: bit_take_bit_iff)
qed

lemma canonical_high_bits:
  assumes "vmm_is_canonical va" "48 \<le> n" "n < 64"
  shows "bit va n = bit va 47"
proof -
  have "drop_bit 47 va AND 1 = 0 \<longleftrightarrow> \<not> bit va 47"
    by (simp add: and_one_eq bit_iff_odd_drop_bit odd_iff_mod_2_eq_one)
  then have up: "drop_bit 48 va = (if bit va 47 then 0xFFFF else 0)"
    using assms(1) by (auto simp: vmm_is_canonical_def Let_def)
  have "(0xFFFF :: u64) = mask 16" by (simp add: mask_eq_exp_minus_1)
  then have "bit (drop_bit 48 va) (n - 48) = bit va 47"
    using assms(2,3) unfolding up by (simp only: bit_mask_iff split: if_split) auto
  then show ?thesis using assms(2) by (simp add: bit_drop_bit_eq)
qed

text \<open>A canonical page address is determined by its four indices.\<close>

lemma page_address_inj:
  assumes "vmm_is_canonical va" "vmm_is_aligned_4k va" "vmm_is_canonical vb" "vmm_is_aligned_4k vb"
    and "pt_path va = pt_path vb" "idx_pt va = idx_pt vb"
  shows "va = vb"
proof (rule bit_eqI)
  have ix: "idx_pml4 va = idx_pml4 vb" "idx_pdpt va = idx_pdpt vb" "idx_pd va = idx_pd vb"
    using assms(5) by (simp_all add: pt_path_def)
  have mid: "bit va n = bit vb n" if "12 \<le> n" "n < 48" for n
  proof -
    consider "n < 21" | "21 \<le> n" "n < 30" | "30 \<le> n" "n < 39" | "39 \<le> n" using that by linarith
    then show ?thesis
      using that idx_bit [OF assms(6) [unfolded idx_pt_def], of "n - 12"] idx_bit [OF ix(3) [unfolded idx_pd_def], of "n - 21"]
        idx_bit [OF ix(2) [unfolded idx_pdpt_def], of "n - 30"] idx_bit [OF ix(1) [unfolded idx_pml4_def], of "n - 39"]
      by cases simp_all
  qed
  fix n assume "possible_bit TYPE(64 word) n"
  then have "n < 64" by (simp add: possible_bit_word)
  then consider "n < 12" | "12 \<le> n" "n < 48" | "48 \<le> n" "n < 64" by linarith
  then show "bit va n = bit vb n"
    by cases (simp_all add: mid aligned_low_bits canonical_high_bits assms(1-4))
qed

section \<open>The interface to the frame allocator\<close>

text \<open>
  What the page table code relies on: an allocator state with an invariant and a set of frames that
  are in use; an allocation either reports exhaustion or puts a new frame in use that fits a page
  table entry; the tables of frames in use are reachable through the callback and do not overlap.
\<close>

locale frame_source =
  fixes alloc :: "'c \<Rightarrow> u64 \<times> 'c"
    and free :: "'c \<Rightarrow> u64 \<Rightarrow> 'c"
    and p2v :: "'c \<Rightarrow> u64 \<Rightarrow> u64"
    and ok :: "'c \<Rightarrow> bool"
    and used :: "'c \<Rightarrow> u64 set"
    and avail :: "'c \<Rightarrow> nat"
  assumes alloc_none: "ok c \<Longrightarrow> alloc c = (VMM_INVALID_PHYS, c') \<Longrightarrow> c' = c \<and> avail c = 0"
    and alloc_ok: "ok c \<Longrightarrow> alloc c = (a, c') \<Longrightarrow> ok c'"
    and alloc_new: "ok c \<Longrightarrow> alloc c = (a, c') \<Longrightarrow> a \<noteq> VMM_INVALID_PHYS \<Longrightarrow> 
        a \<notin> used c \<and> used c' = insert a (used c) \<and> avail c = Suc (avail c')"
    and alloc_p2v: "ok c \<Longrightarrow> alloc c = (a, c') \<Longrightarrow> p2v c' = p2v c"
    and used_frame: "ok c \<Longrightarrow> a \<in> used c \<Longrightarrow> a AND VMM_PTE_ADDR_MASK = a \<and> p2v c a \<noteq> 0"
    and used_disj: "ok c \<Longrightarrow> disj_pages (p2v c) (used c)"
begin

definition space :: "u64 \<Rightarrow> 'c vmm_space" where
  "space r = \<lparr>root_paddr = r, alloc_frame = Some alloc, free_frame = Some free, phys_to_virt = Some p2v\<rparr>"

definition vmm_ok :: "u64 \<Rightarrow> 'c machine \<Rightarrow> bool" where
  "vmm_ok r m \<longleftrightarrow> ok (vctx m) \<and> table_tree (vmem m) (p2v (vctx m)) r (used (vctx m))"

definition tables :: "u64 \<Rightarrow> 'c machine \<Rightarrow> nat list \<Rightarrow> u64 option" where
  "tables r m p = tab (vmem m) (p2v (vctx m)) r p"

definition entry :: "u64 \<Rightarrow> 'c machine \<Rightarrow> nat list \<Rightarrow> nat \<Rightarrow> u64 option" where
  "entry r m p i = pt_entry (vmem m) (p2v (vctx m)) r p i"

lemma aligned_used: "ok c \<Longrightarrow> a \<in> used c \<Longrightarrow> vmm_is_aligned_4k a"
proof -
  assume "ok c" "a \<in> used c"
  then have "a = a AND 0xFFFFFFFFFF000" using used_frame by (simp add: VMM_PTE_ADDR_MASK_def)
  from arg_cong [OF this, of "\<lambda>x. x AND 4095"] have "a AND 4095 = a AND (0xFFFFFFFFFF000 AND 4095)"
    by (simp only: and.assoc)
  then show ?thesis by (simp add: vmm_is_aligned_4k_def)
qed

lemma table_from_phys_used: "ok c \<Longrightarrow> a \<in> used c \<Longrightarrow> table_from_phys (space r) c a = Some (p2v c a)"
  using aligned_used used_frame by (simp add: table_from_phys_def space_def Let_def)

lemma root_used: "vmm_ok r m \<Longrightarrow> r \<in> used (vctx m)"
  unfolding vmm_ok_def by (rule table_tree_in [where p = "[]"]) (auto simp: vpath_def)

text \<open>One level of the allocating walk.\<close>

lemma get_or_alloc_new:
  assumes m: "vmm_ok r m" and p: "vpath (i # p)" "tables r m p = Some t"
    and absent: "vmem m (cell_addr (p2v (vctx m) t) i) AND VMM_PTE_PRESENT = 0"
    and al: "alloc (vctx m) = (a, c')" and a: "a \<noteq> VMM_INVALID_PHYS"
  obtains t' m' where "get_or_alloc_next_table (space r) (p2v (vctx m) t) i m = (Inr (p2v (vctx m') t'), m')"
      "vmm_ok r m'" "tables r m' (i # p) = Some t'" "\<And>q j. vpath q \<Longrightarrow> length q = 3 \<Longrightarrow> j < 512 \<Longrightarrow> entry r m' q j = entry r m q j"
      "tlb_invalidated m' = tlb_invalidated m" "avail (vctx m) \<le> Suc (avail (vctx m'))"
proof -
  let ?c = "vctx m"
  let ?P = "p2v ?c"
  have okc: "ok ?c" and tr: "table_tree (vmem m) ?P r (used ?c)" using m by (auto simp: vmm_ok_def)
  have t: "tab (vmem m) ?P r p = Some t" using p(2) by (simp add: tables_def)
  have c': "ok c'" "p2v c' = ?P" "a \<notin> used ?c" "used c' = insert a (used ?c)"
      "avail ?c = Suc (avail c')"
    using alloc_ok [OF okc al] alloc_p2v [OF okc al] alloc_new [OF okc al a] by auto
  have ac: "a \<in> used c'" "a AND VMM_PTE_ADDR_MASK = a" using c' used_frame by auto
  have dj: "disj_pages ?P (insert a (used ?c))" using used_disj [OF c'(1)] c' by simp
  define m' where "m' = m\<lparr>vctx := c', vmem := add_table ?P a t i (vmem m)\<rparr>"
  note add = tr dj c'(3) ac(2) p(1) t absent
  have "get_or_alloc_next_table (space r) (?P t) i m = (Inr (p2v (vctx m') a), m')"
    using absent a al c'(2) aligned_used [OF c'(1) ac(1)] table_from_phys_used [OF c'(1) ac(1), of r]
    by (simp add: get_or_alloc_next_table_def Let_def space_def m'_def add_table_def)
  moreover have "vmm_ok r m'"
    using tree_add_table [OF add] c' by (simp add: vmm_ok_def m'_def)
  moreover have "tables r m' (i # p) = Some a"
    using tab_add_table [OF add p(1)] c'(2) by (simp add: tables_def m'_def)
  moreover have "entry r m' q j = entry r m q j" if "vpath q" "length q = 3" "j < 512" for q j
    using pt_entry_add_table [OF add that] c'(2) by (simp add: entry_def m'_def)
  moreover have "tlb_invalidated m' = tlb_invalidated m" "avail ?c \<le> Suc (avail (vctx m'))"
    using c'(5) by (simp_all add: m'_def)
  ultimately show thesis by (rule that)
qed

lemma get_or_alloc:
  assumes m: "vmm_ok r m" and p: "vpath (i # p)" "tables r m p = Some t"
  obtains (found) t' m' where "get_or_alloc_next_table (space r) (p2v (vctx m) t) i m = (Inr (p2v (vctx m') t'), m')"
      "vmm_ok r m'" "tables r m' (i # p) = Some t'" "\<And>q j. vpath q \<Longrightarrow> length q = 3 \<Longrightarrow> j < 512 \<Longrightarrow> entry r m' q j = entry r m q j"
      "tlb_invalidated m' = tlb_invalidated m" "avail (vctx m) \<le> Suc (avail (vctx m'))"
  | (nomem) "get_or_alloc_next_table (space r) (p2v (vctx m) t) i m = (Inl VMM_ERR_NOMEM, m)"
      "tables r m (i # p) = None" "avail (vctx m) = 0"
proof -
  let ?c = "vctx m"
  let ?P = "p2v ?c"
  let ?e = "vmem m (cell_addr (?P t) i)"
  have okc: "ok ?c" and tr: "table_tree (vmem m) ?P r (used ?c)" using m by (auto simp: vmm_ok_def)
  have t: "tab (vmem m) ?P r p = Some t" using p(2) by (simp add: tables_def)
  show thesis
  proof (cases "?e AND VMM_PTE_PRESENT = 0")
    case False
    let ?t = "?e AND VMM_PTE_ADDR_MASK"
    have t': "tab (vmem m) ?P r (i # p) = Some ?t" using table_tree_entry [OF tr p(1) t] False by simp
    have "get_or_alloc_next_table (space r) (?P t) i m = (Inr (?P ?t), m)"
      using False table_tree_huge [OF tr p(1) t False] table_from_phys_used [OF okc table_tree_in [OF tr p(1) t']]
      by (simp add: get_or_alloc_next_table_def Let_def)
    from found [OF this m] t' show thesis by (simp add: tables_def)
  next
    case absent: True
    obtain a c' where al: "alloc ?c = (a, c')" by fastforce
    show thesis
    proof (cases "a = VMM_INVALID_PHYS")
      case True
      then have "c' = ?c" "avail ?c = 0" using alloc_none okc al by blast+
      then have "get_or_alloc_next_table (space r) (?P t) i m = (Inl VMM_ERR_NOMEM, m)"
        using absent al True by (simp add: get_or_alloc_next_table_def Let_def space_def)
      from nomem [OF this] t absent \<open>avail ?c = 0\<close> show thesis by (simp add: tables_def Let_def)
    next
      case False
      show thesis by (rule get_or_alloc_new [OF m p absent al False], rule found)
    qed
  qed
qed

definition same_entries :: "u64 \<Rightarrow> 'c machine \<Rightarrow> 'c machine \<Rightarrow> bool" where
  "same_entries r m m' \<longleftrightarrow> (\<forall>q j. vpath q \<longrightarrow> length q = 3 \<longrightarrow> j < 512 \<longrightarrow> entry r m' q j = entry r m q j)"

lemma same_entries_trans: "same_entries r m m' \<Longrightarrow> same_entries r m' m'' \<Longrightarrow> same_entries r m m''"
  by (simp add: same_entries_def)

lemma same_entriesD: "same_entries r m m' \<Longrightarrow> vpath q \<Longrightarrow> length q = 3 \<Longrightarrow> j < 512 \<Longrightarrow> entry r m' q j = entry r m q j"
  by (simp add: same_entries_def)

text \<open>The allocating walk of \<open>vmm_map_page\<close> down to the page table.\<close>

definition alloc_pt :: "u64 \<Rightarrow> nat \<Rightarrow> nat \<Rightarrow> nat \<Rightarrow> ('c, u64) vmm_prog" where
  "alloc_pt r i4 i3 i2 m =
     pbind (get_or_alloc_next_table (space r) (p2v (vctx m) r) i4) (\<lambda>pdpt.
     pbind (get_or_alloc_next_table (space r) pdpt i3) (\<lambda>pd.
     get_or_alloc_next_table (space r) pd i2)) m"

lemma alloc_pt:
  assumes m: "vmm_ok r m" and p: "vpath [i2, i3, i4]"
  obtains (found) t m' where "alloc_pt r i4 i3 i2 m = (Inr (p2v (vctx m') t), m')"
      "vmm_ok r m'" "tables r m' [i2, i3, i4] = Some t" "same_entries r m m'" "tlb_invalidated m' = tlb_invalidated m" "avail (vctx m) \<le> avail (vctx m') + 3"
  | (nomem) m' where "alloc_pt r i4 i3 i2 m = (Inl VMM_ERR_NOMEM, m')"
      "vmm_ok r m'" "tables r m' [i2, i3, i4] = None" "same_entries r m m'" "tlb_invalidated m' = tlb_invalidated m"
      "avail (vctx m') = 0" "avail (vctx m) \<le> 2"
proof -
  have v: "vpath [i4]" "vpath [i3, i4]" using p by (auto simp: vpath_def)
  have refl: "same_entries r m m" by (simp add: same_entries_def)
  have t0: "tables r m [] = Some r" by (simp add: tables_def)
  show thesis
  proof (cases rule: get_or_alloc [OF m v(1) t0])
    case l1: (1 t1 m1)
    have s1: "same_entries r m m1" using l1(4) by (simp add: same_entries_def)
    show thesis
    proof (cases rule: get_or_alloc [OF l1(2) v(2) l1(3)])
      case l2: (1 t2 m2)
      have s2: "same_entries r m m2" using s1 l2(4) by (simp add: same_entries_def)
      show thesis
      proof (cases rule: get_or_alloc [OF l2(2) p l2(3)])
        case l3: (1 t3 m3)
        have "same_entries r m m3" using s2 l3(4) by (simp add: same_entries_def)
        with l1 l2 l3 show thesis
          by (intro found [of m3 t3]) (simp_all add: alloc_pt_def pbind_def)
      next
        case l3: 2
        with l1 l2 s2 show thesis
          by (intro nomem [of m2]) (simp_all add: alloc_pt_def pbind_def)
      qed
    next
      case l2: 2
      with l1 s1 show thesis
        by (intro nomem [of m1]) (simp_all add: alloc_pt_def pbind_def tables_def)
    qed
  next
    case nm: 2
    with m refl show thesis
      by (intro nomem [of m]) (simp_all add: alloc_pt_def pbind_def tables_def)
  qed
qed

lemma map_page_alloc_pt:
  assumes "vmm_ok r m" "vmm_is_canonical va" "vmm_is_aligned_4k va" "vmm_is_aligned_4k pa"
  shows "vmm_map_page (space r) va pa fl m = pbind (alloc_pt r (idx_pml4 va) (idx_pdpt va) (idx_pd va)) (\<lambda>pt m'.
     if vmem m' (cell_addr pt (idx_pt va)) AND VMM_PTE_PRESENT \<noteq> 0 then (Inl VMM_ERR_EXISTS, m')
     else (Inr (), set_pte pt (idx_pt va)
             ((pa AND VMM_PTE_ADDR_MASK) OR VMM_PTE_PRESENT OR (fl AND map_flags_allowed)) m')) m"
proof -
  have "ok (vctx m)" using assms(1) by (simp add: vmm_ok_def)
  from table_from_phys_used [OF this root_used [OF assms(1)], of r] assms(2-)
  show ?thesis
    by (simp add: vmm_map_page_def alloc_pt_def pbind_def space_def split: prod.split sum.split)
qed

definition lookup :: "u64 \<Rightarrow> 'c machine \<Rightarrow> u64 \<Rightarrow> u64 option" where
  "lookup r m va = entry r m (pt_path va) (idx_pt va)"

abbreviation (input) page :: "u64 \<Rightarrow> bool" where
  "page va \<equiv> vmm_is_canonical va \<and> vmm_is_aligned_4k va"

lemma same_entries_lookup: "same_entries r m m' \<Longrightarrow> lookup r m' va = lookup r m va"
  by (simp add: lookup_def same_entriesD idx_less)

lemma lookup_other:
  assumes "page va" "page vb" "va \<noteq> vb"
  shows "\<not> (pt_path vb = pt_path va \<and> idx_pt vb = idx_pt va)"
  using assms page_address_inj by metis

lemma set_pte_lookup:
  fixes v :: u64
  assumes m: "vmm_ok r m" and t: "tables r m (pt_path va) = Some t" and va: "page va"
  defines "m' \<equiv> set_pte (p2v (vctx m) t) (idx_pt va) v m"
  shows "vmm_ok r m'" "lookup r m' va = (if v AND VMM_PTE_PRESENT = 0 then None else Some v)"
    "page vb \<Longrightarrow> vb \<noteq> va \<Longrightarrow> lookup r m' vb = lookup r m vb"
proof -
  have okc: "ok (vctx m)" and tr: "table_tree (vmem m) (p2v (vctx m)) r (used (vctx m))" using m by (auto simp: vmm_ok_def)
  note leaf = tree_write_leaf [OF tr used_disj [OF okc] pt_path_ok t [unfolded tables_def] idx_less(4) [of va], where v = v]
  show "vmm_ok r m'" using leaf(1) okc by (simp add: vmm_ok_def m'_def set_pte_def)
  show "lookup r m' va = (if v AND VMM_PTE_PRESENT = 0 then None else Some v)"
    using leaf(2) [of "pt_path va" "idx_pt va"] by (simp add: lookup_def entry_def m'_def set_pte_def idx_less)
  show "lookup r m' vb = lookup r m vb" if "page vb" "vb \<noteq> va"
    using leaf(2) [of "pt_path vb" "idx_pt vb"] lookup_other [of va vb] that va
    by (auto simp: lookup_def entry_def m'_def set_pte_def idx_less)
qed

lemma lookup_table:
  "lookup r m va = (case tables r m (pt_path va) of None \<Rightarrow> None
     | Some t \<Rightarrow> let e = vmem m (cell_addr (p2v (vctx m) t) (idx_pt va)) in if e AND VMM_PTE_PRESENT = 0 then None else Some e)"
  by (simp add: lookup_def entry_def pt_entry_def tables_def)

lemma pte_present: "((a :: u64) OR VMM_PTE_PRESENT OR b) AND VMM_PTE_PRESENT \<noteq> 0"
proof
  assume "(a OR VMM_PTE_PRESENT OR b) AND VMM_PTE_PRESENT = 0"
  then have "\<not> bit ((a OR VMM_PTE_PRESENT OR b) AND VMM_PTE_PRESENT) 0" by simp
  then show False by (simp add: VMM_PTE_PRESENT_def bit_and_iff bit_or_iff)
qed

lemma map_page:
  assumes m: "vmm_ok r m" and va: "page va" and pa: "vmm_is_aligned_4k pa"
    and run: "vmm_map_page (space r) va pa fl m = (res, m')"
  shows "vmm_ok r m' \<and> tlb_invalidated m' = tlb_invalidated m
    \<and> (\<forall>vb. page vb \<longrightarrow> vb \<noteq> va \<longrightarrow> lookup r m' vb = lookup r m vb)
    \<and> (case res of
         Inr _ \<Rightarrow> lookup r m va = None \<and> lookup r m' va =
           Some ((pa AND VMM_PTE_ADDR_MASK) OR VMM_PTE_PRESENT OR (fl AND map_flags_allowed))
       | Inl e \<Rightarrow> lookup r m' va = lookup r m va \<and>
           (if lookup r m va = None then e = VMM_ERR_NOMEM \<and> avail (vctx m') = 0 \<and> avail (vctx m) \<le> 2
            else e = VMM_ERR_EXISTS))"
proof -
  let ?v = "(pa AND VMM_PTE_ADDR_MASK) OR VMM_PTE_PRESENT OR (fl AND map_flags_allowed)"
  note run' = run [unfolded map_page_alloc_pt [OF m conjunct1 [OF va] conjunct2 [OF va] pa]]
  have p: "vpath [idx_pd va, idx_pdpt va, idx_pml4 va]" using pt_path_ok(1) [of va] by (simp only: pt_path_def)
  show ?thesis
  proof (cases rule: alloc_pt [OF m p])
    case (1 t m1)
    have t: "tables r m1 (pt_path va) = Some t" using 1(3) by (simp add: pt_path_def)
    note same = same_entries_lookup [OF 1(4)]
    show ?thesis
    proof (cases "vmem m1 (cell_addr (p2v (vctx m1) t) (idx_pt va)) AND VMM_PTE_PRESENT = 0")
      case True
      then have eq: "res = Inr ()" "m' = set_pte (p2v (vctx m1) t) (idx_pt va) ?v m1"
        using run' 1(1) by (auto simp: pbind_def)
      have "lookup r m1 va = None" using True t by (simp add: lookup_table)
      with set_pte_lookup [OF 1(2) t va, where v = ?v] same 1(5) pte_present show ?thesis
        unfolding eq by (simp add: set_pte_def)
    next
      case False
      then have eq: "res = Inl VMM_ERR_EXISTS" "m' = m1" using run' 1(1) by (auto simp: pbind_def)
      have "lookup r m1 va \<noteq> None" using False t by (simp add: lookup_table)
      with 1 same show ?thesis unfolding eq by simp
    qed
  next
    case (2 m1)
    then have eq: "res = Inl VMM_ERR_NOMEM" "m' = m1" using run' by (auto simp: pbind_def)
    have "lookup r m1 va = None" using 2(3) by (simp add: lookup_table pt_path_def)
    with 2 same_entries_lookup [OF 2(4)] show ?thesis unfolding eq by simp
  qed
qed

lemma next_table:
  assumes m: "vmm_ok r m" and p: "vpath (i # p)" "tables r m p = Some t"
  shows "next_table (space r) (p2v (vctx m) t) i m = (case tables r m (i # p) of
      None \<Rightarrow> (Inl VMM_ERR_NOT_FOUND, m) | Some t' \<Rightarrow> (Inr (p2v (vctx m) t'), m))"
proof -
  have okc: "ok (vctx m)" and tr: "table_tree (vmem m) (p2v (vctx m)) r (used (vctx m))" using m by (auto simp: vmm_ok_def)
  have t: "tab (vmem m) (p2v (vctx m)) r p = Some t" using p(2) by (simp add: tables_def)
  show ?thesis
  proof (cases "tables r m (i # p)")
    case None
    then show ?thesis using t by (auto simp: next_table_def tables_def Let_def split: if_splits)
  next
    case (Some t')
    then have "t' \<in> used (vctx m)" using table_tree_in [OF tr p(1)] by (simp add: tables_def)
    from table_from_phys_used [OF okc this] Some t show ?thesis
      by (auto simp: next_table_def tables_def Let_def split: if_splits)
  qed
qed

lemma find_pt:
  assumes m: "vmm_ok r m"
  shows "find_pt (space r) va m = (case tables r m (pt_path va) of
      None \<Rightarrow> (Inl VMM_ERR_NOT_FOUND, m) | Some t \<Rightarrow> (Inr (p2v (vctx m) t), m))"
proof -
  have p: "vpath [idx_pml4 va]" "vpath [idx_pdpt va, idx_pml4 va]" "vpath [idx_pd va, idx_pdpt va, idx_pml4 va]"
    by (simp_all add: vpath_def idx_less)
  have okc: "ok (vctx m)" using m by (simp add: vmm_ok_def)
  have t0: "tables r m [] = Some r" by (simp add: tables_def)
  have root: "table_from_phys (space r) (vctx m) (root_paddr (space r)) = Some (p2v (vctx m) r)"
    using table_from_phys_used [OF okc root_used [OF m], of r] by (simp add: space_def)
  note l1 = next_table [OF m p(1) t0]
  show ?thesis
  proof (cases "tables r m [idx_pml4 va]")
    case None
    then have "tables r m (pt_path va) = None" by (simp add: tables_def pt_path_def)
    with None l1 root show ?thesis by (simp add: find_pt_def pbind_def)
  next
    case t1: (Some t1)
    note l2 = next_table [OF m p(2) t1]
    show ?thesis
    proof (cases "tables r m [idx_pdpt va, idx_pml4 va]")
      case None
      then have "tables r m (pt_path va) = None" by (simp add: tables_def pt_path_def)
      with None t1 l1 l2 root show ?thesis by (simp add: find_pt_def pbind_def)
    next
      case t2: (Some t2)
      from next_table [OF m p(3) t2] t1 t2 l1 l2 root show ?thesis
        by (simp add: find_pt_def pbind_def pt_path_def)
    qed
  qed
qed

lemma query_page:
  assumes m: "vmm_ok r m" and va: "page va"
  shows "vmm_query_page (space r) va (Some out) m = (case lookup r m va of
      None \<Rightarrow> (Inl VMM_ERR_NOT_FOUND, m)
    | Some e \<Rightarrow> (Inr \<lparr>mp_vaddr = va, mp_paddr = e AND VMM_PTE_ADDR_MASK, mp_flags = e AND NOT VMM_PTE_ADDR_MASK\<rparr>, m))"
  using va by (auto simp: vmm_query_page_def find_pt [OF m] lookup_table pbind_def Let_def split: option.split)

lemma unmap_page:
  assumes m: "vmm_ok r m" and va: "page va"
  shows "case lookup r m va of
      None \<Rightarrow> vmm_unmap_page (space r) va m = (Inl VMM_ERR_NOT_FOUND, m)
    | Some e \<Rightarrow> (\<exists>m'. vmm_unmap_page (space r) va m = (Inr (), m') \<and> vmm_ok r m' \<and> lookup r m' va = None
        \<and> (\<forall>vb. page vb \<longrightarrow> vb \<noteq> va \<longrightarrow> lookup r m' vb = lookup r m vb)
        \<and> tlb_invalidated m' = va # tlb_invalidated m)"
proof (cases "lookup r m va")
  case None
  then show ?thesis using va
    by (auto simp: vmm_unmap_page_def find_pt [OF m] lookup_table pbind_def Let_def split: option.splits if_splits)
next
  case (Some e)
  then obtain t where t: "tables r m (pt_path va) = Some t"
    and pr: "vmem m (cell_addr (p2v (vctx m) t) (idx_pt va)) AND VMM_PTE_PRESENT \<noteq> 0"
    by (auto simp: lookup_table Let_def split: option.splits if_splits)
  define m1 where "m1 = set_pte (p2v (vctx m) t) (idx_pt va) 0 m"
  have run: "vmm_unmap_page (space r) va m = (Inr (), vmm_invalidate_page va m1)"
    using va t pr by (simp add: vmm_unmap_page_def find_pt [OF m] pbind_def m1_def)
  have inval: "vmm_ok r (vmm_invalidate_page va m1) = vmm_ok r m1"
    "\<And>vb. lookup r (vmm_invalidate_page va m1) vb = lookup r m1 vb"
    by (simp_all add: vmm_ok_def lookup_def entry_def vmm_invalidate_page_def)
  have tlb: "tlb_invalidated (vmm_invalidate_page va m1) = va # tlb_invalidated m"
    by (simp add: vmm_invalidate_page_def m1_def set_pte_def)
  from set_pte_lookup [OF m t va, where v = 0, folded m1_def] run tlb Some show ?thesis
    by (simp add: inval)
qed

end

section \<open>The kernel's frame source\<close>

text \<open>
  Physical memory fits a page table entry, and the higher-half window of it is page aligned and
  does not wrap around.
\<close>

definition kernel_ok :: "kernel_mem \<Rightarrow> bool" where
  "kernel_ok c \<longleftrightarrow> pmm_inv (kernel_pmm c) \<and> unat (max_phys (kernel_pmm c)) \<le> 2 ^ 52
     \<and> hhdm_offset c \<noteq> 0 \<and> unat (hhdm_offset c) + unat (max_phys (kernel_pmm c)) \<le> 2 ^ 64"

definition kernel_used :: "kernel_mem \<Rightarrow> u64 set" where
  "kernel_used c = {a. releasable (kernel_pmm c) a}"

definition kernel_avail :: "kernel_mem \<Rightarrow> nat" where
  "kernel_avail c = card (free_set (kernel_pmm c))"

lemma phys_mask:
  assumes "unat (a :: u64) mod 4096 = 0" "unat a < 2 ^ 52"
  shows "a AND VMM_PTE_ADDR_MASK = a"
proof (rule bit_eqI)
  fix n assume "possible_bit TYPE(64 word) n"
  have lo: "take_bit 12 a = 0"
    using assms(1) by (simp add: take_bit_eq_mod word_unat_eq_iff unat_mod)
  have hi: "take_bit 52 a = a"
    using assms(2) by (simp add: take_bit_eq_mod word_unat_eq_iff unat_mod)
  have m: "VMM_PTE_ADDR_MASK = push_bit 12 (mask 40)"
    by (simp add: VMM_PTE_ADDR_MASK_def mask_eq_exp_minus_1 push_bit_eq_mult)
  have "bit a n \<Longrightarrow> 12 \<le> n \<and> n < 52"
    using lo hi by (metis bit_0_eq bit_take_bit_iff bot_apply bot_bool_def not_le)
  then show "bit (a AND VMM_PTE_ADDR_MASK) n = bit a n"
    unfolding m by (auto simp: bit_and_iff bit_push_bit_iff bit_mask_iff possible_bit_word)
qed

lemma kernel_alloc_cases:
  assumes "kernel_ok c" "kernel_vmm_alloc c = (a, c')"
  obtains (none) "a = VMM_INVALID_PHYS" "c' = c" "kernel_avail c = 0"
  | (some) "a \<noteq> VMM_INVALID_PHYS" "kernel_ok c'" "hhdm_offset c' = hhdm_offset c" "a \<notin> kernel_used c"
      "kernel_used c' = insert a (kernel_used c)" "kernel_avail c = Suc (kernel_avail c')"
proof -
  let ?p = "kernel_pmm c"
  have inv: "pmm_inv ?p" using assms(1) by (simp add: kernel_ok_def)
  show thesis
  proof (cases "free_set ?p = {}")
    case True
    then show thesis using none assms(2) pmm_alloc_empty [OF inv]
      by (simp add: kernel_vmm_alloc_def VMM_INVALID_PHYS_def UINT64_MAX_def PMM_INVALID_FRAME_def kernel_avail_def)
  next
    case False
    let ?f = "Min (free_set ?p)"
    from pmm_alloc_first_fit [OF inv False] obtain p' where
      p': "pmm_alloc_frame ?p = (?f * 4096, p')" "pmm_inv p'" "same_frame ?p p'"
        "free_set p' = free_set ?p - {?f}" "?f \<in> free_set ?p"
        "unat (?f * 4096) mod 4096 = 0" "?f * 4096 \<noteq> 0" "?f * 4096 < max_phys ?p" "?f * 4096 div 4096 = ?f" .
    have a: "a = ?f * 4096" "c' = c\<lparr>kernel_pmm := p'\<rparr>"
      using assms(2) p'(1) by (simp_all add: kernel_vmm_alloc_def)
    have frame: "b div 4096 = ?f \<longleftrightarrow> b = a" if "unat b mod 4096 = 0" for b
      using frame_inj [of b a] p'(6,9) that by (auto simp: a)
    have "releasable p' b \<longleftrightarrow> b = a \<or> releasable ?p b" for b
    proof (cases "unat b mod 4096 = 0 \<and> b \<noteq> 0 \<and> b < max_phys ?p")
      case True
      then show ?thesis using frame [of b] p'(3,4,5) by (auto simp: releasable_def)
    next
      case False
      moreover have "b \<noteq> a" using False p'(6,7,8) unfolding a(1) by blast
      ultimately show ?thesis using p'(3) by (auto simp: releasable_def)
    qed
    then have used: "kernel_used c' = insert a (kernel_used c)"
      by (auto simp: kernel_used_def a)
    have lim: "VMM_INVALID_PHYS \<noteq> a"
    proof
      assume "VMM_INVALID_PHYS = a"
      then have "VMM_INVALID_PHYS < max_phys ?p" using p'(8) a(1) by simp
      then show False using unat_u64_lt [of "max_phys ?p"]
        by (simp add: VMM_INVALID_PHYS_def UINT64_MAX_def word_less_nat_alt)
    qed
    have "kernel_ok c'" using assms(1) p'(2,3) by (simp add: kernel_ok_def a)
    moreover have "a \<notin> kernel_used c" using p'(5,9) by (simp add: a kernel_used_def releasable_def)
    moreover have "kernel_avail c = Suc (kernel_avail c')"
      using p'(4) card.remove [OF finite_free_set p'(5)] by (simp add: a kernel_avail_def)
    ultimately show thesis using some lim used by (simp add: a)
  qed
qed

lemma kernel_page_disjoint:
  assumes "unat (s :: u64) mod 4096 = 0" "unat s < 2 ^ 52" "unat (t :: u64) mod 4096 = 0" "unat t < 2 ^ 52"
    and "i < 512" "j < 512" "h + s + 8 * of_nat i = h + t + 8 * of_nat j"
  shows "s = t \<and> i = j"
proof -
  have cell: "unat (a + 8 * of_nat k) = unat a + 8 * k" if "unat a < 2 ^ 52" "k < 512" for a :: u64 and k
    using that by (simp add: unat_word_ariths unat_of_nat)
  have "s + 8 * of_nat i = t + 8 * of_nat j" using assms(7) by (simp add: add.assoc)
  then have eq: "unat s + 8 * i = unat t + 8 * j" using cell assms by metis
  obtain m n where mn: "unat s = 4096 * m" "unat t = 4096 * n" using assms(1,3) by (auto elim!: dvdE simp: mod_eq_0_iff_dvd)
  have "(4096 * m + 8 * i) div 4096 = m" "(4096 * n + 8 * j) div 4096 = n" using assms(5,6) by simp_all
  then have "m = n" using eq unfolding mn by simp
  then show ?thesis using eq mn by (simp add: word_unat_eq_iff)
qed

interpretation kvmm: frame_source kernel_vmm_alloc kernel_vmm_free kernel_phys_to_virt kernel_ok kernel_used kernel_avail
proof unfold_locales
  fix c c' a
  assume ok: "kernel_ok c"
  show "c' = c \<and> kernel_avail c = 0" if "kernel_vmm_alloc c = (VMM_INVALID_PHYS, c')"
    by (rule kernel_alloc_cases [OF ok that]) simp_all
  show "kernel_ok c'" if "kernel_vmm_alloc c = (a, c')"
    by (rule kernel_alloc_cases [OF ok that]) (use ok in simp_all)
  show "a \<notin> kernel_used c \<and> kernel_used c' = insert a (kernel_used c) \<and> kernel_avail c = Suc (kernel_avail c')"
    if "kernel_vmm_alloc c = (a, c')" "a \<noteq> VMM_INVALID_PHYS"
    by (rule kernel_alloc_cases [OF ok that(1)]) (use that(2) in simp_all)
  show "kernel_phys_to_virt c' = kernel_phys_to_virt c" if "kernel_vmm_alloc c = (a, c')"
    by (rule kernel_alloc_cases [OF ok that]) (auto simp: kernel_phys_to_virt_def)
  have lim: "unat b mod 4096 = 0 \<and> unat b < 2 ^ 52 \<and> unat b < unat (max_phys (kernel_pmm c))" if "b \<in> kernel_used c" for b
    using that ok by (auto simp: kernel_used_def releasable_def kernel_ok_def word_less_nat_alt)
  show "a AND VMM_PTE_ADDR_MASK = a \<and> kernel_phys_to_virt c a \<noteq> 0" if "a \<in> kernel_used c"
  proof
    show "a AND VMM_PTE_ADDR_MASK = a" using lim [OF that] by (intro phys_mask) auto
    have "unat (hhdm_offset c) + unat a < 2 ^ 64" using lim [OF that] ok by (simp add: kernel_ok_def)
    then have "unat (hhdm_offset c + a) = unat (hhdm_offset c) + unat a" by (simp add: unat_word_ariths)
    moreover have "unat (hhdm_offset c) \<noteq> 0" using ok by (simp add: kernel_ok_def unat_eq_zero)
    ultimately have "unat (kernel_phys_to_virt c a) \<noteq> 0" by (simp add: kernel_phys_to_virt_def)
    then show "kernel_phys_to_virt c a \<noteq> 0" by auto
  qed
  show "disj_pages (kernel_phys_to_virt c) (kernel_used c)"
    unfolding disj_pages_def kernel_phys_to_virt_def
    using lim kernel_page_disjoint by (metis (no_types, lifting))
qed

section \<open>Address spaces as maps\<close>

text \<open>
  The abstract address space: a finite map from canonical page addresses to page table entries. The
  state is well formed when the allocator invariant holds and the tables below the root form a tree
  inside the frames the allocator has handed out.
\<close>

definition kernel_as :: "u64 \<Rightarrow> kernel_mem machine \<Rightarrow> u64 \<Rightarrow> u64 option" where
  "kernel_as r m va = (if vmm_is_canonical va \<and> vmm_is_aligned_4k va
     then pt_entry (vmem m) (kernel_phys_to_virt (vctx m)) r (pt_path va) (idx_pt va) else None)"

definition kernel_vm_ok :: "u64 \<Rightarrow> kernel_mem machine \<Rightarrow> bool" where
  "kernel_vm_ok r m \<longleftrightarrow> kernel_ok (vctx m)
     \<and> table_tree (vmem m) (kernel_phys_to_virt (vctx m)) r (kernel_used (vctx m))"

definition kernel_space :: "u64 \<Rightarrow> kernel_mem vmm_space" where
  "kernel_space r = \<lparr>root_paddr = r, alloc_frame = Some kernel_vmm_alloc, free_frame = Some kernel_vmm_free,
     phys_to_virt = Some kernel_phys_to_virt\<rparr>"

lemma kernel_views:
  "kvmm.space r = kernel_space r" "kvmm.vmm_ok r m = kernel_vm_ok r m"
  "kernel_as r m va = (if vmm_is_canonical va \<and> vmm_is_aligned_4k va then kvmm.lookup r m va else None)"
  by (simp_all add: kvmm.space_def kernel_space_def kvmm.vmm_ok_def kernel_vm_ok_def kernel_as_def
      kvmm.lookup_def kvmm.entry_def)

lemma kernel_as_page: "vmm_is_canonical va \<Longrightarrow> vmm_is_aligned_4k va \<Longrightarrow> kernel_as r m va = kvmm.lookup r m va"
  by (simp add: kernel_views)

lemma kernel_as_cong:
  assumes "\<forall>vb. vmm_is_canonical vb \<and> vmm_is_aligned_4k vb \<longrightarrow> vb \<noteq> va \<longrightarrow> kvmm.lookup r m' vb = kvmm.lookup r m vb"
    and "vmm_is_canonical va" "vmm_is_aligned_4k va"
  shows "kernel_as r m' = (kernel_as r m)(va := kvmm.lookup r m' va)"
  by (rule ext) (use assms in \<open>auto simp: kernel_views\<close>)

text \<open>What a successful map writes.\<close>

definition mapped_pte :: "u64 \<Rightarrow> u64 \<Rightarrow> u64" where
  "mapped_pte pa fl = (pa AND VMM_PTE_ADDR_MASK) OR VMM_PTE_PRESENT OR (fl AND map_flags_allowed)"

lemma kernel_map_page:
  assumes ok: "kernel_vm_ok r m" and va: "vmm_is_canonical va" "vmm_is_aligned_4k va" and pa: "vmm_is_aligned_4k pa"
  obtains (mapped) m' where "vmm_map_page (kernel_space r) va pa fl m = (Inr (), m')" "kernel_vm_ok r m'"
      "kernel_as r m va = None" "kernel_as r m' = (kernel_as r m)(va \<mapsto> mapped_pte pa fl)"
  | (exists) m' where "vmm_map_page (kernel_space r) va pa fl m = (Inl VMM_ERR_EXISTS, m')" "kernel_vm_ok r m'"
      "kernel_as r m' = kernel_as r m" "kernel_as r m va \<noteq> None"
  | (nomem) m' where "vmm_map_page (kernel_space r) va pa fl m = (Inl VMM_ERR_NOMEM, m')" "kernel_vm_ok r m'"
      "kernel_as r m' = kernel_as r m" "kernel_as r m va = None" "kernel_avail (vctx m') = 0" "kernel_avail (vctx m) \<le> 2"
proof -
  obtain res m' where run: "vmm_map_page (kernel_space r) va pa fl m = (res, m')" by fastforce
  from kvmm.map_page [of r m, unfolded kernel_views(1,2), OF ok conjI [OF va] pa run]
  have spec: "kernel_vm_ok r m'" "\<forall>vb. vmm_is_canonical vb \<and> vmm_is_aligned_4k vb \<longrightarrow> vb \<noteq> va \<longrightarrow> kvmm.lookup r m' vb = kvmm.lookup r m vb"
    "case res of Inr _ \<Rightarrow> kvmm.lookup r m va = None \<and> kvmm.lookup r m' va = Some (mapped_pte pa fl)
       | Inl e \<Rightarrow> kvmm.lookup r m' va = kvmm.lookup r m va \<and>
           (if kvmm.lookup r m va = None then e = VMM_ERR_NOMEM \<and> kernel_avail (vctx m') = 0 \<and> kernel_avail (vctx m) \<le> 2
            else e = VMM_ERR_EXISTS)"
    unfolding mapped_pte_def by blast+
  note as = kernel_as_cong [OF spec(2) va]
  show thesis
  proof (cases res)
    case (Inl e)
    then have e: "kvmm.lookup r m' va = kvmm.lookup r m va" using spec(3) by simp
    have as': "kernel_as r m' = kernel_as r m" by (rule ext) (use as e va in \<open>simp add: kernel_as_page\<close>)
    show thesis
    proof (cases "kernel_as r m va")
      case None
      with nomem [of m'] Inl run spec(1,3) va as' show thesis by (simp add: kernel_as_page)
    next
      case (Some x)
      with exists [of m'] Inl run spec(1,3) va as' show thesis by (simp add: kernel_as_page)
    qed
  next
    case (Inr u)
    with mapped [of m'] run spec as va show thesis by (simp add: kernel_as_page)
  qed
qed

lemma kernel_query_page:
  assumes "kernel_vm_ok r m" "vmm_is_canonical va" "vmm_is_aligned_4k va"
  shows "vmm_query_page (kernel_space r) va (Some out) m = (case kernel_as r m va of
      None \<Rightarrow> (Inl VMM_ERR_NOT_FOUND, m)
    | Some e \<Rightarrow> (Inr \<lparr>mp_vaddr = va, mp_paddr = e AND VMM_PTE_ADDR_MASK, mp_flags = e AND NOT VMM_PTE_ADDR_MASK\<rparr>, m))"
  using kvmm.query_page [of r m va out] assms by (simp add: kernel_views)

lemma kernel_unmap_page:
  assumes ok: "kernel_vm_ok r m" and va: "vmm_is_canonical va" "vmm_is_aligned_4k va" and e: "kernel_as r m va = Some e"
  obtains m' where "vmm_unmap_page (kernel_space r) va m = (Inr (), m')" "kernel_vm_ok r m'"
    "kernel_as r m' = (kernel_as r m)(va := None)" "tlb_invalidated m' = va # tlb_invalidated m"
proof -
  from kvmm.unmap_page [of r m va] ok va e obtain m' where
    m': "vmm_unmap_page (kernel_space r) va m = (Inr (), m')" "kernel_vm_ok r m'" "kvmm.lookup r m' va = None"
      "\<forall>vb. vmm_is_canonical vb \<and> vmm_is_aligned_4k vb \<longrightarrow> vb \<noteq> va \<longrightarrow> kvmm.lookup r m' vb = kvmm.lookup r m vb"
      "tlb_invalidated m' = va # tlb_invalidated m"
    by (auto simp: kernel_views)
  with that [of m'] kernel_as_cong [OF m'(4) va] show thesis by simp
qed

text \<open>Bad addresses are refused before anything is touched.\<close>

lemma vmm_bad_address:
  assumes "\<not> (vmm_is_canonical va \<and> vmm_is_aligned_4k va)"
  shows "vmm_map_page sp va pa fl m = (Inl VMM_ERR_INVAL, m)" "vmm_query_page sp va out m = (Inl VMM_ERR_INVAL, m)"
    "vmm_unmap_page sp va m = (Inl VMM_ERR_INVAL, m)"
  using assms by (auto simp: vmm_map_page_def vmm_query_page_def vmm_unmap_page_def)

lemma mapped_pte_fields:
  "mapped_pte pa fl AND VMM_PTE_ADDR_MASK = pa AND VMM_PTE_ADDR_MASK"
  "mapped_pte pa fl AND NOT VMM_PTE_ADDR_MASK = VMM_PTE_PRESENT OR (fl AND map_flags_allowed)"
proof -
  have m: "VMM_PTE_PRESENT AND VMM_PTE_ADDR_MASK = 0" "map_flags_allowed AND VMM_PTE_ADDR_MASK = 0"
    by (simp_all add: layout map_flags_allowed_def)
  have n: "x AND NOT VMM_PTE_ADDR_MASK = x" if "x AND VMM_PTE_ADDR_MASK = 0" for x
  proof (rule bit_eqI)
    fix n assume "possible_bit TYPE(64 word) n"
    moreover have "\<not> bit (x AND VMM_PTE_ADDR_MASK) n" using that by simp
    ultimately show "bit (x AND NOT VMM_PTE_ADDR_MASK) n = bit x n"
      by (auto simp: bit_and_iff bit_not_iff)
  qed
  have f: "(fl AND map_flags_allowed) AND VMM_PTE_ADDR_MASK = 0" by (simp add: and.assoc m)
  show "mapped_pte pa fl AND VMM_PTE_ADDR_MASK = pa AND VMM_PTE_ADDR_MASK"
    by (simp add: mapped_pte_def bit.conj_disj_distrib2 m f and.assoc)
  have p: "(pa AND VMM_PTE_ADDR_MASK) AND NOT VMM_PTE_ADDR_MASK = 0" by (simp add: and.assoc)
  show "mapped_pte pa fl AND NOT VMM_PTE_ADDR_MASK = VMM_PTE_PRESENT OR (fl AND map_flags_allowed)"
    by (simp add: mapped_pte_def bit.conj_disj_distrib2 p n [OF m(1)] n [OF f])
qed

text \<open>
  C10. Mapping a page refines the update of the address space: on success exactly the requested page
  gains the entry built from the frame address and the permitted flags. On any error the address
  space is unchanged, and the error says why: a bad address, a page already mapped, or an allocator
  that had fewer than the three frames a map can need and has none left. The tables stay a tree in frames the allocator has given out.
\<close>

theorem vmm_map_page_spec:
  assumes "kernel_vm_ok r m"
  shows "case vmm_map_page (kernel_space r) va pa fl m of
      (Inr _, m') \<Rightarrow> kernel_vm_ok r m' \<and> kernel_as r m va = None
        \<and> kernel_as r m' = (kernel_as r m)(va \<mapsto> mapped_pte pa fl)
    | (Inl e, m') \<Rightarrow> kernel_vm_ok r m' \<and> kernel_as r m' = kernel_as r m
        \<and> (if \<not> vmm_is_canonical va \<or> \<not> vmm_is_aligned_4k va \<or> \<not> vmm_is_aligned_4k pa then e = VMM_ERR_INVAL
           else if kernel_as r m va \<noteq> None then e = VMM_ERR_EXISTS
           else e = VMM_ERR_NOMEM \<and> kernel_avail (vctx m') = 0 \<and> kernel_avail (vctx m) < 3)"
proof (cases "vmm_is_canonical va \<and> vmm_is_aligned_4k va \<and> vmm_is_aligned_4k pa")
  case True
  then have a: "vmm_is_canonical va" "vmm_is_aligned_4k va" "vmm_is_aligned_4k pa" by auto
  show ?thesis by (cases rule: kernel_map_page [OF assms a, of fl]) (use a in simp_all)
next
  case False
  then have "vmm_map_page (kernel_space r) va pa fl m = (Inl VMM_ERR_INVAL, m)" by (auto simp: vmm_map_page_def)
  with False assms show ?thesis by auto
qed

text \<open>
  A page that was mapped to a frame below \<open>2 ^ 52\<close> is found by a query with that frame and with the
  permitted flags; unmapping it restores the address space as it was before the map, invalidates the
  translation of the page, and a further query or unmap reports that nothing is mapped there.
\<close>

theorem vmm_map_query_unmap:
  assumes "kernel_vm_ok r m" "unat pa < 2 ^ 52" "vmm_map_page (kernel_space r) va pa fl m = (Inr (), m1)"
  shows "vmm_query_page (kernel_space r) va (Some out) m1 =
      (Inr \<lparr>mp_vaddr = va, mp_paddr = pa, mp_flags = VMM_PTE_PRESENT OR (fl AND map_flags_allowed)\<rparr>, m1)
    \<and> (\<exists>m2. vmm_unmap_page (kernel_space r) va m1 = (Inr (), m2) \<and> kernel_vm_ok r m2
        \<and> kernel_as r m2 = kernel_as r m \<and> tlb_invalidated m2 = va # tlb_invalidated m1
        \<and> vmm_query_page (kernel_space r) va (Some out) m2 = (Inl VMM_ERR_NOT_FOUND, m2)
        \<and> vmm_unmap_page (kernel_space r) va m2 = (Inl VMM_ERR_NOT_FOUND, m2))"
proof -
  have a: "vmm_is_canonical va" "vmm_is_aligned_4k va" "vmm_is_aligned_4k pa"
    using assms(3) by (auto simp: vmm_map_page_def split: if_splits)
  from kernel_map_page [OF assms(1) a, of fl] assms(3) have
    m1: "kernel_vm_ok r m1" "kernel_as r m va = None" "kernel_as r m1 = (kernel_as r m)(va \<mapsto> mapped_pte pa fl)"
    by auto
  have al: "unat pa mod 4096 = 0" using a(3) and_page_mask [of pa] by (simp add: vmm_is_aligned_4k_def)
  have pa: "pa AND VMM_PTE_ADDR_MASK = pa" by (rule phys_mask [OF al assms(2)])
  have some: "kernel_as r m1 va = Some (mapped_pte pa fl)" using m1(3) by simp
  from kernel_unmap_page [OF m1(1) a(1,2) some] obtain m2 where
    m2: "vmm_unmap_page (kernel_space r) va m1 = (Inr (), m2)" "kernel_vm_ok r m2"
      "kernel_as r m2 = (kernel_as r m1)(va := None)" "tlb_invalidated m2 = va # tlb_invalidated m1" .
  have restored: "kernel_as r m2 = kernel_as r m" using m2(3) m1(2,3) by auto
  have gone: "kernel_as r m2 va = None" using m2(3) by simp
  have "vmm_unmap_page (kernel_space r) va m2 = (Inl VMM_ERR_NOT_FOUND, m2)"
    using kvmm.unmap_page [of r m2 va] m2(2) a gone by (simp add: kernel_views)
  with kernel_query_page [OF m1(1) a(1,2)] kernel_query_page [OF m2(2) a(1,2)] m2 restored gone some
  show ?thesis by (simp add: mapped_pte_fields pa)
qed

text \<open>
  Unmapping and querying on every branch: a bad address is invalid, an address without a mapping is
  not found, and in both cases nothing changes; unmapping a mapped page removes exactly that mapping,
  keeps the tables well formed and invalidates the translation.
\<close>

theorem vmm_unmap_page_spec:
  assumes "kernel_vm_ok r m"
  shows "if \<not> vmm_is_canonical va \<or> \<not> vmm_is_aligned_4k va
    then vmm_unmap_page (kernel_space r) va m = (Inl VMM_ERR_INVAL, m)
      \<and> vmm_query_page (kernel_space r) va (Some out) m = (Inl VMM_ERR_INVAL, m)
    else case kernel_as r m va of
      None \<Rightarrow> vmm_unmap_page (kernel_space r) va m = (Inl VMM_ERR_NOT_FOUND, m)
        \<and> vmm_query_page (kernel_space r) va (Some out) m = (Inl VMM_ERR_NOT_FOUND, m)
    | Some e \<Rightarrow> (\<exists>m'. vmm_unmap_page (kernel_space r) va m = (Inr (), m') \<and> kernel_vm_ok r m'
        \<and> kernel_as r m' = (kernel_as r m)(va := None) \<and> tlb_invalidated m' = va # tlb_invalidated m)"
proof (cases "vmm_is_canonical va \<and> vmm_is_aligned_4k va")
  case False
  with vmm_bad_address [OF False] show ?thesis by auto
next
  case True
  then have a: "vmm_is_canonical va" "vmm_is_aligned_4k va" by auto
  show ?thesis
  proof (cases "kernel_as r m va")
    case None
    then show ?thesis using kvmm.unmap_page [of r m va] kernel_query_page [OF assms a] a assms
      by (simp add: kernel_views)
  next
    case (Some e)
    from kernel_unmap_page [OF assms a Some] obtain m' where
      "vmm_unmap_page (kernel_space r) va m = (Inr (), m')" "kernel_vm_ok r m'"
      "kernel_as r m' = (kernel_as r m)(va := None)" "tlb_invalidated m' = va # tlb_invalidated m" .
    with Some a show ?thesis by simp
  qed
qed

text \<open>
  C12. The memory bring-up cannot succeed: \<open>kernel_memory_init\<close> hands the frame allocator a null bitmap
  and a memory size of zero, so its initialisation is refused and the kernel panics at once, whatever
  the memory map is.
\<close>

theorem kernel_memory_init_panics:
  "kernel_memory_init regions m = (Inl ''M7: Gagal inisialisasi PMM dari boot map'', m)"
proof -
  have "pmm_init_from_map p regions None 0 = (False, p)" for p
    by (simp add: pmm_init_from_map_def split: option.split)
  then show ?thesis by (simp add: kernel_memory_init_def)
qed

section \<open>A concrete address space\<close>

text \<open>Cleared memory holds the tree of the root table alone, and maps nothing.\<close>

lemma fresh_table_tree: "r \<in> U \<Longrightarrow> table_tree (\<lambda>_. 0) P r U"
proof -
  have "tab (\<lambda>_. 0) P r p = (if p = [] then Some r else None)" for p
    by (cases p) (simp_all add: Let_def split: option.split)
  then show "r \<in> U \<Longrightarrow> ?thesis" by (auto simp: table_tree_def split: if_splits)
qed

lemma fresh_kernel_as: "vmem m = (\<lambda>_. 0) \<Longrightarrow> kernel_as r m = (\<lambda>_. None)"
  by (rule ext) (simp add: kernel_as_def pt_entry_def Let_def split: option.split)

definition demo_mem :: kernel_mem where
  "demo_mem = \<lparr>hhdm_offset = 0xFFFF800000000000, kernel_pmm = demo_pmm\<rparr>"

definition demo_root :: u64 where "demo_root = fst (kernel_vmm_alloc demo_mem)"

definition demo_machine :: "kernel_mem machine" where
  "demo_machine = \<lparr>vmem = \<lambda>_. 0, vctx = snd (kernel_vmm_alloc demo_mem), tlb_invalidated = []\<rparr>"

lemma demo_mem_ok: "kernel_ok demo_mem"
  by (simp add: kernel_ok_def demo_mem_def demo_inv)

lemma demo_avail: "5 \<le> kernel_avail demo_mem"
proof -
  have "{3, 4, 5, 6, 7} \<union> {2} \<subseteq> free_set demo_pmm"
    by (simp add: demo_inv init_free_def demo_map_def BOOT_MEM_USABLE_def contains_frame_def
        overlaps_frame_def word_less_nat_alt)
  from card_mono [OF finite_free_set this] show ?thesis by (simp add: kernel_avail_def demo_mem_def)
qed

lemma demo_machine_ok: "kernel_vm_ok demo_root demo_machine" "4 \<le> kernel_avail (vctx demo_machine)"
proof -
  obtain a c' where al: "kernel_vmm_alloc demo_mem = (a, c')" by fastforce
  show "kernel_vm_ok demo_root demo_machine"
    by (rule kernel_alloc_cases [OF demo_mem_ok al])
      (use demo_avail al in \<open>auto simp: kernel_vm_ok_def demo_machine_def demo_root_def fresh_table_tree\<close>)
  show "4 \<le> kernel_avail (vctx demo_machine)"
    by (rule kernel_alloc_cases [OF demo_mem_ok al]) (use demo_avail al in \<open>auto simp: demo_machine_def\<close>)
qed

lemma demo_address: "vmm_is_canonical 0xFFFF800000200000" "vmm_is_aligned_4k 0xFFFF800000200000"
  "vmm_is_aligned_4k 0x300000"
  by (simp_all add: vmm_is_canonical_def vmm_is_aligned_4k_def Let_def drop_bit_eq_div)

theorem vmm_map_page_spec_witness:
  "\<exists>m'. kernel_vm_ok demo_root demo_machine
    \<and> vmm_map_page (kernel_space demo_root) 0xFFFF800000200000 0x300000 2 demo_machine = (Inr (), m')
    \<and> kernel_as demo_root m' = [0xFFFF800000200000 \<mapsto> mapped_pte 0x300000 2]"
  using vmm_map_page_spec [OF demo_machine_ok(1), of "0xFFFF800000200000" "0x300000" 2]
    demo_machine_ok demo_address fresh_kernel_as [of demo_machine demo_root]
  by (auto simp: demo_machine_def split: prod.splits sum.splits)

lemma demo_mapped: "\<exists>m'. vmm_map_page (kernel_space demo_root) 0xFFFF800000200000 0x300000 2 demo_machine = (Inr (), m')
    \<and> kernel_vm_ok demo_root m' \<and> kernel_as demo_root m' 0xFFFF800000200000 = Some (mapped_pte 0x300000 2)"
proof (cases rule: kernel_map_page [OF demo_machine_ok(1) demo_address, of 2])
  case (2 m')
  then show ?thesis using fresh_kernel_as [of demo_machine demo_root] by (simp add: demo_machine_def)
qed (use demo_machine_ok(2) in auto)

theorem vmm_map_query_unmap_witness:
  "\<exists>m1. vmm_map_page (kernel_space demo_root) 0xFFFF800000200000 0x300000 2 demo_machine = (Inr (), m1)
    \<and> vmm_query_page (kernel_space demo_root) 0xFFFF800000200000 (Some \<lparr>mp_vaddr = 0, mp_paddr = 0, mp_flags = 0\<rparr>) m1 =
      (Inr \<lparr>mp_vaddr = 0xFFFF800000200000,
        mp_paddr = 0x300000, mp_flags = VMM_PTE_PRESENT OR (2 AND map_flags_allowed)\<rparr>, m1)"
proof -
  have "unat (0x300000 :: u64) < 2 ^ 52" by simp
  with demo_mapped vmm_map_query_unmap [OF demo_machine_ok(1), of "0x300000" "0xFFFF800000200000" 2] show ?thesis by blast
qed

theorem vmm_unmap_page_spec_witness:
  "\<exists>m1 m2. kernel_as demo_root m1 0xFFFF800000200000 = Some (mapped_pte 0x300000 2)
    \<and> vmm_unmap_page (kernel_space demo_root) 0xFFFF800000200000 m1 = (Inr (), m2)
    \<and> kernel_as demo_root m2 0xFFFF800000200000 = None"
proof -
  obtain m1 where m1: "kernel_vm_ok demo_root m1" "kernel_as demo_root m1 0xFFFF800000200000 = Some (mapped_pte 0x300000 2)"
    using demo_mapped by blast
  from vmm_unmap_page_spec [OF m1(1), of "0xFFFF800000200000"] m1(2) demo_address show ?thesis by auto
qed

end
