(* ===== verification/Mmu.thy ===== *)
theory Mmu
  imports Vmm
begin

text \<open>
  The processor's side of virtual memory: the control registers and \<open>invlpg\<close> behind the last functions of \<open>src/vmm.c\<close>, the
  translation cache, and accesses through it, as the processor's documentation gives them. The property at the end
  composes them with the calls of \<open>Vmm\<close>.
\<close>

section \<open>The processor\<close>


text \<open>
  A cached translation: the entry of the page table and the rights, which combine the entries of all levels. \<open>wp\<close> is the flag
  WP of \<open>cr0\<close>, \<open>nxe\<close> the flag NXE of EFER, which the code leaves as the boot loader set them. Global pages are taken to be
  enabled, which is the worse case for flushing; SMEP and SMAP, which concern user pages only, to be disabled.
\<close>

record translation =
  t_pte :: u64
  t_user :: bool
  t_write :: bool
  t_nx :: bool

record mmu =
  mm :: "kernel_mem machine"
  cr2 :: u64
  cr3 :: u64
  wp :: bool
  nxe :: bool
  tlb :: "u64 \<rightharpoonup> translation"



definition vmm_read_cr2 :: "mmu \<Rightarrow> u64" where
  "vmm_read_cr2 s = cr2 s"


text \<open>The walk: the entries it uses, from the root down, and what they allow.\<close>

definition walk_steps :: "u64 \<Rightarrow> (nat \<times> nat list) list" where
  "walk_steps va = [(idx_pml4 va, []), (idx_pdpt va, [idx_pml4 va]), (idx_pd va, [idx_pdpt va, idx_pml4 va]), (idx_pt va, pt_path va)]"

definition step_entry :: "(u64 \<Rightarrow> u64) \<Rightarrow> (u64 \<Rightarrow> u64) \<Rightarrow> u64 \<Rightarrow> nat \<times> nat list \<Rightarrow> u64" where
  "step_entry M P r = (\<lambda>(i, p). case tab M P r p of None \<Rightarrow> 0 | Some t \<Rightarrow> M (cell_addr (P t) i))"





text \<open>Setting bits of a present entry, and the accessed bit of the entries above the page table.\<close>

definition mark :: "(u64 \<Rightarrow> u64) \<Rightarrow> u64 \<Rightarrow> u64 \<Rightarrow> nat \<times> nat list \<Rightarrow> (u64 \<Rightarrow> u64) \<Rightarrow> u64 \<Rightarrow> u64" where
  "mark P r b = (\<lambda>(i, p) M. case tab M P r p of None \<Rightarrow> M
     | Some t \<Rightarrow> let e = M (cell_addr (P t) i) in if e AND VMM_PTE_PRESENT = 0 then M else M(cell_addr (P t) i := e OR b))"






section \<open>What the kernel's directories allow\<close>

text \<open>Every present entry above the page tables is writable, closed to user mode, and executable.\<close>

definition dir_mask :: u64 where
  "dir_mask = VMM_PTE_WRITABLE OR VMM_PTE_USER OR VMM_PTE_NO_EXECUTE"

definition dirs_ok :: "(u64 \<Rightarrow> u64) \<Rightarrow> (u64 \<Rightarrow> u64) \<Rightarrow> u64 \<Rightarrow> bool" where
  "dirs_ok M P r \<longleftrightarrow> (\<forall>p i t. vpath (i # p) \<longrightarrow> tab M P r p = Some t \<longrightarrow> M (cell_addr (P t) i) AND VMM_PTE_PRESENT \<noteq> 0
     \<longrightarrow> M (cell_addr (P t) i) AND dir_mask = VMM_PTE_WRITABLE)"

lemma dirs_ok_add_table:
  assumes tr: "table_tree M P r U" and dj: "disj_pages P (insert a U)" and a: "a \<notin> U" "a AND VMM_PTE_ADDR_MASK = a"
    and p0: "vpath (i0 # p0)" "tab M P r p0 = Some t0" and absent: "M (cell_addr (P t0) i0) AND VMM_PTE_PRESENT = 0"
    and K: "dirs_ok M P r"
  shows "dirs_ok (add_table P a t0 i0 M) P r"
  unfolding dirs_ok_def
proof (intro allI impI)
  let ?M = "add_table P a t0 i0 M"
  fix p i t assume p: "vpath (i # p)" "tab ?M P r p = Some t" "?M (cell_addr (P t) i) AND VMM_PTE_PRESENT \<noteq> 0"
  note tabs = tab_add_table [OF tr dj a p0 absent vpath_tl(1) [OF p(1)]]
  have t0: "t0 \<in> U" "i0 < 512" using table_tree_in [OF tr _ p0(2)] p0(1) vpath_tl by blast+
  note cells = add_table_cells [OF dj a(1) t0, where M = M]
  show "?M (cell_addr (P t) i) AND dir_mask = VMM_PTE_WRITABLE"
  proof (cases "t = t0 \<and> i = i0")
    case True
    have "((a AND VMM_PTE_ADDR_MASK) OR VMM_PTE_PRESENT OR VMM_PTE_WRITABLE) AND dir_mask = VMM_PTE_WRITABLE"
      by (simp add: dir_mask_def layout bit.conj_disj_distrib2 and.assoc)
    with True show ?thesis by (simp add: add_table_def)
  next
    case False
    have "t \<noteq> a" using p(3) cells(2) [OF vpath_tl(2) [OF p(1)]] by auto
    then have t: "tab M P r p = Some t" using tabs p(2) by (simp split: if_splits)
    then have "?M (cell_addr (P t) i) = M (cell_addr (P t) i)"
      using cells(1) [OF table_tree_in [OF tr vpath_tl(1) [OF p(1)] t] vpath_tl(2) [OF p(1)]] False by blast
    then show ?thesis using K p(1,3) t unfolding dirs_ok_def by simp
  qed
qed

text \<open>A cell of a page table is no cell of a directory.\<close>

lemma leaf_cell_other:
  assumes tr: "table_tree M P r U" and dj: "disj_pages P U"
    and q: "vpath q" "length q = 3" "tab M P r q = Some t0" "j < 512" and p: "vpath (i # p)" "tab M P r p = Some t"
  shows "cell_addr (P t) i \<noteq> cell_addr (P t0) j"
proof -
  have "p \<noteq> q" using p(1) q(2) by (auto simp: vpath_def)
  then have "t \<noteq> t0" using table_tree_inj [OF tr vpath_tl(1) [OF p(1)] q(1) p(2)] q(3) by blast
  then show ?thesis
    using disj_pagesD [OF dj table_tree_in [OF tr vpath_tl(1) [OF p(1)] p(2)] table_tree_in [OF tr q(1,3)] vpath_tl(2) [OF p(1)] q(4)]
    by auto
qed

lemma dirs_ok_write_leaf:
  fixes v :: u64
  assumes tr: "table_tree M P r U" and dj: "disj_pages P U"
    and p0: "vpath p0" "length p0 = 3" "tab M P r p0 = Some t0" "i0 < 512" and K: "dirs_ok M P r"
  shows "dirs_ok (M(cell_addr (P t0) i0 := v)) P r"
  unfolding dirs_ok_def
proof (intro allI impI)
  let ?M = "M(cell_addr (P t0) i0 := v)"
  fix p i t assume p: "vpath (i # p)" "tab ?M P r p = Some t" "?M (cell_addr (P t) i) AND VMM_PTE_PRESENT \<noteq> 0"
  have "\<not> suffix (i0 # p0) p" using p(1) p0(2) by (auto simp: vpath_def dest: suffix_length_le)
  then have t: "tab M P r p = Some t"
    using tab_write_entry [OF tr dj p0(1,3,4) vpath_tl(1) [OF p(1)], of v] p(2) by simp
  then have "?M (cell_addr (P t) i) = M (cell_addr (P t) i)"
    using leaf_cell_other [OF tr dj p0 p(1) t] by simp
  then show "?M (cell_addr (P t) i) AND dir_mask = VMM_PTE_WRITABLE" using K p(1,3) t unfolding dirs_ok_def by simp
qed

section \<open>Accessed and dirty bits\<close>

text \<open>Memories that differ in accessed and dirty bits only hold the same tables.\<close>

definition same_but_used :: "(u64 \<Rightarrow> u64) \<Rightarrow> (u64 \<Rightarrow> u64) \<Rightarrow> bool" where
  "same_but_used M M' \<longleftrightarrow> (\<forall>x. M' x AND NOT 0x60 = M x AND NOT 0x60)"

lemma same_masked:
  assumes "same_but_used M M'" "K AND 0x60 = 0"
  shows "M' x AND K = M x AND K"
proof -
  have "NOT c AND K = K" if "K AND c = 0" for c
  proof -
    have "K = (K AND c) OR (K AND NOT c)" by (simp flip: bit.conj_disj_distrib)
    then show ?thesis using that by (simp add: and.commute)
  qed
  then have K: "NOT 0x60 AND K = K" using assms(2) by blast
  have "M' x AND K = (M' x AND NOT 0x60) AND K" by (simp only: and.assoc K)
  also have "\<dots> = (M x AND NOT 0x60) AND K" using assms(1) by (simp only: same_but_used_def)
  finally show ?thesis by (simp only: and.assoc K)
qed

lemma same_bits:
  assumes "same_but_used M M'"
  shows "M' x AND VMM_PTE_PRESENT = M x AND VMM_PTE_PRESENT" "M' x AND VMM_PTE_HUGE = M x AND VMM_PTE_HUGE"
    "M' x AND VMM_PTE_ADDR_MASK = M x AND VMM_PTE_ADDR_MASK" "M' x AND dir_mask = M x AND dir_mask"
  by (rule same_masked [OF assms]; simp add: layout dir_mask_def)+

lemma tab_same: "same_but_used M M' \<Longrightarrow> tab M' P r p = tab M P r p"
  by (induction p) (auto simp: same_bits Let_def split: option.split)

lemma tree_same: "same_but_used M M' \<Longrightarrow> table_tree M' P r U = table_tree M P r U"
  by (simp add: table_tree_def tab_same same_bits)

lemma dirs_same: "same_but_used M M' \<Longrightarrow> dirs_ok M' P r = dirs_ok M P r"
  by (simp add: dirs_ok_def tab_same same_bits)

lemma mark_same:
  assumes "b AND NOT 0x60 = 0"
  shows "same_but_used M (mark P r b ip M)"
proof -
  have "(e OR b) AND NOT 0x60 = e AND NOT 0x60" for e using assms by (simp add: bit.conj_disj_distrib2)
  then show ?thesis by (simp add: same_but_used_def mark_def Let_def split: prod.split option.split)
qed

text \<open>Marking a directory entry changes no entry of a page table; marking one of those changes no other.\<close>

lemma mark_dir_entry:
  assumes tr: "table_tree M P r U" and dj: "disj_pages P U" and p: "vpath (i # p)" and b: "b AND NOT 0x60 = 0"
    and q: "vpath q" "length q = 3" "j < 512"
  shows "pt_entry (mark P r b (i, p) M) P r q j = pt_entry M P r q j"
proof -
  let ?M = "mark P r b (i, p) M"
  have "?M (cell_addr (P t0) j) = M (cell_addr (P t0) j)" if "tab M P r q = Some t0" for t0
    using leaf_cell_other [OF tr dj q(1,2) that q(3) p] by (auto simp: mark_def Let_def split: option.split)
  then show ?thesis by (simp add: pt_entry_def tab_same [OF mark_same [OF b]] split: option.split)
qed

lemma or_present: "e AND VMM_PTE_PRESENT \<noteq> 0 \<Longrightarrow> (e OR b) AND VMM_PTE_PRESENT \<noteq> (0 :: u64)"
  by (auto simp: bit.conj_disj_distrib2 or_eq_0_iff)

lemma mark_leaf_entry:
  assumes tr: "table_tree M P r U" and dj: "disj_pages P U" and p: "vpath p" "length p = 3" "i < 512"
    and q: "vpath q" "length q = 3" "j < 512"
  shows "pt_entry (mark P r b (i, p) M) P r q j =
    (if q = p \<and> j = i then map_option (\<lambda>e. e OR b) (pt_entry M P r p i) else pt_entry M P r q j)"
proof (cases "tab M P r p")
  case None
  then show ?thesis by (simp add: mark_def pt_entry_def)
next
  case (Some t)
  let ?e = "M (cell_addr (P t) i)"
  show ?thesis
  proof (cases "?e AND VMM_PTE_PRESENT = 0")
    case True
    then show ?thesis using Some by (simp add: mark_def pt_entry_def Let_def)
  next
    case False
    then have "mark P r b (i, p) M = M(cell_addr (P t) i := ?e OR b)" using Some by (simp add: mark_def Let_def)
    then show ?thesis using tree_write_leaf(2) [OF tr dj p(1,2) Some p(3) q(1,3), of "?e OR b"] or_present [OF False] False Some
      by (simp add: pt_entry_def [of M P r p i] Let_def)
  qed
qed

context frame_source
begin

definition closed :: "u64 \<Rightarrow> 'c machine \<Rightarrow> bool" where
  "closed r m \<longleftrightarrow> dirs_ok (vmem m) (p2v (vctx m)) r"

lemma get_or_alloc_closed:
  assumes m: "vmm_ok r m" "closed r m" and p: "vpath (i # p)" "tables r m p = Some t"
    and run: "get_or_alloc_next_table (space r) (p2v (vctx m) t) i m = (res, m')"
  shows "closed r m'"
proof (cases "vmem m (cell_addr (p2v (vctx m) t) i) AND VMM_PTE_PRESENT = 0")
  case False
  then have "m' = m" using run by (auto simp: get_or_alloc_next_table_def Let_def split: if_splits option.splits)
  then show ?thesis using m(2) by simp
next
  case absent: True
  let ?c = "vctx m"
  have okc: "ok ?c" and tr: "table_tree (vmem m) (p2v ?c) r (used ?c)" using m(1) by (auto simp: vmm_ok_def)
  have t: "tab (vmem m) (p2v ?c) r p = Some t" using p(2) by (simp add: tables_def)
  obtain a c' where al: "alloc ?c = (a, c')" by fastforce
  show ?thesis
  proof (cases "a = VMM_INVALID_PHYS")
    case True
    then have "c' = ?c" using alloc_none okc al by blast
    then have "m' = m" using run absent al True by (simp add: get_or_alloc_next_table_def Let_def space_def)
    then show ?thesis using m(2) by simp
  next
    case False
    have c': "ok c'" "p2v c' = p2v ?c" "a \<notin> used ?c" "used c' = insert a (used ?c)"
      using alloc_ok [OF okc al] alloc_p2v [OF okc al] alloc_new [OF okc al False] by auto
    have ac: "a \<in> used c'" "a AND VMM_PTE_ADDR_MASK = a" using c' used_frame by auto
    have dj: "disj_pages (p2v ?c) (insert a (used ?c))" using used_disj [OF c'(1)] c' by simp
    have "m' = m\<lparr>vctx := c', vmem := add_table (p2v ?c) a t i (vmem m)\<rparr>"
      using run absent False al c'(2) aligned_used [OF c'(1) ac(1)] table_from_phys_used [OF c'(1) ac(1), of r]
      by (simp add: get_or_alloc_next_table_def Let_def space_def add_table_def)
    then show ?thesis
      using dirs_ok_add_table [OF tr dj c'(3) ac(2) p(1) t absent] m(2) c'(2) by (simp add: closed_def)
  qed
qed

lemma alloc_pt_closed:
  assumes m: "vmm_ok r m" "closed r m" and p: "vpath [i2, i3, i4]" and run: "alloc_pt r i4 i3 i2 m = (res, m')"
  shows "closed r m'"
proof -
  have v: "vpath [i4]" "vpath [i3, i4]" using p by (auto simp: vpath_def)
  have t0: "tables r m [] = Some r" by (simp add: tables_def)
  show ?thesis
  proof (cases rule: get_or_alloc [OF m(1) v(1) t0])
    case l1: (1 t1 m1)
    have c1: "closed r m1" by (rule get_or_alloc_closed [OF m v(1) t0 l1(1)])
    show ?thesis
    proof (cases rule: get_or_alloc [OF l1(2) v(2) l1(3)])
      case l2: (1 t2 m2)
      have c2: "closed r m2" by (rule get_or_alloc_closed [OF l1(2) c1 v(2) l1(3) l2(1)])
      show ?thesis using run l1(1) l2(1) get_or_alloc_closed [OF l2(2) c2 p l2(3)] by (simp add: alloc_pt_def pbind_def)
    next
      case 2
      then show ?thesis using run l1(1) c1 by (simp add: alloc_pt_def pbind_def)
    qed
  next
    case 2
    then show ?thesis using run m(2) by (simp add: alloc_pt_def pbind_def)
  qed
qed

lemma set_pte_closed:
  assumes "vmm_ok r m" "closed r m" "tables r m (pt_path va) = Some t"
  shows "closed r (set_pte (p2v (vctx m) t) (idx_pt va) v m)"
proof -
  have "table_tree (vmem m) (p2v (vctx m)) r (used (vctx m))" "ok (vctx m)" using assms(1) by (auto simp: vmm_ok_def)
  from dirs_ok_write_leaf [OF this(1) used_disj [OF this(2)] pt_path_ok assms(3) [unfolded tables_def] idx_less(4) [of va], of v]
  show ?thesis using assms(2) by (simp add: closed_def set_pte_def)
qed

lemma map_page_closed:
  assumes m: "vmm_ok r m" "closed r m" and va: "page va" and pa: "vmm_is_aligned_4k pa"
    and run: "vmm_map_page (space r) va pa fl m = (res, m')"
  shows "closed r m'"
proof -
  note run' = run [unfolded map_page_alloc_pt [OF m(1) conjunct1 [OF va] conjunct2 [OF va] pa]]
  have p: "vpath [idx_pd va, idx_pdpt va, idx_pml4 va]" using pt_path_ok(1) [of va] by (simp only: pt_path_def)
  show ?thesis
  proof (cases rule: alloc_pt [OF m(1) p])
    case (1 t m1)
    have "closed r m1" by (rule alloc_pt_closed [OF m p 1(1)])
    then show ?thesis using run' 1(1) set_pte_closed [OF 1(2), of va t] 1(3)
      by (auto simp: pbind_def pt_path_def split: if_splits)
  next
    case (2 m1)
    then show ?thesis using run' alloc_pt_closed [OF m p 2(1)] by (simp add: pbind_def)
  qed
qed

lemma unmap_page_closed:
  assumes m: "vmm_ok r m" "closed r m" and run: "vmm_unmap_page (space r) va m = (res, m')"
  shows "closed r m'"
proof -
  have "closed r (vmm_invalidate_page va m1) = closed r m1" for m1 by (simp add: closed_def vmm_invalidate_page_def)
  then show ?thesis using run set_pte_closed [OF m, of va] m(2)
    by (auto simp: vmm_unmap_page_def find_pt [OF m(1)] pbind_def split: if_splits option.splits)
qed

text \<open>The machine after a mark.\<close>

definition marked :: "u64 \<Rightarrow> u64 \<Rightarrow> nat \<times> nat list \<Rightarrow> 'c machine \<Rightarrow> 'c machine" where
  "marked r b ip m = m\<lparr>vmem := mark (p2v (vctx m)) r b ip (vmem m)\<rparr>"

lemma marked_ok:
  assumes "vmm_ok r m" "closed r m" "b AND NOT 0x60 = 0"
  shows "vmm_ok r (marked r b ip m)" "closed r (marked r b ip m)"
  using assms(1,2) tree_same [OF mark_same [OF assms(3)]] dirs_same [OF mark_same [OF assms(3)]]
  by (simp_all add: vmm_ok_def closed_def marked_def)

lemma marked_lookup:
  assumes m: "vmm_ok r m" and b: "b AND NOT 0x60 = 0"
  shows "vpath (i # p) \<Longrightarrow> lookup r (marked r b (i, p) m) va = lookup r m va"
    "page va \<Longrightarrow> page vb \<Longrightarrow> lookup r (marked r b (idx_pt va, pt_path va) m) vb =
       (if vb = va then map_option (\<lambda>e. e OR b) (lookup r m va) else lookup r m vb)"
proof -
  have tr: "table_tree (vmem m) (p2v (vctx m)) r (used (vctx m))" and dj: "disj_pages (p2v (vctx m)) (used (vctx m))"
    using m used_disj by (auto simp: vmm_ok_def)
  show "lookup r (marked r b (i, p) m) va = lookup r m va" if "vpath (i # p)"
    using mark_dir_entry [OF tr dj that b pt_path_ok idx_less(4)] by (simp add: lookup_def entry_def marked_def)
  show "lookup r (marked r b (idx_pt va, pt_path va) m) vb =
      (if vb = va then map_option (\<lambda>e. e OR b) (lookup r m va) else lookup r m vb)" if "page va" "page vb"
    using mark_leaf_entry [OF tr dj pt_path_ok(1) [of va] pt_path_ok(2) [of va] idx_less(4) [of va]
        pt_path_ok(1) [of vb] pt_path_ok(2) [of vb] idx_less(4) [of vb], of b] lookup_other [of va vb] that
    by (auto simp: lookup_def entry_def marked_def)
qed

lemma closed_rights:
  assumes m: "vmm_ok r m" and cl: "closed r m" and e: "lookup r m va = Some e"
  defines "es \<equiv> map (step_entry (vmem m) (p2v (vctx m)) r) (walk_steps va)"
  shows "\<exists>d4 d3 d2. es = [d4, d3, d2, e] \<and> (\<forall>d \<in> {d4, d3, d2}. d AND dir_mask = VMM_PTE_WRITABLE)"
proof -
  let ?M = "vmem m" and ?P = "p2v (vctx m)"
  obtain t where t: "tables r m (pt_path va) = Some t" using e by (auto simp: lookup_table split: option.splits)
  have v: "vpath [idx_pml4 va]" "vpath [idx_pdpt va, idx_pml4 va]" "vpath [idx_pd va, idx_pdpt va, idx_pml4 va]"
    by (simp_all add: vpath_def idx_less)
  have d: "\<exists>t'. tab ?M ?P r p = Some t' \<and> ?M (cell_addr (?P t') i) AND dir_mask = VMM_PTE_WRITABLE"
    if "tab ?M ?P r (i # p) \<noteq> None" "vpath (i # p)" for i p
    using that cl unfolding closed_def dirs_ok_def by (fastforce simp: Let_def split: option.splits if_splits)
  have up: "tab ?M ?P r p \<noteq> None" if "tab ?M ?P r (i # p) \<noteq> None" for i p
    using that by (auto split: option.splits)
  have t3: "tab ?M ?P r [idx_pd va, idx_pdpt va, idx_pml4 va] \<noteq> None" using t by (simp only: tables_def pt_path_def) simp
  note t2 = up [OF t3] and t1 = up [OF up [OF t3]]
  have "step_entry ?M ?P r (idx_pt va, pt_path va) = e"
    using e t by (simp add: step_entry_def lookup_table tables_def Let_def split: if_splits)
  then show ?thesis using d [OF t3 v(3)] d [OF t2 v(2)] d [OF t1 v(1)]
    by (auto simp: es_def walk_steps_def step_entry_def)
qed

end

section \<open>The kernel's tables as the processor reads them\<close>







section \<open>Programs over an address space\<close>





































end
