(* ===== verification/Sched.thy ===== *)
theory Sched
  imports Prelude
begin

text \<open>
  The cooperative scheduler (\<open>kernel/mcsos_thread.c\<close>, \<open>include/mcsos_thread.h\<close>). Thread objects live in
  a store indexed by their address, linked into the ready queue by their \<open>next\<close> field, so aliasing
  and cycles of the queue are part of the model. The abstract view is the list of ready threads.
\<close>

section \<open>Data\<close>

definition MCSOS_THREAD_MAGIC :: u64 where [layout]: "MCSOS_THREAD_MAGIC = 0x4d43534f53544852"
definition MCSOS_STACK_ALIGN :: u64 where [layout]: "MCSOS_STACK_ALIGN = 16"
definition MCSOS_MIN_KERNEL_STACK :: u64 where [layout]: "MCSOS_MIN_KERNEL_STACK = 4096"

datatype mcsos_thread_state =
  MCSOS_THREAD_NEW | MCSOS_THREAD_READY | MCSOS_THREAD_RUNNING | MCSOS_THREAD_BLOCKED | MCSOS_THREAD_ZOMBIE

datatype mcsos_sched_result = MCSOS_SCHED_EINVAL | MCSOS_SCHED_ESTATE | MCSOS_SCHED_ESTACK | MCSOS_SCHED_ECORRUPT

record mcsos_context =
  c_rsp :: u64
  c_rbp :: u64
  c_rbx :: u64
  c_r12 :: u64
  c_r13 :: u64
  c_r14 :: u64
  c_r15 :: u64
  c_rip :: u64

text \<open>Pointers are addresses, 0 being NULL.\<close>

record mcsos_thread =
  t_magic :: u64
  t_id :: u64
  t_name :: "string option"
  t_state :: mcsos_thread_state
  t_context :: mcsos_context
  t_entry :: u64
  t_arg :: u64
  t_stack_base :: u64
  t_stack_size :: u64
  t_next :: u64
  t_switches :: u64
  t_ticks :: u64
  t_exit_code :: int

record mcsos_scheduler =
  s_current :: u64
  s_idle :: u64
  ready_head :: u64
  ready_tail :: u64
  s_next_id :: u64
  runnable_count :: u64
  context_switches :: u64
  s_ticks :: u64
  s_initialized :: bool

text \<open>
  The machine the scheduler runs on: the thread objects, the scheduler object, the callee-saved
  registers, stack memory in 8-byte cells, and the two code addresses that the scheduler stores in
  contexts (fixed by the linker).
\<close>

record sched_world =
  thr :: "u64 \<Rightarrow> mcsos_thread"
  sch :: mcsos_scheduler
  cpu :: mcsos_context
  stack_mem :: "u64 \<Rightarrow> u64"
  trampoline_addr :: u64
  resume_addr :: u64

type_synonym sched_prog = "(sched_world, mcsos_sched_result, unit) prog"

abbreviation upd_thr :: "u64 \<Rightarrow> (mcsos_thread \<Rightarrow> mcsos_thread) \<Rightarrow> sched_world \<Rightarrow> sched_world" where
  "upd_thr t f w \<equiv> w\<lparr>thr := (thr w)(t := f (thr w t))\<rparr>"

abbreviation upd_sch :: "(mcsos_scheduler \<Rightarrow> mcsos_scheduler) \<Rightarrow> sched_world \<Rightarrow> sched_world" where
  "upd_sch f w \<equiv> w\<lparr>sch := f (sch w)\<rparr>"

section \<open>Operations\<close>

definition align_down_uintptr :: "u64 \<Rightarrow> u64 \<Rightarrow> u64" where
  "align_down_uintptr v a = v AND NOT (a - 1)"

definition valid_thread_object :: "sched_world \<Rightarrow> u64 \<Rightarrow> bool" where
  "valid_thread_object w t \<longleftrightarrow> t \<noteq> 0 \<and> t_magic (thr w t) = MCSOS_THREAD_MAGIC"

definition zero_context :: mcsos_context where
  "zero_context = \<lparr>c_rsp = 0, c_rbp = 0, c_rbx = 0, c_r12 = 0, c_r13 = 0, c_r14 = 0, c_r15 = 0, c_rip = 0\<rparr>"

definition mcsos_scheduler_init :: "u64 \<Rightarrow> sched_prog" where
  "mcsos_scheduler_init boot w =
     (if boot = 0 then (Inl MCSOS_SCHED_EINVAL, w)
      else (Inr (), w\<lparr>
        thr := (thr w)(boot := \<lparr>t_magic = MCSOS_THREAD_MAGIC, t_id = 0, t_name = Some ''boot'',
          t_state = MCSOS_THREAD_RUNNING, t_context = zero_context, t_entry = 0, t_arg = 0, t_stack_base = 0,
          t_stack_size = 0, t_next = 0, t_switches = 0, t_ticks = 0, t_exit_code = 0\<rparr>),
        sch := \<lparr>s_current = boot, s_idle = boot, ready_head = 0, ready_tail = 0, s_next_id = 1,
          runnable_count = 0, context_switches = 0, s_ticks = 0, s_initialized = True\<rparr>\<rparr>))"

definition mcsos_thread_prepare ::
  "u64 \<Rightarrow> string option \<Rightarrow> u64 \<Rightarrow> u64 \<Rightarrow> u64 \<Rightarrow> u64 \<Rightarrow> u64 \<Rightarrow> sched_prog" where
  "mcsos_thread_prepare thread name entry arg stack_base stack_size tid w =
     (if thread = 0 \<or> entry = 0 \<or> stack_base = 0 then (Inl MCSOS_SCHED_EINVAL, w)
      else if stack_size < MCSOS_MIN_KERNEL_STACK then (Inl MCSOS_SCHED_ESTACK, w)
      else let low = stack_base; high = low + stack_size in
        if high \<le> low then (Inl MCSOS_SCHED_ESTACK, w)
        else let top = align_down_uintptr high MCSOS_STACK_ALIGN in
          if top \<le> low + 128 then (Inl MCSOS_SCHED_ESTACK, w)
          else let top' = top - 8 in
            (Inr (), w\<lparr>
              stack_mem := (stack_mem w)(top' := 0),
              thr := (thr w)(thread := \<lparr>t_magic = MCSOS_THREAD_MAGIC, t_id = tid, t_name = name,
                t_state = MCSOS_THREAD_NEW,
                t_context = zero_context\<lparr>c_rsp := top', c_rip := trampoline_addr w\<rparr>,
                t_entry = entry, t_arg = arg, t_stack_base = stack_base, t_stack_size = stack_size,
                t_next = 0, t_switches = 0, t_ticks = 0, t_exit_code = 0\<rparr>)\<rparr>))"

text \<open>The queue part of \<open>mcsos_sched_enqueue\<close> and of \<open>mcsos_sched_pick_next\<close>.\<close>

definition rq_append :: "u64 \<Rightarrow> sched_world \<Rightarrow> sched_world" where
  "rq_append thread w =
     (let w1 = upd_thr thread (\<lambda>t. t\<lparr>t_state := MCSOS_THREAD_READY, t_next := 0\<rparr>) w;
          w2 = (if ready_tail (sch w1) = 0
                then upd_sch (\<lambda>s. s\<lparr>ready_head := thread, ready_tail := thread\<rparr>) w1
                else upd_sch (\<lambda>s. s\<lparr>ready_tail := thread\<rparr>)
                       (upd_thr (ready_tail (sch w1)) (\<lambda>t. t\<lparr>t_next := thread\<rparr>) w1))
      in upd_sch (\<lambda>s. s\<lparr>runnable_count := runnable_count s + 1\<rparr>) w2)"

definition mcsos_sched_enqueue :: "u64 \<Rightarrow> sched_prog" where
  "mcsos_sched_enqueue thread w =
     (if \<not> s_initialized (sch w) \<or> \<not> valid_thread_object w thread then (Inl MCSOS_SCHED_EINVAL, w)
      else if t_state (thr w thread) \<noteq> MCSOS_THREAD_NEW \<and> t_state (thr w thread) \<noteq> MCSOS_THREAD_READY
            \<and> t_state (thr w thread) \<noteq> MCSOS_THREAD_BLOCKED then (Inl MCSOS_SCHED_ESTATE, w)
      else (Inr (), rq_append thread w))"

definition rq_pop :: "sched_world \<Rightarrow> u64 \<times> sched_world" where
  "rq_pop w =
     (let thread = ready_head (sch w); nxt = t_next (thr w thread) in
      (thread,
       upd_sch (\<lambda>s. s\<lparr>runnable_count := (if 0 < runnable_count s then runnable_count s - 1 else runnable_count s)\<rparr>)
        (upd_thr thread (\<lambda>t. t\<lparr>t_next := 0\<rparr>)
         (upd_sch (\<lambda>s. s\<lparr>ready_head := nxt, ready_tail := (if nxt = 0 then 0 else ready_tail s)\<rparr>) w))))"

definition mcsos_sched_pick_next :: "sched_world \<Rightarrow> u64 \<times> sched_world" where
  "mcsos_sched_pick_next w =
     (if \<not> s_initialized (sch w) then (0, w)
      else if ready_head (sch w) = 0 then (s_idle (sch w), w)
      else rq_pop w)"

text \<open>
  \<open>mcsos_context_switch\<close> (assembly): the callee-saved registers go to the old context, with the
  resume label as its instruction pointer; the new context is loaded and jumped to.
\<close>

definition mcsos_context_switch :: "u64 \<Rightarrow> u64 \<Rightarrow> sched_world \<Rightarrow> sched_world" where
  "mcsos_context_switch old new w =
     (let w1 = upd_thr old (\<lambda>t. t\<lparr>t_context := (cpu w)\<lparr>c_rip := resume_addr w\<rparr>\<rparr>) w
      in w1\<lparr>cpu := t_context (thr w1 new)\<rparr>)"

definition switch_to :: "u64 \<Rightarrow> u64 \<Rightarrow> sched_world \<Rightarrow> sched_world" where
  "switch_to old new w =
     (let w1 = upd_thr new (\<lambda>t. t\<lparr>t_state := MCSOS_THREAD_RUNNING\<rparr>) w;
          w2 = upd_sch (\<lambda>s. s\<lparr>s_current := new\<rparr>) w1;
          w3 = upd_thr old (\<lambda>t. t\<lparr>t_switches := t_switches t + 1\<rparr>) w2;
          w4 = upd_thr new (\<lambda>t. t\<lparr>t_switches := t_switches t + 1\<rparr>) w3;
          w5 = upd_sch (\<lambda>s. s\<lparr>context_switches := context_switches s + 1\<rparr>) w4
      in mcsos_context_switch old new w5)"

definition mcsos_sched_yield :: sched_prog where
  "mcsos_sched_yield w =
     (if \<not> s_initialized (sch w) \<or> \<not> valid_thread_object w (s_current (sch w)) then (Inl MCSOS_SCHED_EINVAL, w)
      else let old_thread = s_current (sch w); (next_thread, w1) = mcsos_sched_pick_next w in
        if \<not> valid_thread_object w1 next_thread then (Inl MCSOS_SCHED_ECORRUPT, w1)
        else if next_thread = old_thread
          then (Inr (), upd_thr old_thread (\<lambda>t. t\<lparr>t_state := MCSOS_THREAD_RUNNING\<rparr>) w1)
        else if t_state (thr w1 old_thread) = MCSOS_THREAD_RUNNING \<and> old_thread \<noteq> s_idle (sch w1)
          then pthen (mcsos_sched_enqueue old_thread) (\<lambda>w2. (Inr (), switch_to old_thread next_thread w2))
                 (upd_thr old_thread (\<lambda>t. t\<lparr>t_state := MCSOS_THREAD_READY\<rparr>) w1)
          else (Inr (), switch_to old_thread next_thread w1))"

definition mcsos_sched_tick :: sched_prog where
  "mcsos_sched_tick w =
     (if \<not> s_initialized (sch w) \<or> \<not> valid_thread_object w (s_current (sch w)) then (Inl MCSOS_SCHED_EINVAL, w)
      else (Inr (), upd_thr (s_current (sch w)) (\<lambda>t. t\<lparr>t_ticks := t_ticks t + 1\<rparr>)
              (upd_sch (\<lambda>s. s\<lparr>s_ticks := s_ticks s + 1\<rparr>) w)))"

definition mcsos_thread_block_current :: sched_prog where
  "mcsos_thread_block_current w =
     (if \<not> s_initialized (sch w) \<or> \<not> valid_thread_object w (s_current (sch w)) then (Inl MCSOS_SCHED_EINVAL, w)
      else if s_current (sch w) = s_idle (sch w) then (Inl MCSOS_SCHED_ESTATE, w)
      else mcsos_sched_yield (upd_thr (s_current (sch w)) (\<lambda>t. t\<lparr>t_state := MCSOS_THREAD_BLOCKED\<rparr>) w))"

definition mcsos_thread_mark_ready :: "u64 \<Rightarrow> sched_prog" where
  "mcsos_thread_mark_ready thread w =
     (if \<not> valid_thread_object w thread then (Inl MCSOS_SCHED_EINVAL, w)
      else if t_state (thr w thread) \<noteq> MCSOS_THREAD_BLOCKED then (Inl MCSOS_SCHED_ESTATE, w)
      else mcsos_sched_enqueue thread w)"

text \<open>The loop of \<open>mcsos_sched_ready_count\<close> may not end, which is the value \<open>None\<close>.\<close>

partial_function (option) ready_count_from :: "(u64 \<Rightarrow> mcsos_thread) \<Rightarrow> u64 \<Rightarrow> u64 \<Rightarrow> u64 option" where
  "ready_count_from T cursor count =
     (if cursor = 0 then Some count else ready_count_from T (t_next (T cursor)) (count + 1))"

declare ready_count_from.simps [code]

definition mcsos_sched_ready_count :: "sched_world \<Rightarrow> u64 option" where
  "mcsos_sched_ready_count w =
     (if \<not> s_initialized (sch w) then Some 0 else ready_count_from (thr w) (ready_head (sch w)) 0)"

text \<open>
  The loop of \<open>mcsos_sched_validate\<close>, from a cursor, the last thread seen and the count so far; the
  count guard bounds it. The result is the last thread and the count, or the corruption found.
\<close>

function validate_from :: "sched_world \<Rightarrow> u64 \<Rightarrow> u64 \<Rightarrow> nat \<Rightarrow> (u64 \<times> nat) option" where
  "validate_from w cursor lst count =
     (if cursor = 0 then Some (lst, count)
      else if \<not> valid_thread_object w cursor \<or> t_state (thr w cursor) \<noteq> MCSOS_THREAD_READY then None
      else if cursor = s_current (sch w) then None
      else if unat (runnable_count (sch w) + 1) < count + 1 then None
      else validate_from w (t_next (thr w cursor)) cursor (count + 1))"
  by pat_completeness auto

termination
  by (relation "measure (\<lambda>(w, cursor, lst, count). unat (runnable_count (sch w) + 1) + 1 - count)") auto

declare validate_from.simps [simp del]

definition mcsos_sched_validate :: sched_prog where
  "mcsos_sched_validate w =
     (if \<not> s_initialized (sch w) \<or> \<not> valid_thread_object w (s_current (sch w)) then (Inl MCSOS_SCHED_EINVAL, w)
      else case validate_from w (ready_head (sch w)) 0 0 of
        None \<Rightarrow> (Inl MCSOS_SCHED_ECORRUPT, w)
      | Some (lst, count) \<Rightarrow>
          if lst \<noteq> ready_tail (sch w) then (Inl MCSOS_SCHED_ECORRUPT, w)
          else if count \<noteq> unat (runnable_count (sch w)) then (Inl MCSOS_SCHED_ECORRUPT, w)
          else (Inr (), w))"

section \<open>The ready queue as a list\<close>

primrec lseg :: "(u64 \<Rightarrow> mcsos_thread) \<Rightarrow> u64 \<Rightarrow> u64 list \<Rightarrow> u64 \<Rightarrow> bool" where
  "lseg T p [] q \<longleftrightarrow> p = q"
| "lseg T p (x # xs) q \<longleftrightarrow> p = x \<and> x \<noteq> 0 \<and> lseg T (t_next (T x)) xs q"

lemma lseg_cong:
  "(\<And>x. x \<in> set xs \<Longrightarrow> t_next (T' x) = t_next (T x)) \<Longrightarrow> lseg T' p xs q = lseg T p xs q"
  by (induction xs arbitrary: p) auto

lemma lseg_append: "lseg T p (xs @ ys) q \<longleftrightarrow> (\<exists>m. lseg T p xs m \<and> lseg T m ys q)"
  by (induction xs arbitrary: p) auto

lemma lseg_nonzero: "lseg T p xs q \<Longrightarrow> 0 \<notin> set xs"
  by (induction xs arbitrary: p) auto

lemma lseg_unique: "lseg T p xs 0 \<Longrightarrow> lseg T p ys 0 \<Longrightarrow> xs = ys"
proof (induction xs arbitrary: p ys)
  case Nil
  then show ?case by (cases ys) auto
next
  case (Cons x xs)
  then show ?case by (cases ys) auto
qed

text \<open>A list that ends in NULL has no cycle.\<close>

lemma lseg_distinct: "lseg T p xs 0 \<Longrightarrow> distinct xs"
proof (induction xs arbitrary: p)
  case (Cons x xs)
  then have tl: "lseg T (t_next (T x)) xs 0" by simp
  have "x \<notin> set xs"
  proof
    assume "x \<in> set xs"
    then obtain as bs where xs: "xs = as @ x # bs" by (meson split_list)
    then have "lseg T (t_next (T x)) bs 0" using tl by (auto simp: lseg_append)
    with tl have "bs = as @ x # bs" using lseg_unique xs by blast
    then have "length bs = length (as @ x # bs)" by (rule arg_cong)
    then show False by simp
  qed
  with Cons.IH [OF tl] show ?case by simp
qed simp

definition queue_rep :: "sched_world \<Rightarrow> u64 list \<Rightarrow> bool" where
  "queue_rep w q \<longleftrightarrow> lseg (thr w) (ready_head (sch w)) q 0
     \<and> ready_tail (sch w) = (if q = [] then 0 else last q)
     \<and> unat (runnable_count (sch w)) = length q"

lemma addresses_bounded: "distinct xs \<Longrightarrow> 0 \<notin> set xs \<Longrightarrow> length xs < 18446744073709551616"
  for xs :: "u64 list"
proof -
  assume xs: "distinct xs" "0 \<notin> set xs"
  have "card (set xs) < card (UNIV :: u64 set)"
    by (rule psubset_card_mono) (use xs(2) in auto)
  then show ?thesis using xs(1) by (simp add: distinct_card card_word)
qed

lemma queue_rep_distinct: "queue_rep w q \<Longrightarrow> distinct q"
  unfolding queue_rep_def using lseg_distinct by blast

lemma queue_rep_length: "queue_rep w q \<Longrightarrow> x \<notin> set q \<Longrightarrow> x \<noteq> 0 \<Longrightarrow> length q + 1 < 18446744073709551616"
  using addresses_bounded [of "q @ [x]"] lseg_distinct lseg_nonzero by (force simp: queue_rep_def)

text \<open>The interface the scheduler's operations use: a first-in first-out queue of addresses.\<close>

locale fifo_queue =
  fixes rep :: "'s \<Rightarrow> 'x list \<Rightarrow> bool"
    and item :: "'x \<Rightarrow> bool"
    and push :: "'x \<Rightarrow> 's \<Rightarrow> 's"
    and pop :: "'s \<Rightarrow> 'x \<times> 's"
  assumes push_rep: "rep s q \<Longrightarrow> item x \<Longrightarrow> x \<notin> set q \<Longrightarrow> rep (push x s) (q @ [x])"
    and pop_rep: "rep s (x # q) \<Longrightarrow> fst (pop s) = x \<and> rep (snd (pop s)) q"
begin

lemma push_all: "rep s q \<Longrightarrow> (\<forall>x\<in>set xs. item x) \<Longrightarrow> distinct xs \<Longrightarrow> set q \<inter> set xs = {} \<Longrightarrow> rep (fold push xs s) (q @ xs)"
proof (induction xs arbitrary: s q)
  case (Cons x xs)
  then have "rep (push x s) (q @ [x])" by (auto intro: push_rep)
  from Cons.IH [OF this] Cons.prems show ?case by auto
qed simp

primrec pops :: "nat \<Rightarrow> 's \<Rightarrow> 'x list" where
  "pops 0 s = []"
| "pops (Suc n) s = fst (pop s) # pops n (snd (pop s))"

lemma pops_rep: "rep s q \<Longrightarrow> pops (length q) s = q"
  by (induction q arbitrary: s) (auto dest: pop_rep)

lemma fifo: "rep s [] \<Longrightarrow> (\<forall>x\<in>set xs. item x) \<Longrightarrow> distinct xs \<Longrightarrow> pops (length xs) (fold push xs s) = xs"
  using push_all [of s "[]" xs] pops_rep by auto

end

interpretation rq: fifo_queue queue_rep "\<lambda>x. x \<noteq> 0" rq_append rq_pop
proof unfold_locales
  fix w q and x :: u64
  show "queue_rep (rq_append x w) (q @ [x])" if rep: "queue_rep w q" and x: "x \<noteq> 0" "x \<notin> set q"
  proof (cases q rule: rev_cases)
    case Nil
    with rep x show ?thesis
      by (simp add: queue_rep_def rq_append_def Let_def unat_word_ariths)
  next
    case (snoc q' l)
    have cnt: "unat (runnable_count (sch w) + 1) = length q + 1"
      using queue_rep_length [OF rep x(2,1)] rep by (simp add: queue_rep_def unat_word_ariths)
    have tail: "ready_tail (sch w) = l" using rep snoc by (simp add: queue_rep_def)
    have l: "l \<noteq> 0" "l \<notin> set q'" "x \<notin> set q'" "x \<noteq> l"
      using rep x lseg_distinct [of "thr w" "ready_head (sch w)" q] lseg_nonzero [of "thr w" "ready_head (sch w)" q 0] snoc
      by (auto simp: queue_rep_def)
    have "lseg (thr w) (ready_head (sch w)) q' l" using rep snoc by (auto simp: queue_rep_def lseg_append)
    then have "lseg (thr (rq_append x w)) (ready_head (sch w)) q' l"
      using l tail by (subst lseg_cong [of q' _ "thr w"]) (auto simp: rq_append_def Let_def)
    then show ?thesis
      using rep snoc l x cnt by (auto simp: queue_rep_def lseg_append rq_append_def Let_def)
  qed
  show "fst (rq_pop w) = x \<and> queue_rep (snd (rq_pop w)) q" if rep: "queue_rep w (x # q)"
  proof -
    have x: "ready_head (sch w) = x" "x \<noteq> 0" "lseg (thr w) (t_next (thr w x)) q 0" "x \<notin> set q"
      using rep lseg_distinct [of "thr w" "ready_head (sch w)" "x # q"] by (auto simp: queue_rep_def)
    have "lseg (thr (snd (rq_pop w))) (t_next (thr w x)) q 0"
      using x by (subst lseg_cong [of q _ "thr w"]) (auto simp: rq_pop_def Let_def)
    moreover have "t_next (thr w x) = 0 \<longleftrightarrow> q = []"
      using x(3) by (cases q) auto
    moreover have "unat (runnable_count (sch w) - 1) = length q"
      using rep by (subst unat_sub) (auto simp: queue_rep_def word_le_nat_alt)
    ultimately show ?thesis using rep x
      by (auto simp: queue_rep_def rq_pop_def Let_def word_greater_zero_iff)
  qed
qed

section \<open>The scheduler invariant\<close>

text \<open>
  \<open>sched_inv w q\<close>: the scheduler is initialised, its ready queue represents \<open>q\<close>, every queued thread is
  a READY thread object other than the current and the idle thread, and those two are RUNNING
  thread objects.
\<close>

definition sched_inv :: "sched_world \<Rightarrow> u64 list \<Rightarrow> bool" where
  "sched_inv w q \<longleftrightarrow> s_initialized (sch w) \<and> queue_rep w q
     \<and> (\<forall>t\<in>set q. valid_thread_object w t \<and> t_state (thr w t) = MCSOS_THREAD_READY)
     \<and> valid_thread_object w (s_current (sch w)) \<and> t_state (thr w (s_current (sch w))) = MCSOS_THREAD_RUNNING
     \<and> valid_thread_object w (s_idle (sch w)) \<and> t_state (thr w (s_idle (sch w))) = MCSOS_THREAD_RUNNING"

abbreviation current :: "sched_world \<Rightarrow> u64" where "current w \<equiv> s_current (sch w)"
abbreviation idle :: "sched_world \<Rightarrow> u64" where "idle w \<equiv> s_idle (sch w)"

lemma rq_append_frame:
  "s_current (sch (rq_append x w)) = s_current (sch w)" "s_idle (sch (rq_append x w)) = s_idle (sch w)"
  "s_initialized (sch (rq_append x w)) = s_initialized (sch w)"
  "t_state (thr (rq_append x w) t) = (if t = x then MCSOS_THREAD_READY else t_state (thr w t))"
  "t_magic (thr (rq_append x w) t) = t_magic (thr w t)"
  "t_switches (thr (rq_append x w) t) = t_switches (thr w t)"
  "t_context (thr (rq_append x w) t) = t_context (thr w t)"
  "cpu (rq_append x w) = cpu w" "resume_addr (rq_append x w) = resume_addr w"
  "context_switches (sch (rq_append x w)) = context_switches (sch w)"
  by (simp_all add: rq_append_def Let_def)

lemma rq_pop_frame:
  "s_current (sch (snd (rq_pop w))) = s_current (sch w)" "s_idle (sch (snd (rq_pop w))) = s_idle (sch w)"
  "s_initialized (sch (snd (rq_pop w))) = s_initialized (sch w)"
  "t_state (thr (snd (rq_pop w)) t) = t_state (thr w t)"
  "t_magic (thr (snd (rq_pop w)) t) = t_magic (thr w t)"
  "t_switches (thr (snd (rq_pop w)) t) = t_switches (thr w t)"
  "t_context (thr (snd (rq_pop w)) t) = t_context (thr w t)"
  "cpu (snd (rq_pop w)) = cpu w" "resume_addr (snd (rq_pop w)) = resume_addr w"
  "context_switches (sch (snd (rq_pop w))) = context_switches (sch w)"
  by (simp_all add: rq_pop_def Let_def)

lemma switch_to_frame:
  "s_current (sch (switch_to old new w)) = new" "s_idle (sch (switch_to old new w)) = s_idle (sch w)"
  "s_initialized (sch (switch_to old new w)) = s_initialized (sch w)"
  "ready_head (sch (switch_to old new w)) = ready_head (sch w)" "ready_tail (sch (switch_to old new w)) = ready_tail (sch w)"
  "runnable_count (sch (switch_to old new w)) = runnable_count (sch w)"
  "t_next (thr (switch_to old new w) t) = t_next (thr w t)"
  "t_magic (thr (switch_to old new w) t) = t_magic (thr w t)"
  "t_state (thr (switch_to old new w) t) = (if t = new then MCSOS_THREAD_RUNNING else t_state (thr w t))"
  by (simp_all add: switch_to_def mcsos_context_switch_def Let_def)

lemma queue_rep_switch [simp]: "queue_rep (switch_to old new w) q = queue_rep w q"
  using lseg_cong [of q "thr (switch_to old new w)" "thr w"] by (simp add: queue_rep_def switch_to_frame)

lemma queue_rep_state:
  assumes "\<And>x. t_next (f x) = t_next x"
  shows "queue_rep (upd_thr t f w) q = queue_rep w q"
  using assms lseg_cong [of q "(thr w)(t := f (thr w t))" "thr w"] by (simp add: queue_rep_def)

lemma queue_rep_empty: "queue_rep w q \<Longrightarrow> ready_head (sch w) = 0 \<longleftrightarrow> q = []"
  by (cases q) (auto simp: queue_rep_def)

lemma sched_inv_out:
  assumes "sched_inv w q"
  shows "current w \<notin> set q" "idle w \<notin> set q" "current w \<noteq> 0" "idle w \<noteq> 0" "distinct q"
  using assms lseg_distinct by (auto simp: sched_inv_def valid_thread_object_def queue_rep_def)

text \<open>Enqueueing a thread that is not ready.\<close>

lemma enqueue_inv:
  assumes inv: "sched_inv w q" and t: "valid_thread_object w t"
    and st: "t_state (thr w t) = MCSOS_THREAD_NEW \<or> t_state (thr w t) = MCSOS_THREAD_BLOCKED \<or>
      t_state (thr w t) = MCSOS_THREAD_READY \<and> t \<notin> set q"
  shows "mcsos_sched_enqueue t w = (Inr (), rq_append t w) \<and> sched_inv (rq_append t w) (q @ [t])"
proof -
  have "t \<notin> set q" "t \<noteq> 0" "t \<noteq> current w" "t \<noteq> idle w" using inv t st by (auto simp: sched_inv_def valid_thread_object_def)
  moreover from this inv have "queue_rep (rq_append t w) (q @ [t])" by (auto simp: sched_inv_def intro: rq.push_rep)
  ultimately have "sched_inv (rq_append t w) (q @ [t])"
    using inv t by (auto simp: sched_inv_def valid_thread_object_def rq_append_frame)
  moreover have "mcsos_sched_enqueue t w = (Inr (), rq_append t w)"
    using inv t st by (auto simp: mcsos_sched_enqueue_def sched_inv_def)
  ultimately show ?thesis by simp
qed

section \<open>Yielding and blocking\<close>

text \<open>The invariant without the state of the current thread, as it stands inside a switch.\<close>

definition sched_inv0 :: "sched_world \<Rightarrow> u64 list \<Rightarrow> bool" where
  "sched_inv0 w q \<longleftrightarrow> s_initialized (sch w) \<and> queue_rep w q
     \<and> (\<forall>t\<in>set q. valid_thread_object w t \<and> t_state (thr w t) = MCSOS_THREAD_READY)
     \<and> valid_thread_object w (current w) \<and> current w \<notin> set q
     \<and> valid_thread_object w (idle w) \<and> t_state (thr w (idle w)) = MCSOS_THREAD_RUNNING"

lemma sched_inv_inv0: "sched_inv w q \<longleftrightarrow> sched_inv0 w q \<and> t_state (thr w (current w)) = MCSOS_THREAD_RUNNING"
  using sched_inv_out(1) [of w q] by (auto simp: sched_inv_def sched_inv0_def)

text \<open>What the scheduler chooses, and the thread objects after the choice.\<close>

definition next_of :: "u64 \<Rightarrow> u64 list \<Rightarrow> u64" where
  "next_of i q = (if q = [] then i else hd q)"

lemma pick_next_spec:
  assumes inv: "sched_inv0 w q"
  obtains w1 where "mcsos_sched_pick_next w = (next_of (idle w) q, w1)" "queue_rep w1 (tl q)"
    "s_initialized (sch w1)" "current w1 = current w" "idle w1 = idle w" "next_of (idle w) q \<notin> set (tl q)"
    "\<And>t. valid_thread_object w1 t = valid_thread_object w t" "\<And>t. t_state (thr w1 t) = t_state (thr w t)"
    "\<And>t. t_context (thr w1 t) = t_context (thr w t)" "cpu w1 = cpu w" "resume_addr w1 = resume_addr w"
    "context_switches (sch w1) = context_switches (sch w)"
proof (cases q)
  case Nil
  then have "ready_head (sch w) = 0" using inv queue_rep_empty by (auto simp: sched_inv0_def)
  then have "mcsos_sched_pick_next w = (next_of (idle w) q, w)"
    using inv Nil by (simp add: mcsos_sched_pick_next_def sched_inv0_def next_of_def)
  then show thesis using inv Nil by (intro that [of w]) (auto simp: sched_inv0_def)
next
  case (Cons x q')
  then have rep: "queue_rep w (x # q')" using inv by (simp add: sched_inv0_def)
  then have "ready_head (sch w) \<noteq> 0" using queue_rep_empty by blast
  then have "mcsos_sched_pick_next w = (next_of (idle w) q, snd (rq_pop w))"
    using inv Cons rq.pop_rep [OF rep] by (simp add: mcsos_sched_pick_next_def sched_inv0_def next_of_def prod_eq_iff)
  moreover have "distinct (x # q')" using rep by (rule queue_rep_distinct)
  ultimately show thesis using inv Cons rq.pop_rep [OF rep]
    by (intro that [of "snd (rq_pop w)"])
      (simp_all add: sched_inv0_def next_of_def rq_pop_frame valid_thread_object_def)
qed

text \<open>The hardware effect of a switch from \<open>old\<close> to \<open>new\<close>.\<close>

definition switched :: "u64 \<Rightarrow> u64 \<Rightarrow> sched_world \<Rightarrow> sched_world \<Rightarrow> bool" where
  "switched old new w w' \<longleftrightarrow> cpu w' = t_context (thr w new)
     \<and> t_context (thr w' old) = (cpu w)\<lparr>c_rip := resume_addr w\<rparr>
     \<and> context_switches (sch w') = context_switches (sch w) + 1"

lemma switch_to_switched:
  assumes "old \<noteq> new"
  shows "cpu (switch_to old new w) = t_context (thr w new)"
    "t_context (thr (switch_to old new w) old) = (cpu w)\<lparr>c_rip := resume_addr w\<rparr>"
    "context_switches (sch (switch_to old new w)) = context_switches (sch w) + 1"
  using assms by (simp_all add: switch_to_def mcsos_context_switch_def Let_def)

lemma switch_to_inv:
  assumes "s_initialized (sch w)" "queue_rep w q" "\<forall>t\<in>set q. valid_thread_object w t \<and> t_state (thr w t) = MCSOS_THREAD_READY"
    and "valid_thread_object w (idle w)" "t_state (thr w (idle w)) = MCSOS_THREAD_RUNNING"
    and "valid_thread_object w new" "new \<notin> set q"
  shows "sched_inv (switch_to old new w) q"
  using assms by (auto simp: sched_inv_def switch_to_frame valid_thread_object_def)

text \<open>The running thread goes to the tail of the queue.\<close>

lemma requeue:
  assumes rep: "queue_rep w1 q" and v: "valid_thread_object w1 c" "c \<notin> set q" "s_initialized (sch w1)"
  obtains w3 where "mcsos_sched_enqueue c (upd_thr c (\<lambda>t. t\<lparr>t_state := MCSOS_THREAD_READY\<rparr>) w1) = (Inr (), w3)" "queue_rep w3 (q @ [c])"
    "\<And>t. t_state (thr w3 t) = (if t = c then MCSOS_THREAD_READY else t_state (thr w1 t))"
    "\<And>t. valid_thread_object w3 t = valid_thread_object w1 t" "\<And>t. t_context (thr w3 t) = t_context (thr w1 t)"
    "idle w3 = idle w1" "s_initialized (sch w3)" "cpu w3 = cpu w1" "resume_addr w3 = resume_addr w1"
    "context_switches (sch w3) = context_switches (sch w1)"
proof -
  define w2 where "w2 = upd_thr c (\<lambda>t. t\<lparr>t_state := MCSOS_THREAD_READY\<rparr>) w1"
  have c: "c \<noteq> 0" using v(1) by (auto simp: valid_thread_object_def)
  have "queue_rep w2 q" using rep by (simp add: w2_def queue_rep_state)
  then have "queue_rep (rq_append c w2) (q @ [c])" using c v(2) by (auto intro: rq.push_rep)
  moreover have "valid_thread_object w2 c" using v(1) by (simp add: w2_def valid_thread_object_def)
  then have "mcsos_sched_enqueue c w2 = (Inr (), rq_append c w2)" using v(3) by (simp add: mcsos_sched_enqueue_def w2_def)
  ultimately show thesis using v(3) by (intro that [of "rq_append c w2"]) (simp_all add: w2_def rq_append_frame valid_thread_object_def)
qed

lemma yield_running:
  assumes inv: "sched_inv w q" and ne: "next_of (idle w) q \<noteq> current w"
  obtains w' where "mcsos_sched_yield w = (Inr (), w')"
    "sched_inv w' (tl q @ (if current w = idle w then [] else [current w]))"
    "current w' = next_of (idle w) q" "idle w' = idle w" "switched (current w) (next_of (idle w) q) w w'"
proof -
  let ?n = "next_of (idle w) q" and ?c = "current w"
  have inv0: "sched_inv0 w q" and st: "t_state (thr w ?c) = MCSOS_THREAD_RUNNING" using inv by (simp_all add: sched_inv_inv0)
  from pick_next_spec [OF inv0] obtain w1 where w1:
    "mcsos_sched_pick_next w = (?n, w1)" "queue_rep w1 (tl q)" "s_initialized (sch w1)" "current w1 = ?c" "idle w1 = idle w"
    "?n \<notin> set (tl q)" "\<And>t. valid_thread_object w1 t = valid_thread_object w t" "\<And>t. t_state (thr w1 t) = t_state (thr w t)"
    "\<And>t. t_context (thr w1 t) = t_context (thr w t)" "cpu w1 = cpu w" "resume_addr w1 = resume_addr w"
    "context_switches (sch w1) = context_switches (sch w)" by blast
  have val: "valid_thread_object w ?n" "valid_thread_object w ?c" "valid_thread_object w (idle w)"
      "t_state (thr w (idle w)) = MCSOS_THREAD_RUNNING" "s_initialized (sch w)"
    using inv0 by (auto simp: sched_inv0_def next_of_def)
  have q: "\<forall>t\<in>set (tl q). valid_thread_object w t \<and> t_state (thr w t) = MCSOS_THREAD_READY \<and> t \<noteq> ?c"
    using inv0 by (cases q) (auto simp: sched_inv0_def)
  show thesis
  proof (cases "?c = idle w")
    case True
    have run: "mcsos_sched_yield w = (Inr (), switch_to ?c ?n w1)"
      using w1 val ne True by (simp add: mcsos_sched_yield_def Let_def)
    have "sched_inv (switch_to ?c ?n w1) (tl q)"
      using w1 val q by (intro switch_to_inv) auto
    then show thesis using that [OF run] True ne w1
      by (simp add: switched_def switch_to_switched switch_to_frame)
  next
    case False
    have "valid_thread_object w1 ?c" "?c \<notin> set (tl q)" using w1(7) val q by auto
    from requeue [OF w1(2) this w1(3)] obtain w3 where w3:
      "mcsos_sched_enqueue ?c (upd_thr ?c (\<lambda>t. t\<lparr>t_state := MCSOS_THREAD_READY\<rparr>) w1) = (Inr (), w3)" "queue_rep w3 (tl q @ [?c])"
      "\<And>t. t_state (thr w3 t) = (if t = ?c then MCSOS_THREAD_READY else t_state (thr w1 t))"
      "\<And>t. valid_thread_object w3 t = valid_thread_object w1 t" "\<And>t. t_context (thr w3 t) = t_context (thr w1 t)"
      "idle w3 = idle w1" "s_initialized (sch w3)" "cpu w3 = cpu w1" "resume_addr w3 = resume_addr w1"
      "context_switches (sch w3) = context_switches (sch w1)" by blast
    have run: "mcsos_sched_yield w = (Inr (), switch_to ?c ?n w3)"
      using w1 val ne False st w3(1) by (simp add: mcsos_sched_yield_def Let_def pthen_def pbind_def)
    have "sched_inv (switch_to ?c ?n w3) (tl q @ [?c])"
      using w3 w1 val q ne False by (intro switch_to_inv) auto
    then show thesis using that [OF run] False ne w3 w1
      by (simp add: switched_def switch_to_switched switch_to_frame)
  qed
qed

lemma yield_alone:
  assumes inv: "sched_inv w q" and eq: "next_of (idle w) q = current w"
  shows "q = []" "current w = idle w"
    "\<exists>w'. mcsos_sched_yield w = (Inr (), w') \<and> sched_inv w' [] \<and> current w' = current w \<and> idle w' = idle w
      \<and> cpu w' = cpu w \<and> context_switches (sch w') = context_switches (sch w)"
proof -
  show q: "q = []" using sched_inv_out(1) [OF inv] eq by (cases q) (auto simp: next_of_def)
  then show ci: "current w = idle w" using eq by (simp add: next_of_def)
  have inv0: "sched_inv0 w q" "t_state (thr w (current w)) = MCSOS_THREAD_RUNNING" using inv by (simp_all add: sched_inv_inv0)
  then have "ready_head (sch w) = 0" using q queue_rep_empty by (auto simp: sched_inv0_def)
  then have "mcsos_sched_pick_next w = (current w, w)"
    using inv0 ci by (simp add: mcsos_sched_pick_next_def sched_inv0_def)
  moreover have "upd_thr (current w) (\<lambda>t. t\<lparr>t_state := MCSOS_THREAD_RUNNING\<rparr>) w = w"
    using inv0(2) by (simp add: fun_upd_idem)
  ultimately have "mcsos_sched_yield w = (Inr (), w)"
    using inv0 by (simp add: mcsos_sched_yield_def sched_inv0_def Let_def)
  then show "\<exists>w'. mcsos_sched_yield w = (Inr (), w') \<and> sched_inv w' [] \<and> current w' = current w \<and> idle w' = idle w
      \<and> cpu w' = cpu w \<and> context_switches (sch w') = context_switches (sch w)" using inv q by simp
qed

lemma block_running:
  assumes inv: "sched_inv w q" and ci: "current w \<noteq> idle w"
  obtains w' where "mcsos_thread_block_current w = (Inr (), w')" "sched_inv w' (tl q)"
    "current w' = next_of (idle w) q" "idle w' = idle w" "switched (current w) (next_of (idle w) q) w w'"
    "t_state (thr w' (current w)) = MCSOS_THREAD_BLOCKED"
proof -
  let ?n = "next_of (idle w) q" and ?c = "current w"
  define w0 where "w0 = upd_thr ?c (\<lambda>t. t\<lparr>t_state := MCSOS_THREAD_BLOCKED\<rparr>) w"
  have c: "?c \<notin> set q" "valid_thread_object w ?c" "s_initialized (sch w)"
    using inv by (auto simp: sched_inv_inv0 sched_inv0_def)
  have w0: "current w0 = ?c" "idle w0 = idle w" "t_state (thr w0 ?c) = MCSOS_THREAD_BLOCKED"
    "cpu w0 = cpu w" "resume_addr w0 = resume_addr w" "context_switches (sch w0) = context_switches (sch w)"
    "\<And>t. t_context (thr w0 t) = t_context (thr w t)" "\<And>t. valid_thread_object w0 t = valid_thread_object w t"
    by (simp_all add: w0_def valid_thread_object_def)
  have inv0: "sched_inv0 w0 q"
    using inv c ci by (auto simp: sched_inv_inv0 sched_inv0_def w0_def queue_rep_state valid_thread_object_def)
  from pick_next_spec [OF inv0] obtain w1 where w1:
    "mcsos_sched_pick_next w0 = (?n, w1)" "queue_rep w1 (tl q)" "s_initialized (sch w1)" "current w1 = ?c" "idle w1 = idle w"
    "?n \<notin> set (tl q)" "\<And>t. valid_thread_object w1 t = valid_thread_object w0 t" "\<And>t. t_state (thr w1 t) = t_state (thr w0 t)"
    "\<And>t. t_context (thr w1 t) = t_context (thr w0 t)" "cpu w1 = cpu w0" "resume_addr w1 = resume_addr w0"
    "context_switches (sch w1) = context_switches (sch w0)"
    unfolding w0(1,2) by blast
  have ne: "?n \<noteq> ?c" using c ci by (cases q) (auto simp: next_of_def)
  have val: "valid_thread_object w ?n" "valid_thread_object w (idle w)" "t_state (thr w0 (idle w)) = MCSOS_THREAD_RUNNING"
    using inv0 w0(2,8) by (auto simp: sched_inv0_def next_of_def)
  have q: "\<forall>t\<in>set (tl q). valid_thread_object w t \<and> t_state (thr w0 t) = MCSOS_THREAD_READY"
    using inv0 w0(8) by (cases q) (auto simp: sched_inv0_def)
  have init0: "s_initialized (sch w0)" using c(3) by (simp add: w0_def)
  have "mcsos_sched_yield w0 = (Inr (), switch_to ?c ?n w1)"
    using w1 w0 c val ne init0 by (simp add: mcsos_sched_yield_def Let_def)
  then have run: "mcsos_thread_block_current w = (Inr (), switch_to ?c ?n w1)"
    using c ci by (simp add: mcsos_thread_block_current_def flip: w0_def)
  have "sched_inv (switch_to ?c ?n w1) (tl q)"
    using w1 val q w0 by (intro switch_to_inv) auto
  then show thesis using that [OF run] ne w1 w0
    by (simp add: switched_def switch_to_switched switch_to_frame)
qed

section \<open>Validation\<close>

definition queue_ok :: "sched_world \<Rightarrow> u64 list \<Rightarrow> bool" where
  "queue_ok w q \<longleftrightarrow> queue_rep w q
     \<and> (\<forall>t\<in>set q. valid_thread_object w t \<and> t_state (thr w t) = MCSOS_THREAD_READY \<and> t \<noteq> current w)"

lemma validate_from_end [simp]: "validate_from w 0 l n = Some (l, n)"
  by (subst validate_from.simps) simp

lemma validate_from_step:
  "valid_thread_object w c \<Longrightarrow> t_state (thr w c) = MCSOS_THREAD_READY \<Longrightarrow> c \<noteq> current w \<Longrightarrow>
   Suc n \<le> unat (runnable_count (sch w) + 1) \<Longrightarrow>
   validate_from w c l n = validate_from w (t_next (thr w c)) c (Suc n)"
  by (subst validate_from.simps) (auto simp: valid_thread_object_def)

lemma validate_from_sound:
  "validate_from w c l n = Some (l', n') \<Longrightarrow> \<exists>xs. lseg (thr w) c xs 0 \<and> n' = n + length xs
     \<and> l' = (if xs = [] then l else last xs)
     \<and> (\<forall>t\<in>set xs. valid_thread_object w t \<and> t_state (thr w t) = MCSOS_THREAD_READY \<and> t \<noteq> current w)"
proof (induction w c l n rule: validate_from.induct)
  case (1 w c l n)
  show ?case
  proof (cases "c = 0")
    case True
    with "1.prems" show ?thesis by (intro exI [of _ "[]"]) simp
  next
    case False
    then have cond: "valid_thread_object w c" "t_state (thr w c) = MCSOS_THREAD_READY" "c \<noteq> current w"
      "\<not> unat (runnable_count (sch w) + 1) < n + 1" and rest: "validate_from w (t_next (thr w c)) c (n + 1) = Some (l', n')"
      using "1.prems" by (auto simp: validate_from.simps [of w c l n] split: if_splits)
    from "1.IH" [OF False _ cond(3,4) rest] cond(1,2) obtain xs where
      "lseg (thr w) (t_next (thr w c)) xs 0" "n' = n + 1 + length xs" "l' = (if xs = [] then c else last xs)"
      "\<forall>t\<in>set xs. valid_thread_object w t \<and> t_state (thr w t) = MCSOS_THREAD_READY \<and> t \<noteq> current w" by auto
    with False cond show ?thesis by (intro exI [of _ "c # xs"]) auto
  qed
qed

lemma validate_from_complete:
  assumes "lseg (thr w) c xs 0" "n + length xs \<le> unat (runnable_count (sch w) + 1)"
    and "\<forall>t\<in>set xs. valid_thread_object w t \<and> t_state (thr w t) = MCSOS_THREAD_READY \<and> t \<noteq> current w"
  shows "validate_from w c l n = Some (if xs = [] then l else last xs, n + length xs)"
  using assms
proof (induction xs arbitrary: c l n)
  case (Cons x xs)
  then have "c = x" "Suc n \<le> unat (runnable_count (sch w) + 1)" by auto
  with Cons validate_from_step [of w c n l] show ?case by simp
qed simp

lemma validate_iff:
  "mcsos_sched_validate w = (Inr (), w) \<longleftrightarrow>
     s_initialized (sch w) \<and> valid_thread_object w (current w) \<and> (\<exists>q. queue_ok w q)"
proof (cases "s_initialized (sch w) \<and> valid_thread_object w (current w)")
  case True
  show ?thesis
  proof
    assume ok: "mcsos_sched_validate w = (Inr (), w)"
    then obtain l n where v: "validate_from w (ready_head (sch w)) 0 0 = Some (l, n)" "l = ready_tail (sch w)"
      "n = unat (runnable_count (sch w))"
      using True by (auto simp: mcsos_sched_validate_def split: option.splits if_splits)
    from validate_from_sound [OF v(1)] obtain xs where "lseg (thr w) (ready_head (sch w)) xs 0" "n = length xs"
      "l = (if xs = [] then 0 else last xs)"
      "\<forall>t\<in>set xs. valid_thread_object w t \<and> t_state (thr w t) = MCSOS_THREAD_READY \<and> t \<noteq> current w"
      by (metis add_0)
    then have "queue_ok w xs" using v(2,3) unfolding queue_ok_def queue_rep_def by simp
    with True show "s_initialized (sch w) \<and> valid_thread_object w (current w) \<and> (\<exists>q. queue_ok w q)" by blast
  next
    assume "s_initialized (sch w) \<and> valid_thread_object w (current w) \<and> (\<exists>q. queue_ok w q)"
    then obtain q where q: "queue_ok w q" by auto
    then have rep: "queue_rep w q" and out: "current w \<notin> set q" by (auto simp: queue_ok_def)
    have "length q + 1 < 18446744073709551616"
      using queue_rep_length [OF rep out] True by (simp add: valid_thread_object_def)
    then have "unat (runnable_count (sch w) + 1) = length q + 1"
      using rep by (simp add: queue_rep_def unat_word_ariths)
    then have "validate_from w (ready_head (sch w)) 0 0 = Some (if q = [] then 0 else last q, 0 + length q)"
      using q by (intro validate_from_complete) (auto simp: queue_ok_def queue_rep_def)
    then show "mcsos_sched_validate w = (Inr (), w)"
      using True rep by (simp add: mcsos_sched_validate_def queue_rep_def)
  qed
qed (auto simp: mcsos_sched_validate_def)

lemma validate_corrupt:
  assumes "s_initialized (sch w)" "valid_thread_object w (current w)" "mcsos_sched_validate w \<noteq> (Inr (), w)"
  shows "mcsos_sched_validate w = (Inl MCSOS_SCHED_ECORRUPT, w)"
  using assms by (auto simp: mcsos_sched_validate_def split: option.split if_splits)

lemma sched_inv_validates: "sched_inv w q \<Longrightarrow> mcsos_sched_validate w = (Inr (), w)"
  using sched_inv_out(1) [of w q] by (auto simp: validate_iff sched_inv_def queue_ok_def)

text \<open>
  C15. The self-check of the scheduler is exact: it accepts a scheduler precisely when it is initialised,
  its current thread is a thread object, and its ready queue is a NULL-terminated list of READY
  thread objects without the current thread, as long as \<open>runnable_count\<close> says and ending in
  \<open>ready_tail\<close>. The check always ends and changes nothing.
\<close>

theorem sched_validate_exact:
  "(fst (mcsos_sched_validate w) = Inr () \<longleftrightarrow>
     s_initialized (sch w) \<and> valid_thread_object w (current w) \<and> (\<exists>q. queue_ok w q))
   \<and> snd (mcsos_sched_validate w) = w"
proof -
  have same: "snd (mcsos_sched_validate w) = w"
    by (simp add: mcsos_sched_validate_def split: option.split)
  then have "fst (mcsos_sched_validate w) = Inr () \<longleftrightarrow> mcsos_sched_validate w = (Inr (), w)"
    by (simp add: prod_eq_iff)
  with same show ?thesis by (simp add: validate_iff)
qed

section \<open>Runs of the scheduler\<close>

text \<open>
  The calls of the kernel, in any order and whatever they return. The caller's obligations are the two
  the code does not check: a thread object is prepared, unless the call refuses its arguments, only while
  the scheduler does not hold it, and a thread that is already in the ready queue is not enqueued again.
\<close>

inductive sched_run :: "sched_world \<Rightarrow> bool" where
  run_init: "mcsos_scheduler_init boot w = (Inr (), w') \<Longrightarrow> sched_run w'"
| run_prepare: "sched_run w \<Longrightarrow> mcsos_thread_prepare t name entry arg base ssize tid w = (r, w') \<Longrightarrow>
    (r = Inr () \<longrightarrow> t \<noteq> current w \<and> t \<noteq> idle w \<and> (\<forall>q. queue_rep w q \<longrightarrow> t \<notin> set q)) \<Longrightarrow> sched_run w'"
| run_enqueue: "sched_run w \<Longrightarrow> (\<forall>q. queue_rep w q \<longrightarrow> t \<notin> set q) \<Longrightarrow> mcsos_sched_enqueue t w = (r, w') \<Longrightarrow> sched_run w'"
| run_yield: "sched_run w \<Longrightarrow> mcsos_sched_yield w = (r, w') \<Longrightarrow> sched_run w'"
| run_tick: "sched_run w \<Longrightarrow> mcsos_sched_tick w = (r, w') \<Longrightarrow> sched_run w'"
| run_block: "sched_run w \<Longrightarrow> mcsos_thread_block_current w = (r, w') \<Longrightarrow> sched_run w'"
| run_mark_ready: "sched_run w \<Longrightarrow> mcsos_thread_mark_ready t w = (r, w') \<Longrightarrow> sched_run w'"

lemma init_inv: "mcsos_scheduler_init boot w = (Inr (), w') \<Longrightarrow> sched_inv w' []"
  by (auto simp: mcsos_scheduler_init_def sched_inv_def queue_rep_def valid_thread_object_def split: if_splits)

lemma prepare_cases:
  assumes "mcsos_thread_prepare t name entry arg base ssize tid w = (r, w')"
  obtains "w' = w" | m x where "r = Inr ()" "w' = w\<lparr>stack_mem := m, thr := (thr w)(t := x)\<rparr>"
  using assms by (auto simp: mcsos_thread_prepare_def Let_def split: if_splits)

lemma prepare_inv:
  assumes inv: "sched_inv w q" and out: "r = Inr () \<longrightarrow> t \<noteq> current w \<and> t \<noteq> idle w \<and> t \<notin> set q"
    and run: "mcsos_thread_prepare t name entry arg base ssize tid w = (r, w')"
  shows "sched_inv w' q"
proof (cases rule: prepare_cases [OF run])
  case (2 m x)
  have "lseg ((thr w)(t := x)) (ready_head (sch w)) q 0 = lseg (thr w) (ready_head (sch w)) q 0"
    using out 2 by (intro lseg_cong) auto
  with inv out 2 show ?thesis by (auto simp: sched_inv_def queue_rep_def valid_thread_object_def)
qed (use inv in simp)

lemma tick_inv: "sched_inv w q \<Longrightarrow> mcsos_sched_tick w = (r, w') \<Longrightarrow> sched_inv w' q"
proof -
  assume inv: "sched_inv w q" and run: "mcsos_sched_tick w = (r, w')"
  let ?T = "(thr w)(current w := (thr w (current w))\<lparr>t_ticks := t_ticks (thr w (current w)) + 1\<rparr>)"
  have "lseg ?T (ready_head (sch w)) q 0 = lseg (thr w) (ready_head (sch w)) q 0" by (rule lseg_cong) simp
  with inv run show ?thesis
    by (auto simp: mcsos_sched_tick_def sched_inv_def queue_rep_def valid_thread_object_def split: if_splits)
qed

lemma yield_inv: "sched_inv w q \<Longrightarrow> mcsos_sched_yield w = (r, w') \<Longrightarrow> \<exists>q'. sched_inv w' q'"
proof -
  assume inv: "sched_inv w q" and run: "mcsos_sched_yield w = (r, w')"
  show ?thesis
  proof (cases "next_of (idle w) q = current w")
    case True
    from yield_alone(3) [OF inv True] run show ?thesis by auto
  next
    case False
    from yield_running [OF inv False] run show ?thesis by (metis prod.inject)
  qed
qed

lemma block_inv: "sched_inv w q \<Longrightarrow> mcsos_thread_block_current w = (r, w') \<Longrightarrow> \<exists>q'. sched_inv w' q'"
proof (cases "current w = idle w")
  case True
  assume "sched_inv w q" "mcsos_thread_block_current w = (r, w')"
  with True show ?thesis by (auto simp: mcsos_thread_block_current_def split: if_splits)
next
  case False
  assume inv: "sched_inv w q" and run: "mcsos_thread_block_current w = (r, w')"
  from block_running [OF inv False] run show ?thesis by (metis prod.inject)
qed

lemma enqueue_any_inv:
  assumes inv: "sched_inv w q" and st: "t \<notin> set q" and run: "mcsos_sched_enqueue t w = (r, w')"
  shows "\<exists>q'. sched_inv w' q'"
proof (cases "valid_thread_object w t \<and> (t_state (thr w t) = MCSOS_THREAD_NEW \<or> t_state (thr w t) = MCSOS_THREAD_BLOCKED \<or>
    t_state (thr w t) = MCSOS_THREAD_READY)")
  case True
  with enqueue_inv [OF inv, of t] st run show ?thesis by auto
next
  case False
  with run have "w' = w" by (auto simp: mcsos_sched_enqueue_def split: if_splits)
  with inv show ?thesis by auto
qed

lemma sched_run_inv: "sched_run w \<Longrightarrow> \<exists>q. sched_inv w q"
proof (induction rule: sched_run.induct)
  case (run_init boot w w')
  then show ?case using init_inv by blast
next
  case (run_prepare w t name entry arg base ssize tid r w')
  then obtain q where q: "sched_inv w q" by auto
  then have "r = Inr () \<longrightarrow> t \<noteq> current w \<and> t \<noteq> idle w \<and> t \<notin> set q" using run_prepare(3) by (simp add: sched_inv_def)
  from prepare_inv [OF q this run_prepare(2)] show ?case by auto
next
  case (run_enqueue w t r w')
  then obtain q where q: "sched_inv w q" by auto
  then have "t \<notin> set q" using run_enqueue(2) by (simp add: sched_inv_def)
  from enqueue_any_inv [OF q this run_enqueue(3)] show ?case .
next
  case (run_mark_ready w t r w')
  then obtain q where q: "sched_inv w q" by auto
  show ?case
  proof (cases "t_state (thr w t) = MCSOS_THREAD_BLOCKED \<and> valid_thread_object w t")
    case True
    then have "mcsos_sched_enqueue t w = (r, w')" using run_mark_ready(2) by (simp add: mcsos_thread_mark_ready_def)
    moreover have "t \<notin> set q" using q True by (auto simp: sched_inv_def)
    ultimately show ?thesis using enqueue_any_inv [OF q] by blast
  next
    case False
    then have "w' = w" using run_mark_ready(2) by (auto simp: mcsos_thread_mark_ready_def split: if_splits)
    with q show ?thesis by auto
  qed
qed (use yield_inv block_inv tick_inv in blast)+

text \<open>
  C13. After \<open>mcsos_scheduler_init\<close>, the self-check succeeds in every state reached by a sequence of
  scheduler calls, with any arguments and results, in which no call enqueues a thread that is already in
  the ready queue and no accepted call prepares the current thread, the idle thread or a queued one. The
  code checks neither; an enqueue of the first kind is accepted and corrupts the queue.
\<close>

theorem sched_run_validates:
  assumes "sched_run w"
  shows "mcsos_sched_validate w = (Inr (), w)"
  using sched_run_inv [OF assms] sched_inv_validates by blast

section \<open>Fairness\<close>

primrec yields :: "nat \<Rightarrow> sched_prog" where
  "yields 0 = pret ()"
| "yields (Suc n) = pthen mcsos_sched_yield (yields n)"

lemma yields_reach:
  "sched_inv w (xs @ t # ys) \<Longrightarrow> \<exists>w' q. yields (Suc (length xs)) w = (Inr (), w') \<and> current w' = t \<and> sched_inv w' q"
proof (induction xs arbitrary: w ys)
  case Nil
  then have "next_of (idle w) (t # ys) \<noteq> current w"
    using sched_inv_out(1) [of w "t # ys"] by (auto simp: next_of_def)
  from yield_running [OF Nil [simplified] this] obtain w' where
    "mcsos_sched_yield w = (Inr (), w')" "current w' = t" "sched_inv w' (ys @ (if current w = idle w then [] else [current w]))"
    by (auto simp: next_of_def)
  then show ?case by (auto simp: prog_run)
next
  case (Cons x xs)
  then have "next_of (idle w) (x # xs @ t # ys) \<noteq> current w"
    using sched_inv_out(1) [of w "x # xs @ t # ys"] by (auto simp: next_of_def)
  from yield_running [OF Cons.prems [simplified] this] obtain w1 where w1: "mcsos_sched_yield w = (Inr (), w1)"
    "sched_inv w1 (xs @ t # (ys @ (if current w = idle w then [] else [current w])))" by auto
  from Cons.IH [OF w1(2)] w1(1) show ?case by (auto simp: prog_run)
qed

text \<open>
  C14. Scheduling is round-robin and starves nobody: from a consistent scheduler whose ready queue is
  \<open>q\<close>, the thread at position \<open>k\<close> of the queue is running after \<open>k + 1\<close> yields.
\<close>

theorem sched_round_robin:
  assumes "sched_inv w q" "k < length q"
  shows "\<exists>w'. yields (Suc k) w = (Inr (), w') \<and> current w' = q ! k"
proof -
  have "q = take k q @ q ! k # drop (Suc k) q" "length (take k q) = k"
    using assms(2) by (simp_all add: id_take_nth_drop)
  with yields_reach [of w "take k q" "q ! k" "drop (Suc k) q"] assms(1) show ?thesis by metis
qed

section \<open>Preparing a thread\<close>

definition prepare_args_ok :: "u64 \<Rightarrow> u64 \<Rightarrow> u64 \<Rightarrow> u64 \<Rightarrow> bool" where
  "prepare_args_ok t entry base len \<longleftrightarrow> t \<noteq> 0 \<and> entry \<noteq> 0 \<and> base \<noteq> 0
     \<and> 4096 \<le> unat len \<and> unat base + unat len < 2 ^ 64"

lemma unat_align_16: "unat (align_down_uintptr v 16) = unat v div 16 * 16"
proof -
  have "(16 :: u64) - 1 = mask 4" by (simp add: mask_eq_exp_minus_1)
  then show ?thesis using unat_and_not_mask [of 4 v] by (simp add: align_down_uintptr_def)
qed

lemma stack_high:
  "base < base + len \<longleftrightarrow> len \<noteq> 0 \<and> unat base + unat len < 2 ^ 64" for base len :: u64
proof (cases "unat base + unat len < 2 ^ 64")
  case True
  then have "unat (base + len) = unat base + unat len" by (simp add: unat_word_ariths)
  then show ?thesis using True by (auto simp: word_less_nat_alt unat_gt_0)
next
  case False
  then have "unat (base + len) = unat base + unat len - 2 ^ 64"
    using unat_u64_lt [of base] unat_u64_lt [of len] by (simp add: unat_word_ariths mod_if)
  then show ?thesis using False unat_u64_lt [of len] by (simp add: word_less_nat_alt)
qed

lemma stack_top:
  assumes "4096 \<le> unat len" "unat base + unat len < 2 ^ 64"
  defines "tp \<equiv> align_down_uintptr (base + len) 16"
  shows "\<not> tp \<le> base + 128" "unat (tp - 8) mod 16 = 8" "unat base + 128 < unat (tp - 8)"
    "unat (tp - 8) + 8 \<le> unat base + unat len"
proof -
  have sum: "unat (base + len) = unat base + unat len" using assms(2) by (simp add: unat_word_ariths)
  have tp: "unat tp = (unat base + unat len) div 16 * 16" by (simp add: tp_def unat_align_16 sum)
  have b: "unat (base + 128) = unat base + 128" using assms(1,2) by (simp add: unat_word_ariths)
  have lim: "unat base + unat len < unat tp + 16" "unat tp \<le> unat base + unat len" unfolding tp by simp_all
  then show "\<not> tp \<le> base + 128" using b assms(1) by (simp add: word_le_nat_alt)
  have s: "unat (tp - 8) = unat tp - 8" using lim assms(1) by (subst unat_sub) (auto simp: word_le_nat_alt)
  obtain k where k: "unat tp = 16 * Suc k"
    using tp lim(1) assms(1) by (cases "(unat base + unat len) div 16") auto
  show "unat (tp - 8) mod 16 = 8" unfolding s k by (simp add: mod_simps)
  show "unat base + 128 < unat (tp - 8)" "unat (tp - 8) + 8 \<le> unat base + unat len"
    using s lim assms(1) by linarith+
qed

lemma prepare_accepted:
  assumes "prepare_args_ok t entry base len"
  shows "\<exists>w'. mcsos_thread_prepare t name entry arg base len tid w = (Inr (), w')
     \<and> valid_thread_object w' t \<and> t_state (thr w' t) = MCSOS_THREAD_NEW \<and> t_id (thr w' t) = tid \<and> t_entry (thr w' t) = entry
     \<and> c_rip (t_context (thr w' t)) = trampoline_addr w
     \<and> (let rsp = c_rsp (t_context (thr w' t)) in
          unat base < unat rsp \<and> unat rsp + 8 \<le> unat base + unat len \<and> unat rsp mod 16 = 8 \<and> stack_mem w' rsp = 0)
     \<and> thr w' = (thr w)(t := thr w' t) \<and> sch w' = sch w \<and> trampoline_addr w' = trampoline_addr w"
proof -
  have a: "t \<noteq> 0" "entry \<noteq> 0" "base \<noteq> 0" "4096 \<le> unat len" "unat base + unat len < 2 ^ 64"
    using assms by (auto simp: prepare_args_ok_def)
  then have c: "\<not> len < MCSOS_MIN_KERNEL_STACK" "\<not> base + len \<le> base"
    using stack_high [of base len] by (auto simp: MCSOS_MIN_KERNEL_STACK_def word_less_nat_alt word_le_nat_alt not_le)
  show ?thesis using a c stack_top [OF a(4,5)]
    by (auto simp: mcsos_thread_prepare_def Let_def MCSOS_STACK_ALIGN_def valid_thread_object_def)
qed

text \<open>
  C16. A thread can be prepared exactly with non-NULL object, entry and stack, at least a page of stack
  and no address wrap-around. Its initial stack pointer then lies inside its stack with room for a
  return address, is 8 modulo 16 as the calling convention asks, and points to a zero; the thread is
  a NEW thread object that starts in the trampoline. Otherwise nothing is written.
\<close>

theorem thread_prepare_spec:
  "if prepare_args_ok t entry base len
   then \<exists>w'. mcsos_thread_prepare t name entry arg base len tid w = (Inr (), w')
     \<and> valid_thread_object w' t \<and> t_state (thr w' t) = MCSOS_THREAD_NEW
     \<and> c_rip (t_context (thr w' t)) = trampoline_addr w
     \<and> (let rsp = c_rsp (t_context (thr w' t)) in
          unat base < unat rsp \<and> unat rsp + 8 \<le> unat base + unat len \<and> unat rsp mod 16 = 8 \<and> stack_mem w' rsp = 0)
     \<and> thr w' = (thr w)(t := thr w' t) \<and> sch w' = sch w
   else \<exists>e. mcsos_thread_prepare t name entry arg base len tid w = (Inl e, w)
     \<and> (e = MCSOS_SCHED_EINVAL \<longleftrightarrow> t = 0 \<or> entry = 0 \<or> base = 0)"
proof (cases "prepare_args_ok t entry base len")
  case True
  from prepare_accepted [OF this, of name arg tid w] True show ?thesis by (auto simp: Let_def)
next
  case False
  then have "t = 0 \<or> entry = 0 \<or> base = 0 \<or> len < MCSOS_MIN_KERNEL_STACK \<or> base + len \<le> base"
    using stack_high [of base len]
    by (auto simp: prepare_args_ok_def MCSOS_MIN_KERNEL_STACK_def word_less_nat_alt word_le_nat_alt not_le)
  with False show ?thesis by (auto simp: mcsos_thread_prepare_def Let_def)
qed

section \<open>Enqueueing a ready thread\<close>

lemma count_ends_outside:
  assumes run: "ready_count_from T c n = Some r" and S: "\<forall>x\<in>S. x \<noteq> 0 \<and> t_next (T x) \<in> S"
  shows "c \<notin> S"
proof -
  have "(\<forall>x\<in>S. x \<noteq> 0 \<and> t_next (T x) \<in> S) \<longrightarrow> c \<notin> S"
  proof (rule ready_count_from.raw_induct [OF _ run, where P = "\<lambda>T c n r. (\<forall>x\<in>S. x \<noteq> 0 \<and> t_next (T x) \<in> S) \<longrightarrow> c \<notin> S"])
    fix f T c n r
    assume IH: "\<And>T c n r. f T c n = Some r \<Longrightarrow> (\<forall>x\<in>S. x \<noteq> 0 \<and> t_next (T x) \<in> S) \<longrightarrow> c \<notin> S"
      and step: "(if c = 0 then Some n else f T (t_next (T c)) (n + 1)) = Some r"
    show "(\<forall>x\<in>S. x \<noteq> 0 \<and> t_next (T x) \<in> S) \<longrightarrow> c \<notin> S"
    proof (cases "c = 0")
      case False
      with step have "f T (t_next (T c)) (n + 1) = Some r" by simp
      from IH [OF this] show ?thesis by blast
    qed auto
  qed
  with S show ?thesis by blast
qed

lemma count_diverges:
  "\<forall>x\<in>S. x \<noteq> 0 \<and> t_next (T x) \<in> S \<Longrightarrow> c \<in> S \<Longrightarrow> ready_count_from T c n = None"
  using count_ends_outside [of T c n _ S] by (cases "ready_count_from T c n") auto

lemma lseg_escapes: "lseg T c xs 0 \<Longrightarrow> \<forall>x\<in>S. x \<noteq> 0 \<and> t_next (T x) \<in> S \<Longrightarrow> c \<notin> S"
  by (induction xs arbitrary: c) auto

lemma lseg_next_in: "lseg T c (xs @ [l]) 0 \<Longrightarrow> x \<in> set xs \<Longrightarrow> t_next (T x) \<in> set (xs @ [l])"
proof (induction xs arbitrary: c)
  case (Cons y ys)
  show ?case
  proof (cases "x = y")
    case True
    from Cons.prems(1) have "lseg T (t_next (T y)) (ys @ [l]) 0" by simp
    with True show ?thesis by (cases ys) auto
  next
    case False
    with Cons.IH [of "t_next (T y)"] Cons.prems show ?thesis by auto
  qed
qed simp

lemma queue_rep_ends:
  assumes "queue_rep w q" "q \<noteq> []"
  shows "ready_tail (sch w) = last q" "last q \<noteq> 0" "ready_head (sch w) \<in> set q"
proof -
  have "0 \<notin> set q" "last q \<in> set q" using assms lseg_nonzero by (auto simp: queue_rep_def)
  then show "last q \<noteq> 0" by metis
  show "ready_tail (sch w) = last q" using assms by (simp add: queue_rep_def)
  show "ready_head (sch w) \<in> set q" using assms by (cases q) (auto simp: queue_rep_def)
qed

lemma append_again_last:
  assumes rep: "queue_rep w q" and t: "q \<noteq> []" "t = last q"
  shows "\<forall>x\<in>set q. x \<noteq> 0 \<and> t_next (thr (rq_append t w) x) \<in> set q"
proof
  fix x assume x: "x \<in> set q"
  obtain xs where q: "q = xs @ [t]" using t append_butlast_last_id by metis
  have tail: "ready_tail (sch w) = t" "t \<noteq> 0" using queue_rep_ends [OF rep t(1)] t(2) by simp_all
  have "0 \<notin> set q" using rep lseg_nonzero by (auto simp: queue_rep_def)
  then have nz: "x \<noteq> 0" using x by metis
  have "t_next (thr (rq_append t w) x) = (if x = t then t else t_next (thr w x))"
    using tail by (simp add: rq_append_def Let_def)
  moreover have "t_next (thr w x) \<in> set q" if "x \<noteq> t"
    using lseg_next_in [of "thr w" "ready_head (sch w)" xs t x] rep x that by (simp add: queue_rep_def q)
  ultimately show "x \<noteq> 0 \<and> t_next (thr (rq_append t w) x) \<in> set q" using nz x by (cases "x = t") simp_all
qed

lemma append_again_corrupt:
  assumes inv: "sched_inv w q" and t: "t \<in> set q"
  shows "\<not> queue_rep (rq_append t w) q'"
proof
  assume rep': "queue_rep (rq_append t w) q'"
  have rep: "queue_rep w q" using inv by (simp add: sched_inv_def)
  have ne: "q \<noteq> []" using t by auto
  note q = ne queue_rep_ends(1) [OF rep ne] queue_rep_distinct [OF rep] queue_rep_ends(2) [OF rep ne]
  have head: "ready_head (sch (rq_append t w)) = ready_head (sch w)" using q by (simp add: rq_append_def Let_def)
  show False
  proof (cases "t = last q")
    case True
    note queue_rep_ends(3) [OF rep q(1)]
    with lseg_escapes [OF _ append_again_last [OF rep q(1) True]] rep' head show False by (auto simp: queue_rep_def)
  next
    case False
    from t obtain xs ys where xs: "q = xs @ t # ys" by (meson split_list)
    with False have ys: "ys \<noteq> []" "last q = last ys" by auto
    then have nin: "t \<notin> set xs" "last q \<notin> set xs" using q(3) xs by (auto dest: last_in_set)
    have "lseg (thr w) (ready_head (sch w)) xs t" using rep by (auto simp: queue_rep_def xs lseg_append)
    then have "lseg (thr (rq_append t w)) (ready_head (sch w)) xs t"
      using nin q(2,4) by (subst lseg_cong [of xs _ "thr w"]) (auto simp: rq_append_def Let_def)
    moreover have "t_next (thr (rq_append t w) t) = 0" using False q by (simp add: rq_append_def Let_def)
    moreover have "t \<noteq> 0" using rep t lseg_nonzero by (auto simp: queue_rep_def)
    ultimately have "lseg (thr (rq_append t w)) (ready_head (sch w)) (xs @ [t]) 0" by (auto simp: lseg_append)
    then have "q' = xs @ [t]" using rep' head lseg_unique by (metis queue_rep_def)
    moreover have "unat (runnable_count (sch w) + 1) = length q + 1"
      using queue_rep_length [OF rep sched_inv_out(1,3) [OF inv]] rep by (simp add: queue_rep_def unat_word_ariths)
    moreover have "runnable_count (sch (rq_append t w)) = runnable_count (sch w) + 1" by (simp add: rq_append_def Let_def)
    ultimately show False using rep' xs by (simp add: queue_rep_def)
  qed
qed

text \<open>
  C17. A defect of the queue: enqueueing a thread that is already in the ready queue is accepted and
  destroys the queue. The call reports success, the self-check fails from then on, and if the thread
  was the last of the queue, counting the ready threads never returns.
\<close>

theorem sched_double_enqueue:
  assumes inv: "sched_inv w q" and t: "t \<in> set q"
  shows "\<exists>w'. mcsos_sched_enqueue t w = (Inr (), w')
    \<and> mcsos_sched_validate w' = (Inl MCSOS_SCHED_ECORRUPT, w')
    \<and> (if t = last q then mcsos_sched_ready_count w' = None else True)"
proof -
  let ?w = "rq_append t w"
  have run: "mcsos_sched_enqueue t w = (Inr (), ?w)"
    using inv t by (auto simp: mcsos_sched_enqueue_def sched_inv_def)
  have rep: "queue_rep w q" and ne: "q \<noteq> []" using inv t by (auto simp: sched_inv_def)
  have val: "s_initialized (sch ?w)" "valid_thread_object ?w (current ?w)"
    using inv by (auto simp: sched_inv_def rq_append_frame valid_thread_object_def)
  have "mcsos_sched_validate ?w \<noteq> (Inr (), ?w)"
    using append_again_corrupt [OF inv t] by (auto simp: validate_iff queue_ok_def)
  note corrupt = validate_corrupt [OF val this]
  have "mcsos_sched_ready_count ?w = None" if last: "t = last q"
  proof -
    note ends = queue_rep_ends [OF rep ne]
    then have "ready_head (sch ?w) = ready_head (sch w)" by (simp add: rq_append_def Let_def)
    with ends(3) show ?thesis
      using count_diverges [OF append_again_last [OF rep ne last]] val by (simp add: mcsos_sched_ready_count_def)
  qed
  with run corrupt show ?thesis by auto
qed

section \<open>A concrete scheduler\<close>

definition demo_thread :: mcsos_thread where
  "demo_thread = \<lparr>t_magic = 0, t_id = 0, t_name = None, t_state = MCSOS_THREAD_NEW, t_context = zero_context,
     t_entry = 0, t_arg = 0, t_stack_base = 0, t_stack_size = 0, t_next = 0, t_switches = 0, t_ticks = 0, t_exit_code = 0\<rparr>"

definition demo_sched0 :: sched_world where
  "demo_sched0 = \<lparr>thr = \<lambda>_. demo_thread,
     sch = \<lparr>s_current = 0, s_idle = 0, ready_head = 0, ready_tail = 0, s_next_id = 0, runnable_count = 0,
       context_switches = 0, s_ticks = 0, s_initialized = False\<rparr>,
     cpu = zero_context, stack_mem = \<lambda>_. 0, trampoline_addr = 0x1000, resume_addr = 0x2000\<rparr>"

text \<open>Boot thread at \<open>0x100\<close>, then a prepared and enqueued thread at \<open>0x200\<close>.\<close>

definition demo_sched1 :: sched_world where "demo_sched1 = snd (mcsos_scheduler_init 0x100 demo_sched0)"
definition demo_sched2 :: sched_world where
  "demo_sched2 = snd (mcsos_thread_prepare 0x200 (Some ''a'') 0x3000 0 0x10000 0x2000 1 demo_sched1)"
definition demo_sched :: sched_world where "demo_sched = snd (mcsos_sched_enqueue 0x200 demo_sched2)"

lemma demo_init_ok: "mcsos_scheduler_init 0x100 demo_sched0 = (Inr (), demo_sched1)"
  by (simp add: demo_sched1_def mcsos_scheduler_init_def)

lemma demo_inv1: "sched_inv demo_sched1 []"
  by (rule init_inv [OF demo_init_ok])

lemma demo_prepared: "\<exists>w'. mcsos_thread_prepare 0x200 (Some ''a'') 0x3000 0 0x10000 0x2000 1 demo_sched1 = (Inr (), w')
    \<and> valid_thread_object w' 0x200 \<and> t_state (thr w' 0x200) = MCSOS_THREAD_NEW"
  using stack_top [of "0x2000" "0x10000"] stack_high [of "0x10000" "0x2000"]
  by (simp add: mcsos_thread_prepare_def Let_def MCSOS_STACK_ALIGN_def MCSOS_MIN_KERNEL_STACK_def valid_thread_object_def)

lemma demo_prepare_ok:
  "mcsos_thread_prepare 0x200 (Some ''a'') 0x3000 0 0x10000 0x2000 1 demo_sched1 = (Inr (), demo_sched2)"
  "valid_thread_object demo_sched2 0x200" "t_state (thr demo_sched2 0x200) = MCSOS_THREAD_NEW"
  using demo_prepared by (auto simp: demo_sched2_def)

lemma demo_out: "0x200 \<noteq> current demo_sched1" "0x200 \<noteq> idle demo_sched1"
  by (simp_all add: demo_sched1_def mcsos_scheduler_init_def)

lemma demo_sched_inv: "sched_inv demo_sched [0x200]"
  "mcsos_sched_enqueue 0x200 demo_sched2 = (Inr (), demo_sched)"
proof -
  have "sched_inv demo_sched2 []"
    by (rule prepare_inv [OF demo_inv1 _ demo_prepare_ok(1)]) (simp add: demo_out)
  from enqueue_inv [OF this demo_prepare_ok(2)] demo_prepare_ok(3)
  show "sched_inv demo_sched [0x200]" "mcsos_sched_enqueue 0x200 demo_sched2 = (Inr (), demo_sched)"
    by (simp_all add: demo_sched_def)
qed

theorem sched_run_validates_witness:
  "sched_run demo_sched \<and> mcsos_sched_validate demo_sched = (Inr (), demo_sched)"
proof -
  have none: "\<forall>q. queue_rep demo_sched1 q \<longrightarrow> 0x200 \<notin> set q"
    using demo_inv1 lseg_unique by (fastforce simp: sched_inv_def queue_rep_def)
  have r2: "sched_run demo_sched2"
    by (rule run_prepare [OF run_init [OF demo_init_ok] demo_prepare_ok(1)]) (use demo_out none in blast)
  have "sched_inv demo_sched2 []"
    by (rule prepare_inv [OF demo_inv1 _ demo_prepare_ok(1)]) (simp add: demo_out)
  then have "\<forall>q. queue_rep demo_sched2 q \<longrightarrow> 0x200 \<notin> set q"
    using lseg_unique by (fastforce simp: sched_inv_def queue_rep_def)
  with r2 have "sched_run demo_sched"
    by (rule run_enqueue [OF _ _ demo_sched_inv(2)])
  with sched_run_validates show ?thesis by blast
qed

theorem sched_round_robin_witness:
  "\<exists>w'. yields 1 demo_sched = (Inr (), w') \<and> current w' = 0x200"
  using sched_round_robin [OF demo_sched_inv(1), of 0] by (simp del: yields.simps)

theorem sched_double_enqueue_witness:
  "\<exists>w'. mcsos_sched_enqueue 0x200 demo_sched = (Inr (), w') \<and> mcsos_sched_ready_count w' = None"
  using sched_double_enqueue [OF demo_sched_inv(1), of "0x200"] by auto

end
