(* ===== verification/Sync.thy ===== *)
theory Sync
  imports Prelude
begin

text \<open>
  Synchronisation (\<open>kernel/sync/lockdep.c\<close>, \<open>spinlock.c\<close>, \<open>mutex.c\<close>, \<open>m12_selftest.c\<close>,
  \<open>include/mcs_sync.h\<close>). Each operation is a function on the lock it works on; concurrent use is a
  step relation whose steps are the atomic accesses of the code, interleaved in every order.
\<close>

section \<open>Lock order checking\<close>

definition MCS_LOCKDEP_MAX_HELD :: nat where [simp, layout]: "MCS_LOCKDEP_MAX_HELD = 16"

datatype mcs_sync_err = MCS_SYNC_EINVAL | MCS_SYNC_EBUSY | MCS_SYNC_EPERM | MCS_SYNC_EDEADLK | MCS_SYNC_EOVERFLOW

record mcs_lockdep_state =
  held_class :: "u32 list"
  held_name :: "string option list"
  ld_depth :: u32
  violation_count :: u32

type_synonym lockdep_prog = "(mcs_lockdep_state, mcs_sync_err, unit) prog"

text \<open>The arrays of the state have \<open>MCS_LOCKDEP_MAX_HELD\<close> entries; initialisation writes all of them.\<close>

definition mcs_lockdep_init :: "mcs_lockdep_state \<Rightarrow> mcs_lockdep_state" where
  "mcs_lockdep_init st =
     (fold (\<lambda>i st. st\<lparr>held_class := (held_class st)[i := 0], held_name := (held_name st)[i := None]\<rparr>)
        [0..<MCS_LOCKDEP_MAX_HELD] st)\<lparr>ld_depth := 0, violation_count := 0\<rparr>"

definition mcs_lockdep_is_held :: "mcs_lockdep_state \<Rightarrow> u32 \<Rightarrow> bool" where
  "mcs_lockdep_is_held st class_id \<longleftrightarrow> class_id \<noteq> 0 \<and>
     (List.find (\<lambda>i. held_class st ! i = class_id) [0..<min (unat (ld_depth st)) MCS_LOCKDEP_MAX_HELD] \<noteq> None)"

definition violation :: "mcs_sync_err \<Rightarrow> lockdep_prog" where
  "violation e st = (Inl e, st\<lparr>violation_count := violation_count st + 1\<rparr>)"

definition mcs_lockdep_before_acquire :: "u32 \<Rightarrow> string option \<Rightarrow> lockdep_prog" where
  "mcs_lockdep_before_acquire class_id name st =
     (if class_id = 0 then (Inl MCS_SYNC_EINVAL, st)
      else if of_nat MCS_LOCKDEP_MAX_HELD \<le> ld_depth st then violation MCS_SYNC_EOVERFLOW st
      else if List.find (\<lambda>i. held_class st ! i = class_id) [0..<unat (ld_depth st)] \<noteq> None
        then violation MCS_SYNC_EDEADLK st
      else if 0 < ld_depth st \<and> class_id < held_class st ! unat (ld_depth st - 1)
        then violation MCS_SYNC_EDEADLK st
      else (Inr (), st\<lparr>held_class := (held_class st)[unat (ld_depth st) := class_id],
                       held_name := (held_name st)[unat (ld_depth st) := name],
                       ld_depth := ld_depth st + 1\<rparr>))"

definition mcs_lockdep_after_release :: "u32 \<Rightarrow> string option \<Rightarrow> lockdep_prog" where
  "mcs_lockdep_after_release class_id name st =
     (if class_id = 0 then (Inl MCS_SYNC_EINVAL, st)
      else if ld_depth st = 0 then violation MCS_SYNC_EPERM st
      else let index = unat (ld_depth st - 1) in
        if held_class st ! index \<noteq> class_id then violation MCS_SYNC_EDEADLK st
        else (Inr (), st\<lparr>held_class := (held_class st)[index := 0], held_name := (held_name st)[index := None],
                         ld_depth := ld_depth st - 1\<rparr>))"

text \<open>The abstract view: the stack of lock classes held, oldest first.\<close>

definition held :: "mcs_lockdep_state \<Rightarrow> u32 list" where
  "held st = take (unat (ld_depth st)) (held_class st)"

definition lockdep_ok :: "mcs_lockdep_state \<Rightarrow> bool" where
  "lockdep_ok st \<longleftrightarrow> length (held_class st) = 16 \<and> length (held_name st) = 16 \<and> unat (ld_depth st) \<le> 16
     \<and> sorted_wrt (<) (held st) \<and> 0 \<notin> set (held st)"

lemma lockdep_init_ok:
  assumes "length (held_class st) = 16" "length (held_name st) = 16"
  shows "lockdep_ok (mcs_lockdep_init st)" "held (mcs_lockdep_init st) = []"
proof -
  have len: "length (held_class (fold (\<lambda>i st. st\<lparr>held_class := (held_class st)[i := 0], held_name := (held_name st)[i := None]\<rparr>) is st))
      = length (held_class st)"
    "length (held_name (fold (\<lambda>i st. st\<lparr>held_class := (held_class st)[i := 0], held_name := (held_name st)[i := None]\<rparr>) is st))
      = length (held_name st)" for "is"
    by (induction "is" arbitrary: st) simp_all
  show "held (mcs_lockdep_init st) = []" by (simp add: held_def mcs_lockdep_init_def)
  then show "lockdep_ok (mcs_lockdep_init st)"
    using assms by (simp add: lockdep_ok_def) (simp add: mcs_lockdep_init_def len del: upt_rec_numeral)
qed

lemma held_length: "lockdep_ok st \<Longrightarrow> length (held st) = unat (ld_depth st)"
  by (simp add: lockdep_ok_def held_def)

lemma held_nth: "i < unat (ld_depth st) \<Longrightarrow> held st ! i = held_class st ! i"
  by (simp add: held_def)

lemma find_held:
  assumes "lockdep_ok st"
  shows "List.find (\<lambda>i. held_class st ! i = c) [0..<unat (ld_depth st)] \<noteq> None \<longleftrightarrow> c \<in> set (held st)"
proof -
  have "List.find (\<lambda>i. held_class st ! i = c) [0..<unat (ld_depth st)] = None
      \<longleftrightarrow> (\<forall>i < unat (ld_depth st). held st ! i \<noteq> c)"
    by (auto simp: find_upt_None_iff held_nth)
  then show ?thesis using held_length [OF assms] by (auto simp: in_set_conv_nth)
qed

lemma is_held_iff: "lockdep_ok st \<Longrightarrow> mcs_lockdep_is_held st c \<longleftrightarrow> c \<in> set (held st)"
  using find_held [of st c] by (auto simp: mcs_lockdep_is_held_def lockdep_ok_def min_absorb1)

text \<open>The top of the stack is its largest element.\<close>

lemma held_top:
  assumes "lockdep_ok st" "held st \<noteq> []"
  shows "held_class st ! unat (ld_depth st - 1) = last (held st)" "unat (ld_depth st - 1) = length (held st) - 1"
    "\<forall>x\<in>set (held st). x \<le> last (held st)"
proof -
  have d: "0 < unat (ld_depth st)" using assms held_length [OF assms(1)] by (metis length_greater_0_conv)
  then show u: "unat (ld_depth st - 1) = length (held st) - 1"
    using held_length [OF assms(1)] by (subst unat_sub) (auto simp: word_le_nat_alt)
  show "held_class st ! unat (ld_depth st - 1) = last (held st)"
    using held_nth [of "length (held st) - 1" st] held_length [OF assms(1)] assms(2) d
    by (simp add: u last_conv_nth)
  obtain xs where xs: "held st = xs @ [last (held st)]" using assms(2) append_butlast_last_id by metis
  have "sorted_wrt (<) (held st)" using assms(1) by (simp add: lockdep_ok_def)
  then have "\<forall>x\<in>set xs. x < last (held st)" by (subst (asm) xs) (simp add: sorted_wrt_append)
  then show "\<forall>x\<in>set (held st). x \<le> last (held st)" by (subst xs) auto
qed

lemma acquire_accepted:
  assumes ok: "lockdep_ok st" and c: "c \<noteq> 0" and lim: "length (held st) < 16"
    and max: "\<forall>x\<in>set (held st). x < c"
  obtains st' where "mcs_lockdep_before_acquire c name st = (Inr (), st')" "lockdep_ok st'" "held st' = held st @ [c]"
    "violation_count st' = violation_count st"
proof -
  let ?d = "unat (ld_depth st)"
  have d: "?d < 16" "length (held_class st) = 16" using lim ok held_length [OF ok] by (auto simp: lockdep_ok_def)
  then have d1: "unat (ld_depth st + 1) = Suc ?d" by (simp add: unat_word_ariths)
  define st' where "st' = st\<lparr>held_class := (held_class st)[?d := c], held_name := (held_name st)[?d := name],
                       ld_depth := ld_depth st + 1\<rparr>"
  have held': "held st' = held st @ [c]"
    using d d1 by (simp add: held_def st'_def take_Suc_conv_app_nth)
  have "\<not> (0 < ld_depth st \<and> c < held_class st ! unat (ld_depth st - 1))"
  proof
    assume a: "0 < ld_depth st \<and> c < held_class st ! unat (ld_depth st - 1)"
    then have "held st \<noteq> []" using held_length [OF ok] by (auto simp: word_greater_zero_iff unat_eq_zero)
    with a held_top [OF ok this] max show False by (metis last_in_set not_less_iff_gr_or_eq)
  qed
  moreover have "c \<notin> set (held st)" using max by auto
  ultimately have "mcs_lockdep_before_acquire c name st = (Inr (), st')"
    using c d find_held [OF ok, of c]
    by (auto simp: mcs_lockdep_before_acquire_def st'_def word_le_nat_alt not_le)
  moreover have "lockdep_ok st'"
    using ok held' d d1 max c by (simp add: lockdep_ok_def sorted_wrt_append) (simp add: st'_def)
  ultimately show thesis using that held' by (simp add: st'_def)
qed

text \<open>When an acquisition is in order.\<close>

definition in_order :: "u32 \<Rightarrow> mcs_lockdep_state \<Rightarrow> bool" where
  "in_order c st \<longleftrightarrow> c \<noteq> 0 \<and> length (held st) < 16 \<and> (\<forall>x\<in>set (held st). x < c)"

lemma violation_ok [simp]:
  "lockdep_ok (snd (violation e st)) = lockdep_ok st" "held (snd (violation e st)) = held st"
  "violation_count (snd (violation e st)) = violation_count st + 1" "fst (violation e st) = Inl e"
  by (simp_all add: violation_def lockdep_ok_def held_def)

lemma acquire_refused:
  assumes ok: "lockdep_ok st" and no: "\<not> in_order c st"
  shows "mcs_lockdep_before_acquire c name st =
    (if c = 0 then (Inl MCS_SYNC_EINVAL, st)
     else violation (if length (held st) = 16 then MCS_SYNC_EOVERFLOW else MCS_SYNC_EDEADLK) st)"
proof (cases "c = 0 \<or> length (held st) = 16")
  case True
  then show ?thesis using ok held_length [OF ok]
    by (auto simp: mcs_lockdep_before_acquire_def word_le_nat_alt lockdep_ok_def)
next
  case False
  then have lt: "unat (ld_depth st) < 16" using ok held_length [OF ok] by (simp add: lockdep_ok_def)
  from False no lt obtain x where x: "x \<in> set (held st)" "\<not> x < c"
    using held_length [OF ok] by (auto simp: in_order_def)
  then have ne: "held st \<noteq> []" by auto
  have "c \<in> set (held st) \<or> (0 < ld_depth st \<and> c < held_class st ! unat (ld_depth st - 1))"
  proof (cases "c \<in> set (held st)")
    case notin: False
    have "last (held st) \<noteq> c" using notin ne last_in_set by metis
    moreover have "c \<le> last (held st)" using x held_top(3) [OF ok ne] by (meson dual_order.trans linear not_le)
    moreover have "ld_depth st \<noteq> 0" using ne held_length [OF ok] by auto
    ultimately show ?thesis using held_top(1) [OF ok ne] by (auto simp: word_greater_zero_iff)
  qed simp
  with False lt find_held [OF ok, of c] held_length [OF ok] show ?thesis
    by (auto simp: mcs_lockdep_before_acquire_def word_le_nat_alt)
qed

lemma release_accepted:
  assumes ok: "lockdep_ok st" and h: "held st = xs @ [c]"
  obtains st' where "mcs_lockdep_after_release c name st = (Inr (), st')" "lockdep_ok st'" "held st' = xs"
    "violation_count st' = violation_count st"
proof -
  have ne: "held st \<noteq> []" using h by simp
  note top = held_top [OF ok ne]
  have c: "c \<noteq> 0" using ok h by (auto simp: lockdep_ok_def)
  have d: "ld_depth st \<noteq> 0" using ne held_length [OF ok] by auto
  define st' where "st' = st\<lparr>held_class := (held_class st)[length xs := 0], held_name := (held_name st)[length xs := None],
                         ld_depth := ld_depth st - 1\<rparr>"
  have len: "unat (ld_depth st - 1) = length xs" using top(2) h by simp
  have run: "mcs_lockdep_after_release c name st = (Inr (), st')"
    using c d top(1) h len by (simp add: mcs_lockdep_after_release_def Let_def st'_def)
  have "take (length xs) (held_class st) = xs"
  proof -
    have "take (length xs) (held st) = xs" using h by simp
    moreover have "length xs \<le> unat (ld_depth st)" using h held_length [OF ok] by simp
    ultimately show ?thesis by (simp add: held_def min_absorb1)
  qed
  then have held': "held st' = xs" using len by (simp add: held_def st'_def)
  moreover have "lockdep_ok st'"
    using ok held' len h held_length [OF ok] by (simp add: lockdep_ok_def sorted_wrt_append) (simp add: st'_def)
  ultimately show thesis using that run by (simp add: st'_def)
qed

lemma release_refused:
  assumes ok: "lockdep_ok st" and no: "held st = [] \<or> last (held st) \<noteq> c"
  shows "mcs_lockdep_after_release c name st =
    (if c = 0 then (Inl MCS_SYNC_EINVAL, st)
     else violation (if held st = [] then MCS_SYNC_EPERM else MCS_SYNC_EDEADLK) st)"
proof (cases "held st = []")
  case True
  then have "ld_depth st = 0" using held_length [OF ok] by (simp add: unat_eq_zero)
  with True show ?thesis by (simp add: mcs_lockdep_after_release_def)
next
  case False
  then have "ld_depth st \<noteq> 0" using held_length [OF ok] by auto
  with False no held_top(1) [OF ok False] show ?thesis by (simp add: mcs_lockdep_after_release_def)
qed

text \<open>
  C18. The lock checker is a bounded stack of strictly increasing lock classes. An acquisition is
  accepted exactly when its class is not zero, fewer than sixteen locks are held and every held class is
  smaller, and then it is pushed; a release is accepted exactly for the class on top, which is popped.
  Every refusal leaves the stack alone, counts a violation unless the class is zero, and its
  error code names the reason.
\<close>

theorem lockdep_stack:
  assumes "lockdep_ok st"
  shows "(case mcs_lockdep_before_acquire c name st of
      (Inr _, st') \<Rightarrow> in_order c st \<and> lockdep_ok st' \<and> held st' = held st @ [c]
    | (Inl e, st') \<Rightarrow> \<not> in_order c st \<and> lockdep_ok st' \<and> held st' = held st
        \<and> violation_count st' = violation_count st + (if c = 0 then 0 else 1)
        \<and> e = (if c = 0 then MCS_SYNC_EINVAL else if length (held st) = 16 then MCS_SYNC_EOVERFLOW else MCS_SYNC_EDEADLK))
   \<and> (case mcs_lockdep_after_release c name st of
      (Inr _, st') \<Rightarrow> lockdep_ok st' \<and> held st = held st' @ [c]
    | (Inl e, st') \<Rightarrow> (held st = [] \<or> last (held st) \<noteq> c) \<and> lockdep_ok st' \<and> held st' = held st
        \<and> violation_count st' = violation_count st + (if c = 0 then 0 else 1)
        \<and> e = (if c = 0 then MCS_SYNC_EINVAL else if held st = [] then MCS_SYNC_EPERM else MCS_SYNC_EDEADLK))"
  (is "?acquire \<and> ?release")
proof
  show ?acquire
  proof (cases "in_order c st")
    case True
    then have "c \<noteq> 0" "length (held st) < 16" "\<forall>x\<in>set (held st). x < c" by (auto simp: in_order_def)
    from acquire_accepted [OF assms this, of name] obtain st' where
      "mcs_lockdep_before_acquire c name st = (Inr (), st')" "lockdep_ok st'" "held st' = held st @ [c]" .
    with True show ?thesis by simp
  next
    case False
    with acquire_refused [OF assms False, of name] assms show ?thesis
      by (auto simp: violation_def lockdep_ok_def held_def)
  qed
  show ?release
  proof (cases "held st \<noteq> [] \<and> last (held st) = c")
    case True
    then obtain xs where xs: "held st = xs @ [c]" by (metis append_butlast_last_id)
    from release_accepted [OF assms this, of name] obtain st' where
      "mcs_lockdep_after_release c name st = (Inr (), st')" "lockdep_ok st'" "held st' = xs" .
    with xs show ?thesis by simp
  next
    case False
    then have "held st = [] \<or> last (held st) \<noteq> c" by blast
    with release_refused [OF assms this, of name] assms show ?thesis
      by (auto simp: violation_def lockdep_ok_def held_def)
  qed
qed

text \<open>
  Threads that consult the checker before every lock: \<open>S t\<close> is the checker state of thread \<open>t\<close>, and
  \<open>want t\<close> the class it is about to acquire, which the checker accepted. A thread waits for every
  thread that holds the class it wants.
\<close>

definition waits_for :: "('t \<Rightarrow> mcs_lockdep_state) \<Rightarrow> ('t \<Rightarrow> u32 option) \<Rightarrow> ('t \<times> 't) set" where
  "waits_for S want = {(t, u). \<exists>c. want t = Some c \<and> mcs_lockdep_is_held (S u) c}"

lemma acyclic_if_rank:
  assumes "\<And>x y z. (x, y) \<in> r \<Longrightarrow> (y, z) \<in> r \<Longrightarrow> rank x < (rank y :: nat)"
  shows "acyclic r"
proof (rule acyclicI, rule allI, rule notI)
  have chain: "(x, y) \<in> r\<^sup>+ \<Longrightarrow> (\<exists>z. (y, z) \<in> r) \<Longrightarrow> rank x < rank y" for x y
  proof (induction rule: trancl.induct)
    case (r_into_trancl a b)
    then show ?case using assms by blast
  next
    case (trancl_into_trancl a b c)
    then have "rank a < rank b" "rank b < rank c" using assms by blast+
    then show ?case by (rule less_trans)
  qed
  fix x assume cyc: "(x, x) \<in> r\<^sup>+"
  then obtain z where "(x, z) \<in> r" by (meson tranclD)
  with chain [OF cyc] show False by blast
qed

text \<open>
  C19. Following the checker excludes deadlock: if every lock a thread waits for was accepted by its
  checker, then the wait-for graph between any number of threads has no cycle.
\<close>

theorem lockdep_no_deadlock:
  assumes "\<forall>t. lockdep_ok (S t)"
    and "\<forall>t c. want t = Some c \<longrightarrow> fst (mcs_lockdep_before_acquire c name (S t)) = Inr ()"
  shows "acyclic (waits_for S want)"
proof (rule acyclic_if_rank [where rank = "\<lambda>t. case want t of Some c \<Rightarrow> unat c | None \<Rightarrow> 0"])
  fix t u v
  assume "(t, u) \<in> waits_for S want" "(u, v) \<in> waits_for S want"
  then obtain c d where c: "want t = Some c" "mcs_lockdep_is_held (S u) c" and d: "want u = Some d"
    by (auto simp: waits_for_def)
  have "in_order d (S u)"
  proof (rule ccontr)
    assume "\<not> in_order d (S u)"
    moreover have "lockdep_ok (S u)" "fst (mcs_lockdep_before_acquire d name (S u)) = Inr ()"
      using assms d by blast+
    ultimately show False using acquire_refused [of "S u" d name] by (simp add: violation_def split: if_splits)
  qed
  moreover have "c \<in> set (held (S u))" using c(2) is_held_iff assms(1) by blast
  ultimately have "c < d" by (simp add: in_order_def)
  then show "(case want t of Some c \<Rightarrow> unat c | None \<Rightarrow> 0) < (case want u of Some c \<Rightarrow> unat c | None \<Rightarrow> 0)"
    using c(1) d by (simp add: word_less_nat_alt)
qed

section \<open>Spinlock\<close>

record mcs_spinlock =
  sp_locked :: u32
  sp_class_id :: u32
  sp_name :: "string option"

definition mcs_spin_init :: "u32 \<Rightarrow> string option \<Rightarrow> mcs_spinlock" where
  "mcs_spin_init class_id name = \<lparr>sp_locked = 0, sp_class_id = class_id, sp_name = name\<rparr>"

definition mcs_spin_try_lock :: "mcs_spinlock \<Rightarrow> bool \<times> mcs_spinlock" where
  "mcs_spin_try_lock lock = (let old = sp_locked lock in (old = 0, lock\<lparr>sp_locked := 1\<rparr>))"

definition mcs_spin_unlock :: "mcs_spinlock \<Rightarrow> mcs_spinlock" where
  "mcs_spin_unlock lock = lock\<lparr>sp_locked := 0\<rparr>"

definition mcs_spin_is_locked :: "mcs_spinlock \<Rightarrow> bool" where
  "mcs_spin_is_locked lock \<longleftrightarrow> sp_locked lock \<noteq> 0"

text \<open>
  Run alone, \<open>mcs_spin_lock\<close> may spin forever, which is the value \<open>None\<close>: first its inner loop that
  waits for the lock word to be seen zero, then the outer one.
\<close>

partial_function (option) spin_wait :: "mcs_spinlock \<Rightarrow> unit option" where
  "spin_wait lock = (if mcs_spin_is_locked lock then spin_wait lock else Some ())"

partial_function (option) mcs_spin_lock :: "mcs_spinlock \<Rightarrow> mcs_spinlock option" where
  "mcs_spin_lock lock =
     (if fst (mcs_spin_try_lock lock) then Some (snd (mcs_spin_try_lock lock))
      else Option.bind (spin_wait (snd (mcs_spin_try_lock lock)))
             (\<lambda>_. mcs_spin_lock (snd (mcs_spin_try_lock lock))))"

text \<open>
  Concurrent use, as in the self-test and its host test: threads that lock, increment a shared
  counter by a separate load and store, and unlock. The program counter of a thread names its next
  atomic access; \<open>completed\<close> counts the increments stored.
\<close>

datatype spin_pc = SOutside | STry | SSpin | SLoad | SStore u64 | SUnlock

record spin_system =
  ss_lock :: mcs_spinlock
  ss_counter :: u64
  ss_pc :: "nat \<Rightarrow> spin_pc"
  completed :: nat

abbreviation goto :: "nat \<Rightarrow> spin_pc \<Rightarrow> spin_system \<Rightarrow> spin_system" where
  "goto t pc s \<equiv> s\<lparr>ss_pc := (ss_pc s)(t := pc)\<rparr>"

inductive spin_step :: "spin_system \<Rightarrow> spin_system \<Rightarrow> bool" where
  spin_enter: "ss_pc s t = SOutside \<Longrightarrow> spin_step s (goto t STry s)"
| spin_got: "ss_pc s t = STry \<Longrightarrow> mcs_spin_try_lock (ss_lock s) = (True, l) \<Longrightarrow>
    spin_step s (goto t SLoad (s\<lparr>ss_lock := l\<rparr>))"
| spin_missed: "ss_pc s t = STry \<Longrightarrow> mcs_spin_try_lock (ss_lock s) = (False, l) \<Longrightarrow>
    spin_step s (goto t SSpin (s\<lparr>ss_lock := l\<rparr>))"
| spin_spin: "ss_pc s t = SSpin \<Longrightarrow> mcs_spin_is_locked (ss_lock s) \<Longrightarrow> spin_step s s"
| spin_retry: "ss_pc s t = SSpin \<Longrightarrow> \<not> mcs_spin_is_locked (ss_lock s) \<Longrightarrow> spin_step s (goto t STry s)"
| spin_load: "ss_pc s t = SLoad \<Longrightarrow> spin_step s (goto t (SStore (ss_counter s)) s)"
| spin_store: "ss_pc s t = SStore v \<Longrightarrow>
    spin_step s (goto t SUnlock (s\<lparr>ss_counter := v + 1, completed := completed s + 1\<rparr>))"
| spin_unlock: "ss_pc s t = SUnlock \<Longrightarrow>
    spin_step s (goto t SOutside (s\<lparr>ss_lock := mcs_spin_unlock (ss_lock s)\<rparr>))"

inductive_cases spin_stepE: "spin_step s s'"

inductive spin_reach :: "spin_system \<Rightarrow> bool" where
  reach_init: "spin_reach \<lparr>ss_lock = mcs_spin_init class_id name, ss_counter = 0, ss_pc = \<lambda>_. SOutside, completed = 0\<rparr>"
| reach_step: "spin_reach s \<Longrightarrow> spin_step s s' \<Longrightarrow> spin_reach s'"

primrec critical :: "spin_pc \<Rightarrow> bool" where
  "critical SOutside = False" | "critical STry = False" | "critical SSpin = False"
| "critical SLoad = True" | "critical (SStore v) = True" | "critical SUnlock = True"

definition crits :: "(nat \<Rightarrow> spin_pc) \<Rightarrow> nat set" where
  "crits pc = {t. critical (pc t)}"

definition spin_inv :: "spin_system \<Rightarrow> bool" where
  "spin_inv s \<longleftrightarrow> ss_counter s = of_nat (completed s)
     \<and> (if mcs_spin_is_locked (ss_lock s) then \<exists>t. crits (ss_pc s) = {t} else crits (ss_pc s) = {})
     \<and> (\<forall>t v. ss_pc s t = SStore v \<longrightarrow> v = ss_counter s)"

lemma mem_crits: "t \<in> crits f \<longleftrightarrow> critical (f t)"
  by (simp add: crits_def)

lemma crits_upd: "crits (f(t := pc)) = (if critical pc then insert t (crits f) else crits f - {t})"
  by (auto simp: crits_def)

lemma crit_setD: "ss_pc s t = pc \<Longrightarrow> critical pc \<Longrightarrow> spin_inv s \<Longrightarrow>
  mcs_spin_is_locked (ss_lock s) \<and> crits (ss_pc s) = {t}"
  using mem_crits [of t "ss_pc s"] unfolding spin_inv_def by (auto split: if_splits)

lemma noncrit: "f t = pc \<Longrightarrow> \<not> critical pc \<Longrightarrow> crits f - {t} = crits f"
  by (auto simp: crits_def)

lemma no_store: "crits f = {t} \<Longrightarrow> f u = SStore v \<Longrightarrow> u = t"
  using mem_crits [of u f] by simp

lemma spin_step_inv: "spin_step s s' \<Longrightarrow> spin_inv s \<Longrightarrow> spin_inv s'"
proof (induction rule: spin_step.induct)
  case (spin_enter s t)
  then show ?case by (auto simp: spin_inv_def crits_upd noncrit)
next
  case (spin_got s t l)
  then have l: "\<not> mcs_spin_is_locked (ss_lock s)" "mcs_spin_is_locked l"
    by (auto simp: mcs_spin_try_lock_def mcs_spin_is_locked_def)
  with spin_got show ?case by (auto simp: spin_inv_def crits_upd)
next
  case (spin_missed s t l)
  then have l: "mcs_spin_is_locked (ss_lock s)" "mcs_spin_is_locked l"
    by (auto simp: mcs_spin_try_lock_def mcs_spin_is_locked_def)
  with spin_missed show ?case by (auto simp: spin_inv_def crits_upd noncrit)
next
  case (spin_retry s t)
  then show ?case by (auto simp: spin_inv_def crits_upd noncrit)
next
  case (spin_load s t)
  from crit_setD [OF spin_load(1) _ spin_load(2)] spin_load show ?case
    by (auto simp: spin_inv_def crits_upd)
next
  case (spin_store s t v)
  from crit_setD [OF spin_store(1) _ spin_store(2)] have c: "mcs_spin_is_locked (ss_lock s)" "crits (ss_pc s) = {t}" by auto
  have "v = ss_counter s" using spin_store by (auto simp: spin_inv_def)
  with c spin_store(2) no_store [OF c(2)] show ?case by (auto simp: spin_inv_def crits_upd)
next
  case (spin_unlock s t)
  from crit_setD [OF spin_unlock(1) _ spin_unlock(2)] have c: "mcs_spin_is_locked (ss_lock s)" "crits (ss_pc s) = {t}" by auto
  have "\<not> mcs_spin_is_locked (mcs_spin_unlock (ss_lock s))" by (simp add: mcs_spin_is_locked_def mcs_spin_unlock_def)
  with c spin_unlock(2) no_store [OF c(2)] show ?case by (auto simp: spin_inv_def crits_upd)
qed

lemma spin_reach_inv: "spin_reach s \<Longrightarrow> spin_inv s"
proof (induction rule: spin_reach.induct)
  case (reach_init class_id name)
  then show ?case by (simp add: spin_inv_def crits_def mcs_spin_is_locked_def mcs_spin_init_def)
qed (use spin_step_inv in blast)

text \<open>
  C20. The spinlock gives mutual exclusion in every interleaving of any number of threads: at most one
  thread is between acquiring and releasing, the lock word tells whether there is one, and no
  increment of the protected counter is ever lost, so a counter that is not being updated equals the
  number of completed increments.
\<close>

theorem spinlock_mutual_exclusion:
  assumes "spin_reach s"
  shows "(\<forall>t u. critical (ss_pc s t) \<longrightarrow> critical (ss_pc s u) \<longrightarrow> t = u)
    \<and> (mcs_spin_is_locked (ss_lock s) \<longleftrightarrow> (\<exists>t. critical (ss_pc s t)))
    \<and> ss_counter s = of_nat (completed s)"
proof -
  have inv: "spin_inv s" by (rule spin_reach_inv [OF assms])
  then have "(\<exists>t. crits (ss_pc s) = {t}) \<or> crits (ss_pc s) = {}" by (auto simp: spin_inv_def split: if_splits)
  then have "\<forall>t u. critical (ss_pc s t) \<longrightarrow> critical (ss_pc s u) \<longrightarrow> t = u" by (metis empty_iff mem_crits singletonD)
  moreover have "mcs_spin_is_locked (ss_lock s) \<longleftrightarrow> crits (ss_pc s) \<noteq> {}" using inv by (auto simp: spin_inv_def)
  ultimately show ?thesis using inv by (auto simp: spin_inv_def mem_crits [symmetric])
qed

section \<open>Mutex\<close>

record mcs_mutex =
  mx_locked :: u32
  mx_owner :: u64
  mx_class_id :: u32
  mx_name :: "string option"

definition mcs_mutex_init :: "u32 \<Rightarrow> string option \<Rightarrow> mcs_mutex" where
  "mcs_mutex_init class_id name = \<lparr>mx_locked = 0, mx_owner = 0, mx_class_id = class_id, mx_name = name\<rparr>"

text \<open>The atomic accesses: the compare-and-swap of the lock word and the error of a failed one.\<close>

definition mutex_cas :: "mcs_mutex \<Rightarrow> bool \<times> mcs_mutex" where
  "mutex_cas m = (if mx_locked m = 0 then (True, m\<lparr>mx_locked := 1\<rparr>) else (False, m))"

definition mutex_busy :: "mcs_mutex \<Rightarrow> u64 \<Rightarrow> mcs_sync_err" where
  "mutex_busy m owner_id = (if mx_owner m = owner_id then MCS_SYNC_EDEADLK else MCS_SYNC_EBUSY)"

definition mcs_mutex_try_lock :: "u64 \<Rightarrow> (mcs_mutex, mcs_sync_err, unit) prog" where
  "mcs_mutex_try_lock owner_id m =
     (if owner_id = 0 then (Inl MCS_SYNC_EINVAL, m)
      else let (ok, m') = mutex_cas m in
        if \<not> ok then (Inl (mutex_busy m' owner_id), m')
        else (Inr (), m'\<lparr>mx_owner := owner_id\<rparr>))"

definition mcs_mutex_unlock :: "u64 \<Rightarrow> (mcs_mutex, mcs_sync_err, unit) prog" where
  "mcs_mutex_unlock owner_id m =
     (if owner_id = 0 then (Inl MCS_SYNC_EINVAL, m)
      else if mx_owner m \<noteq> owner_id then (Inl MCS_SYNC_EPERM, m)
      else (Inr (), (m\<lparr>mx_owner := 0\<rparr>)\<lparr>mx_locked := 0\<rparr>))"

definition mcs_mutex_is_locked :: "mcs_mutex \<Rightarrow> bool" where
  "mcs_mutex_is_locked m \<longleftrightarrow> mx_locked m \<noteq> 0"

definition mcs_mutex_owner :: "mcs_mutex \<Rightarrow> u64" where
  "mcs_mutex_owner m = mx_owner m"

text \<open>
  Concurrent use by threads whose owner id is their name. Every call may be made at any time, by any
  thread: locking again while holding, unlocking without holding. A program counter names the next
  atomic access of the call a thread is in.
\<close>

datatype mutex_pc = MOutside | MFailed | MAcquired | MHeld | MHeldFailed | MClearing | MReleasing

record mutex_system =
  ms_mutex :: mcs_mutex
  ms_pc :: "u64 \<Rightarrow> mutex_pc"
  ms_result :: "u64 \<Rightarrow> mcs_sync_err option"

abbreviation mgoto :: "u64 \<Rightarrow> mutex_pc \<Rightarrow> mutex_system \<Rightarrow> mutex_system" where
  "mgoto t pc s \<equiv> s\<lparr>ms_pc := (ms_pc s)(t := pc)\<rparr>"

abbreviation mreturn :: "u64 \<Rightarrow> mcs_sync_err \<Rightarrow> mutex_system \<Rightarrow> mutex_system" where
  "mreturn t e s \<equiv> s\<lparr>ms_result := (ms_result s)(t := Some e)\<rparr>"

inductive mutex_step :: "mutex_system \<Rightarrow> mutex_system \<Rightarrow> bool" where
  mutex_got: "t \<noteq> 0 \<Longrightarrow> ms_pc s t = MOutside \<or> ms_pc s t = MHeld \<Longrightarrow> mutex_cas (ms_mutex s) = (True, m) \<Longrightarrow>
    mutex_step s (mgoto t MAcquired (s\<lparr>ms_mutex := m\<rparr>))"
| mutex_missed: "t \<noteq> 0 \<Longrightarrow> ms_pc s t = MOutside \<Longrightarrow> mutex_cas (ms_mutex s) = (False, m) \<Longrightarrow>
    mutex_step s (mgoto t MFailed s)"
| mutex_again: "ms_pc s t = MHeld \<Longrightarrow> mutex_cas (ms_mutex s) = (False, m) \<Longrightarrow> mutex_step s (mgoto t MHeldFailed s)"
| mutex_fail: "ms_pc s t = MFailed \<Longrightarrow> mutex_step s (mreturn t (mutex_busy (ms_mutex s) t) (mgoto t MOutside s))"
| mutex_held_fail: "ms_pc s t = MHeldFailed \<Longrightarrow> mutex_step s (mreturn t (mutex_busy (ms_mutex s) t) (mgoto t MHeld s))"
| mutex_own: "ms_pc s t = MAcquired \<Longrightarrow> mutex_step s (mgoto t MHeld (s\<lparr>ms_mutex := (ms_mutex s)\<lparr>mx_owner := t\<rparr>\<rparr>))"
| mutex_denied: "t \<noteq> 0 \<Longrightarrow> ms_pc s t = MOutside \<or> ms_pc s t = MHeld \<Longrightarrow> mcs_mutex_owner (ms_mutex s) \<noteq> t \<Longrightarrow>
    mutex_step s (mreturn t MCS_SYNC_EPERM s)"
| mutex_unlock: "t \<noteq> 0 \<Longrightarrow> ms_pc s t = MOutside \<or> ms_pc s t = MHeld \<Longrightarrow> mcs_mutex_owner (ms_mutex s) = t \<Longrightarrow>
    mutex_step s (mgoto t MClearing s)"
| mutex_clear: "ms_pc s t = MClearing \<Longrightarrow> mutex_step s (mgoto t MReleasing (s\<lparr>ms_mutex := (ms_mutex s)\<lparr>mx_owner := 0\<rparr>\<rparr>))"
| mutex_release: "ms_pc s t = MReleasing \<Longrightarrow> mutex_step s (mgoto t MOutside (s\<lparr>ms_mutex := (ms_mutex s)\<lparr>mx_locked := 0\<rparr>\<rparr>))"

inductive mutex_reach :: "mutex_system \<Rightarrow> bool" where
  mutex_start: "mutex_reach \<lparr>ms_mutex = mcs_mutex_init class_id name, ms_pc = \<lambda>_. MOutside, ms_result = \<lambda>_. None\<rparr>"
| mutex_more: "mutex_reach s \<Longrightarrow> mutex_step s s' \<Longrightarrow> mutex_reach s'"

definition holding :: "mutex_pc \<Rightarrow> bool" where
  "holding pc \<longleftrightarrow> pc \<notin> {MOutside, MFailed}"

definition owning :: "mutex_pc \<Rightarrow> bool" where
  "owning pc \<longleftrightarrow> pc \<in> {MHeld, MHeldFailed, MClearing}"

definition holders :: "(u64 \<Rightarrow> mutex_pc) \<Rightarrow> u64 set" where
  "holders f = {t. holding (f t)}"

definition mutex_inv :: "mutex_system \<Rightarrow> bool" where
  "mutex_inv s \<longleftrightarrow>
     (if mcs_mutex_is_locked (ms_mutex s)
      then \<exists>t. t \<noteq> 0 \<and> holders (ms_pc s) = {t} \<and> mx_owner (ms_mutex s) = (if owning (ms_pc s t) then t else 0)
      else holders (ms_pc s) = {} \<and> mx_owner (ms_mutex s) = 0)"

lemma mem_holders: "t \<in> holders f \<longleftrightarrow> holding (f t)"
  by (simp add: holders_def)

lemma holders_upd: "holders (f(t := pc)) = (if holding pc then insert t (holders f) else holders f - {t})"
  by (auto simp: holders_def)

lemma holding_simps [simp]:
  "\<not> holding MOutside" "\<not> holding MFailed" "holding MAcquired" "holding MHeld" "holding MHeldFailed"
  "holding MClearing" "holding MReleasing" "owning MHeld" "owning MHeldFailed" "owning MClearing"
  "\<not> owning MAcquired" "\<not> owning MReleasing" "\<not> owning MOutside" "\<not> owning MFailed"
  by (simp_all add: holding_def owning_def)

lemma not_holder: "\<not> holding (f t) \<Longrightarrow> holders f - {t} = holders f"
  by (auto simp: holders_def)

text \<open>A holder is the only one, and the owner word is its own once it has stored it.\<close>

lemma holder_is: "mutex_inv s \<Longrightarrow> holding (ms_pc s t) \<Longrightarrow> t \<noteq> 0 \<and> mcs_mutex_is_locked (ms_mutex s)
  \<and> holders (ms_pc s) = {t} \<and> mx_owner (ms_mutex s) = (if owning (ms_pc s t) then t else 0)"
  using mem_holders [of t "ms_pc s"] unfolding mutex_inv_def by (auto split: if_splits)

lemma owner_holds: "mutex_inv s \<Longrightarrow> mx_owner (ms_mutex s) = t \<Longrightarrow> t \<noteq> 0 \<Longrightarrow> owning (ms_pc s t)"
  unfolding mutex_inv_def by (auto split: if_splits)

lemma free_no_holder: "mutex_inv s \<Longrightarrow> \<not> mcs_mutex_is_locked (ms_mutex s) \<Longrightarrow> holders (ms_pc s) = {} \<and> mx_owner (ms_mutex s) = 0"
  by (simp add: mutex_inv_def)

text \<open>A move of a thread that does not hold the mutex, and one of the thread that does.\<close>

lemma mutex_inv_outside:
  assumes "mutex_inv s" "\<not> holding (ms_pc s t)" "\<not> holding pc"
  shows "mutex_inv (mgoto t pc s)"
proof -
  have h: "holders ((ms_pc s)(t := pc)) = holders (ms_pc s)"
    using assms(2,3) by (simp add: holders_upd not_holder)
  have "u \<noteq> t" if "holders (ms_pc s) = {u}" for u
    using that assms(2) mem_holders [of t "ms_pc s"] by auto
  with assms(1) h show ?thesis by (auto simp: mutex_inv_def split: if_splits)
qed

lemma mutex_inv_holder:
  assumes "mutex_inv s" "holding (ms_pc s t)" "holding pc" "mcs_mutex_is_locked m"
    and "mx_owner m = (if owning pc then t else 0)"
  shows "mutex_inv (mgoto t pc (s\<lparr>ms_mutex := m\<rparr>))"
  using holder_is [OF assms(1,2)] assms(3-5) by (auto simp: mutex_inv_def holders_upd)

lemma mutex_inv_result [simp]: "mutex_inv (s\<lparr>ms_result := r\<rparr>) = mutex_inv s"
  by (simp add: mutex_inv_def)

lemma mutex_step_inv: "mutex_step s s' \<Longrightarrow> mutex_inv s \<Longrightarrow> mutex_inv s'"
proof (induction rule: mutex_step.induct)
  case (mutex_got t s m)
  then have m: "\<not> mcs_mutex_is_locked (ms_mutex s)" "mcs_mutex_is_locked m" "mx_owner m = mx_owner (ms_mutex s)"
    by (auto simp: mutex_cas_def mcs_mutex_is_locked_def split: if_splits)
  from free_no_holder [OF mutex_got(4) m(1)] mutex_got(1) m(2,3) show ?case
    by (auto simp: mutex_inv_def holders_upd)
next
  case (mutex_missed t s m)
  then show ?case by (intro mutex_inv_outside) auto
next
  case (mutex_again s t m)
  from holder_is [OF mutex_again(3), of t] mutex_again mutex_inv_holder [OF mutex_again(3), of t MHeldFailed "ms_mutex s"]
  show ?case by simp
next
  case (mutex_fail s t)
  then show ?case by (simp add: mutex_inv_outside)
next
  case (mutex_held_fail s t)
  from holder_is [OF mutex_held_fail(2), of t] mutex_held_fail mutex_inv_holder [OF mutex_held_fail(2), of t MHeld "ms_mutex s"]
  show ?case by simp
next
  case (mutex_own s t)
  from holder_is [OF mutex_own(2), of t] mutex_own(1) show ?case
    by (intro mutex_inv_holder mutex_own(2)) (simp_all add: mcs_mutex_is_locked_def)
next
  case (mutex_unlock t s)
  then have "owning (ms_pc s t)" using owner_holds by (simp add: mcs_mutex_owner_def)
  then have "holding (ms_pc s t)" by (auto simp: owning_def)
  from holder_is [OF mutex_unlock(4) this] mutex_unlock mutex_inv_holder [OF mutex_unlock(4) this, of MClearing "ms_mutex s"]
  show ?case by (simp add: mcs_mutex_owner_def)
next
  case (mutex_clear s t)
  from holder_is [OF mutex_clear(2), of t] mutex_clear(1) show ?case
    by (intro mutex_inv_holder mutex_clear(2)) (simp_all add: mcs_mutex_is_locked_def)
next
  case (mutex_release s t)
  from holder_is [OF mutex_release(2), of t] mutex_release(1) show ?case
    by (simp add: mutex_inv_def holders_upd mcs_mutex_is_locked_def)
qed simp

lemma mutex_reach_inv: "mutex_reach s \<Longrightarrow> mutex_inv s"
proof (induction rule: mutex_reach.induct)
  case (mutex_start class_id name)
  then show ?case by (simp add: mutex_inv_def holders_def mcs_mutex_init_def mcs_mutex_is_locked_def)
qed (use mutex_step_inv in blast)

text \<open>
  C21. The mutex is exclusive and owned in every interleaving: at most one thread holds it; a thread that
  holds it is recorded as its owner and gets a deadlock error when it locks again; a thread outside
  cannot unlock it, and when it tries to lock a held mutex it gets busy, never the deadlock error.
\<close>

theorem mutex_exclusive_and_owned:
  assumes "mutex_reach s"
  shows "(\<forall>t u. holding (ms_pc s t) \<longrightarrow> holding (ms_pc s u) \<longrightarrow> t = u)
    \<and> (\<forall>t. ms_pc s t = MHeld \<longrightarrow> mcs_mutex_owner (ms_mutex s) = t
         \<and> mcs_mutex_try_lock t (ms_mutex s) = (Inl MCS_SYNC_EDEADLK, ms_mutex s))
    \<and> (\<forall>t. ms_pc s t = MOutside \<longrightarrow> t \<noteq> 0 \<longrightarrow>
         mcs_mutex_unlock t (ms_mutex s) = (Inl MCS_SYNC_EPERM, ms_mutex s)
         \<and> fst (mcs_mutex_try_lock t (ms_mutex s)) = (if mcs_mutex_is_locked (ms_mutex s) then Inl MCS_SYNC_EBUSY else Inr ()))"
proof -
  have inv: "mutex_inv s" by (rule mutex_reach_inv [OF assms])
  have "t = u" if "holding (ms_pc s t)" "holding (ms_pc s u)" for t u
    using holder_is [OF inv that(1)] holder_is [OF inv that(2)] by auto
  moreover have "mcs_mutex_owner (ms_mutex s) = t
      \<and> mcs_mutex_try_lock t (ms_mutex s) = (Inl MCS_SYNC_EDEADLK, ms_mutex s)" if "ms_pc s t = MHeld" for t
    using holder_is [OF inv, of t] that
    by (simp add: mcs_mutex_owner_def mcs_mutex_try_lock_def mutex_cas_def mutex_busy_def mcs_mutex_is_locked_def)
  moreover have "mcs_mutex_unlock t (ms_mutex s) = (Inl MCS_SYNC_EPERM, ms_mutex s)
      \<and> fst (mcs_mutex_try_lock t (ms_mutex s)) = (if mcs_mutex_is_locked (ms_mutex s) then Inl MCS_SYNC_EBUSY else Inr ())"
    if "ms_pc s t = MOutside" "t \<noteq> 0" for t
  proof -
    have "mx_owner (ms_mutex s) \<noteq> t" using owner_holds [OF inv, of t] that by auto
    with that(2) show ?thesis
      by (simp add: mcs_mutex_unlock_def mcs_mutex_try_lock_def mutex_cas_def mutex_busy_def mcs_mutex_is_locked_def)
  qed
  ultimately show ?thesis by blast
qed

section \<open>The self-test\<close>

text \<open>
  \<open>m12_sync_selftest\<close>: the lock checker around a lock, an increment of the shared counter and an unlock.
  \<open>kernel_panic\<close> does not return, so it ends the run with its message; \<open>None\<close> is a run that never
  returns.
\<close>

definition m12_sync_selftest :: "mcs_lockdep_state \<Rightarrow> u64 \<Rightarrow> (string + (mcs_lockdep_state \<times> mcs_spinlock \<times> u64)) option" where
  "m12_sync_selftest lockdep0 counter =
     (let lockdep = mcs_lockdep_init lockdep0; lock = mcs_spin_init 10 (Some ''boot_stats'') in
      case mcs_lockdep_before_acquire 10 (Some ''boot_stats'') lockdep of
        (Inl _, _) \<Rightarrow> Some (Inl ''M12 lockdep acquire failed'')
      | (Inr _, lockdep1) \<Rightarrow>
          Option.bind (mcs_spin_lock lock) (\<lambda>lock1.
            let lock2 = mcs_spin_unlock lock1 in
            case mcs_lockdep_after_release 10 (Some ''boot_stats'') lockdep1 of
              (Inl _, _) \<Rightarrow> Some (Inl ''M12 lockdep release failed'')
            | (Inr _, lockdep2) \<Rightarrow> Some (Inr (lockdep2, lock2, counter + 1))))"

lemma spin_lock_free: "sp_locked l = 0 \<Longrightarrow> mcs_spin_lock l = Some (l\<lparr>sp_locked := 1\<rparr>)"
  by (subst mcs_spin_lock.simps) (simp add: mcs_spin_try_lock_def)

text \<open>
  C22. The self-test terminates without a panic: the checker accepts the lock and its release, the lock
  ends free, the counter is one higher, and no lock is left registered as held.
\<close>

theorem selftest_passes:
  assumes "length (held_class st) = 16" "length (held_name st) = 16"
  shows "\<exists>st' l. m12_sync_selftest st counter = Some (Inr (st', l, counter + 1))
    \<and> lockdep_ok st' \<and> held st' = [] \<and> \<not> mcs_spin_is_locked l"
proof -
  note init = lockdep_init_ok [OF assms]
  have c: "(10 :: u32) \<noteq> 0" "length (held (mcs_lockdep_init st)) < 16" "\<forall>x\<in>set (held (mcs_lockdep_init st)). x < 10"
    by (simp_all add: init)
  from acquire_accepted [OF init(1) c] obtain st1 where
    st1: "mcs_lockdep_before_acquire 10 (Some ''boot_stats'') (mcs_lockdep_init st) = (Inr (), st1)"
      "lockdep_ok st1" "held st1 = [] @ [10]" by (metis init(2))
  from release_accepted [OF st1(2,3)] obtain st2 where
    "mcs_lockdep_after_release 10 (Some ''boot_stats'') st1 = (Inr (), st2)" "lockdep_ok st2" "held st2 = []" .
  with st1(1) show ?thesis
    by (simp add: m12_sync_selftest_def Let_def spin_lock_free mcs_spin_init_def mcs_spin_unlock_def mcs_spin_is_locked_def)
qed

section \<open>Concrete instances\<close>

definition demo_lockdep :: mcs_lockdep_state where
  "demo_lockdep = \<lparr>held_class = replicate 16 0, held_name = replicate 16 None, ld_depth = 0, violation_count = 0\<rparr>"

lemma demo_lockdep_ok: "lockdep_ok demo_lockdep" "in_order 10 demo_lockdep" "held demo_lockdep = []"
  by (simp_all add: demo_lockdep_def lockdep_ok_def in_order_def held_def)

theorem selftest_passes_witness:
  "\<exists>st' l. m12_sync_selftest demo_lockdep 41 = Some (Inr (st', l, 42)) \<and> held st' = []"
  using selftest_passes [of demo_lockdep 41] by (auto simp: demo_lockdep_def)

theorem lockdep_stack_witness:
  "\<exists>st. mcs_lockdep_before_acquire 10 None demo_lockdep = (Inr (), st) \<and> lockdep_ok st \<and> held st = [10]"
  using lockdep_stack [OF demo_lockdep_ok(1), of 10 None] demo_lockdep_ok(2,3)
  by (auto split: prod.splits sum.splits)

theorem lockdep_no_deadlock_witness: "acyclic (waits_for (\<lambda>t :: nat. demo_lockdep) (\<lambda>t. Some 10))"
proof (rule lockdep_no_deadlock [where name = None])
  show "\<forall>t :: nat. lockdep_ok demo_lockdep" by (simp add: demo_lockdep_ok)
  have "(10 :: u32) \<noteq> 0" "length (held demo_lockdep) < 16" "\<forall>x\<in>set (held demo_lockdep). x < 10"
    by (simp_all add: demo_lockdep_ok)
  from acquire_accepted [OF demo_lockdep_ok(1) this, of None]
  show "\<forall>(t :: nat) c. Some 10 = Some c \<longrightarrow> fst (mcs_lockdep_before_acquire c None demo_lockdep) = Inr ()"
    by (metis fst_conv option.inject)
qed

definition demo_spin :: spin_system where
  "demo_spin = \<lparr>ss_lock = mcs_spin_init 1 None, ss_counter = 0, ss_pc = \<lambda>_. SOutside, completed = 0\<rparr>"

definition demo_spin_held :: spin_system where
  "demo_spin_held = goto 0 SLoad ((goto 0 STry demo_spin)\<lparr>ss_lock := snd (mcs_spin_try_lock (mcs_spin_init 1 None))\<rparr>)"

lemma demo_spin_reach: "spin_reach demo_spin_held"
proof -
  have "spin_reach demo_spin" unfolding demo_spin_def by (rule reach_init)
  then have tr: "spin_reach (goto 0 STry demo_spin)"
    by (rule reach_step) (rule spin_enter, simp add: demo_spin_def)
  have "spin_step (goto 0 STry demo_spin) (goto 0 SLoad ((goto 0 STry demo_spin)\<lparr>ss_lock := snd (mcs_spin_try_lock (mcs_spin_init 1 None))\<rparr>))"
    by (rule spin_got) (simp_all add: demo_spin_def mcs_spin_try_lock_def mcs_spin_init_def)
  then show ?thesis using reach_step [OF tr] by (simp add: demo_spin_held_def)
qed

theorem spinlock_mutual_exclusion_witness:
  "spin_reach demo_spin_held \<and> ss_pc demo_spin_held 0 = SLoad \<and> \<not> critical (ss_pc demo_spin_held 1)"
proof -
  have pc: "ss_pc demo_spin_held 0 = SLoad" by (simp add: demo_spin_held_def)
  have "(0 :: nat) \<noteq> 1" by simp
  with spinlock_mutual_exclusion [OF demo_spin_reach] pc demo_spin_reach show ?thesis by (metis critical.simps(4))
qed

definition demo_mutex :: mutex_system where
  "demo_mutex = \<lparr>ms_mutex = mcs_mutex_init 1 None, ms_pc = \<lambda>_. MOutside, ms_result = \<lambda>_. None\<rparr>"

definition demo_mutex_got :: mutex_system where
  "demo_mutex_got = mgoto 1 MAcquired (demo_mutex\<lparr>ms_mutex := (mcs_mutex_init 1 None)\<lparr>mx_locked := 1\<rparr>\<rparr>)"

definition demo_mutex_held :: mutex_system where
  "demo_mutex_held = mgoto 1 MHeld (demo_mutex_got\<lparr>ms_mutex := (ms_mutex demo_mutex_got)\<lparr>mx_owner := 1\<rparr>\<rparr>)"

lemma demo_mutex_reach: "mutex_reach demo_mutex_held"
proof -
  have "mutex_reach demo_mutex" unfolding demo_mutex_def by (rule mutex_start)
  moreover have "mutex_step demo_mutex demo_mutex_got"
    unfolding demo_mutex_got_def
    by (rule mutex_got) (simp_all add: demo_mutex_def mutex_cas_def mcs_mutex_init_def)
  ultimately have got: "mutex_reach demo_mutex_got" by (rule mutex_more)
  have "mutex_step demo_mutex_got demo_mutex_held"
    unfolding demo_mutex_held_def by (rule mutex_own) (simp add: demo_mutex_got_def)
  then show ?thesis by (rule mutex_more [OF got])
qed

theorem mutex_exclusive_and_owned_witness:
  "mutex_reach demo_mutex_held \<and> mcs_mutex_owner (ms_mutex demo_mutex_held) = 1
    \<and> mcs_mutex_unlock 2 (ms_mutex demo_mutex_held) = (Inl MCS_SYNC_EPERM, ms_mutex demo_mutex_held)"
proof -
  have "ms_pc demo_mutex_held 1 = MHeld" "ms_pc demo_mutex_held 2 = MOutside"
    by (simp_all add: demo_mutex_held_def demo_mutex_got_def demo_mutex_def)
  with mutex_exclusive_and_owned [OF demo_mutex_reach] demo_mutex_reach show ?thesis by force
qed

end
