(* ===== verification/Kmem.thy ===== *)
theory Kmem
  imports Prelude Bytes
begin

text \<open>
  The kernel heap of \<open>src/kernel/mm/kmem.c\<close>: a first-fit allocator over one region of memory, whose
  blocks each start with a 40-byte header and are linked in address order. The memory is a function
  from 64-bit addresses to bytes, headers are read from and written to those bytes field by field,
  and a loop over the linked blocks is a partial function whose value is \<open>None\<close> when it does not end.
\<close>

section \<open>Memory and block headers\<close>

type_synonym kmemory = "u64 \<Rightarrow> u8"

definition ld :: "kmemory \<Rightarrow> u64 \<Rightarrow> nat \<Rightarrow> bytes" where
  "ld m a n = map (\<lambda>i. m (a + of_nat i)) [0..<n]"

definition st :: "kmemory \<Rightarrow> u64 \<Rightarrow> bytes \<Rightarrow> kmemory" where
  "st m a bs = (\<lambda>x. if unat (x - a) < length bs then bs ! unat (x - a) else m x)"

definition KMEM_ALIGN :: u32 where [layout]: "KMEM_ALIGN = 16"
definition KMEM_MAGIC :: u64 where [layout]: "KMEM_MAGIC = 0x4d43534f53484541"

text \<open>
  \<open>struct kmem_header\<close>: magic at 0, size at 8, next at 16, is_free at 24, then padding; its size is
  40 because of the alignment of its 64-bit fields.
\<close>

record kmem_header =
  h_magic :: u64
  h_size :: u64
  h_next :: u64
  h_free :: u32

definition header_size :: u64 where [layout]: "header_size = 40"

definition hdr :: "kmemory \<Rightarrow> u64 \<Rightarrow> kmem_header" where
  "hdr m a = \<lparr>h_magic = le_dec (ld m a 8), h_size = le_dec (ld m (a + 8) 8),
              h_next = le_dec (ld m (a + 16) 8), h_free = le_dec (ld m (a + 24) 4)\<rparr>"

definition set_magic :: "u64 \<Rightarrow> u64 \<Rightarrow> kmemory \<Rightarrow> kmemory" where
  "set_magic a v m = st m a (le_enc 8 v)"
definition set_size :: "u64 \<Rightarrow> u64 \<Rightarrow> kmemory \<Rightarrow> kmemory" where
  "set_size a v m = st m (a + 8) (le_enc 8 v)"
definition set_next :: "u64 \<Rightarrow> u64 \<Rightarrow> kmemory \<Rightarrow> kmemory" where
  "set_next a v m = st m (a + 16) (le_enc 8 v)"
definition set_free :: "u64 \<Rightarrow> u32 \<Rightarrow> kmemory \<Rightarrow> kmemory" where
  "set_free a v m = st m (a + 24) (le_enc 4 v)"

section \<open>The allocator\<close>

record kmem =
  heap_base :: u64
  heap_bytes :: u64
  kmem_ready :: bool
  kmem_mem :: kmemory

definition local_memset :: "u64 \<Rightarrow> u8 \<Rightarrow> u64 \<Rightarrow> kmemory \<Rightarrow> kmemory" where
  "local_memset p v num m = (\<lambda>x. if x - p < num then v else m x)"

definition kmem_reset_for_test :: "kmem \<Rightarrow> kmem" where
  "kmem_reset_for_test k = k\<lparr>heap_base := 0, heap_bytes := 0, kmem_ready := False\<rparr>"

definition kmem_init :: "u64 \<Rightarrow> u64 \<Rightarrow> kmem \<Rightarrow> int \<times> kmem" where
  "kmem_init base bytes k =
     (if kmem_ready k then (- 1, k)
      else if base = 0 \<or> bytes < header_size + ucast KMEM_ALIGN then (- 2, k)
      else let payload_addr = base + header_size;
               aligned_payload = (payload_addr + ucast (KMEM_ALIGN - 1)) AND NOT (ucast (KMEM_ALIGN - 1));
               final_header_addr = aligned_payload - header_size;
               off = final_header_addr - base
           in if bytes \<le> off + header_size then (- 2, k)
              else (0, k\<lparr>heap_base := final_header_addr, heap_bytes := bytes - off,
                         kmem_mem := set_free final_header_addr 1
                           (set_next final_header_addr 0
                             (set_size final_header_addr (bytes - off - header_size)
                               (set_magic final_header_addr KMEM_MAGIC (kmem_mem k)))),
                         kmem_ready := True\<rparr>))"

text \<open>
  \<open>(x + (KMEM_ALIGN - 1)) & ~(KMEM_ALIGN - 1)\<close>: the mask has the 32-bit type of \<open>16u\<close>, so it is
  complemented at 32 bits and then widened with zeros.
\<close>

definition kmem_round :: "u64 \<Rightarrow> u64" where
  "kmem_round x = (x + ucast (KMEM_ALIGN - 1)) AND ucast (NOT (KMEM_ALIGN - 1))"

definition take_block :: "u64 \<Rightarrow> u64 \<Rightarrow> kmemory \<Rightarrow> u64 \<times> kmemory" where
  "take_block aligned_size cur m =
     (let needed_space = kmem_round (aligned_size + header_size);
          m1 = (if needed_space + header_size + ucast KMEM_ALIGN \<le> h_size (hdr m cur)
                then let next_block = cur + needed_space;
                         ma = set_magic next_block KMEM_MAGIC m;
                         mb = set_size next_block (h_size (hdr ma cur) - needed_space) ma;
                         mc = set_next next_block (h_next (hdr mb cur)) mb;
                         md = set_free next_block 1 mc
                     in set_next cur next_block (set_size cur (needed_space - header_size) md)
                else m)
      in (cur + header_size, set_free cur 0 m1))"

partial_function (option) alloc_from :: "u64 \<Rightarrow> u64 \<Rightarrow> kmemory \<Rightarrow> (u64 \<times> kmemory) option" where
  "alloc_from aligned_size cur m =
     (if cur = 0 then Some (0, m)
      else if h_magic (hdr m cur) \<noteq> KMEM_MAGIC then Some (0, m)
      else if h_free (hdr m cur) \<noteq> 0 \<and> aligned_size \<le> h_size (hdr m cur)
      then Some (take_block aligned_size cur m)
      else alloc_from aligned_size (h_next (hdr m cur)) m)"

definition kmem_alloc :: "u64 \<Rightarrow> kmem \<Rightarrow> (u64 \<times> kmem) option" where
  "kmem_alloc bytes k =
     (if \<not> kmem_ready k \<or> bytes = 0 then Some (0, k)
      else map_option (\<lambda>(p, m). (p, k\<lparr>kmem_mem := m\<rparr>))
             (alloc_from (kmem_round bytes) (heap_base k) (kmem_mem k)))"

definition kmem_calloc :: "u64 \<Rightarrow> u64 \<Rightarrow> kmem \<Rightarrow> (u64 \<times> kmem) option" where
  "kmem_calloc count bytes k =
     (if count = 0 \<or> bytes = 0 then Some (0, k)
      else if (- 1) div bytes < count then Some (0, k)
      else let tot = count * bytes in
        map_option (\<lambda>(ptr, k'). (ptr, if ptr \<noteq> 0 then k'\<lparr>kmem_mem := local_memset ptr 0 tot (kmem_mem k')\<rparr> else k'))
          (kmem_alloc tot k))"

partial_function (option) merge_free :: "u64 \<Rightarrow> kmemory \<Rightarrow> (bool \<times> kmemory) option" where
  "merge_free cur m =
     (if h_free (hdr m cur) \<noteq> 0 \<and> h_next (hdr m cur) \<noteq> 0 \<and> h_free (hdr m (h_next (hdr m cur))) \<noteq> 0
      then if h_magic (hdr m (h_next (hdr m cur))) \<noteq> KMEM_MAGIC then Some (False, m)
           else let m1 = set_size cur (h_size (hdr m cur) + (header_size + h_size (hdr m (h_next (hdr m cur))))) m
                in merge_free cur (set_next cur (h_next (hdr m1 (h_next (hdr m1 cur)))) m1)
      else Some (True, m))"

partial_function (option) coalesce_from :: "u64 \<Rightarrow> kmemory \<Rightarrow> (int \<times> kmemory) option" where
  "coalesce_from cur m =
     (if cur = 0 then Some (0, m)
      else if h_magic (hdr m cur) \<noteq> KMEM_MAGIC then Some (- 4, m)
      else Option.bind (merge_free cur m)
        (\<lambda>(ok, m'). if ok then coalesce_from (h_next (hdr m' cur)) m' else Some (- 4, m')))"

definition kmem_free_checked :: "u64 \<Rightarrow> kmem \<Rightarrow> (int \<times> kmem) option" where
  "kmem_free_checked ptr k =
     (if \<not> kmem_ready k then Some (- 1, k)
      else if ptr = 0 then Some (0, k)
      else if ptr \<le> heap_base k \<or> heap_base k + heap_bytes k \<le> ptr then Some (- 3, k)
      else let block = ptr - header_size; m = kmem_mem k in
        if h_magic (hdr m block) \<noteq> KMEM_MAGIC then Some (- 4, k)
        else if h_free (hdr m block) \<noteq> 0 then Some (- 2, k)
        else map_option (\<lambda>(rc, m'). (rc, k\<lparr>kmem_mem := m'\<rparr>))
               (coalesce_from (heap_base k) (set_free block 1 m)))"

record kmem_stats =
  total_bytes :: u64
  used_bytes :: u64
  free_bytes :: u64
  block_count :: u64
  free_count :: u64
  largest_free :: u64

definition zero_stats :: kmem_stats where
  "zero_stats = \<lparr>total_bytes = 0, used_bytes = 0, free_bytes = 0, block_count = 0, free_count = 0, largest_free = 0\<rparr>"

definition count_block :: "kmem_header \<Rightarrow> kmem_stats \<Rightarrow> kmem_stats" where
  "count_block h out0 =
     (let out = out0\<lparr>block_count := block_count out0 + 1\<rparr>
      in if h_free h \<noteq> 0
         then let o1 = out\<lparr>free_count := free_count out + 1, free_bytes := free_bytes out + h_size h\<rparr>
              in if largest_free o1 < h_size h then o1\<lparr>largest_free := h_size h\<rparr> else o1
         else out\<lparr>used_bytes := used_bytes out + h_size h\<rparr>)"

partial_function (option) stats_from :: "u64 \<Rightarrow> kmemory \<Rightarrow> kmem_stats \<Rightarrow> kmem_stats option" where
  "stats_from cur m out =
     (if cur = 0 then Some out
      else if h_magic (hdr m cur) \<noteq> KMEM_MAGIC then Some out
      else stats_from (h_next (hdr m cur)) m (count_block (hdr m cur) out))"

definition kmem_get_stats :: "kmem \<Rightarrow> kmem_stats option" where
  "kmem_get_stats k =
     (if \<not> kmem_ready k then Some zero_stats
      else stats_from (heap_base k) (kmem_mem k) (zero_stats\<lparr>total_bytes := heap_bytes k\<rparr>))"

partial_function (option) kmem_validate_from :: "kmem \<Rightarrow> u64 \<Rightarrow> int option" where
  "kmem_validate_from k cur =
     (if cur = 0 then Some 0
      else if cur < heap_base k \<or> heap_base k + heap_bytes k \<le> cur then Some (- 2)
      else if h_magic (hdr (kmem_mem k) cur) \<noteq> KMEM_MAGIC then Some (- 3)
      else kmem_validate_from k (h_next (hdr (kmem_mem k) cur)))"

definition kmem_validate :: "kmem \<Rightarrow> int option" where
  "kmem_validate k = (if \<not> kmem_ready k then Some (- 1) else kmem_validate_from k (heap_base k))"

section \<open>Reading a header after a write\<close>

lemma ld_cong: "(\<And>i. i < n \<Longrightarrow> m' (a + of_nat i) = m (a + of_nat i)) \<Longrightarrow> ld m' a n = ld m a n"
  by (simp add: ld_def)

lemma unat_small: "n < 64 \<Longrightarrow> unat (of_nat n :: u64) = n"
  by (simp add: unat_of_nat)

lemma unat_of_nat_u64: "n < 18446744073709551616 \<Longrightarrow> unat (of_nat n :: u64) = n"
  by (simp add: unat_of_nat)

lemma ld_st_same:
  assumes "length bs = n" "n < 64"
  shows "ld (st m a bs) a n = bs"
  using assms by (intro nth_equalityI) (auto simp: ld_def st_def unat_of_nat)

lemma unat_of_nat_diff:
  assumes "p < 18446744073709551616" "q < 18446744073709551616"
  shows "unat (of_nat p - of_nat q :: u64) = (if q \<le> p then p - q else 18446744073709551616 + p - q)"
  using assms by (simp add: unat_sub_if' unat_of_nat_u64, arith)

lemma ld_st_other:
  fixes a b :: nat
  assumes "a + length bs \<le> b \<or> b + n \<le> a" "a + length bs \<le> 18446744073709551616" "b + n \<le> 18446744073709551616"
  shows "ld (st m (of_nat a) bs) (of_nat b) n = ld m (of_nat b) n"
proof (rule ld_cong)
  fix i assume i: "i < n"
  have "\<not> unat (of_nat (b + i) - of_nat a :: u64) < length bs" if "bs \<noteq> []"
  proof -
    from that have "0 < length bs" by simp
    with assms i have "a < 18446744073709551616" "b + i < 18446744073709551616" by linarith+
    then show ?thesis using assms i by (subst unat_of_nat_diff) auto
  qed
  then show "st m (of_nat a) bs (of_nat b + of_nat i) = m (of_nat b + of_nat i)"
    by (cases "bs = []") (simp_all add: st_def)
qed

lemma st_outside:
  assumes "a + length bs \<le> x \<or> x < a" "a + length bs \<le> 18446744073709551616" "x < 18446744073709551616"
  shows "st m (of_nat a) bs (of_nat x) = m (of_nat x)"
  using ld_st_other [of a bs x 1 m] assms by (auto simp: ld_def)

definition fits :: "nat \<Rightarrow> bool" where
  "fits a \<longleftrightarrow> a + 40 \<le> 18446744073709551616"

lemma hdr_set_self:
  assumes "fits a"
  shows "hdr (set_magic (of_nat a) v m) (of_nat a) = (hdr m (of_nat a))\<lparr>h_magic := v\<rparr>"
    and "hdr (set_size (of_nat a) v m) (of_nat a) = (hdr m (of_nat a))\<lparr>h_size := v\<rparr>"
    and "hdr (set_next (of_nat a) v m) (of_nat a) = (hdr m (of_nat a))\<lparr>h_next := v\<rparr>"
    and "hdr (set_free (of_nat a) w m) (of_nat a) = (hdr m (of_nat a))\<lparr>h_free := w\<rparr>"
proof -
  have add: "of_nat a + 8 = (of_nat (a + 8) :: u64)" "of_nat a + 16 = (of_nat (a + 16) :: u64)"
    "of_nat a + 24 = (of_nat (a + 24) :: u64)" by simp_all
  note fit = assms [unfolded fits_def]
  show "hdr (set_magic (of_nat a) v m) (of_nat a) = (hdr m (of_nat a))\<lparr>h_magic := v\<rparr>"
    using fit by (simp del: of_nat_add add: hdr_def set_magic_def add ld_st_same le_dec_enc ld_st_other)
  show "hdr (set_size (of_nat a) v m) (of_nat a) = (hdr m (of_nat a))\<lparr>h_size := v\<rparr>"
    using fit by (simp del: of_nat_add add: hdr_def set_size_def add ld_st_same le_dec_enc ld_st_other)
  show "hdr (set_next (of_nat a) v m) (of_nat a) = (hdr m (of_nat a))\<lparr>h_next := v\<rparr>"
    using fit by (simp del: of_nat_add add: hdr_def set_next_def add ld_st_same le_dec_enc ld_st_other)
  show "hdr (set_free (of_nat a) w m) (of_nat a) = (hdr m (of_nat a))\<lparr>h_free := w\<rparr>"
    using fit by (simp del: of_nat_add add: hdr_def set_free_def add ld_st_same le_dec_enc ld_st_other)
qed

lemma set_outside:
  assumes "fits a" "a + 40 \<le> x \<or> x < a" "x < 18446744073709551616"
  shows "set_magic (of_nat a) v m (of_nat x) = m (of_nat x)"
    and "set_size (of_nat a) v m (of_nat x) = m (of_nat x)"
    and "set_next (of_nat a) v m (of_nat x) = m (of_nat x)"
    and "set_free (of_nat a) w m (of_nat x) = m (of_nat x)"
proof -
  have add: "of_nat a + 8 = (of_nat (a + 8) :: u64)" "of_nat a + 16 = (of_nat (a + 16) :: u64)"
    "of_nat a + 24 = (of_nat (a + 24) :: u64)" by simp_all
  note fit = assms [unfolded fits_def]
  show "set_magic (of_nat a) v m (of_nat x) = m (of_nat x)" using fit
    unfolding set_magic_def by (intro st_outside) auto
  show "set_size (of_nat a) v m (of_nat x) = m (of_nat x)" using fit
    unfolding set_size_def add by (intro st_outside) auto
  show "set_next (of_nat a) v m (of_nat x) = m (of_nat x)" using fit
    unfolding set_next_def add by (intro st_outside) auto
  show "set_free (of_nat a) w m (of_nat x) = m (of_nat x)" using fit
    unfolding set_free_def add by (intro st_outside) auto
qed

lemma hdr_cong:
  assumes "\<And>x. a \<le> x \<Longrightarrow> x < a + 40 \<Longrightarrow> m' (of_nat x) = m (of_nat x)"
  shows "hdr m' (of_nat a) = hdr m (of_nat a)"
proof -
  have "ld m' (of_nat a + of_nat k) n = ld m (of_nat a + of_nat k) n" if "k + n \<le> 40" for k n
    using assms that by (intro ld_cong) (simp flip: of_nat_add)
  from this [of 0 8] this [of 8 8] this [of 16 8] this [of 24 4] show ?thesis by (simp add: hdr_def)
qed

lemma hdr_set_other:
  assumes "fits a" "fits b" "a + 40 \<le> b \<or> b + 40 \<le> a"
  shows "hdr (set_magic (of_nat a) v m) (of_nat b) = hdr m (of_nat b)"
    and "hdr (set_size (of_nat a) v m) (of_nat b) = hdr m (of_nat b)"
    and "hdr (set_next (of_nat a) v m) (of_nat b) = hdr m (of_nat b)"
    and "hdr (set_free (of_nat a) w m) (of_nat b) = hdr m (of_nat b)"
  using assms by (auto intro!: hdr_cong set_outside simp: fits_def)

section \<open>The abstract heap: sizes and free flags of the blocks in address order\<close>

type_synonym blocks = "(nat \<times> bool) list"

definition span :: "blocks \<Rightarrow> nat" where
  "span bs = sum_list (map (\<lambda>b. 40 + fst b) bs)"

lemma span_simps [simp]:
  "span [] = 0" "span ((s, f) # bs) = 40 + s + span bs" "span (bs @ cs) = span bs + span cs"
  by (simp_all add: span_def)

fun chain :: "kmemory \<Rightarrow> nat \<Rightarrow> blocks \<Rightarrow> bool" where
  "chain m a [] = False"
| "chain m a ((s, f) # bs) \<longleftrightarrow>
     (let h = hdr m (of_nat a) in
       h_magic h = KMEM_MAGIC \<and> h_size h = of_nat s \<and> (h_free h \<noteq> 0) = f \<and>
       (if bs = [] then h_next h = 0
        else h_next h = of_nat (a + 40 + s) \<and> 16 dvd 40 + s \<and> chain m (a + 40 + s) bs))"

definition in_memory :: "nat \<Rightarrow> blocks \<Rightarrow> bool" where
  "in_memory a bs \<longleftrightarrow> 0 < a \<and> a + span bs < 18446744073709551616"

text \<open>The heap of \<open>k\<close> consists of the blocks \<open>bs\<close>, which tile the region it was given.\<close>

definition heap_ok :: "kmem \<Rightarrow> blocks \<Rightarrow> bool" where
  "heap_ok k bs \<longleftrightarrow> kmem_ready k \<and> in_memory (unat (heap_base k)) bs \<and> unat (heap_bytes k) = span bs \<and>
     (unat (heap_base k) + 40) mod 16 = 0 \<and> list_all (\<lambda>b. 0 < fst b) bs \<and> chain (kmem_mem k) (unat (heap_base k)) bs"

text \<open>First fit: the address of the payload, and the blocks afterwards.\<close>

definition carve :: "nat \<Rightarrow> nat \<Rightarrow> blocks" where
  "carve n s = (if n + 104 \<le> s then [(n + 8, False), (s - (n + 48), True)] else [(s, False)])"

fun first_fit :: "nat \<Rightarrow> nat \<Rightarrow> blocks \<Rightarrow> (nat \<times> blocks) option" where
  "first_fit n a [] = None"
| "first_fit n a ((s, f) # bs) =
     (if f \<and> n \<le> s then Some (a + 40, carve n s @ bs)
      else map_option (\<lambda>(p, bs'). (p, (s, f) # bs')) (first_fit n (a + 40 + s) bs))"

text \<open>Coalescing: runs of free blocks become one.\<close>

fun join :: "nat \<times> bool \<Rightarrow> blocks \<Rightarrow> blocks" where
  "join (s, True) ((t, True) # bs) = (s + (40 + t), True) # bs"
| "join b bs = b # bs"

primrec coalesce :: "blocks \<Rightarrow> blocks" where
  "coalesce [] = []"
| "coalesce (b # bs) = join b (coalesce bs)"

definition coalesced :: "blocks \<Rightarrow> bool" where
  "coalesced = successively (\<lambda>x y. \<not> (snd x \<and> snd y))"

text \<open>The payload addresses of the blocks in use, and the headers.\<close>

fun used_bytes_of :: "nat \<Rightarrow> blocks \<Rightarrow> nat set" where
  "used_bytes_of a [] = {}"
| "used_bytes_of a ((s, f) # bs) = (if f then {} else {a + 40..<a + 40 + s}) \<union> used_bytes_of (a + 40 + s) bs"

fun header_bytes_of :: "nat \<Rightarrow> blocks \<Rightarrow> nat set" where
  "header_bytes_of a [] = {}"
| "header_bytes_of a ((s, f) # bs) = {a..<a + 40} \<union> header_bytes_of (a + 40 + s) bs"

lemma used_bytes_of_range: "used_bytes_of a bs \<subseteq> {a + 40..<a + span bs}"
  by (induction a bs rule: used_bytes_of.induct) (simp_all add: subset_eq, force)

lemma header_bytes_of_range: "header_bytes_of a bs \<subseteq> {a..<a + span bs}"
  by (induction a bs rule: header_bytes_of.induct) (simp_all add: subset_eq, force)

lemma used_bytes_of_append: "used_bytes_of a (bs @ cs) = used_bytes_of a bs \<union> used_bytes_of (a + span bs) cs"
  by (induction a bs rule: used_bytes_of.induct) (auto simp: add.assoc)

lemma header_bytes_of_append: "header_bytes_of a (bs @ cs) = header_bytes_of a bs \<union> header_bytes_of (a + span bs) cs"
  by (induction a bs rule: header_bytes_of.induct) (auto simp: add.assoc)

text \<open>The shape of the heap depends on the bytes of the headers only.\<close>

lemma chain_cong:
  "(\<And>x. x \<in> header_bytes_of a bs \<Longrightarrow> m' (of_nat x) = m (of_nat x)) \<Longrightarrow> chain m' a bs = chain m a bs"
proof (induction m a bs rule: chain.induct)
  case (2 m a s f bs)
  have "hdr m' (of_nat a) = hdr m (of_nat a)" using 2(2) by (intro hdr_cong) auto
  moreover have "chain m' (a + 40 + s) bs = chain m (a + 40 + s) bs" if "bs \<noteq> []"
    using 2 that by simp
  ultimately show ?case by (auto simp: Let_def)
qed simp

lemma chain_cong_range:
  assumes "\<And>x. a \<le> x \<Longrightarrow> x < a + span bs \<Longrightarrow> m' (of_nat x) = m (of_nat x)"
  shows "chain m' a bs = chain m a bs"
  by (rule chain_cong) (use assms header_bytes_of_range [of a bs] in auto)

lemma chain_append:
  assumes "cs \<noteq> []"
  shows "chain m a (bs @ cs) \<longleftrightarrow>
    (\<forall>i<length bs. let (s, f) = bs ! i; b = a + span (take i bs); h = hdr m (of_nat b) in
       h_magic h = KMEM_MAGIC \<and> h_size h = of_nat s \<and> (h_free h \<noteq> 0) = f \<and>
       h_next h = of_nat (b + 40 + s) \<and> 16 dvd 40 + s) \<and> chain m (a + span bs) cs"
proof (induction bs arbitrary: a)
  case Nil
  then show ?case by simp
next
  case (Cons b bs)
  obtain s f where b: "b = (s, f)" by (cases b)
  show ?case using Cons [of "a + 40 + s"] assms
    by (auto simp: b Let_def All_less_Suc2 add.assoc)
qed

section \<open>Facts about the abstract heap\<close>

lemma span_carve [simp]: "span (carve n s) = 40 + s"
  by (simp add: carve_def)

lemma carve_Nil [simp]: "carve n s \<noteq> []"
  by (simp add: carve_def)

lemma span_join [simp]: "span (join b bs) = span (b # bs)"
  by (induction b bs rule: join.induct) (simp_all split: prod.splits)

lemma span_coalesce [simp]: "span (coalesce bs) = span bs"
  by (induction bs) (simp_all add: split_paired_all)

lemma join_Nil [simp]: "join b bs \<noteq> []"
  by (induction b bs rule: join.induct) simp_all

lemma coalesce_Nil_iff [simp]: "coalesce bs = [] \<longleftrightarrow> bs = []"
  by (cases bs) simp_all

lemma coalesced_simps [simp]:
  "coalesced []" "coalesced [b]" "coalesced (b # c # bs) \<longleftrightarrow> \<not> (snd b \<and> snd c) \<and> coalesced (c # bs)"
  by (simp_all add: coalesced_def)

lemma join_id: "coalesced (b # bs) \<Longrightarrow> join b bs = b # bs"
  by (induction b bs rule: join.induct) simp_all

lemma coalesce_id: "coalesced bs \<Longrightarrow> coalesce bs = bs"
  by (induction bs) (auto simp: join_id coalesced_def successively_Cons)

lemma coalesced_join: "coalesced bs \<Longrightarrow> coalesced (join b bs)"
  by (induction b bs rule: join.induct) (auto simp: coalesced_def successively_Cons)

lemma coalesced_coalesce: "coalesced (coalesce bs)"
  by (induction bs) (simp_all add: coalesced_join)

lemma join_merge: "join (s, True) (join (t, True) bs) = join (s + (40 + t), True) bs"
  by (induction "(t, True)" bs rule: join.induct) simp_all

lemma coalesce_merge_free:
  "coalesce (bs @ (s, True) # (t, True) # cs) = coalesce (bs @ (s + (40 + t), True) # cs)"
  by (induction bs) (simp_all add: join_merge)

lemma first_fit_SomeD:
  assumes "first_fit n a bs = Some (p, bs')"
  obtains xs s ys where "bs = xs @ (s, True) # ys" "n \<le> s" "p = a + span xs + 40" "bs' = xs @ carve n s @ ys"
    "\<forall>b\<in>set xs. snd b \<longrightarrow> fst b < n"
  using assms
proof (induction bs arbitrary: a p bs' thesis)
  case (Cons b bs)
  obtain s f where b: "b = (s, f)" by (cases b)
  show ?case
  proof (cases "f \<and> n \<le> s")
    case True
    then show ?thesis using Cons(2) [of "[]" s bs] Cons(3) by (simp add: b)
  next
    case False
    then obtain cs where cs: "first_fit n (a + 40 + s) bs = Some (p, cs)" "bs' = b # cs"
      using Cons(3) by (auto simp: b split: if_splits)
    from Cons(1) [OF _ cs(1)] obtain xs t ys where "bs = xs @ (t, True) # ys" "n \<le> t"
      "p = a + 40 + s + span xs + 40" "cs = xs @ carve n t @ ys" "\<forall>b\<in>set xs. snd b \<longrightarrow> fst b < n"
      by blast
    then show ?thesis using Cons(2) [of "b # xs" t ys] False by (auto simp: b cs(2) add_ac)
  qed
qed simp

lemma first_fit_None_iff: "first_fit n a bs = None \<longleftrightarrow> (\<forall>b\<in>set bs. snd b \<longrightarrow> fst b < n)"
  by (induction n a bs rule: first_fit.induct) auto

section \<open>One block taken\<close>

lemma mask_32_4: "(ucast (NOT (15 :: u32)) :: u64) = mask 32 AND NOT (mask 4)"
  by (simp add: mask_eq_exp_minus_1)

lemma round_masks:
  "(ucast (KMEM_ALIGN - 1) :: u64) = 15" "(ucast (NOT (KMEM_ALIGN - 1)) :: u64) = mask 32 AND NOT (mask 4)"
  "(ucast KMEM_ALIGN :: u64) = 16"
  by (simp_all add: KMEM_ALIGN_def flip: mask_32_4)

text \<open>
  The size the allocator takes for a request: the request rounded up to a multiple of 16 and cut to
  32 bits, because the complement of the 32-bit constant \<open>KMEM_ALIGN - 1\<close> has no upper half.
\<close>

definition rounded :: "u64 \<Rightarrow> nat" where
  "rounded x = (unat x + 15) mod 4294967296 div 16 * 16"

lemma kmem_round_rounded: "kmem_round x = of_nat (rounded x)"
proof -
  have u: "unat (x + 15) mod 4294967296 = (unat x + 15) mod 4294967296"
    by (simp add: unat_word_ariths mod_mod_cancel)
  have "kmem_round x = take_bit 32 (x + 15) AND NOT (mask 4)"
    unfolding kmem_round_def round_masks by (simp add: take_bit_eq_mask ac_simps)
  also have "unat \<dots> = rounded x"
    by (simp add: unat_and_not_mask unsigned_take_bit_eq take_bit_nat_def u rounded_def)
  finally show ?thesis by (metis of_nat_unat ucast_id)
qed

lemma rounded: "16 dvd rounded x" "rounded x \<le> 4294967280"
proof -
  show "16 dvd rounded x" by (simp add: rounded_def)
  have "(unat x + 15) mod 4294967296 div 16 < 268435456" by (simp add: div_less_iff_less_mult)
  then show "rounded x \<le> 4294967280" unfolding rounded_def by linarith
qed

lemma kmem_round_eq:
  assumes "unat x + 15 < 4294967296"
  shows "kmem_round x = of_nat ((unat x + 15) div 16 * 16)"
  using assms by (simp add: kmem_round_rounded rounded_def)

lemma unat_le_of_nat:
  "p < 18446744073709551616 \<Longrightarrow> q < 18446744073709551616 \<Longrightarrow> (of_nat p \<le> (of_nat q :: u64)) = (p \<le> q)"
  by (simp add: word_le_nat_alt unat_of_nat_u64)

lemma of_nat_u64_0: "p < 18446744073709551616 \<Longrightarrow> ((of_nat p :: u64) = 0) = (p = 0)"
  by (simp add: word_unat_eq_iff unat_of_nat_u64)

text \<open>Memories that differ at most between two addresses.\<close>

definition same_outside :: "nat \<Rightarrow> nat \<Rightarrow> kmemory \<Rightarrow> kmemory \<Rightarrow> bool" where
  "same_outside a b m m' \<longleftrightarrow> (\<forall>x<18446744073709551616. x < a \<or> b \<le> x \<longrightarrow> m' (of_nat x) = m (of_nat x))"

lemma same_outsideD: "same_outside a b m m' \<Longrightarrow> x < 18446744073709551616 \<Longrightarrow> x < a \<or> b \<le> x \<Longrightarrow> m' (of_nat x) = m (of_nat x)"
  unfolding same_outside_def by blast

lemma same_outside_refl [simp]: "same_outside a b m m"
  by (simp add: same_outside_def)

lemma same_outside_trans:
  "same_outside a b m m' \<Longrightarrow> same_outside c d m' m'' \<Longrightarrow> e \<le> a \<Longrightarrow> e \<le> c \<Longrightarrow> b \<le> f \<Longrightarrow> d \<le> f \<Longrightarrow>
   same_outside e f m m''"
  by (auto simp: same_outside_def)

lemma same_outside_set:
  assumes "fits h" "a \<le> h" "h + 40 \<le> b" "same_outside a b m m'"
  shows "same_outside a b m (set_magic (of_nat h) v m')" and "same_outside a b m (set_size (of_nat h) v m')"
    and "same_outside a b m (set_next (of_nat h) v m')" and "same_outside a b m (set_free (of_nat h) w m')"
  using assms by (auto simp: same_outside_def set_outside)

lemma same_outside_chain:
  assumes "same_outside a b m m'" "b \<le> c \<or> c + span bs \<le> a" "c + span bs \<le> 18446744073709551616"
  shows "chain m' c bs = chain m c bs"
  using assms by (intro chain_cong_range) (auto simp: same_outside_def)

lemma same_outside_hdr:
  assumes "same_outside a b m m'" "b \<le> c \<or> c + 40 \<le> a" "fits c"
  shows "hdr m' (of_nat c) = hdr m (of_nat c)"
  using assms by (intro hdr_cong) (auto simp: same_outside_def fits_def)

lemma needed: "of_nat (n + 48) + header_size + ucast KMEM_ALIGN = (of_nat (n + 104) :: u64)"
  by (simp add: header_size_def round_masks)

lemma take_block_round: "n \<le> s \<Longrightarrow> 16 dvd n \<Longrightarrow> n + 64 \<le> 4294967296 \<Longrightarrow> kmem_round (of_nat n + header_size) = of_nat (n + 48)"
  by (subst kmem_round_eq) (auto simp: header_size_def unat_word_ariths unat_of_nat elim!: dvdE)

lemma chain_head:
  assumes "h_magic (hdr m (of_nat a)) = KMEM_MAGIC" "h_size (hdr m (of_nat a)) = of_nat s" "(h_free (hdr m (of_nat a)) \<noteq> 0) = f"
    "h_next (hdr m (of_nat a)) = (if bs = [] then 0 else of_nat (a + 40 + s))"
    "bs \<noteq> [] \<Longrightarrow> 16 dvd 40 + s" "bs \<noteq> [] \<Longrightarrow> chain m (a + 40 + s) bs"
  shows "chain m a ((s, f) # bs)"
  using assms by (simp add: Let_def)

text \<open>The whole block is taken.\<close>

lemma take_block_whole:
  assumes ch: "chain m a ((s, True) # bs)" and im: "in_memory a ((s, True) # bs)"
    and n: "n \<le> s" "16 dvd n" "n + 64 \<le> 4294967296" and whole: "s < n + 104"
  shows "take_block (of_nat n) (of_nat a) m = (of_nat (a + 40), set_free (of_nat a) 0 m)"
    "chain (set_free (of_nat a) 0 m) a ((s, False) # bs)" "same_outside a (a + 40 + s) m (set_free (of_nat a) 0 m)"
proof -
  let ?m = "set_free (of_nat a) 0 m"
  have im': "a + 40 + s < 18446744073709551616" using im by (simp add: in_memory_def)
  have s: "h_size (hdr m (of_nat a)) = of_nat s" using ch by (simp add: Let_def)
  have nosplit: "\<not> of_nat (n + 48) + header_size + ucast KMEM_ALIGN \<le> (of_nat s :: u64)"
    using whole n im' unat_le_of_nat [of "n + 104" s] unfolding needed by simp
  show "take_block (of_nat n) (of_nat a) m = (of_nat (a + 40), ?m)"
    unfolding take_block_def take_block_round [OF n] Let_def s using nosplit by (simp del: of_nat_add) (simp add: header_size_def)
  have so: "same_outside a (a + 40) m ?m" using im' by (intro same_outside_set) (simp_all add: fits_def)
  then show "same_outside a (a + 40 + s) m ?m" by (auto simp: same_outside_def)
  show "chain ?m a ((s, False) # bs)"
    using ch im im' same_outside_chain [OF so, of "a + 40 + s" bs]
    by (auto simp: Let_def in_memory_def fits_def hdr_set_self)
qed

text \<open>The block is split: the header of the rest is written behind the \<open>n + 8\<close> bytes of the block that is taken.\<close>

definition split_rest :: "nat \<Rightarrow> nat \<Rightarrow> nat \<Rightarrow> kmemory \<Rightarrow> kmemory" where
  "split_rest a n s m = set_free (of_nat (a + n + 48)) 1 (set_next (of_nat (a + n + 48)) (h_next (hdr m (of_nat a)))
     (set_size (of_nat (a + n + 48)) (of_nat (s - (n + 48))) (set_magic (of_nat (a + n + 48)) KMEM_MAGIC m)))"

definition split_block :: "nat \<Rightarrow> nat \<Rightarrow> nat \<Rightarrow> kmemory \<Rightarrow> kmemory" where
  "split_block a n s m = set_free (of_nat a) 0 (set_next (of_nat a) (of_nat (a + n + 48))
     (set_size (of_nat a) (of_nat (n + 8)) (split_rest a n s m)))"

lemma split_block_facts:
  assumes s: "n + 104 \<le> s" "a + 40 + s < 18446744073709551616"
  shows "hdr (split_block a n s m) (of_nat a) =
      (hdr m (of_nat a))\<lparr>h_size := of_nat (n + 8), h_next := of_nat (a + n + 48), h_free := 0\<rparr>"
    "hdr (split_block a n s m) (of_nat (a + n + 48)) =
      \<lparr>h_magic = KMEM_MAGIC, h_size = of_nat (s - (n + 48)), h_next = h_next (hdr m (of_nat a)), h_free = 1\<rparr>"
    "same_outside a (a + 40 + s) m (split_block a n s m)"
proof -
  have fa: "fits a" and fb: "fits (a + n + 48)" and ab: "a + 40 \<le> a + n + 48" using s by (simp_all add: fits_def)
  have "hdr (split_rest a n s m) (of_nat a) = hdr m (of_nat a)"
    unfolding split_rest_def using fa fb ab by (simp_all del: of_nat_add add: hdr_set_other)
  then show "hdr (split_block a n s m) (of_nat a) =
      (hdr m (of_nat a))\<lparr>h_size := of_nat (n + 8), h_next := of_nat (a + n + 48), h_free := 0\<rparr>"
    unfolding split_block_def using fa by (simp del: of_nat_add of_nat_diff add: hdr_set_self)
  have "hdr (split_rest a n s m) (of_nat (a + n + 48)) =
      \<lparr>h_magic = KMEM_MAGIC, h_size = of_nat (s - (n + 48)), h_next = h_next (hdr m (of_nat a)), h_free = 1\<rparr>"
    unfolding split_rest_def using fb by (simp del: of_nat_add of_nat_diff add: hdr_set_self)
  then show "hdr (split_block a n s m) (of_nat (a + n + 48)) =
      \<lparr>h_magic = KMEM_MAGIC, h_size = of_nat (s - (n + 48)), h_next = h_next (hdr m (of_nat a)), h_free = 1\<rparr>"
    unfolding split_block_def using fa fb ab by (simp del: of_nat_add of_nat_diff add: hdr_set_other)
  show "same_outside a (a + 40 + s) m (split_block a n s m)"
    unfolding split_block_def split_rest_def using fa fb s by (intro same_outside_set same_outside_refl) auto
qed

lemma take_block_split:
  assumes hs: "h_size (hdr m (of_nat a)) = of_nat s" and im: "a + 40 + s < 18446744073709551616"
    and n: "n \<le> s" "16 dvd n" "n + 64 \<le> 4294967296" and split: "n + 104 \<le> s"
  shows "take_block (of_nat n) (of_nat a) m = (of_nat (a + 40), split_block a n s m)"
proof -
  let ?b = "a + n + 48"
  have fa: "fits a" and fb: "fits ?b" and ab: "a + 40 \<le> ?b" using im split by (simp_all add: fits_def)
  have spl: "of_nat (n + 48) + header_size + ucast KMEM_ALIGN \<le> (of_nat s :: u64)"
    using split n im unat_le_of_nat [of "n + 104" s] unfolding needed by simp
  have add: "of_nat a + of_nat (n + 48) = (of_nat ?b :: u64)" by simp
  have o: "hdr (set_magic (of_nat ?b) KMEM_MAGIC m) (of_nat a) = hdr m (of_nat a)"
    "hdr (set_size (of_nat ?b) v (set_magic (of_nat ?b) KMEM_MAGIC m)) (of_nat a) = hdr m (of_nat a)" for v
    using fa fb ab by (simp_all del: of_nat_add add: hdr_set_other)
  have sz: "of_nat s - of_nat (n + 48) = (of_nat (s - (n + 48)) :: u64)" using split by (simp add: of_nat_diff)
  have nh: "of_nat (n + 48) - header_size = (of_nat (n + 8) :: u64)" by (simp add: header_size_def)
  have ah: "of_nat a + header_size = (of_nat (a + 40) :: u64)" by (simp add: header_size_def)
  show ?thesis
    unfolding take_block_def Let_def take_block_round [OF n] add o hs sz nh ah split_block_def split_rest_def if_P [OF spl] ..
qed

lemma split_block_chain:
  assumes ch: "chain m a ((s, True) # bs)" and im: "in_memory a ((s, True) # bs)" and n: "16 dvd n" "n + 104 \<le> s"
  shows "chain (split_block a n s m) a ((n + 8, False) # (s - (n + 48), True) # bs)"
proof -
  let ?b = "a + n + 48" and ?m = "split_block a n s m"
  have im': "a + 40 + s + span bs < 18446744073709551616" using im by (simp add: in_memory_def)
  then have as: "a + 40 + s < 18446744073709551616" by simp
  note f = split_block_facts [OF n(2) as, of m]
  have e: "?b + 40 + (s - (n + 48)) = a + 40 + s" and ea: "a + 40 + (n + 8) = ?b" using n(2) by simp_all
  have n48: "16 dvd n + 48" using n(1) by (intro dvd_add) auto
  have rest: "chain ?m (a + 40 + s) bs" "16 dvd 40 + (s - (n + 48))" if "bs \<noteq> []"
  proof -
    have c: "chain m (a + 40 + s) bs" and d: "16 dvd 40 + s" using ch that by (simp_all add: Let_def)
    show "chain ?m (a + 40 + s) bs" using c im' by (subst same_outside_chain [OF f(3)]) auto
    have "40 + (s - (n + 48)) = (40 + s) - (n + 48)" using n(2) by simp
    then show "16 dvd 40 + (s - (n + 48))" using d n48 by (metis dvd_diff_nat)
  qed
  have c: "chain ?m ?b ((s - (n + 48), True) # bs)"
    using ch rest by (intro chain_head) (simp_all only: f e, simp_all add: Let_def)
  have d8: "16 dvd 40 + (n + 8)" using n48 by (simp add: add.commute)
  have hm: "h_magic (hdr m (of_nat a)) = KMEM_MAGIC" using ch by (simp add: Let_def)
  show ?thesis by (rule chain_head) (use c d8 hm in \<open>simp_all only: f ea, simp_all del: chain.simps\<close>)
qed

lemma take_block_chain:
  assumes ch: "chain m a ((s, True) # bs)" and im: "in_memory a ((s, True) # bs)"
    and n: "n \<le> s" "16 dvd n" "n + 64 \<le> 4294967296"
  obtains m' where "take_block (of_nat n) (of_nat a) m = (of_nat (a + 40), m')"
    "chain m' a (carve n s @ bs)" "same_outside a (a + 40 + s) m m'"
proof (cases "n + 104 \<le> s")
  case False
  then show ?thesis using that take_block_whole [OF ch im n] by (simp add: carve_def)
next
  case True
  have hs: "h_size (hdr m (of_nat a)) = of_nat s" and as: "a + 40 + s < 18446744073709551616"
    using ch im by (simp_all add: Let_def in_memory_def)
  have "carve n s @ bs = (n + 8, False) # (s - (n + 48), True) # bs" using True by (simp add: carve_def)
  then show ?thesis
    using that [OF take_block_split [OF hs as n True]] split_block_chain [OF ch im n(2) True] split_block_facts(3) [OF True as]
    by (simp del: chain.simps)
qed

section \<open>The allocation loop is first fit\<close>

lemma in_memory_tl: "in_memory a ((s, f) # bs) \<Longrightarrow> in_memory (a + 40 + s) bs"
  by (simp add: in_memory_def)

lemma chain_tl: "chain m a ((s, f) # bs) \<Longrightarrow> bs \<noteq> [] \<Longrightarrow> chain m (a + 40 + s) bs \<and> 16 dvd 40 + s"
  by (simp only: chain.simps Let_def if_False)

lemma chain_step:
  assumes "chain m a ((s, f) # bs)" "in_memory a ((s, f) # bs)"
  shows "of_nat a \<noteq> (0 :: u64)" "h_magic (hdr m (of_nat a)) = KMEM_MAGIC" "(h_free (hdr m (of_nat a)) \<noteq> 0) = f"
    "h_size (hdr m (of_nat a)) = of_nat s" "fits a" "a < 18446744073709551616" "s < 18446744073709551616"
    "h_next (hdr m (of_nat a)) = (if bs = [] then 0 else of_nat (a + 40 + s))"
  using assms by (auto simp: Let_def in_memory_def fits_def of_nat_u64_0 split: if_splits)

text \<open>What the allocation loop does from a block on, against first fit on the list of the blocks.\<close>

definition alloc_fits :: "nat \<Rightarrow> nat \<Rightarrow> blocks \<Rightarrow> kmemory \<Rightarrow> bool" where
  "alloc_fits n a bs m \<longleftrightarrow> (case first_fit n a bs of
      None \<Rightarrow> alloc_from (of_nat n) (of_nat a) m = Some (0, m)
    | Some (p, bs') \<Rightarrow> \<exists>m'. alloc_from (of_nat n) (of_nat a) m = Some (of_nat p, m') \<and> chain m' a bs' \<and>
        (\<forall>x<18446744073709551616. x \<in> used_bytes_of a bs \<or> x < a \<or> a + span bs \<le> x \<longrightarrow> m' (of_nat x) = m (of_nat x)))"

lemma alloc_from_hit:
  assumes ch: "chain m a ((s, True) # bs)" and im: "in_memory a ((s, True) # bs)"
    and n: "n \<le> s" "16 dvd n" "n + 64 \<le> 4294967296"
  shows "alloc_fits n a ((s, True) # bs) m"
proof -
  note st = chain_step [OF ch im]
  have le: "of_nat n \<le> (of_nat s :: u64)" using n(1,3) st(7) unat_le_of_nat [of n s] by simp
  obtain m' where m': "take_block (of_nat n) (of_nat a) m = (of_nat (a + 40), m')"
    "chain m' a (carve n s @ bs)" "same_outside a (a + 40 + s) m m'" by (rule take_block_chain [OF ch im n])
  have "alloc_from (of_nat n) (of_nat a) m = Some (of_nat (a + 40), m')"
    using m'(1) by (subst alloc_from.simps) (simp add: st le)
  moreover have "x < a \<or> a + 40 + s \<le> x"
    if "x \<in> used_bytes_of a ((s, True) # bs) \<or> x < a \<or> a + span ((s, True) # bs) \<le> x" for x
    using that used_bytes_of_range [of "a + 40 + s" bs] by auto
  ultimately show ?thesis using n(1) m'(2,3) by (auto simp: alloc_fits_def dest: same_outsideD)
qed

lemma alloc_from_skip:
  assumes ch: "chain m a ((s, f) # bs)" and im: "in_memory a ((s, f) # bs)" and n: "n \<le> 4294967296" "\<not> (f \<and> n \<le> s)"
    and rest: "bs \<noteq> [] \<Longrightarrow> alloc_fits n (a + 40 + s) bs m"
  shows "alloc_fits n a ((s, f) # bs) m"
proof -
  note st = chain_step [OF ch im]
  have le: "(of_nat n \<le> (of_nat s :: u64)) = (n \<le> s)" using n(1) st(7) by (intro unat_le_of_nat) auto
  have step: "alloc_from (of_nat n) (of_nat a) m = alloc_from (of_nat n) (if bs = [] then 0 else of_nat (a + 40 + s)) m"
    using n(2) by (subst alloc_from.simps) (auto simp: st le)
  have ff: "first_fit n a ((s, f) # bs) = map_option (\<lambda>(p, cs). (p, (s, f) # cs)) (first_fit n (a + 40 + s) bs)"
    using n(2) by (auto split: option.split)
  show ?thesis
  proof (cases "first_fit n (a + 40 + s) bs")
    case None
    moreover have "alloc_from (of_nat n) 0 m = Some (0, m)" by (subst alloc_from.simps) simp
    ultimately show ?thesis using step ff rest by (auto simp: alloc_fits_def)
  next
    case (Some r)
    then obtain p cs where r: "first_fit n (a + 40 + s) bs = Some (p, cs)" "bs \<noteq> []" by (cases r; cases bs) auto
    with rest obtain m' where m': "alloc_from (of_nat n) (of_nat (a + 40 + s)) m = Some (of_nat p, m')" "chain m' (a + 40 + s) cs"
      "\<forall>x<18446744073709551616. x \<in> used_bytes_of (a + 40 + s) bs \<or> x < a + 40 + s \<or> a + 40 + s + span bs \<le> x \<longrightarrow>
        m' (of_nat x) = m (of_nat x)" by (auto simp: alloc_fits_def)
    have "hdr m' (of_nat a) = hdr m (of_nat a)" using m'(3) st(5) by (intro hdr_cong) (auto simp: fits_def)
    then have "chain m' a ((s, f) # cs)" using ch m'(2) r(2) by (cases cs) (simp_all add: Let_def)
    then show ?thesis using step ff m' r by (auto simp: alloc_fits_def simp del: first_fit.simps split: if_splits)
  qed
qed

lemma alloc_from_first_fit:
  assumes "chain m a bs" "in_memory a bs" "16 dvd n" "n + 64 \<le> 4294967296 \<or> span bs < n \<and> n \<le> 4294967296"
  shows "alloc_fits n a bs m"
  using assms(1,2,4)
proof (induction bs arbitrary: a)
  case (Cons b bs)
  obtain s f where b: "b = (s, f)" by (cases b)
  note c = Cons(2,3) [unfolded b]
  show ?case
  proof (cases "f \<and> n \<le> s")
    case True
    then show ?thesis using alloc_from_hit [of m a s bs n] c assms(3) Cons(4) by (auto simp: b)
  next
    case False
    have "n \<le> 4294967296" "n + 64 \<le> 4294967296 \<or> span bs < n \<and> n \<le> 4294967296" using Cons(4) by (auto simp: b)
    with False show ?thesis
      unfolding b using chain_tl [OF c(1)] Cons(1) in_memory_tl [OF c(2)] by (intro alloc_from_skip [OF c]) blast+
  qed
qed simp

section \<open>The loop of free coalesces\<close>

lemma join_hd: "\<exists>u c. join (t, g) bs = (u, g) # c"
  by (induction "(t, g)" bs rule: join.induct) auto

lemma merge_step:
  assumes ch: "chain m a ((s, True) # (t, True) # bs)" and im: "in_memory a ((s, True) # (t, True) # bs)"
  obtains m' where "merge_free (of_nat a) m = merge_free (of_nat a) m'"
    "chain m' a ((s + (40 + t), True) # bs)" "same_outside a (a + 40) m m'"
proof -
  let ?b = "a + 40 + s"
  note sa = chain_step [OF ch im]
  have cb: "chain m ?b ((t, True) # bs)" using chain_tl [OF ch] by simp
  note sb = chain_step [OF cb in_memory_tl [OF im]]
  have im': "a + 40 + s + 40 + t + span bs < 18446744073709551616" using im by (simp add: in_memory_def)
  define m1 where "m1 = set_size (of_nat a) (of_nat (s + (40 + t))) m"
  define m' where "m' = set_next (of_nat a) (h_next (hdr m (of_nat ?b))) m1"
  have ab: "a + 40 \<le> ?b" by simp
  have h1: "hdr m1 (of_nat a) = (hdr m (of_nat a))\<lparr>h_size := of_nat (s + (40 + t))\<rparr>" "hdr m1 (of_nat ?b) = hdr m (of_nat ?b)"
    unfolding m1_def using sa(5) sb(5) ab by (simp_all only: hdr_set_self hdr_set_other simp_thms)
  have h2: "hdr m' (of_nat a) = (hdr m (of_nat a))\<lparr>h_size := of_nat (s + (40 + t)), h_next := h_next (hdr m (of_nat ?b))\<rparr>"
    unfolding m'_def using sa(5) h1 by (simp only: hdr_set_self)
  have so: "same_outside a (a + 40) m m'"
    unfolding m'_def m1_def using sa(5) by (intro same_outside_set same_outside_refl) simp_all
  have n1: "h_next (hdr m (of_nat a)) = of_nat ?b" using sa(8) by simp
  have sz: "of_nat s + (header_size + of_nat t) = (of_nat (s + (40 + t)) :: u64)" by (simp add: header_size_def)
  have "merge_free (of_nat a) m = merge_free (of_nat a) m'"
    unfolding merge_free.simps [of "of_nat a" m] n1 Let_def sa(4) sb(4) sz m1_def [symmetric] h1 
    using sa(1-4) sb(1-4) h1 by (simp del: of_nat_add add: n1 flip: m'_def)
  moreover have "chain m' a ((s + (40 + t), True) # bs)"
  proof -
    have e: "a + 40 + (s + (40 + t)) = ?b + 40 + t" by simp
    have c: "chain m' (?b + 40 + t) bs \<and> 16 dvd 40 + (s + (40 + t))" if "bs \<noteq> []"
    proof
      have "chain m (?b + 40 + t) bs" using chain_tl [OF cb that] by simp
      then show "chain m' (?b + 40 + t) bs" using im' by (subst same_outside_chain [OF so]) auto
      have "16 dvd 40 + s" "16 dvd 40 + t" using chain_tl [OF ch] chain_tl [OF cb that] by simp_all
      then show "16 dvd 40 + (s + (40 + t))" using dvd_add [of 16 "40 + s" "40 + t"] by (simp add: add_ac)
    qed
    show ?thesis unfolding chain.simps Let_def h2 e using sa(2,3) sb(8) c by (simp del: of_nat_add)
  qed
  ultimately show ?thesis using that so by blast
qed

lemma merge_free_join:
  assumes "chain m a ((s, f) # bs)" "in_memory a ((s, f) # bs)"
  obtains m' t r where "merge_free (of_nat a) m = Some (True, m')" "chain m' a ((t, f) # r)"
    "coalesce ((s, f) # bs) = (t, f) # coalesce r" "same_outside a (a + 40) m m'"
    "span ((t, f) # r) = span ((s, f) # bs)" "length r \<le> length bs"
    "header_bytes_of a ((t, f) # r) \<subseteq> header_bytes_of a ((s, f) # bs)"
  using assms
proof (induction bs arbitrary: s m thesis)
  case Nil
  note st = chain_step [OF Nil(2,3)]
  have "merge_free (of_nat a) m = Some (True, m)" by (subst merge_free.simps) (simp add: st)
  then show ?case using Nil(1) [of m s "[]"] Nil(2) by simp
next
  case (Cons b bs)
  obtain t g where b: "b = (t, g)" by (cases b)
  note st = chain_step [OF Cons(3,4)]
  have cb: "chain m (a + 40 + s) (b # bs)" using chain_tl [OF Cons(3)] by simp
  note sb = chain_step [OF cb [unfolded b] in_memory_tl [OF Cons(4), unfolded b]]
  show ?case
  proof (cases "f \<and> g")
    case True
    then have fg: "f = True" "g = True" by simp_all
    obtain m1 where m1: "merge_free (of_nat a) m = merge_free (of_nat a) m1"
      "chain m1 a ((s + (40 + t), True) # bs)" "same_outside a (a + 40) m m1"
      using merge_step Cons(3,4) unfolding b fg by blast
    have im: "in_memory a ((s + (40 + t), True) # bs)" using Cons(4) by (simp add: in_memory_def b add_ac)
    obtain m' u r where r: "merge_free (of_nat a) m1 = Some (True, m')" "chain m' a ((u, True) # r)"
      "coalesce ((s + (40 + t), True) # bs) = (u, True) # coalesce r" "same_outside a (a + 40) m1 m'"
      "span ((u, True) # r) = span ((s + (40 + t), True) # bs)" "length r \<le> length bs"
      "header_bytes_of a ((u, True) # r) \<subseteq> header_bytes_of a ((s + (40 + t), True) # bs)"
      using Cons(1) [of m1 "s + (40 + t)"] m1(2) im fg by blast
    have "coalesce ((s, True) # b # bs) = (u, True) # coalesce r"
      using r(3) coalesce_merge_free [of "[]" s t bs] by (simp add: b fg)
    moreover have "same_outside a (a + 40) m m'" using m1(3) r(4) by (rule same_outside_trans) simp_all
    ultimately show ?thesis using Cons(2) [of m' u r] m1(1) r fg
      by (auto simp: b add_ac)
  next
    case False
    have "merge_free (of_nat a) m = Some (True, m)"
      using False st sb by (subst merge_free.simps) auto
    moreover have "coalesce ((s, f) # b # bs) = (s, f) # coalesce (b # bs)"
    proof -
      obtain u c where "coalesce (b # bs) = (u, g) # c"
        using join_hd [of t g "coalesce bs"] by (auto simp: b)
      then show ?thesis using False by (cases f; cases g) auto
    qed
    ultimately show ?thesis using Cons(2) [of m s "b # bs"] Cons(3) by simp
  qed
qed

lemma coalesce_from_coalesce:
  assumes "chain m a bs" "in_memory a bs"
  obtains m' where "coalesce_from (of_nat a) m = Some (0, m')" "chain m' a (coalesce bs)"
    "\<And>x. x < 18446744073709551616 \<Longrightarrow> x \<notin> header_bytes_of a bs \<Longrightarrow> m' (of_nat x) = m (of_nat x)"
  using assms
proof (induction bs arbitrary: m a thesis rule: length_induct)
  case (1 bs)
  obtain s f cs where bs: "bs = (s, f) # cs" using 1(3) by (cases bs) auto
  obtain m1 t r where m1: "merge_free (of_nat a) m = Some (True, m1)" "chain m1 a ((t, f) # r)"
    "coalesce ((s, f) # cs) = (t, f) # coalesce r" "same_outside a (a + 40) m m1"
    "span ((t, f) # r) = span ((s, f) # cs)" "length r \<le> length cs"
    "header_bytes_of a ((t, f) # r) \<subseteq> header_bytes_of a ((s, f) # cs)"
    using merge_free_join 1(3,4) unfolding bs by blast
  have im: "in_memory a ((t, f) # r)" using 1(4) m1(5) by (simp add: in_memory_def bs)
  note st = chain_step [OF 1(3,4) [unfolded bs]] and st1 = chain_step [OF m1(2) im]
  have step: "coalesce_from (of_nat a) m = coalesce_from (if r = [] then 0 else of_nat (a + 40 + t)) m1"
    by (subst coalesce_from.simps) (simp add: st m1(1) st1 del: of_nat_add)
  have out: "m1 (of_nat x) = m (of_nat x)" if "x < 18446744073709551616" "x \<notin> header_bytes_of a bs" for x
    using that m1(4) by (auto simp: bs same_outside_def)
  show ?case
  proof (cases "r = []")
    case True
    have "coalesce_from 0 m1 = Some (0, m1)" by (subst coalesce_from.simps) simp
    then show ?thesis using 1(2) [of m1] step True m1(2,3) out by (simp add: bs)
  next
    case False
    have c: "chain m1 (a + 40 + t) r" using chain_tl [OF m1(2) False] by simp
    have len: "length r < length bs" using m1(6) by (simp add: bs)
    obtain m' where m': "coalesce_from (of_nat (a + 40 + t)) m1 = Some (0, m')" "chain m' (a + 40 + t) (coalesce r)"
      "\<And>x. x < 18446744073709551616 \<Longrightarrow> x \<notin> header_bytes_of (a + 40 + t) r \<Longrightarrow> m' (of_nat x) = m1 (of_nat x)"
      using 1(1) [rule_format, OF len _ c in_memory_tl [OF im]] by blast
    have "hdr m' (of_nat a) = hdr m1 (of_nat a)"
    proof (rule hdr_cong)
      fix x assume x: "a \<le> x" "x < a + 40"
      then have "x \<notin> header_bytes_of (a + 40 + t) r" using header_bytes_of_range [of "a + 40 + t" r] by auto
      then show "m' (of_nat x) = m1 (of_nat x)" using m'(3) x st(5) by (simp add: fits_def)
    qed
    then have "chain m' a ((t, f) # coalesce r)" using m1(2) m'(2) False by (simp add: Let_def)
    moreover have "m' (of_nat x) = m (of_nat x)" if "x < 18446744073709551616" "x \<notin> header_bytes_of a bs" for x
    proof -
      have "x \<notin> header_bytes_of (a + 40 + t) r" using that(2) m1(7) by (auto simp: bs)
      then show ?thesis using m'(3) that(1) out [OF that] by simp
    qed
    ultimately show ?thesis using 1(2) [of m'] step False m'(1) m1(3) by (simp add: bs)
  qed
qed

section \<open>Initialisation\<close>

lemma round_up_16: "(p + 15) div 16 * 16 = p + (16 - p mod 16) mod (16 :: nat)"
proof -
  define d r where "d = p div 16" and "r = p mod 16"
  have p: "p = 16 * d + r" "r < 16" by (simp_all add: d_def r_def)
  show ?thesis
  proof (cases "r = 0")
    case True
    then show ?thesis by (simp add: p)
  next
    case False
    then have "(p + 15) div 16 = d + 1" using p by simp
    moreover have "(16 - r) mod 16 = 16 - r" using False by simp
    ultimately show ?thesis using p(2) by (simp add: r_def [symmetric]) (simp add: p(1))
  qed
qed

lemma align_up:
  assumes "unat base + 55 < 18446744073709551616"
  shows "(base + header_size + ucast (KMEM_ALIGN - 1)) AND NOT (ucast (KMEM_ALIGN - 1)) =
    of_nat (unat base + (16 - (unat base + 40) mod 16) mod 16 + 40)"
proof -
  have "(base + header_size + ucast (KMEM_ALIGN - 1)) AND NOT (ucast (KMEM_ALIGN - 1)) = (55 + base) AND NOT (mask 4)"
    by (simp add: header_size_def round_masks mask_eq_exp_minus_1)
  moreover have "unat (55 + base) = unat base + 55" using assms by (simp add: unat_word_ariths)
  ultimately have "unat ((base + header_size + ucast (KMEM_ALIGN - 1)) AND NOT (ucast (KMEM_ALIGN - 1))) =
      unat base + (16 - (unat base + 40) mod 16) mod 16 + 40"
    using round_up_16 [of "unat base + 40"] by (simp add: unat_and_not_mask add.commute)
  then show ?thesis by (metis of_nat_unat ucast_id)
qed

lemma aligned_off: "(q + (16 - (q + 40) mod 16) mod 16 + 40) mod 16 = (0 :: nat)"
  using round_up_16 [of "q + 40"] by (simp add: add_ac) (metis mod_mult_self1_is_0 mult.commute)

definition first_block :: "nat \<Rightarrow> u64 \<Rightarrow> kmemory \<Rightarrow> kmemory" where
  "first_block a sz m = set_free (of_nat a) 1 (set_next (of_nat a) 0 (set_size (of_nat a) sz (set_magic (of_nat a) KMEM_MAGIC m)))"

lemma kmem_init_run:
  fixes base bytes k
  defines "off \<equiv> (16 - (unat base + 40) mod 16) mod 16"
  assumes "\<not> kmem_ready k" "base \<noteq> 0" "unat base + unat bytes < 18446744073709551616"
  shows "kmem_init base bytes k = (if unat bytes < 56 \<or> unat bytes \<le> off + 40 then (- 2, k)
      else (0, k\<lparr>heap_base := of_nat (unat base + off), heap_bytes := bytes - of_nat off,
        kmem_mem := first_block (unat base + off) (bytes - of_nat off - header_size) (kmem_mem k), kmem_ready := True\<rparr>))"
proof (cases "unat bytes < 56")
  case True
  then have "bytes < header_size + ucast KMEM_ALIGN" by (simp add: header_size_def round_masks word_less_nat_alt)
  then show ?thesis using True assms(2) by (simp add: kmem_init_def)
next
  case False
  then have big: "\<not> bytes < header_size + ucast KMEM_ALIGN" by (simp add: header_size_def round_masks word_less_nat_alt)
  have off: "off < 16" by (simp add: off_def)
  have al: "(base + header_size + ucast (KMEM_ALIGN - 1)) AND NOT (ucast (KMEM_ALIGN - 1)) = of_nat (unat base + off + 40)"
    using align_up [of base] False assms(4) by (simp add: off_def)
  have fin: "of_nat (unat base + off + 40) - header_size = (of_nat (unat base + off) :: u64)" by (simp add: header_size_def)
  have o: "of_nat (unat base + off) - base = (of_nat off :: u64)" by simp
  have c: "(bytes \<le> of_nat off + header_size) = (unat bytes \<le> off + 40)"
    using off unat_of_nat_u64 [of "off + 40"] by (simp add: word_le_nat_alt header_size_def)
  show ?thesis
    unfolding kmem_init_def Let_def al fin o c first_block_def using False big assms(2,3) by simp
qed

lemma kmem_init_ok:
  fixes base bytes k
  defines "off \<equiv> (16 - (unat base + 40) mod 16) mod 16"
  assumes "\<not> kmem_ready k" "base \<noteq> 0" "unat base + unat bytes < 18446744073709551616"
  shows "if 56 \<le> unat bytes \<and> off + 40 < unat bytes
    then \<exists>k'. kmem_init base bytes k = (0, k') \<and> heap_ok k' [(unat bytes - off - 40, True)] \<and>
           unat (heap_base k') = unat base + off
    else kmem_init base bytes k = (- 2, k)"
proof (cases "56 \<le> unat bytes \<and> off + 40 < unat bytes")
  case False
  then show ?thesis using kmem_init_run [OF assms(2-4), folded off_def] by auto
next
  case True
  let ?a = "unat base + off"
  let ?k = "k\<lparr>heap_base := of_nat ?a, heap_bytes := bytes - of_nat off,
    kmem_mem := first_block ?a (bytes - of_nat off - header_size) (kmem_mem k), kmem_ready := True\<rparr>"
  have ua: "unat (of_nat ?a :: u64) = ?a" and fa: "fits ?a"
    using assms(4) True by (auto simp only: fits_def intro!: unat_of_nat_u64)
  have sz: "bytes - of_nat off - header_size = of_nat (unat bytes - off - 40)" using True by (simp add: header_size_def of_nat_diff)
  have off: "off < 16" by (simp add: off_def)
  have hb: "unat (bytes - of_nat off) = unat bytes - off"
    using True off by (simp add: unat_sub word_le_nat_alt unat_of_nat_u64)
  have pos: "0 < ?a" using assms(3) by (simp add: unat_gt_0)
  have "(?a + 40) mod 16 = 0" using aligned_off [of "unat base"] by (simp add: off_def)
  then have "heap_ok ?k [(unat bytes - off - 40, True)]"
    unfolding heap_ok_def in_memory_def first_block_def using assms(4) True pos fa
    by (simp add: ua hb hdr_set_self sz Let_def del: of_nat_add)
  then show ?thesis using True ua kmem_init_run [OF assms(2-4), folded off_def] by (auto simp del: of_nat_add)
qed

section \<open>The operations on a well-formed heap\<close>

definition round16 :: "nat \<Rightarrow> nat" where
  "round16 n = (n + 15) div 16 * 16"

lemma round16: "n \<le> round16 n" "round16 n \<le> n + 15" "16 dvd round16 n" "0 < n \<Longrightarrow> 0 < round16 n"
  unfolding round16_def by presburger+

text \<open>Payloads of well-formed heaps are aligned.\<close>

lemma chain_prefix_dvd: "chain m a (xs @ ys) \<Longrightarrow> ys \<noteq> [] \<Longrightarrow> 16 dvd span xs"
proof (induction xs arbitrary: a)
  case (Cons b xs)
  obtain s f where b: "b = (s, f)" by (cases b)
  have "chain m (a + 40 + s) (xs @ ys) \<and> 16 dvd 40 + s" using chain_tl [of m a s f "xs @ ys"] Cons(2,3) by (simp add: b)
  then show ?case using Cons(1) [of "a + 40 + s"] Cons(3) by (simp add: b)
qed simp

lemma chain_at: "chain m a (xs @ (s, f) # ys) \<Longrightarrow> chain m (a + span xs) ((s, f) # ys)"
proof (induction xs arbitrary: a)
  case (Cons b xs)
  obtain t g where b: "b = (t, g)" by (cases b)
  have "chain m (a + 40 + t) (xs @ (s, f) # ys)" using chain_tl [of m a t g "xs @ (s, f) # ys"] Cons(2) by (simp add: b)
  from Cons(1) [OF this] show ?case by (simp add: b add.assoc del: chain.simps)
qed simp

lemma in_memory_at: "in_memory a (xs @ ys) \<Longrightarrow> in_memory (a + span xs) ys"
  by (simp add: in_memory_def)

text \<open>Setting the free flag of one block.\<close>

lemma chain_set_free:
  assumes "chain m a (xs @ (s, f) # ys)" "in_memory a (xs @ (s, f) # ys)"
  shows "chain (set_free (of_nat (a + span xs)) v m) a (xs @ (s, v \<noteq> 0) # ys)"
  using assms
proof (induction xs arbitrary: a)
  case Nil
  note st = chain_step [OF Nil(1,2) [unfolded append_Nil]]
  let ?m = "set_free (of_nat a) v m"
  have so: "same_outside a (a + 40) m ?m" using st(5) by (intro same_outside_set same_outside_refl) simp_all
  have "chain ?m (a + 40 + s) ys \<and> 16 dvd 40 + s" if "ys \<noteq> []"
    using chain_tl [of m a s f ys] Nil that
    by (subst same_outside_chain [OF so]) (auto simp: in_memory_def)
  then show ?case using st by (simp add: Let_def hdr_set_self del: of_nat_add)
next
  case (Cons b xs)
  obtain t g where b: "b = (t, g)" by (cases b)
  let ?m = "set_free (of_nat (a + span (b # xs))) v m"
  have tl: "chain m (a + 40 + t) (xs @ (s, f) # ys)" using chain_tl [of m a t g "xs @ (s, f) # ys"] Cons(2) by (simp add: b)
  have im: "in_memory (a + 40 + t) (xs @ (s, f) # ys)" using Cons(3) by (simp add: b in_memory_def)
  have e: "a + span (b # xs) = a + 40 + t + span xs" by (simp add: b)
  have ih: "chain ?m (a + 40 + t) (xs @ (s, v \<noteq> 0) # ys)" unfolding e using Cons(1) [OF tl im] .
  have "hdr ?m (of_nat a) = hdr m (of_nat a)"
    using Cons(3) by (intro hdr_set_other) (auto simp: b in_memory_def fits_def)
  then show ?case using Cons(2) ih by (simp add: b Let_def del: of_nat_add)
qed

lemma carve_pos: "0 < s \<Longrightarrow> list_all (\<lambda>b. 0 < fst b) (carve n s)"
  by (simp add: carve_def)

lemma join_pos: "0 < fst b \<Longrightarrow> list_all (\<lambda>b. 0 < fst b) bs \<Longrightarrow> list_all (\<lambda>b. 0 < fst b) (join b bs)"
  by (induction b bs rule: join.induct) auto

lemma coalesce_pos: "list_all (\<lambda>b. 0 < fst b) bs \<Longrightarrow> list_all (\<lambda>b. 0 < fst b) (coalesce bs)"
  by (induction bs) (simp_all add: join_pos)

text \<open>Memory where the bytes of the used blocks of \<open>bs\<close>, and all outside the heap, are kept.\<close>

definition keeps_payloads :: "nat \<Rightarrow> blocks \<Rightarrow> kmemory \<Rightarrow> kmemory \<Rightarrow> bool" where
  "keeps_payloads a bs m m' \<longleftrightarrow> (\<forall>x<18446744073709551616. x \<in> used_bytes_of a bs \<or> x < a \<or> a + span bs \<le> x \<longrightarrow>
     m' (of_nat x) = m (of_nat x))"

lemma kmem_alloc_fit_rounded:
  assumes ok: "heap_ok k bs" and n: "n \<noteq> 0" "rounded n \<le> 4294967216 \<or> span bs \<le> 4294967216"
  shows "case first_fit (rounded n) (unat (heap_base k)) bs of
      None \<Rightarrow> kmem_alloc n k = Some (0, k)
    | Some (p, bs') \<Rightarrow> \<exists>k'. kmem_alloc n k = Some (of_nat p, k') \<and> heap_ok k' bs' \<and> heap_base k' = heap_base k \<and>
        16 dvd p \<and> 0 < p \<and> p + rounded n \<le> unat (heap_base k) + span bs \<and>
        keeps_payloads (unat (heap_base k)) bs (kmem_mem k) (kmem_mem k')"
proof -
  let ?a = "unat (heap_base k)" and ?n = "rounded n"
  have ch: "chain (kmem_mem k) ?a bs" and im: "in_memory ?a bs" and rdy: "kmem_ready k"
    and al: "16 dvd ?a + 40" and pos: "list_all (\<lambda>b. 0 < fst b) bs" and hb: "unat (heap_bytes k) = span bs"
    using ok by (auto simp: heap_ok_def)
  have unf: "kmem_alloc n k = map_option (\<lambda>(p, m). (p, k\<lparr>kmem_mem := m\<rparr>)) (alloc_from (of_nat ?n) (of_nat ?a) (kmem_mem k))"
    using rdy n by (simp add: kmem_alloc_def kmem_round_rounded)
  have nb: "?n + 64 \<le> 4294967296 \<or> span bs < ?n \<and> ?n \<le> 4294967296"
    using n(2) rounded(1,2) [of n] by (auto elim!: dvdE)
  note fit = alloc_from_first_fit [OF ch im rounded(1) nb, unfolded alloc_fits_def]
  show ?thesis
  proof (cases "first_fit ?n ?a bs")
    case None
    then show ?thesis using fit unf by simp
  next
    case (Some r)
    obtain p bs' where r: "r = (p, bs')" by (cases r)
    obtain m' where m': "alloc_from (of_nat ?n) (of_nat ?a) (kmem_mem k) = Some (of_nat p, m')" "chain m' ?a bs'"
      "keeps_payloads ?a bs (kmem_mem k) m'" using fit Some r unfolding keeps_payloads_def by auto
    obtain xs s ys where x: "bs = xs @ (s, True) # ys" "?n \<le> s" "p = ?a + span xs + 40" "bs' = xs @ carve ?n s @ ys"
      using first_fit_SomeD [OF Some [unfolded r]] by blast
    have d: "16 dvd span xs" using chain_prefix_dvd [of "kmem_mem k" ?a xs] ch x(1) by simp
    have "16 dvd p" using dvd_add [OF al d] by (simp add: x(3) add_ac)
    moreover have "p + ?n \<le> ?a + span bs" using x by simp
    moreover have "heap_ok (k\<lparr>kmem_mem := m'\<rparr>) bs'"
      using ok m'(2) pos carve_pos [of s ?n] by (auto simp: heap_ok_def in_memory_def x)
    ultimately show ?thesis using Some r m' unf x(3) by auto
  qed
qed

lemma rounded_round16: "unat n \<le> 4294967280 \<Longrightarrow> rounded n = round16 (unat n)"
  by (simp add: rounded_def round16_def)

lemma kmem_alloc_fit:
  assumes "heap_ok k bs" "0 < unat n" "unat n \<le> 4294967216"
  shows "case first_fit (round16 (unat n)) (unat (heap_base k)) bs of
      None \<Rightarrow> kmem_alloc n k = Some (0, k)
    | Some (p, bs') \<Rightarrow> \<exists>k'. kmem_alloc n k = Some (of_nat p, k') \<and> heap_ok k' bs' \<and> heap_base k' = heap_base k \<and>
        16 dvd p \<and> 0 < p \<and> p + unat n \<le> unat (heap_base k) + span bs \<and>
        keeps_payloads (unat (heap_base k)) bs (kmem_mem k) (kmem_mem k')"
proof -
  have r: "rounded n = round16 (unat n)" using assms(3) by (simp add: rounded_round16)
  have "round16 (unat n) \<le> 4294967216" using assms(3) unfolding round16_def by presburger
  then show ?thesis
    using kmem_alloc_fit_rounded [of k bs n] assms(1,2) round16(1) [of "unat n"] unfolding r
    by (fastforce split: option.splits)
qed

lemma header_used_disjoint: "header_bytes_of a bs \<inter> used_bytes_of a bs = {}"
proof (induction a bs rule: used_bytes_of.induct)
  case (2 a s f bs)
  have "x \<in> header_bytes_of (a + 40 + s) bs \<Longrightarrow> a + 40 + s \<le> x" for x
    using header_bytes_of_range [of "a + 40 + s" bs] by auto
  moreover have "x \<in> used_bytes_of (a + 40 + s) bs \<Longrightarrow> a + 40 + s + 40 \<le> x" for x
    using used_bytes_of_range [of "a + 40 + s" bs] by auto
  ultimately show ?case using 2 by (fastforce split: if_splits)
qed simp

lemma used_bytes_of_join: "used_bytes_of a (join b bs) = used_bytes_of a (b # bs)"
  by (induction b bs rule: join.induct) (auto simp: add.assoc)

lemma used_bytes_of_coalesce [simp]: "used_bytes_of a (coalesce bs) = used_bytes_of a bs"
proof (induction bs arbitrary: a)
  case (Cons b bs)
  then show ?case by (cases b) (simp add: used_bytes_of_join)
qed simp

lemma header_bytes_of_flag: "header_bytes_of a (xs @ (s, f) # ys) = header_bytes_of a (xs @ (s, g) # ys)"
  by (simp add: header_bytes_of_append)

lemma heap_okD:
  assumes "heap_ok k bs"
  shows "chain (kmem_mem k) (unat (heap_base k)) bs" "in_memory (unat (heap_base k)) bs" "kmem_ready k"
    "list_all (\<lambda>b. 0 < fst b) bs" "unat (heap_bytes k) = span bs"
    "heap_base k \<noteq> 0" "unat (heap_base k + heap_bytes k) = unat (heap_base k) + span bs"
proof -
  show "chain (kmem_mem k) (unat (heap_base k)) bs" and im: "in_memory (unat (heap_base k)) bs" and "kmem_ready k"
    and "list_all (\<lambda>b. 0 < fst b) bs" and hb: "unat (heap_bytes k) = span bs"
    using assms by (auto simp: heap_ok_def)
  show "heap_base k \<noteq> 0" using im by (auto simp: in_memory_def)
  show "unat (heap_base k + heap_bytes k) = unat (heap_base k) + span bs"
    using im hb by (simp add: unat_word_ariths in_memory_def)
qed

lemma free_keeps_payloads:
  assumes "fits (a + span xs)"
    "\<And>x. x < 18446744073709551616 \<Longrightarrow> x \<notin> header_bytes_of a (xs @ (s, True) # ys) \<Longrightarrow>
      m' (of_nat x) = set_free (of_nat (a + span xs)) v m (of_nat x)"
  shows "keeps_payloads a (xs @ (s, f) # ys) m m'"
  unfolding keeps_payloads_def
proof (intro allI impI)
  fix x assume x: "x < 18446744073709551616" "x \<in> used_bytes_of a (xs @ (s, f) # ys) \<or> x < a \<or> a + span (xs @ (s, f) # ys) \<le> x"
  have nh: "x \<notin> header_bytes_of a (xs @ (s, f) # ys)"
    using x(2) header_used_disjoint [of a "xs @ (s, f) # ys"] header_bytes_of_range [of a "xs @ (s, f) # ys"] by auto
  then have "x \<notin> {a + span xs..<a + span xs + 40}" by (simp add: header_bytes_of_append)
  then have "set_free (of_nat (a + span xs)) v m (of_nat x) = m (of_nat x)" using assms(1) x(1) by (intro set_outside) auto
  moreover have "m' (of_nat x) = set_free (of_nat (a + span xs)) v m (of_nat x)"
    using assms(2) x(1) nh unfolding header_bytes_of_flag [of a xs s True ys f] by blast
  ultimately show "m' (of_nat x) = m (of_nat x)" by simp
qed

lemma kmem_free_run:
  assumes ok: "heap_ok k (xs @ (s, f) # ys)" and p: "unat p = unat (heap_base k) + span xs + 40"
  shows "kmem_free_checked p k = (if f then Some (- 2, k)
      else map_option (\<lambda>(rc, m'). (rc, k\<lparr>kmem_mem := m'\<rparr>))
        (coalesce_from (heap_base k) (set_free (of_nat (unat (heap_base k) + span xs)) 1 (kmem_mem k))))"
proof -
  note hk = heap_okD [OF ok]
  note st = chain_step [OF chain_at [OF hk(1)] in_memory_at [OF hk(2)]]
  have s: "0 < s" using hk(4) by simp
  have "p = of_nat (unat (heap_base k) + span xs + 40)" using p by (metis of_nat_unat ucast_id)
  then have pw: "p - header_size = of_nat (unat (heap_base k) + span xs)" by (simp add: header_size_def)
  have np: "p \<noteq> 0" using p by auto
  have r: "\<not> (p \<le> heap_base k \<or> heap_base k + heap_bytes k \<le> p)"
    using p s hk(7) by (auto simp: word_le_nat_alt)
  show ?thesis unfolding kmem_free_checked_def Let_def pw using hk(3) np r st(2,3) by simp
qed

lemma kmem_free_block:
  assumes ok: "heap_ok k (xs @ (s, f) # ys)" and p: "unat p = unat (heap_base k) + span xs + 40"
  shows "if f then kmem_free_checked p k = Some (- 2, k)
    else \<exists>k'. kmem_free_checked p k = Some (0, k') \<and> heap_ok k' (coalesce (xs @ (s, True) # ys)) \<and>
      heap_base k' = heap_base k \<and> heap_bytes k' = heap_bytes k \<and>
      keeps_payloads (unat (heap_base k)) (xs @ (s, f) # ys) (kmem_mem k) (kmem_mem k')"
proof (cases f)
  case True
  then show ?thesis using kmem_free_run [OF ok p] by simp
next
  case False
  let ?a = "unat (heap_base k)" and ?cs = "xs @ (s, True) # ys"
  let ?m = "set_free (of_nat (?a + span xs)) 1 (kmem_mem k)"
  note hk = heap_okD [OF ok]
  note st = chain_step [OF chain_at [OF hk(1)] in_memory_at [OF hk(2)]]
  have ch: "chain ?m ?a ?cs" using chain_set_free [OF hk(1,2), of 1] by simp
  have im: "in_memory ?a ?cs" using hk(2) by (simp add: in_memory_def)
  obtain m' where m': "coalesce_from (of_nat ?a) ?m = Some (0, m')" "chain m' ?a (coalesce ?cs)"
    "\<And>x. x < 18446744073709551616 \<Longrightarrow> x \<notin> header_bytes_of ?a ?cs \<Longrightarrow> m' (of_nat x) = ?m (of_nat x)"
    using coalesce_from_coalesce [OF ch im] by blast
  have pos: "list_all (\<lambda>b. 0 < fst b) ?cs" using hk(4) by simp
  have "heap_ok (k\<lparr>kmem_mem := m'\<rparr>) (coalesce ?cs)"
    using ok m'(2) im coalesce_pos [OF pos] by (simp add: heap_ok_def in_memory_def)
  moreover have "keeps_payloads ?a (xs @ (s, f) # ys) (kmem_mem k) m'" by (rule free_keeps_payloads [OF st(5) m'(3)])
  moreover have "kmem_free_checked p k = Some (0, k\<lparr>kmem_mem := m'\<rparr>)" using kmem_free_run [OF ok p] False m'(1) by simp
  ultimately show ?thesis using False by simp
qed

lemma first_fit_fresh:
  assumes "first_fit n a bs = Some (p, bs')"
  shows "{p..<p + n} \<subseteq> used_bytes_of a bs' - used_bytes_of a bs"
proof -
  obtain xs s ys where x: "bs = xs @ (s, True) # ys" "n \<le> s" "p = a + span xs + 40" "bs' = xs @ carve n s @ ys"
    using first_fit_SomeD [OF assms] by blast
  have "{p..<p + n} \<subseteq> used_bytes_of a bs'" 
  proof
    fix y assume "y \<in> {p..<p + n}"
    then have "a + span xs + 40 \<le> y \<and> y < a + span xs + 40 + n" by (simp add: x)
    then have "y \<in> used_bytes_of (a + span xs) (carve n s)" using x(2) by (simp add: carve_def)
    then show "y \<in> used_bytes_of a bs'" by (simp add: x used_bytes_of_append)
  qed
  moreover have "y \<notin> used_bytes_of a bs" if "y \<in> {p..<p + n}" for y
  proof -
    have "a + span xs + 40 \<le> y \<and> y < a + span xs + 40 + n" using that by (simp add: x)
    then have y: "a + span xs + 40 \<le> y" "y < a + span xs + 40 + s" using x(2) by linarith+
    have "y \<notin> used_bytes_of a xs" using y used_bytes_of_range [of a xs] by auto
    moreover have "y \<notin> used_bytes_of (a + span xs + 40 + s) ys"
      using y(2) subsetD [OF used_bytes_of_range [of "a + span xs + 40 + s" ys], of y] by auto
    ultimately show ?thesis by (simp add: x used_bytes_of_append)
  qed
  ultimately show ?thesis by blast
qed

lemma carve_coalesce: "coalesce (xs @ (map (\<lambda>b. (fst b, True)) (carve n s)) @ ys) = coalesce (xs @ (s, True) # ys)"
  by (auto simp: carve_def coalesce_merge_free)

text \<open>What \<open>kmem_free_checked\<close> says of pointers that cannot be blocks.\<close>

lemma kmem_free_foreign:
  "heap_ok k bs \<Longrightarrow> p \<noteq> 0 \<Longrightarrow> unat p \<le> unat (heap_base k) \<or> unat (heap_base k) + span bs \<le> unat p \<Longrightarrow>
   kmem_free_checked p k = Some (- 3, k)"
  using heap_okD(3,7) [of k bs] by (simp add: kmem_free_checked_def word_le_nat_alt)

section \<open>Statistics and validation\<close>

lemma stats_from_fold:
  assumes "chain m a bs" "in_memory a bs"
  shows "\<exists>hs. stats_from (of_nat a) m out = Some (fold count_block hs out) \<and>
     list_all2 (\<lambda>h b. h_size h = of_nat (fst b) \<and> (h_free h \<noteq> 0) = snd b) hs bs"
  using assms
proof (induction bs arbitrary: a out)
  case (Cons b bs)
  obtain s f where b: "b = (s, f)" by (cases b)
  note st = chain_step [OF Cons(2,3) [unfolded b]]
  have step: "stats_from (of_nat a) m out =
      stats_from (if bs = [] then 0 else of_nat (a + 40 + s)) m (count_block (hdr m (of_nat a)) out)"
    by (subst stats_from.simps) (simp add: st del: of_nat_add)
  show ?case
  proof (cases "bs = []")
    case True
    have "stats_from 0 m o' = Some o'" for o' by (subst stats_from.simps) simp
    then show ?thesis using step True st(3,4) by (intro exI [of _ "[hdr m (of_nat a)]"]) (simp add: b)
  next
    case False
    obtain hs where "stats_from (of_nat (a + 40 + s)) m (count_block (hdr m (of_nat a)) out) =
        Some (fold count_block hs (count_block (hdr m (of_nat a)) out))"
      "list_all2 (\<lambda>h b. h_size h = of_nat (fst b) \<and> (h_free h \<noteq> 0) = snd b) hs bs"
      using Cons(1) chain_tl [OF Cons(2) [unfolded b] False] in_memory_tl [OF Cons(3) [unfolded b]] by blast
    then show ?thesis using step False st(3,4)
      by (intro exI [of _ "hdr m (of_nat a) # hs"]) (simp add: b del: of_nat_add)
  qed
qed simp

definition free_sizes :: "blocks \<Rightarrow> nat list" where
  "free_sizes bs = map fst (filter snd bs)"
definition used_sizes :: "blocks \<Rightarrow> nat list" where
  "used_sizes bs = map fst (filter (\<lambda>b. \<not> snd b) bs)"

lemma sizes_simps [simp]:
  "free_sizes [] = []" "used_sizes [] = []"
  "free_sizes ((s, f) # bs) = (if f then s # free_sizes bs else free_sizes bs)"
  "used_sizes ((s, f) # bs) = (if f then used_sizes bs else s # used_sizes bs)"
  by (simp_all add: free_sizes_def used_sizes_def)

lemma span_sizes: "span bs = sum_list (free_sizes bs) + sum_list (used_sizes bs) + 40 * length bs"
  by (induction bs) (auto simp: split_paired_all)

text \<open>The counters, as long as their sums fit in 64 bits.\<close>

lemma count_block_free:
  assumes "h_free h \<noteq> 0" "h_size h = of_nat s" "s < 18446744073709551616"
    "unat (free_bytes o1) + s < 18446744073709551616" "unat (block_count o1) + 1 < 18446744073709551616"
    "unat (free_count o1) \<le> unat (block_count o1)"
  shows "total_bytes (count_block h o1) = total_bytes o1" "used_bytes (count_block h o1) = used_bytes o1"
    "unat (free_bytes (count_block h o1)) = unat (free_bytes o1) + s"
    "unat (block_count (count_block h o1)) = unat (block_count o1) + 1"
    "unat (free_count (count_block h o1)) = unat (free_count o1) + 1"
    "unat (largest_free (count_block h o1)) = max (unat (largest_free o1)) s"
  using assms by (simp_all add: count_block_def Let_def unat_word_ariths unat_of_nat_u64 word_less_nat_alt)

lemma count_block_used:
  assumes "h_free h = 0" "h_size h = of_nat s" "s < 18446744073709551616"
    "unat (used_bytes o1) + s < 18446744073709551616" "unat (block_count o1) + 1 < 18446744073709551616"
  shows "total_bytes (count_block h o1) = total_bytes o1" "free_bytes (count_block h o1) = free_bytes o1"
    "unat (used_bytes (count_block h o1)) = unat (used_bytes o1) + s"
    "unat (block_count (count_block h o1)) = unat (block_count o1) + 1"
    "free_count (count_block h o1) = free_count o1" "largest_free (count_block h o1) = largest_free o1"
  using assms by (simp_all add: count_block_def Let_def unat_word_ariths unat_of_nat_u64)

definition stats_after :: "kmem_stats \<Rightarrow> kmem_stats \<Rightarrow> blocks \<Rightarrow> bool" where
  "stats_after o1 o2 bs \<longleftrightarrow> total_bytes o2 = total_bytes o1 \<and>
     unat (used_bytes o2) = unat (used_bytes o1) + sum_list (used_sizes bs) \<and>
     unat (free_bytes o2) = unat (free_bytes o1) + sum_list (free_sizes bs) \<and>
     unat (block_count o2) = unat (block_count o1) + length bs \<and>
     unat (free_count o2) = unat (free_count o1) + length (free_sizes bs) \<and>
     unat (largest_free o2) = fold max (free_sizes bs) (unat (largest_free o1))"

lemma fold_count_block:
  assumes "list_all2 (\<lambda>h b. h_size h = of_nat (fst b) \<and> (h_free h \<noteq> 0) = snd b) hs bs"
    "unat (used_bytes o1) + unat (free_bytes o1) + span bs < 18446744073709551616"
    "unat (block_count o1) + length bs < 18446744073709551616" "unat (free_count o1) \<le> unat (block_count o1)"
  shows "stats_after o1 (fold count_block hs o1) bs"
  using assms
proof (induction hs bs arbitrary: o1 rule: list_all2_induct)
  case Nil
  show ?case by (simp add: stats_after_def)
next
  case (Cons h hs b bs)
  obtain s f where b: "b = (s, f)" by (cases b)
  let ?o = "count_block h o1"
  show ?case
  proof (cases f)
    case True
    note c = count_block_free [of h s o1]
    have "stats_after ?o (fold count_block hs ?o) bs" using Cons c True by (intro Cons.IH) (auto simp: b)
    then show ?thesis using Cons c True by (simp add: b stats_after_def max.commute)
  next
    case False
    note c = count_block_used [of h s o1]
    have "stats_after ?o (fold count_block hs ?o) bs" using Cons c False by (intro Cons.IH) (auto simp: b)
    then show ?thesis using Cons c False by (simp add: b stats_after_def)
  qed
qed

lemma kmem_validate_from_ok:
  assumes "chain (kmem_mem k) a bs" "in_memory a bs" "unat (heap_base k) \<le> a"
    "a + span bs \<le> unat (heap_base k + heap_bytes k)"
  shows "kmem_validate_from k (of_nat a) = Some 0"
  using assms
proof (induction bs arbitrary: a)
  case (Cons b bs)
  obtain s f where b: "b = (s, f)" by (cases b)
  note st = chain_step [OF Cons(2,3) [unfolded b]]
  have r: "\<not> (of_nat a < heap_base k \<or> heap_base k + heap_bytes k \<le> of_nat a)"
    using Cons(4,5) st(6) by (auto simp: b word_le_nat_alt word_less_nat_alt unat_of_nat_u64)
  have step: "kmem_validate_from k (of_nat a) = kmem_validate_from k (if bs = [] then 0 else of_nat (a + 40 + s))"
    using r by (subst kmem_validate_from.simps) (simp add: st del: of_nat_add)
  show ?case
  proof (cases "bs = []")
    case True
    have "kmem_validate_from k 0 = Some 0" by (subst kmem_validate_from.simps) simp
    then show ?thesis using step True by simp
  next
    case False
    have "kmem_validate_from k (of_nat (a + 40 + s)) = Some 0"
      using Cons(1) chain_tl [OF Cons(2) [unfolded b] False] in_memory_tl [OF Cons(3) [unfolded b]] Cons(4,5)
      by (simp add: b del: of_nat_add)
    then show ?thesis using step False by simp
  qed
qed simp

section \<open>Zeroed allocation\<close>

lemma unat_minus_1_u64: "unat (- 1 :: u64) = 18446744073709551615"
  by (simp add: unsigned_minus_1_eq_mask mask_eq_exp_minus_1)

lemma kmem_calloc_zeroes:
  assumes ok: "heap_ok k bs" and n: "0 < unat c" "0 < unat b" "unat c * unat b \<le> 4294967216"
    and r: "kmem_calloc c b k = Some (p, k')" "p \<noteq> 0"
  shows "(\<forall>i<unat c * unat b. kmem_mem k' (p + of_nat i) = 0) \<and>
    (\<forall>x<18446744073709551616. x \<in> used_bytes_of (unat (heap_base k)) bs \<longrightarrow>
       kmem_mem k' (of_nat x) = kmem_mem k (of_nat x))"
proof -
  have t: "unat (c * b) = unat c * unat b" using n(3) by (simp add: unat_word_ariths)
  have nz: "c \<noteq> 0" "b \<noteq> 0" using n by auto
  have "unat c \<le> 18446744073709551615 div unat b"
    using n div_le_mono [of "unat c * unat b" 18446744073709551615 "unat b"] by simp
  then have no: "\<not> (- 1) div b < c" by (simp add: word_less_nat_alt unat_div unat_minus_1_u64)
  obtain k1 where k1: "kmem_alloc (c * b) k = Some (p, k1)"
    "k' = k1\<lparr>kmem_mem := local_memset p 0 (c * b) (kmem_mem k1)\<rparr>"
    using r nz no by (auto simp: kmem_calloc_def Let_def split: if_splits)
  have pos: "0 < unat (c * b)" "unat (c * b) \<le> 4294967216" using n by (simp_all add: t)
  note fit = kmem_alloc_fit [OF ok pos]
  obtain q bs' where f: "first_fit (round16 (unat (c * b))) (unat (heap_base k)) bs = Some (q, bs')"
    using fit k1(1) r(2) by (cases "first_fit (round16 (unat (c * b))) (unat (heap_base k)) bs") auto
  have q: "p = of_nat q" "q + unat (c * b) \<le> unat (heap_base k) + span bs"
    "keeps_payloads (unat (heap_base k)) bs (kmem_mem k) (kmem_mem k1)" using fit f k1(1) by auto
  have q64: "q < 18446744073709551616" using q(2) heap_okD(2) [OF ok] by (simp add: in_memory_def)
  have "kmem_mem k' (p + of_nat i) = 0" if "i < unat c * unat b" for i
    using that n(3) by (simp add: k1(2) local_memset_def word_less_nat_alt t unat_of_nat_u64)
  moreover have "kmem_mem k' (of_nat x) = kmem_mem k (of_nat x)"
    if x: "x < 18446744073709551616" "x \<in> used_bytes_of (unat (heap_base k)) bs" for x
  proof -
    have "\<not> (q \<le> x \<and> x < q + unat (c * b))"
      using first_fit_fresh [OF f] x(2) round16(1) [of "unat (c * b)"] by fastforce
    then have "\<not> of_nat x - p < c * b"
      using x(1) q64 pos q(2) heap_okD(2) [OF ok]
      by (auto simp: q(1) word_less_nat_alt unat_of_nat_diff in_memory_def split: if_splits)
    then have "kmem_mem k' (of_nat x) = kmem_mem k1 (of_nat x)" by (simp add: k1(2) local_memset_def)
    then show ?thesis using q(3) x by (simp add: keeps_payloads_def)
  qed
  ultimately show ?thesis by blast
qed

lemma kmem_calloc_overflow:
  assumes "18446744073709551616 \<le> unat c * unat b"
  shows "kmem_calloc c b k = Some (0, k)"
proof -
  have "0 < unat b" using assms by (cases "unat b = 0") simp_all
  then have "18446744073709551615 div unat b < unat c"
    using assms by (simp add: div_less_iff_less_mult)
  then have "(- 1) div b < c" by (simp add: word_less_nat_alt unat_div unat_minus_1_u64)
  then show ?thesis by (simp add: kmem_calloc_def)
qed

section \<open>Properties\<close>

definition heap_blank :: kmem where
  "heap_blank = \<lparr>heap_base = 0, heap_bytes = 0, kmem_ready = False, kmem_mem = (\<lambda>_. 0)\<rparr>"

lemma heap_4096:
  obtains k where "kmem_init 4096 4096 heap_blank = (0, k)" "heap_ok k [(4048, True)]" "heap_base k = 4104"
proof -
  obtain k where k: "kmem_init 4096 4096 heap_blank = (0, k)" "heap_ok k [(4048, True)]" "unat (heap_base k) = 4104"
    using kmem_init_ok [of heap_blank 4096 4096] by (auto simp: heap_blank_def)
  moreover have "heap_base k = 4104" using k(3) by (metis of_nat_numeral of_nat_unat ucast_id)
  ultimately show ?thesis using that by blast
qed

text \<open>
  C23. Allocation refines first fit on the list of block sizes, for every request other than 0 on a heap
  of at most 4294967216 bytes (and on a larger heap unless the size is cut to one of the last multiples
  of 16 below \<open>2^32\<close>): for the size \<open>rounded n\<close> that the code computes, \<open>kmem_alloc\<close> returns NULL without
  any change when no free block is large enough, and otherwise a 16-byte aligned address inside the
  heap, whose \<open>rounded n\<close> bytes belonged to no block in use, with the heap well formed again and the
  contents of all blocks in use unchanged. Up to 4294967280 bytes that size is the request rounded up to
  a multiple of 16; above it the size is smaller than the request, so the caller gets fewer bytes than
  it asked for.
\<close>

theorem kmem_alloc_refines_first_fit:
  assumes "heap_ok k bs" "n \<noteq> 0" "rounded n \<le> 4294967216 \<or> span bs \<le> 4294967216"
  shows "(case first_fit (rounded n) (unat (heap_base k)) bs of
      None \<Rightarrow> kmem_alloc n k = Some (0, k) \<and> (\<forall>b\<in>set bs. snd b \<longrightarrow> fst b < rounded n)
    | Some (p, bs') \<Rightarrow> \<exists>k'. kmem_alloc n k = Some (of_nat p, k') \<and> heap_ok k' bs' \<and>
        16 dvd p \<and> 0 < p \<and> p + rounded n \<le> unat (heap_base k) + span bs \<and>
        {p..<p + rounded n} \<subseteq> used_bytes_of (unat (heap_base k)) bs' - used_bytes_of (unat (heap_base k)) bs \<and>
        keeps_payloads (unat (heap_base k)) bs (kmem_mem k) (kmem_mem k')) \<and>
    (if unat n \<le> 4294967280 then rounded n = round16 (unat n) \<and> unat n \<le> rounded n else rounded n < unat n)"
  (is "?res \<and> _")
proof -
  have "if unat n \<le> 4294967280 then rounded n = round16 (unat n) \<and> unat n \<le> rounded n else rounded n < unat n"
    using rounded_round16 [of n] round16(1) [of "unat n"] rounded(2) [of n] by simp
  moreover have "?res"
  proof (cases "first_fit (rounded n) (unat (heap_base k)) bs")
    case None
    moreover have "\<forall>b\<in>set bs. snd b \<longrightarrow> fst b < rounded n" using None by (simp only: first_fit_None_iff)
    ultimately show ?thesis using kmem_alloc_fit_rounded [OF assms] by simp
  next
    case (Some r)
    obtain p bs' where r: "r = (p, bs')" by (cases r)
    then show ?thesis using kmem_alloc_fit_rounded [OF assms] first_fit_fresh [OF Some [unfolded r]] Some by auto
  qed
  ultimately show ?thesis by blast
qed

theorem kmem_alloc_refines_first_fit_witness:
  "\<exists>k k'. kmem_init 4096 4096 heap_blank = (0, k) \<and> kmem_alloc 100 k = Some (4144, k') \<and>
     heap_ok k' [(120, False), (3888, True)]"
proof -
  obtain k where k: "kmem_init 4096 4096 heap_blank = (0, k)" "heap_ok k [(4048, True)]" "heap_base k = 4104"
    by (rule heap_4096)
  have "first_fit (rounded 100) (unat (heap_base k)) [(4048, True)] = Some (4144, [(120, False), (3888, True)])"
    by (simp add: k(3) rounded_def carve_def)
  then show ?thesis using kmem_alloc_refines_first_fit [OF k(2), of 100] k(1) by auto
qed

text \<open>
  C24. \<open>kmem_free_checked\<close> on the payload address of a block: a block in use becomes free and adjacent
  free blocks are merged into maximal ones, no byte of a block still in use changes and the heap stays
  well formed; a block that is already free is refused with \<open>-2\<close> and nothing changes. An address
  outside the heap is refused with \<open>-3\<close>.
\<close>

theorem kmem_free_checked_spec:
  assumes "heap_ok k (xs @ (s, f) # ys)" "unat p = unat (heap_base k) + span xs + 40"
    and "q \<noteq> 0" "unat q \<le> unat (heap_base k) \<or> unat (heap_base k) + span (xs @ (s, f) # ys) \<le> unat q"
  shows "(if f then kmem_free_checked p k = Some (- 2, k)
      else \<exists>k'. kmem_free_checked p k = Some (0, k') \<and> heap_ok k' (coalesce (xs @ (s, True) # ys)) \<and>
        coalesced (coalesce (xs @ (s, True) # ys)) \<and>
        keeps_payloads (unat (heap_base k)) (xs @ (s, f) # ys) (kmem_mem k) (kmem_mem k')) \<and>
    kmem_free_checked q k = Some (- 3, k)"
  using kmem_free_block [OF assms(1,2)] kmem_free_foreign [OF assms(1,3,4)] coalesced_coalesce
  by (auto split: if_splits)

theorem kmem_free_checked_spec_witness:
  "\<exists>k. kmem_init 4096 4096 heap_blank = (0, k) \<and> kmem_free_checked 4144 k = Some (- 2, k) \<and>
     kmem_free_checked 8192 k = Some (- 3, k)"
proof -
  obtain k where k: "kmem_init 4096 4096 heap_blank = (0, k)" "heap_ok k [(4048, True)]" "heap_base k = 4104"
    by (rule heap_4096)
  from k(2) have ok: "heap_ok k ([] @ (4048, True) # [])" by simp
  show ?thesis using kmem_free_checked_spec [OF ok, of 4144 8192] k(1,3) by auto
qed

text \<open>
  C25. Freeing what was just allocated gives back the heap: on a heap without adjacent free blocks the
  block sizes and flags after the pair are the ones before it, and the contents of every block in use
  are unchanged.
\<close>

theorem kmem_alloc_free_roundtrip:
  assumes "heap_ok k bs" "coalesced bs" "0 < unat n" "unat n \<le> 4294967216"
    and "kmem_alloc n k = Some (p, k')" "p \<noteq> 0"
  shows "\<exists>k''. kmem_free_checked p k' = Some (0, k'') \<and> heap_ok k'' bs \<and>
     keeps_payloads (unat (heap_base k)) bs (kmem_mem k) (kmem_mem k'')"
proof -
  let ?a = "unat (heap_base k)" and ?n = "round16 (unat n)"
  note fit = kmem_alloc_fit [OF assms(1,3,4)]
  obtain q bs' where f: "first_fit ?n ?a bs = Some (q, bs')" using fit assms(5,6) by (cases "first_fit ?n ?a bs") auto
  obtain xs s ys where x: "bs = xs @ (s, True) # ys" "?n \<le> s" "q = ?a + span xs + 40" "bs' = xs @ carve ?n s @ ys"
    using first_fit_SomeD [OF f] by blast
  have a: "p = of_nat q" "heap_ok k' bs'" "heap_base k' = heap_base k" "keeps_payloads ?a bs (kmem_mem k) (kmem_mem k')"
    using fit f assms(5) by auto
  have q: "unat p = unat (heap_base k') + span xs + 40"
  proof -
    have "q < 18446744073709551616" using heap_okD(2) [OF assms(1)] by (simp add: in_memory_def x)
    then show ?thesis by (simp only: a(1) unat_of_nat_u64 a(3) x(3))
  qed
  obtain t r where r: "bs' = xs @ (t, False) # r" "coalesce (xs @ (t, True) # r) = bs"
  proof (cases "?n + 104 \<le> s")
    case True
    then show ?thesis
      using that [of "?n + 8" "(s - (?n + 48), True) # ys"] coalesce_id [OF assms(2)]
      by (simp add: x carve_def coalesce_merge_free)
  next
    case False
    then show ?thesis using that [of s ys] coalesce_id [OF assms(2)] by (simp add: x carve_def)
  qed
  obtain k'' where k: "kmem_free_checked p k' = Some (0, k'')" "heap_ok k'' bs" "keeps_payloads ?a bs' (kmem_mem k') (kmem_mem k'')"
    using kmem_free_block [OF a(2) [unfolded r(1)] q] r a(3) by auto
  have sp: "span bs' = span bs" by (simp add: x)
  have us: "y \<in> used_bytes_of ?a bs'" if "y \<in> used_bytes_of ?a bs" for y
    using that by (auto simp: x used_bytes_of_append carve_def add.assoc)
  have "keeps_payloads ?a bs (kmem_mem k) (kmem_mem k'')"
    using a(4) k(3) us unfolding keeps_payloads_def sp by metis
  then show ?thesis using k by blast
qed

theorem kmem_alloc_free_roundtrip_witness:
  "\<exists>k k' k''. kmem_init 4096 4096 heap_blank = (0, k) \<and> kmem_alloc 100 k = Some (4144, k') \<and>
     kmem_free_checked 4144 k' = Some (0, k'') \<and> heap_ok k'' [(4048, True)]"
proof -
  obtain k where k: "kmem_init 4096 4096 heap_blank = (0, k)" "heap_ok k [(4048, True)]" "heap_base k = 4104"
    by (rule heap_4096)
  have "first_fit (round16 (unat (100 :: u64))) (unat (heap_base k)) [(4048, True)] = Some (4144, [(120, False), (3888, True)])"
    by (simp add: k(3) round16_def carve_def)
  then obtain k' where k': "kmem_alloc 100 k = Some (4144, k')" using kmem_alloc_fit [OF k(2), of 100] by auto
  show ?thesis using kmem_alloc_free_roundtrip [OF k(2) _ _ _ k'] k(1) k' by auto
qed

text \<open>
  The size of a request is rounded up with a mask of 32 bits, so the upper half of the request is
  lost: a request of \<open>2^32 + 16\<close> bytes succeeds on any heap whose first block is free and has at least
  120 bytes, and returns a block of 24 bytes. Likewise a request of \<open>2^64 - 1\<close> bytes returns 8 bytes.
\<close>

theorem kmem_alloc_truncates_large_requests:
  assumes "heap_ok k ((s, True) # bs)" "120 \<le> s"
  shows "(\<exists>k'. kmem_alloc 0x100000010 k = Some (heap_base k + 40, k') \<and> heap_ok k' ((24, False) # (s - 64, True) # bs)) \<and>
    (\<exists>k'. kmem_alloc 0xFFFFFFFFFFFFFFFF k = Some (heap_base k + 40, k') \<and> heap_ok k' ((8, False) # (s - 48, True) # bs))"
proof -
  have r: "kmem_round 0x100000010 = of_nat 16" "kmem_round 0xFFFFFFFFFFFFFFFF = of_nat 0"
    by (simp_all add: kmem_round_def KMEM_ALIGN_def)
  have "\<exists>k'. kmem_alloc x k = Some (heap_base k + 40, k') \<and> heap_ok k' ((n + 8, False) # (s - (n + 48), True) # bs)"
    if w: "kmem_round x = of_nat n" "x \<noteq> 0" "16 dvd n" "n \<le> 16" for n x
  proof -
    obtain m' where m': "alloc_from (of_nat n) (of_nat (unat (heap_base k))) (kmem_mem k) = Some (of_nat (unat (heap_base k) + 40), m')"
      "chain m' (unat (heap_base k)) (carve n s @ bs)"
      using alloc_from_first_fit [OF heap_okD(1,2) [OF assms(1)] w(3)] w(4) assms(2)
      by (auto simp: alloc_fits_def)
    have "heap_ok (k\<lparr>kmem_mem := m'\<rparr>) (carve n s @ bs)"
      using assms m'(2) carve_pos [of s n] by (auto simp: heap_ok_def in_memory_def)
    moreover have "carve n s = [(n + 8, False), (s - (n + 48), True)]" using assms(2) w(4) by (simp add: carve_def)
    ultimately show ?thesis using w(1,2) m'(1) heap_okD(3) [OF assms(1)] by (simp add: kmem_alloc_def)
  qed
  from this [of "0x100000010" 16] this [of "0xFFFFFFFFFFFFFFFF" 0] r show ?thesis by simp
qed

theorem kmem_alloc_truncates_large_requests_witness:
  "\<exists>k k'. kmem_init 4096 4096 heap_blank = (0, k) \<and> kmem_alloc 0x100000010 k = Some (4144, k') \<and>
     heap_ok k' [(24, False), (3984, True)]"
proof -
  obtain k where k: "kmem_init 4096 4096 heap_blank = (0, k)" "heap_ok k [(4048, True)]" "heap_base k = 4104"
    by (rule heap_4096)
  show ?thesis using kmem_alloc_truncates_large_requests [OF k(2)] k(1,3) by auto
qed

text \<open>
  On a well-formed heap \<open>kmem_validate\<close> accepts, and the counters of \<open>kmem_get_stats\<close> are the sums
  over its blocks; used bytes, free bytes and one header per block add up to the size of the heap.
\<close>

theorem kmem_stats_conserve:
  assumes "heap_ok k bs"
  shows "kmem_validate k = Some 0 \<and> (\<exists>st. kmem_get_stats k = Some st \<and>
     unat (used_bytes st) = sum_list (used_sizes bs) \<and> unat (free_bytes st) = sum_list (free_sizes bs) \<and>
     unat (block_count st) = length bs \<and> unat (free_count st) = length (free_sizes bs) \<and>
     unat (largest_free st) = fold max (free_sizes bs) 0 \<and>
     unat (total_bytes st) = unat (used_bytes st) + unat (free_bytes st) + 40 * unat (block_count st))"
proof -
  note hk = heap_okD [OF assms]
  have b: "of_nat (unat (heap_base k)) = heap_base k" by simp
  have "kmem_validate k = Some 0"
    using kmem_validate_from_ok [OF hk(1,2)] hk(3,7) by (simp add: kmem_validate_def)
  moreover obtain hs where hs: "stats_from (heap_base k) (kmem_mem k) (zero_stats\<lparr>total_bytes := heap_bytes k\<rparr>) =
      Some (fold count_block hs (zero_stats\<lparr>total_bytes := heap_bytes k\<rparr>))"
    "list_all2 (\<lambda>h b. h_size h = of_nat (fst b) \<and> (h_free h \<noteq> 0) = snd b) hs bs"
    using stats_from_fold [OF hk(1,2)] unfolding b by blast
  have "span bs < 18446744073709551616" using hk(2) by (simp add: in_memory_def)
  then have "stats_after (zero_stats\<lparr>total_bytes := heap_bytes k\<rparr>)
      (fold count_block hs (zero_stats\<lparr>total_bytes := heap_bytes k\<rparr>)) bs"
    using span_sizes [of bs] by (intro fold_count_block [OF hs(2)]) (simp_all add: zero_stats_def)
  ultimately show ?thesis using hs(1) hk(3,5) span_sizes [of bs]
    by (auto simp: kmem_get_stats_def stats_after_def zero_stats_def)
qed

theorem kmem_stats_conserve_witness:
  "\<exists>k st. kmem_init 4096 4096 heap_blank = (0, k) \<and> kmem_get_stats k = Some st \<and> unat (free_bytes st) = 4048"
proof -
  obtain k where k: "kmem_init 4096 4096 heap_blank = (0, k)" "heap_ok k [(4048, True)]" "heap_base k = 4104"
    by (rule heap_4096)
  show ?thesis using kmem_stats_conserve [OF k(2)] k(1) by auto
qed

end
