(* ===== verification/Elf.thy ===== *)
theory Elf
  imports Prelude Bytes
begin

text \<open>
  The planner of the user program loader, \<open>src/kernel/user/m11_elf_loader.c\<close>: it checks an ELF64 image
  held in memory and lists the segments to be loaded. The image is a byte list and its claimed size a
  64-bit word; fields are read at the offsets of the packed C structures. The output plan is the state,
  because the code writes it before and after its checks.
\<close>

section \<open>Data\<close>

datatype m11_err =
  M11_ERR_NULL | M11_ERR_SIZE | M11_ERR_MAGIC | M11_ERR_CLASS | M11_ERR_ENDIAN | M11_ERR_VERSION |
  M11_ERR_TYPE | M11_ERR_MACHINE | M11_ERR_EHSIZE | M11_ERR_PHENTSIZE | M11_ERR_PHBOUNDS | M11_ERR_ALIGN |
  M11_ERR_SEGBOUNDS | M11_ERR_SEGRANGE | M11_ERR_SEGCOUNT | M11_ERR_ENTRY | M11_ERR_FLAGS

fun m11_code :: "m11_err \<Rightarrow> int" where
  "m11_code M11_ERR_NULL = - 1"
| "m11_code M11_ERR_SIZE = - 2"
| "m11_code M11_ERR_MAGIC = - 3"
| "m11_code M11_ERR_CLASS = - 4"
| "m11_code M11_ERR_ENDIAN = - 5"
| "m11_code M11_ERR_VERSION = - 6"
| "m11_code M11_ERR_TYPE = - 7"
| "m11_code M11_ERR_MACHINE = - 8"
| "m11_code M11_ERR_EHSIZE = - 9"
| "m11_code M11_ERR_PHENTSIZE = - 10"
| "m11_code M11_ERR_PHBOUNDS = - 11"
| "m11_code M11_ERR_ALIGN = - 12"
| "m11_code M11_ERR_SEGBOUNDS = - 13"
| "m11_code M11_ERR_SEGRANGE = - 14"
| "m11_code M11_ERR_SEGCOUNT = - 15"
| "m11_code M11_ERR_ENTRY = - 16"
| "m11_code M11_ERR_FLAGS = - 17"

definition m11_error_name :: "int \<Rightarrow> string" where
  "m11_error_name code =
     (if code = 0 then ''M11_OK''
      else if code = - 1 then ''M11_ERR_NULL''
      else if code = - 2 then ''M11_ERR_SIZE''
      else if code = - 3 then ''M11_ERR_MAGIC''
      else if code = - 4 then ''M11_ERR_CLASS''
      else if code = - 5 then ''M11_ERR_ENDIAN''
      else if code = - 6 then ''M11_ERR_VERSION''
      else if code = - 7 then ''M11_ERR_TYPE''
      else if code = - 8 then ''M11_ERR_MACHINE''
      else if code = - 9 then ''M11_ERR_EHSIZE''
      else if code = - 10 then ''M11_ERR_PHENTSIZE''
      else if code = - 11 then ''M11_ERR_PHBOUNDS''
      else if code = - 12 then ''M11_ERR_ALIGN''
      else if code = - 13 then ''M11_ERR_SEGBOUNDS''
      else if code = - 14 then ''M11_ERR_SEGRANGE''
      else if code = - 15 then ''M11_ERR_SEGCOUNT''
      else if code = - 16 then ''M11_ERR_ENTRY''
      else if code = - 17 then ''M11_ERR_FLAGS''
      else ''M11_ERR_UNKNOWN'')"

record m11_elf64_ehdr =
  e_ident :: bytes
  e_type :: u16
  e_machine :: u16
  e_version :: u32
  e_entry :: u64
  e_phoff :: u64
  e_shoff :: u64
  e_flags :: u32
  e_ehsize :: u16
  e_phentsize :: u16
  e_phnum :: u16
  e_shentsize :: u16
  e_shnum :: u16
  e_shstrndx :: u16

record m11_elf64_phdr =
  p_type :: u32
  p_flags :: u32
  p_offset :: u64
  p_vaddr :: u64
  p_paddr :: u64
  p_filesz :: u64
  p_memsz :: u64
  p_align :: u64

record m11_user_region =
  r_base :: u64
  r_limit :: u64

record m11_segment_plan =
  file_offset :: u64
  s_vaddr :: u64
  s_filesz :: u64
  s_memsz :: u64
  s_align :: u64
  s_flags :: u32

record m11_process_image_plan =
  entry :: u64
  segment_count :: u32
  segments :: "m11_segment_plan list"

definition M11_MAX_LOAD_SEGMENTS :: nat where [layout]: "M11_MAX_LOAD_SEGMENTS = 8"
definition EHDR_SIZE :: nat where [layout]: "EHDR_SIZE = 64"
definition PHDR_SIZE :: nat where [layout]: "PHDR_SIZE = 56"

text \<open>Reading the two structures at an offset of the image.\<close>

definition read_ehdr :: "bytes \<Rightarrow> m11_elf64_ehdr" where
  "read_ehdr b = \<lparr>e_ident = field 0 16 b, e_type = get16 16 b, e_machine = get16 18 b, e_version = get32 20 b,
     e_entry = get64 24 b, e_phoff = get64 32 b, e_shoff = get64 40 b, e_flags = get32 48 b,
     e_ehsize = get16 52 b, e_phentsize = get16 54 b, e_phnum = get16 56 b, e_shentsize = get16 58 b,
     e_shnum = get16 60 b, e_shstrndx = get16 62 b\<rparr>"

definition read_phdr :: "bytes \<Rightarrow> nat \<Rightarrow> m11_elf64_phdr" where
  "read_phdr b a = \<lparr>p_type = get32 a b, p_flags = get32 (a + 4) b, p_offset = get64 (a + 8) b,
     p_vaddr = get64 (a + 16) b, p_paddr = get64 (a + 24) b, p_filesz = get64 (a + 32) b,
     p_memsz = get64 (a + 40) b, p_align = get64 (a + 48) b\<rparr>"

section \<open>Checks\<close>

type_synonym check = "m11_err option"

definition m11_add_overflow_u64 :: "u64 \<Rightarrow> u64 \<Rightarrow> u64 option" where
  "m11_add_overflow_u64 a b = (let r = a + b in if r < a then None else Some r)"

definition m11_is_power_of_two_u64 :: "u64 \<Rightarrow> bool" where
  "m11_is_power_of_two_u64 v \<longleftrightarrow> v \<noteq> 0 \<and> v AND (v - 1) = 0"

definition zero_segment :: m11_segment_plan where
  "zero_segment = \<lparr>file_offset = 0, s_vaddr = 0, s_filesz = 0, s_memsz = 0, s_align = 0, s_flags = 0\<rparr>"

definition m11_zero_plan :: "m11_process_image_plan \<Rightarrow> m11_process_image_plan" where
  "m11_zero_plan plan = plan\<lparr>entry := 0, segment_count := 0, segments := replicate M11_MAX_LOAD_SEGMENTS zero_segment\<rparr>"

definition m11_validate_user_range :: "m11_user_region \<Rightarrow> u64 \<Rightarrow> u64 \<Rightarrow> check" where
  "m11_validate_user_range region base sz =
     (if r_limit region \<le> r_base region then Some M11_ERR_SEGRANGE
      else if sz = 0 then Some M11_ERR_SEGRANGE
      else case m11_add_overflow_u64 base sz of
          None \<Rightarrow> Some M11_ERR_SEGRANGE
        | Some e \<Rightarrow> if base < r_base region \<or> r_limit region < e \<or> e \<le> base then Some M11_ERR_SEGRANGE else None)"

definition m11_validate_ident :: "m11_elf64_ehdr \<Rightarrow> check" where
  "m11_validate_ident eh =
     (if e_ident eh ! 0 \<noteq> 0x7f \<or> e_ident eh ! 1 \<noteq> 0x45 \<or> e_ident eh ! 2 \<noteq> 0x4c \<or> e_ident eh ! 3 \<noteq> 0x46
      then Some M11_ERR_MAGIC
      else if e_ident eh ! 4 \<noteq> 2 then Some M11_ERR_CLASS
      else if e_ident eh ! 5 \<noteq> 1 then Some M11_ERR_ENDIAN
      else if e_ident eh ! 6 \<noteq> 1 \<or> e_version eh \<noteq> 1 then Some M11_ERR_VERSION
      else None)"

definition m11_validate_phdr_bounds :: "m11_elf64_ehdr \<Rightarrow> u64 \<Rightarrow> check" where
  "m11_validate_phdr_bounds eh image_size =
     (if e_phnum eh = 0 then Some M11_ERR_PHBOUNDS
      else if e_phentsize eh \<noteq> of_nat PHDR_SIZE then Some M11_ERR_PHENTSIZE
      else let ph_table_bytes = ucast (e_phentsize eh) * ucast (e_phnum eh) in
        if e_phnum eh \<noteq> 0 \<and> ph_table_bytes div ucast (e_phnum eh) \<noteq> (ucast (e_phentsize eh) :: u64)
        then Some M11_ERR_PHBOUNDS
        else case m11_add_overflow_u64 (e_phoff eh) ph_table_bytes of
            None \<Rightarrow> Some M11_ERR_PHBOUNDS
          | Some ph_end \<Rightarrow> if image_size < ph_end \<or> image_size < e_phoff eh then Some M11_ERR_PHBOUNDS else None)"

definition m11_validate_load_segment :: "m11_elf64_phdr \<Rightarrow> u64 \<Rightarrow> m11_user_region \<Rightarrow> check" where
  "m11_validate_load_segment ph image_size region =
     (if p_flags ph AND NOT (4 OR 2 OR 1) \<noteq> 0 then Some M11_ERR_FLAGS
      else if p_flags ph AND 2 \<noteq> 0 \<and> p_flags ph AND 1 \<noteq> 0 then Some M11_ERR_FLAGS
      else if p_memsz ph < p_filesz ph then Some M11_ERR_SEGBOUNDS
      else if p_align ph \<noteq> 0 \<and> p_align ph \<noteq> 1 \<and> \<not> m11_is_power_of_two_u64 (p_align ph) then Some M11_ERR_ALIGN
      else if p_align ph \<noteq> 0 \<and> p_align ph \<noteq> 1 \<and> p_vaddr ph mod p_align ph \<noteq> p_offset ph mod p_align ph
      then Some M11_ERR_ALIGN
      else case m11_add_overflow_u64 (p_offset ph) (p_filesz ph) of
          None \<Rightarrow> Some M11_ERR_SEGBOUNDS
        | Some file_end \<Rightarrow>
            if image_size < file_end \<or> image_size < p_offset ph then Some M11_ERR_SEGBOUNDS
            else m11_validate_user_range region (p_vaddr ph) (p_memsz ph))"

section \<open>The planner\<close>

type_synonym plan_prog = "(m11_process_image_plan, m11_err, unit) prog"

text \<open>\<open>rc = check; if (rc != M11_OK) return rc;\<close>\<close>

definition pcheck_rc :: "check \<Rightarrow> plan_prog" where
  "pcheck_rc c = (case c of None \<Rightarrow> pret () | Some e \<Rightarrow> pfail e)"

definition segment_of :: "m11_elf64_phdr \<Rightarrow> m11_segment_plan" where
  "segment_of ph = \<lparr>file_offset = p_offset ph, s_vaddr = p_vaddr ph, s_filesz = p_filesz ph,
     s_memsz = p_memsz ph, s_align = p_align ph, s_flags = p_flags ph\<rparr>"

definition add_segment :: "m11_elf64_phdr \<Rightarrow> m11_process_image_plan \<Rightarrow> m11_process_image_plan" where
  "add_segment ph plan = plan\<lparr>segments := (segments plan)[unat (segment_count plan) := segment_of ph],
     segment_count := segment_count plan + 1\<rparr>"

text \<open>The body of the loop over the program headers.\<close>

definition plan_phdr :: "u64 \<Rightarrow> m11_user_region \<Rightarrow> m11_elf64_phdr \<Rightarrow> plan_prog" where
  "plan_phdr image_size region ph plan =
     (if p_type ph \<noteq> 1 then (Inr (), plan)
      else if M11_MAX_LOAD_SEGMENTS \<le> unat (segment_count plan) then (Inl M11_ERR_SEGCOUNT, m11_zero_plan plan)
      else case m11_validate_load_segment ph image_size region of
          Some rc \<Rightarrow> (Inl rc, m11_zero_plan plan)
        | None \<Rightarrow> (Inr (), add_segment ph plan))"

definition phdr_offset :: "m11_elf64_ehdr \<Rightarrow> nat \<Rightarrow> nat" where
  "phdr_offset eh i = unat (e_phoff eh) + i * PHDR_SIZE"

definition plan_image :: "bytes \<Rightarrow> u64 \<Rightarrow> m11_user_region \<Rightarrow> plan_prog" where
  "plan_image img image_size region =
     (let eh = read_ehdr img in
      pthen (\<lambda>plan. (Inr (), m11_zero_plan plan))
     (pthen (pguard (\<not> unat image_size < EHDR_SIZE) M11_ERR_SIZE)
     (pthen (pcheck_rc (m11_validate_ident eh))
     (pthen (pguard (\<not> (e_type eh \<noteq> 2 \<and> e_type eh \<noteq> 3)) M11_ERR_TYPE)
     (pthen (pguard (e_machine eh = 62) M11_ERR_MACHINE)
     (pthen (pguard (e_ehsize eh = of_nat EHDR_SIZE) M11_ERR_EHSIZE)
     (pthen (pcheck_rc (m11_validate_phdr_bounds eh image_size))
     (pthen (pguard (m11_validate_user_range region (e_entry eh) 1 = None) M11_ERR_ENTRY)
     (pthen (\<lambda>plan. (Inr (), plan\<lparr>entry := e_entry eh\<rparr>))
     (pthen (pfor [0..<unat (e_phnum eh)] (\<lambda>i. plan_phdr image_size region (read_phdr img (phdr_offset eh i))))
            (pcheck (\<lambda>plan. segment_count plan \<noteq> 0) M11_ERR_SEGCOUNT)))))))))))"

definition m11_elf64_plan_load ::
  "bytes option \<Rightarrow> u64 \<Rightarrow> m11_user_region \<Rightarrow> m11_process_image_plan option \<Rightarrow>
   (m11_err + unit) \<times> m11_process_image_plan option" where
  "m11_elf64_plan_load im image_size region out_plan =
     (case (im, out_plan) of
        (Some img, Some plan) \<Rightarrow> (case plan_image img image_size region plan of (r, plan') \<Rightarrow> (r, Some plan'))
      | _ \<Rightarrow> (Inl M11_ERR_NULL, out_plan))"

section \<open>What the checks mean\<close>

lemma add_overflow_None_iff: "m11_add_overflow_u64 a b = None \<longleftrightarrow> 18446744073709551616 \<le> unat a + unat b"
  using unat_u64_lt [of a] unat_u64_lt [of b]
  by (auto simp: m11_add_overflow_u64_def Let_def word_less_nat_alt unat_plus_if' split: if_splits)

lemma add_overflow_Some: "m11_add_overflow_u64 a b = Some r \<Longrightarrow> r = a + b \<and> unat r = unat a + unat b"
  using unat_u64_lt [of a] unat_u64_lt [of b]
  by (auto simp: m11_add_overflow_u64_def Let_def word_less_nat_alt unat_plus_if' split: if_splits)

definition user_range_ok :: "m11_user_region \<Rightarrow> u64 \<Rightarrow> u64 \<Rightarrow> bool" where
  "user_range_ok region base sz \<longleftrightarrow> 0 < unat sz \<and> unat (r_base region) \<le> unat base \<and>
     unat base + unat sz \<le> unat (r_limit region)"

lemma validate_user_range_iff: "m11_validate_user_range region base sz = None \<longleftrightarrow> user_range_ok region base sz"
proof (cases "m11_add_overflow_u64 base sz")
  case None
  then show ?thesis using unat_u64_lt [of "r_limit region"] add_overflow_None_iff [of base sz]
    by (auto simp: m11_validate_user_range_def user_range_ok_def)
next
  case (Some r)
  from add_overflow_Some [OF this] Some show ?thesis
    by (auto simp: m11_validate_user_range_def user_range_ok_def word_le_nat_alt word_less_nat_alt unat_eq_zero unat_gt_0)
qed

lemma validate_user_range_err: "m11_validate_user_range region base sz \<in> {None, Some M11_ERR_SEGRANGE}"
  by (auto simp: m11_validate_user_range_def split: option.splits)

lemma nat_and_pred: "0 < n \<Longrightarrow> n AND (n - 1) = 0 \<Longrightarrow> \<exists>k. n = 2 ^ k" for n :: nat
proof (induction n rule: less_induct)
  case (less n)
  show ?case
  proof (cases "even n")
    case True
    then obtain q where q: "n = 2 * q" by (elim evenE)
    then have p: "0 < q" "n - 1 = 2 * (q - 1) + 1" using less(2) by auto
    have "2 * (q AND (q - 1)) = n AND (n - 1)" unfolding p(2) unfolding q
      by (simp add: and_nat_rec [of "2 * q"])
    then have "q AND (q - 1) = 0" using less(3) by simp
    then obtain k where "q = 2 ^ k" using less(1) [of q] p(1) q by auto
    then show ?thesis using q by (metis power_Suc)
  next
    case False
    then obtain q where q: "n = 2 * q + 1" by (elim oddE)
    have "n AND (n - 1) = 2 * q" unfolding q by (simp add: and_nat_rec [of "Suc (2 * q)"])
    then have "q = 0" using less(3) by simp
    then show ?thesis using q by (metis add_0 mult_0_right power_0)
  qed
qed

lemma power_of_two_iff: "m11_is_power_of_two_u64 v \<longleftrightarrow> (\<exists>k. unat v = 2 ^ k)"
proof -
  have u: "unat (v AND (v - 1)) = unat v AND (unat v - 1)" if "v \<noteq> 0"
    using that by (simp add: unsigned_and_eq unat_sub word_le_nat_alt unat_eq_zero Suc_le_eq unat_gt_0)
  have "2 ^ k AND (2 ^ k - 1) = (0 :: nat)" for k :: nat
    unfolding mask_eq_exp_minus_1 [symmetric] by (rule bit_eqI) (simp add: bit_and_iff bit_exp_iff bit_mask_iff)
  note pow = this
  show ?thesis
  proof (cases "v = 0")
    case True
    then show ?thesis by (simp add: m11_is_power_of_two_u64_def)
  next
    case False
    have "m11_is_power_of_two_u64 v \<longleftrightarrow> unat (v AND (v - 1)) = 0"
      using False by (simp add: m11_is_power_of_two_u64_def unat_eq_zero)
    then show ?thesis using u [OF False] pow nat_and_pred [of "unat v"] False by (metis unat_gt_0)
  qed
qed

definition segment_ok :: "m11_elf64_phdr \<Rightarrow> u64 \<Rightarrow> m11_user_region \<Rightarrow> bool" where
  "segment_ok ph image_size region \<longleftrightarrow>
     p_flags ph AND NOT 7 = 0 \<and> \<not> (bit (p_flags ph) 1 \<and> bit (p_flags ph) 0) \<and>
     unat (p_filesz ph) \<le> unat (p_memsz ph) \<and>
     (p_align ph = 0 \<or> (\<exists>k. unat (p_align ph) = 2 ^ k) \<and>
        unat (p_vaddr ph) mod unat (p_align ph) = unat (p_offset ph) mod unat (p_align ph)) \<and>
     unat (p_offset ph) + unat (p_filesz ph) \<le> unat image_size \<and>
     user_range_ok region (p_vaddr ph) (p_memsz ph)"

lemma flag_bits: "(v :: u32) AND 2 \<noteq> 0 \<longleftrightarrow> bit v 1" "v AND 1 \<noteq> 0 \<longleftrightarrow> bit v 0"
  using and_exp_eq_0_iff_not_bit [of v 1] and_exp_eq_0_iff_not_bit [of v 0] by simp_all

lemma align_1: "unat (v :: u64) = 1 \<longleftrightarrow> v = 1"
  by (simp add: word_unat_eq_iff)

lemma validate_load_segment_iff:
  "m11_validate_load_segment ph image_size region = None \<longleftrightarrow> segment_ok ph image_size region"
proof -
  let ?al = "p_align ph"
  have al: "(?al \<noteq> 0 \<and> ?al \<noteq> 1 \<and> \<not> m11_is_power_of_two_u64 ?al) \<or>
      (?al \<noteq> 0 \<and> ?al \<noteq> 1 \<and> p_vaddr ph mod ?al \<noteq> p_offset ph mod ?al) \<longleftrightarrow>
      \<not> (?al = 0 \<or> (\<exists>k. unat ?al = 2 ^ k) \<and> unat (p_vaddr ph) mod unat ?al = unat (p_offset ph) mod unat ?al)"
    by (cases "?al = 1") (auto simp: power_of_two_iff word_unat_eq_iff [of "_ mod _"] unat_mod intro: exI [of _ 0])
  have fl: "(4 OR 2 OR 1 :: u32) = 7" by simp
  show ?thesis
  proof (cases "m11_add_overflow_u64 (p_offset ph) (p_filesz ph)")
    case None
    have "\<not> segment_ok ph image_size region"
      using None unat_u64_lt [of image_size] by (auto simp: segment_ok_def add_overflow_None_iff)
    then show ?thesis using None by (simp add: m11_validate_load_segment_def)
  next
    case (Some r)
    note r = add_overflow_Some [OF Some]
    have e: "image_size < r \<or> image_size < p_offset ph \<longleftrightarrow> \<not> unat (p_offset ph) + unat (p_filesz ph) \<le> unat image_size"
      using r by (auto simp: word_less_nat_alt)
    show ?thesis
      unfolding m11_validate_load_segment_def segment_ok_def Some option.case flag_bits fl e
      using al by (auto simp: validate_user_range_iff word_less_nat_alt word_le_nat_alt not_le)
  qed
qed

section \<open>The loop over the program headers\<close>

definition loads :: "m11_elf64_phdr list \<Rightarrow> m11_elf64_phdr list" where
  "loads = filter (\<lambda>ph. p_type ph = 1)"

definition plan_with :: "m11_process_image_plan \<Rightarrow> m11_segment_plan list \<Rightarrow> m11_process_image_plan" where
  "plan_with plan segs = plan\<lparr>segment_count := of_nat (length segs),
     segments := segs @ replicate (M11_MAX_LOAD_SEGMENTS - length segs) zero_segment\<rparr>"

lemma zero_plan_with [simp]: "m11_zero_plan (plan_with plan segs) = m11_zero_plan plan"
  by (simp add: plan_with_def m11_zero_plan_def)

lemma add_segment_with:
  assumes "length segs < M11_MAX_LOAD_SEGMENTS"
  shows "add_segment ph (plan_with plan segs) = plan_with plan (segs @ [segment_of ph])"
proof -
  have l: "length segs < 8" using assms by (simp add: M11_MAX_LOAD_SEGMENTS_def)
  have u: "unat (of_nat (length segs) :: u32) = length segs" using l by (simp add: unat_of_nat)
  obtain n where n: "8 - length segs = Suc n" "7 - length segs = n" using l by (cases "8 - length segs") auto
  show ?thesis using l
    by (cases plan) (simp add: add_segment_def plan_with_def u M11_MAX_LOAD_SEGMENTS_def n add.commute)
qed

lemma plan_phdr_with:
  assumes "length segs \<le> M11_MAX_LOAD_SEGMENTS"
  shows "plan_phdr image_size region ph (plan_with plan segs) =
    (if p_type ph \<noteq> 1 then (Inr (), plan_with plan segs)
     else if length segs = M11_MAX_LOAD_SEGMENTS then (Inl M11_ERR_SEGCOUNT, m11_zero_plan plan)
     else case m11_validate_load_segment ph image_size region of
         Some rc \<Rightarrow> (Inl rc, m11_zero_plan plan)
       | None \<Rightarrow> (Inr (), plan_with plan (segs @ [segment_of ph])))"
proof -
  have "unat (segment_count (plan_with plan segs)) = length segs"
    using assms by (simp add: plan_with_def unat_of_nat M11_MAX_LOAD_SEGMENTS_def)
  then show ?thesis using assms
    by (auto simp: plan_phdr_def add_segment_with split: option.splits)
qed

lemma plan_loop:
  assumes "length segs \<le> M11_MAX_LOAD_SEGMENTS"
  shows "if length segs + length (loads phs) \<le> M11_MAX_LOAD_SEGMENTS \<and>
            (\<forall>ph\<in>set (loads phs). segment_ok ph image_size region)
    then pfor phs (plan_phdr image_size region) (plan_with plan segs) =
           (Inr (), plan_with plan (segs @ map segment_of (loads phs)))
    else \<exists>e. pfor phs (plan_phdr image_size region) (plan_with plan segs) = (Inl e, m11_zero_plan plan)"
  using assms
proof (induction phs arbitrary: segs)
  case Nil
  then show ?case by (simp add: loads_def pret_def)
next
  case (Cons ph phs)
  note step = plan_phdr_with [OF Cons(2), of image_size region ph plan]
  show ?case
  proof (cases "p_type ph = 1")
    case False
    then have "pfor (ph # phs) (plan_phdr image_size region) (plan_with plan segs) =
        pfor phs (plan_phdr image_size region) (plan_with plan segs)"
      using step by (simp add: prog_run)
    then show ?thesis using Cons(1) [OF Cons(2)] False by (simp add: loads_def)
  next
    case load: True
    show ?thesis
    proof (cases "length segs = M11_MAX_LOAD_SEGMENTS")
      case True
      then show ?thesis using step load by (simp add: loads_def prog_run)
    next
      case False
      show ?thesis
      proof (cases "segment_ok ph image_size region")
        case bad: False
        then obtain e where "m11_validate_load_segment ph image_size region = Some e"
          using validate_load_segment_iff [of ph image_size region] by auto
        then show ?thesis using step load False bad by (simp add: loads_def prog_run)
      next
        case True
        then have v: "m11_validate_load_segment ph image_size region = None" by (simp add: validate_load_segment_iff)
        have "pfor (ph # phs) (plan_phdr image_size region) (plan_with plan segs) =
            pfor phs (plan_phdr image_size region) (plan_with plan (segs @ [segment_of ph]))"
          using step load False v by (simp add: prog_run)
        then show ?thesis using Cons(1) [of "segs @ [segment_of ph]"] Cons(2) False True load
          by (simp add: loads_def)
      qed
    qed
  qed
qed

section \<open>The planner\<close>

definition phdrs :: "bytes \<Rightarrow> m11_elf64_phdr list" where
  "phdrs img = map (\<lambda>i. read_phdr img (phdr_offset (read_ehdr img) i)) [0..<unat (e_phnum (read_ehdr img))]"

text \<open>The conditions on the file header, over unbounded numbers.\<close>

definition header_ok :: "bytes \<Rightarrow> u64 \<Rightarrow> m11_user_region \<Rightarrow> bool" where
  "header_ok img image_size region \<longleftrightarrow>
     (let eh = read_ehdr img in
       64 \<le> unat image_size \<and> take 7 (e_ident eh) = [0x7f, 0x45, 0x4c, 0x46, 2, 1, 1] \<and> e_version eh = 1 \<and>
       e_type eh \<in> {2, 3} \<and> e_machine eh = 62 \<and> e_ehsize eh = 64 \<and>
       0 < unat (e_phnum eh) \<and> e_phentsize eh = 56 \<and>
       unat (e_phoff eh) + 56 * unat (e_phnum eh) \<le> unat image_size \<and>
       unat (r_base region) \<le> unat (e_entry eh) \<and> unat (e_entry eh) < unat (r_limit region))"

lemma validate_phdr_bounds_iff:
  "m11_validate_phdr_bounds eh image_size = None \<longleftrightarrow>
   0 < unat (e_phnum eh) \<and> e_phentsize eh = 56 \<and> unat (e_phoff eh) + 56 * unat (e_phnum eh) \<le> unat image_size"
proof (cases "e_phnum eh = 0 \<or> e_phentsize eh \<noteq> 56")
  case True
  then show ?thesis by (auto simp: m11_validate_phdr_bounds_def PHDR_SIZE_def)
next
  case False
  then have n: "e_phnum eh \<noteq> 0" "e_phentsize eh = 56" by auto
  let ?n = "unat (e_phnum eh)"
  have nb: "?n < 65536" "0 < ?n" using unat_u16_lt [of "e_phnum eh"] n(1) by (simp_all add: unat_gt_0)
  let ?t = "ucast (e_phentsize eh) * ucast (e_phnum eh) :: u64"
  have t: "unat ?t = 56 * ?n" using nb(1) by (simp add: n(2) unat_word_ariths unsigned_ucast_eq take_bit_nat_eq_self)
  have t': "unat (56 * ucast (e_phnum eh) :: u64) = 56 * ?n" using t by (simp add: n(2))
  have d: "?t div ucast (e_phnum eh) = ucast (e_phentsize eh)"
    using nb by (simp add: word_unat_eq_iff unat_div t' n(2) unsigned_ucast_eq take_bit_nat_eq_self)
  show ?thesis
  proof (cases "m11_add_overflow_u64 (e_phoff eh) ?t")
    case None
    then have "18446744073709551616 \<le> unat (e_phoff eh) + 56 * ?n" using t by (simp add: add_overflow_None_iff)
    moreover have "m11_validate_phdr_bounds eh image_size \<noteq> None"
      using None n by (simp add: m11_validate_phdr_bounds_def Let_def PHDR_SIZE_def)
    ultimately show ?thesis using unat_u64_lt [of image_size] by auto
  next
    case (Some r)
    then have r: "unat r = unat (e_phoff eh) + 56 * ?n" using add_overflow_Some t by metis
    have "m11_validate_phdr_bounds eh image_size =
        (if image_size < r \<or> image_size < e_phoff eh then Some M11_ERR_PHBOUNDS else None)"
      unfolding m11_validate_phdr_bounds_def Let_def d Some using n by (simp add: PHDR_SIZE_def)
    then show ?thesis using r n nb by (auto simp: word_less_nat_alt)
  qed
qed

definition header_check :: "bytes \<Rightarrow> u64 \<Rightarrow> m11_user_region \<Rightarrow> check" where
  "header_check img image_size region =
     (let eh = read_ehdr img in
      if unat image_size < EHDR_SIZE then Some M11_ERR_SIZE
      else case m11_validate_ident eh of Some e \<Rightarrow> Some e
      | None \<Rightarrow> if e_type eh \<noteq> 2 \<and> e_type eh \<noteq> 3 then Some M11_ERR_TYPE
        else if e_machine eh \<noteq> 62 then Some M11_ERR_MACHINE
        else if e_ehsize eh \<noteq> of_nat EHDR_SIZE then Some M11_ERR_EHSIZE
        else case m11_validate_phdr_bounds eh image_size of Some e \<Rightarrow> Some e
        | None \<Rightarrow> if m11_validate_user_range region (e_entry eh) 1 \<noteq> None then Some M11_ERR_ENTRY else None)"

definition plan_segments :: "bytes \<Rightarrow> u64 \<Rightarrow> m11_user_region \<Rightarrow> plan_prog" where
  "plan_segments img image_size region =
     pthen (pfor (phdrs img) (plan_phdr image_size region)) (pcheck (\<lambda>plan. segment_count plan \<noteq> 0) M11_ERR_SEGCOUNT)"

lemma plan_image_eq:
  "plan_image img image_size region plan =
     (case header_check img image_size region of
        Some e \<Rightarrow> (Inl e, m11_zero_plan plan)
      | None \<Rightarrow> plan_segments img image_size region ((m11_zero_plan plan)\<lparr>entry := e_entry (read_ehdr img)\<rparr>))"
proof -
  have "pfor [0..<unat (e_phnum (read_ehdr img))] (\<lambda>i. plan_phdr image_size region (read_phdr img (phdr_offset (read_ehdr img) i))) =
      pfor (phdrs img) (plan_phdr image_size region)"
    by (simp add: phdrs_def pfor_map)
  then have e: "pthen (pfor [0..<unat (e_phnum (read_ehdr img))]
      (\<lambda>i. plan_phdr image_size region (read_phdr img (phdr_offset (read_ehdr img) i))))
      (pcheck (\<lambda>plan. segment_count plan \<noteq> 0) M11_ERR_SEGCOUNT) = plan_segments img image_size region"
    by (simp add: plan_segments_def)
  show ?thesis unfolding plan_image_def Let_def e
    by (auto simp: header_check_def Let_def pthen_def pbind_def pguard_def pcheck_rc_def pret_def pfail_def split: option.split)
qed

lemma take_7_eq: "length xs = 16 \<Longrightarrow> take 7 xs = [a, b, c, d, e, f, g] \<longleftrightarrow>
    xs ! 0 = a \<and> xs ! 1 = b \<and> xs ! 2 = c \<and> xs ! 3 = d \<and> xs ! 4 = e \<and> xs ! 5 = f \<and> xs ! 6 = g"
proof -
  assume l: "length xs = 16"
  have "take 7 xs = map (\<lambda>i. xs ! i) [0..<7]" by (rule nth_equalityI) (simp_all add: l)
  also have "[0..<7] = [0, 1, 2, 3, 4, 5, 6 :: nat]" by (simp add: upt_rec)
  finally show ?thesis by simp
qed

lemma header_check_iff:
  assumes "64 \<le> length img"
  shows "header_check img image_size region = None \<longleftrightarrow> header_ok img image_size region"
proof -
  have l: "length (e_ident (read_ehdr img)) = 16" using assms by (simp add: read_ehdr_def)
  have id: "m11_validate_ident eh = None \<longleftrightarrow>
      take 7 (e_ident eh) = [0x7f, 0x45, 0x4c, 0x46, 2, 1, 1] \<and> e_version eh = 1" if "length (e_ident eh) = 16" for eh
    unfolding take_7_eq [OF that] m11_validate_ident_def by auto
  have en: "user_range_ok region b 1 \<longleftrightarrow> unat (r_base region) \<le> unat b \<and> unat b < unat (r_limit region)" for b
    by (auto simp: user_range_ok_def)
  show ?thesis
    unfolding header_check_def header_ok_def Let_def
    using id [OF l] validate_phdr_bounds_iff [of "read_ehdr img" image_size]
    by (auto simp: EHDR_SIZE_def validate_user_range_iff en split: option.splits)
qed

lemma plan_segments_eq:
  fixes plan img
  defines "p0 \<equiv> (m11_zero_plan plan)\<lparr>entry := e_entry (read_ehdr img)\<rparr>" and "ls \<equiv> loads (phdrs img)"
  shows "if ls = [] then plan_segments img image_size region p0 = (Inl M11_ERR_SEGCOUNT, p0)
    else if length ls \<le> M11_MAX_LOAD_SEGMENTS \<and> (\<forall>ph\<in>set ls. segment_ok ph image_size region)
    then plan_segments img image_size region p0 = (Inr (), plan_with p0 (map segment_of ls))
    else \<exists>e. plan_segments img image_size region p0 = (Inl e, m11_zero_plan plan)"
proof -
  have p0: "plan_with p0 [] = p0" by (simp add: p0_def plan_with_def m11_zero_plan_def)
  have z: "m11_zero_plan p0 = m11_zero_plan plan" by (simp add: p0_def m11_zero_plan_def)
  have p0': "p0\<lparr>segment_count := 0, segments := replicate 8 zero_segment\<rparr> = p0"
    and c0: "segment_count p0 = 0"
    by (simp_all add: p0_def m11_zero_plan_def M11_MAX_LOAD_SEGMENTS_def)
  have "length ls \<le> 8 \<Longrightarrow> (of_nat (length ls) :: u32) = 0 \<longleftrightarrow> ls = []"
    by (simp add: word_unat_eq_iff unat_of_nat)
  then show ?thesis
    using plan_loop [of "[]" "phdrs img" image_size region p0, unfolded p0 z]
    by (auto simp: plan_segments_def ls_def [symmetric] prog_run p0 p0' c0 M11_MAX_LOAD_SEGMENTS_def plan_with_def
        split: if_splits)
qed

section \<open>Reads stay inside the image\<close>

lemma read_phdr_append: "a + PHDR_SIZE \<le> length img \<Longrightarrow> read_phdr (img @ rest) a = read_phdr img a"
  by (simp add: read_phdr_def PHDR_SIZE_def)

lemma read_ehdr_append: "EHDR_SIZE \<le> length img \<Longrightarrow> read_ehdr (img @ rest) = read_ehdr img"
  by (simp add: read_ehdr_def EHDR_SIZE_def)

lemma phdrs_append:
  assumes "EHDR_SIZE \<le> length img" "m11_validate_phdr_bounds (read_ehdr img) image_size = None" "unat image_size \<le> length img"
  shows "phdrs (img @ rest) = phdrs img"
proof -
  have "phdr_offset (read_ehdr img) i + PHDR_SIZE \<le> length img" if "i < unat (e_phnum (read_ehdr img))" for i
    using assms(2,3) that by (auto simp: validate_phdr_bounds_iff phdr_offset_def PHDR_SIZE_def)
  then show ?thesis by (simp add: phdrs_def read_ehdr_append [OF assms(1)] read_phdr_append)
qed

lemma plan_image_append:
  assumes "unat image_size \<le> length img"
  shows "plan_image (img @ rest) image_size region plan = plan_image img image_size region plan"
proof (cases "unat image_size < EHDR_SIZE")
  case True
  then show ?thesis by (simp add: plan_image_eq header_check_def Let_def)
next
  case False
  then have l: "EHDR_SIZE \<le> length img" using assms by simp
  have h: "header_check (img @ rest) image_size region = header_check img image_size region"
    by (simp add: header_check_def read_ehdr_append [OF l])
  show ?thesis
  proof (cases "header_check img image_size region")
    case None
    then have "m11_validate_phdr_bounds (read_ehdr img) image_size = None"
      by (auto simp: header_check_def Let_def split: if_splits option.splits)
    from phdrs_append [OF l this assms] show ?thesis
      by (simp add: plan_image_eq h None plan_segments_def read_ehdr_append [OF l])
  qed (simp add: plan_image_eq h)
qed

section \<open>An example image\<close>

definition demo_ident :: bytes where
  "demo_ident = [0x7f, 0x45, 0x4c, 0x46, 2, 1, 1, 0, 0, 0, 0, 0, 0, 0, 0, 0]"

lemma length_demo_ident [simp]: "length demo_ident = 16"
  by (simp add: demo_ident_def)

text \<open>A file header and one program header of the given type; 120 bytes.\<close>

definition demo_image :: "u32 \<Rightarrow> bytes" where
  "demo_image ty = demo_ident @
     enc16 2 @ enc16 62 @ enc32 1 @ enc64 0x400078 @ enc64 64 @ enc64 0 @ enc32 0 @ enc16 64 @ enc16 56 @ enc16 1 @
     enc16 0 @ enc16 0 @ enc16 0 @
     enc32 ty @ enc32 5 @ enc64 0 @ enc64 0x400000 @ enc64 0 @ enc64 120 @ enc64 4096 @ enc64 4096"

definition demo_region :: m11_user_region where
  "demo_region = \<lparr>r_base = 0x400000, r_limit = 0x8000000000\<rparr>"

definition demo_plan :: m11_process_image_plan where
  "demo_plan = \<lparr>entry = 7, segment_count = 3, segments = replicate 8 zero_segment\<rparr>"

lemma demo_ehdr: "read_ehdr (demo_image ty) = \<lparr>e_ident = demo_ident,
    e_type = 2, e_machine = 62, e_version = 1, e_entry = 0x400078, e_phoff = 64, e_shoff = 0, e_flags = 0, e_ehsize = 64,
    e_phentsize = 56, e_phnum = 1, e_shentsize = 0, e_shnum = 0, e_shstrndx = 0\<rparr>"
  by (simp add: read_ehdr_def demo_image_def)

lemma demo_phdrs: "phdrs (demo_image ty) = [\<lparr>p_type = ty, p_flags = 5, p_offset = 0, p_vaddr = 0x400000, p_paddr = 0,
    p_filesz = 120, p_memsz = 4096, p_align = 4096\<rparr>]"
  by (simp add: phdrs_def demo_ehdr phdr_offset_def) (simp add: read_phdr_def demo_image_def)

lemma demo_length: "length (demo_image ty) = 120"
  by (simp add: demo_image_def)

lemma demo_header_ok: "header_ok (demo_image ty) 120 demo_region"
  by (simp add: header_ok_def demo_ehdr demo_region_def demo_ident_def Let_def)

lemma demo_segment_ok: "segment_ok \<lparr>p_type = ty, p_flags = 5, p_offset = 0, p_vaddr = 0x400000, p_paddr = 0,
    p_filesz = 120, p_memsz = 4096, p_align = 4096\<rparr> 120 demo_region"
proof -
  have "\<not> bit (5 :: u32) 1" by (simp add: bit_numeral_rec)
  moreover have "(4096 :: nat) = 2 ^ 12" by simp
  ultimately show ?thesis by (auto simp: segment_ok_def user_range_ok_def demo_region_def intro!: exI [of _ 12])
qed

section \<open>Properties\<close>

text \<open>
  C26. The planner accepts exactly the images whose file header is that of a 64-bit x86 executable with
  its program header table and entry point in bounds, and that have one to eight load segments, each of
  which lies inside the image and inside the user region without wrap-around, is not both writable and
  executable, has a power-of-two alignment that its address and file offset agree on, and does not have
  more file bytes than memory bytes. The plan then lists these segments in their order.
\<close>

theorem plan_load_accepts_exactly:
  assumes "64 \<le> length img"
  shows "m11_elf64_plan_load (Some img) image_size region (Some plan) = (Inr (), Some plan') \<longleftrightarrow>
    header_ok img image_size region \<and> 1 \<le> length (loads (phdrs img)) \<and> length (loads (phdrs img)) \<le> 8 \<and>
    (\<forall>ph\<in>set (loads (phdrs img)). segment_ok ph image_size region) \<and>
    plan' = plan\<lparr>entry := e_entry (read_ehdr img), segment_count := of_nat (length (loads (phdrs img))),
      segments := map segment_of (loads (phdrs img)) @ replicate (8 - length (loads (phdrs img))) zero_segment\<rparr>"
proof -
  let ?p0 = "(m11_zero_plan plan)\<lparr>entry := e_entry (read_ehdr img)\<rparr>"
  have w: "plan_with ?p0 segs = plan\<lparr>entry := e_entry (read_ehdr img), segment_count := of_nat (length segs),
      segments := segs @ replicate (8 - length segs) zero_segment\<rparr>" for segs
    by (cases plan) (simp add: plan_with_def m11_zero_plan_def M11_MAX_LOAD_SEGMENTS_def)
  show ?thesis
    using header_check_iff [OF assms, of image_size region] plan_segments_eq [of img image_size region plan, unfolded w]
    by (cases "header_check img image_size region")
      (auto simp: m11_elf64_plan_load_def plan_image_eq M11_MAX_LOAD_SEGMENTS_def Suc_le_eq split: if_splits)
qed

theorem plan_load_accepts_exactly_witness:
  "m11_elf64_plan_load (Some (demo_image 1)) 120 demo_region (Some demo_plan) =
     (Inr (), Some \<lparr>entry = 0x400078, segment_count = 1, segments =
        \<lparr>file_offset = 0, s_vaddr = 0x400000, s_filesz = 120, s_memsz = 4096, s_align = 4096, s_flags = 5\<rparr> #
        replicate 7 zero_segment\<rparr>)"
  using demo_segment_ok [of 1]
  by (subst plan_load_accepts_exactly)
    (simp_all add: demo_length demo_header_ok demo_phdrs demo_ehdr loads_def segment_of_def demo_plan_def)

text \<open>
  A refused image leaves a plan without segments: the plan is all zero, except that for an image
  without any load segment the entry point stays set.
\<close>

theorem plan_load_error_clears:
  assumes "m11_elf64_plan_load (Some img) image_size region (Some plan) = (Inl e, Some plan')"
  shows "plan' = m11_zero_plan plan \<or>
    e = M11_ERR_SEGCOUNT \<and> loads (phdrs img) = [] \<and> plan' = (m11_zero_plan plan)\<lparr>entry := e_entry (read_ehdr img)\<rparr>"
  using assms plan_segments_eq [of img image_size region plan]
  by (cases "header_check img image_size region")
    (auto simp: m11_elf64_plan_load_def plan_image_eq split: if_splits)

theorem plan_load_error_clears_witness:
  "m11_elf64_plan_load (Some (demo_image 0)) 120 demo_region (Some demo_plan) =
     (Inl M11_ERR_SEGCOUNT, Some ((m11_zero_plan demo_plan)\<lparr>entry := 0x400078\<rparr>))"
proof -
  have "header_check (demo_image 0) 120 demo_region = None"
    using header_check_iff [of "demo_image 0"] demo_header_ok demo_length by simp
  then have r: "m11_elf64_plan_load (Some (demo_image 0)) 120 demo_region (Some demo_plan) =
      (Inl M11_ERR_SEGCOUNT, Some ((m11_zero_plan demo_plan)\<lparr>entry := 0x400078\<rparr>))"
    using plan_segments_eq [of "demo_image 0" 120 demo_region demo_plan]
    by (simp add: m11_elf64_plan_load_def plan_image_eq demo_ehdr demo_phdrs loads_def)
  from plan_load_error_clears [OF r] show ?thesis using r by simp
qed

text \<open>
  C27. The planner reads only bytes of the image: whatever lies behind the claimed size has no influence
  on its result, for every image, header and program header table.
\<close>

theorem plan_load_reads_in_bounds:
  assumes "unat image_size \<le> length img"
  shows "m11_elf64_plan_load (Some (img @ rest)) image_size region plan = m11_elf64_plan_load (Some img) image_size region plan"
  by (cases plan) (simp_all add: m11_elf64_plan_load_def plan_image_append [OF assms])

theorem plan_load_reads_in_bounds_witness:
  "m11_elf64_plan_load (Some (demo_image 1 @ [1, 2, 3])) 120 demo_region (Some demo_plan) =
   m11_elf64_plan_load (Some (demo_image 1)) 120 demo_region (Some demo_plan)"
  by (rule plan_load_reads_in_bounds) (simp add: demo_length)

end
