(* ===== verification/Mcsfs1.thy ===== *)
theory Mcsfs1
  imports Prelude Bytes
begin

text \<open>
  The file system MCSFS1 of \<open>src/fs/mcsfs1/mcsfs1.c\<close>: a flat directory of at most 16 files of up to
  eight blocks. The block device is what the C code is given, a context and three function pointers;
  nothing is assumed of them in the definitions. Blocks are byte lists, and inodes and directory
  entries are read and written at their offsets inside a block, as the C code does.
\<close>

section \<open>Constants and the device\<close>

definition MCSFS1_BLOCK_SIZE :: nat where [layout]: "MCSFS1_BLOCK_SIZE = 512"
definition MCSFS1_MAGIC :: u32 where [layout]: "MCSFS1_MAGIC = 0x31465343"
definition MCSFS1_VERSION :: u32 where [layout]: "MCSFS1_VERSION = 1"
definition MCSFS1_MAX_INODES :: nat where [layout]: "MCSFS1_MAX_INODES = 32"
definition MCSFS1_DIRECT_BLOCKS :: nat where [layout]: "MCSFS1_DIRECT_BLOCKS = 8"
definition MCSFS1_MAX_NAME :: nat where [layout]: "MCSFS1_MAX_NAME = 27"
definition MCSFS1_ROOT_INO :: nat where [layout]: "MCSFS1_ROOT_INO = 1"
definition MCSFS1_MODE_FILE :: u16 where [layout]: "MCSFS1_MODE_FILE = 1"
definition MCSFS1_MODE_DIR :: u16 where [layout]: "MCSFS1_MODE_DIR = 2"
definition MCSFS1_SB_LBA :: u32 where [layout]: "MCSFS1_SB_LBA = 0"
definition MCSFS1_INODE_BMAP_LBA :: u32 where [layout]: "MCSFS1_INODE_BMAP_LBA = 1"
definition MCSFS1_BLOCK_BMAP_LBA :: u32 where [layout]: "MCSFS1_BLOCK_BMAP_LBA = 2"
definition MCSFS1_INODE_TABLE_LBA :: u32 where [layout]: "MCSFS1_INODE_TABLE_LBA = 3"
definition MCSFS1_INODE_TABLE_BLOCKS :: u32 where [layout]: "MCSFS1_INODE_TABLE_BLOCKS = 4"
definition MCSFS1_ROOT_DIR_LBA :: u32 where [layout]: "MCSFS1_ROOT_DIR_LBA = 7"
definition MCSFS1_DATA_START_LBA :: u32 where [layout]: "MCSFS1_DATA_START_LBA = 8"
definition MCSFS1_MIN_BLOCKS :: u32 where [layout]: "MCSFS1_MIN_BLOCKS = 16"
definition MCSFS1_DIRENT_COUNT :: nat where [layout]: "MCSFS1_DIRENT_COUNT = 16"

text \<open>
  The error codes; \<open>MCSFS1_FAULT\<close> is no code of the program but marks a read outside a C object.
\<close>

datatype mcsfs1_err =
  MCSFS1_ERR_INVAL | MCSFS1_ERR_IO | MCSFS1_ERR_NOSPC | MCSFS1_ERR_EXIST | MCSFS1_ERR_NOENT |
  MCSFS1_ERR_NAMETOOLONG | MCSFS1_ERR_CORRUPT | MCSFS1_ERR_ISDIR | MCSFS1_ERR_RANGE | MCSFS1_FAULT

record 'c mcsfs1_blkdev =
  d_ctx :: 'c
  block_count :: u32
  d_read :: "('c \<Rightarrow> u32 \<Rightarrow> bytes option \<times> 'c) option"
  d_write :: "('c \<Rightarrow> u32 \<Rightarrow> bytes \<Rightarrow> bool \<times> 'c) option"
  d_flush :: "('c \<Rightarrow> bool \<times> 'c) option"

type_synonym ('c, 'a) m1_prog = "('c mcsfs1_blkdev, mcsfs1_err, 'a) prog"

record mcsfs1_mount =
  m_block_count :: u32
  m_data_start :: u32

definition dev_read :: "u32 \<Rightarrow> ('c, bytes) m1_prog" where
  "dev_read lba dev =
     (case d_read dev of
        None \<Rightarrow> (Inl MCSFS1_ERR_INVAL, dev)
      | Some rd \<Rightarrow> if block_count dev \<le> lba then (Inl MCSFS1_ERR_INVAL, dev)
          else (case rd (d_ctx dev) lba of
              (Some b, c) \<Rightarrow> (Inr b, dev\<lparr>d_ctx := c\<rparr>)
            | (None, c) \<Rightarrow> (Inl MCSFS1_ERR_IO, dev\<lparr>d_ctx := c\<rparr>)))"

definition dev_write :: "u32 \<Rightarrow> bytes \<Rightarrow> ('c, unit) m1_prog" where
  "dev_write lba b dev =
     (case d_write dev of
        None \<Rightarrow> (Inl MCSFS1_ERR_INVAL, dev)
      | Some wr \<Rightarrow> if block_count dev \<le> lba then (Inl MCSFS1_ERR_INVAL, dev)
          else (case wr (d_ctx dev) lba b of
              (ok, c) \<Rightarrow> (if ok then Inr () else Inl MCSFS1_ERR_IO, dev\<lparr>d_ctx := c\<rparr>)))"

definition dev_flush :: "('c, unit) m1_prog" where
  "dev_flush dev =
     (case d_flush dev of
        None \<Rightarrow> (Inl MCSFS1_ERR_INVAL, dev)
      | Some fl \<Rightarrow> (case fl (d_ctx dev) of
          (ok, c) \<Rightarrow> (if ok then Inr () else Inl MCSFS1_ERR_IO, dev\<lparr>d_ctx := c\<rparr>)))"

text \<open>Reading a field of the device structure.\<close>

definition dev_count :: "('c, nat) m1_prog" where
  "dev_count dev = (Inr (unat (block_count dev)), dev)"

section \<open>Bytes, names and bitmaps\<close>

text \<open>\<open>mcsfs_memcpy(block + off, src, n)\<close>\<close>

definition copy_into :: "nat \<Rightarrow> bytes \<Rightarrow> bytes \<Rightarrow> bytes" where
  "copy_into off src b = take off b @ src @ drop (off + length src) b"

definition zero_block :: bytes where
  "zero_block = replicate MCSFS1_BLOCK_SIZE 0"

text \<open>\<open>mcsfs_memcmp(a, b, n) == 0\<close>\<close>

definition mcsfs_memeq :: "bytes \<Rightarrow> bytes \<Rightarrow> nat \<Rightarrow> bool" where
  "mcsfs_memeq a b n \<longleftrightarrow> (\<forall>i\<in>set [0..<n]. cstr_at a i = cstr_at b i)"

text \<open>\<open>name\<close> is a pointer that may be NULL; \<open>mcsfs_strlen_bound\<close> then returns its bound.\<close>

definition mcsfs_strlen_bound :: "bytes option \<Rightarrow> nat \<Rightarrow> nat" where
  "mcsfs_strlen_bound s max_plus_one = (case s of None \<Rightarrow> max_plus_one | Some b \<Rightarrow> strlen_bounded b max_plus_one)"

definition valid_name :: "bytes option \<Rightarrow> mcsfs1_err + nat" where
  "valid_name name =
     (let n = mcsfs_strlen_bound name (MCSFS1_MAX_NAME + 1) in
      if n = 0 then Inl MCSFS1_ERR_INVAL
      else if MCSFS1_MAX_NAME < n then Inl MCSFS1_ERR_NAMETOOLONG
      else if \<exists>i\<in>set [0..<n]. cstr_at (the name) i = 0x2f then Inl MCSFS1_ERR_INVAL
      else Inr n)"

definition bit_set :: "bytes \<Rightarrow> nat \<Rightarrow> bytes" where
  "bit_set b k = b[k div 8 := b ! (k div 8) OR push_bit (k mod 8) 1]"

definition bit_clear :: "bytes \<Rightarrow> nat \<Rightarrow> bytes" where
  "bit_clear b k = b[k div 8 := b ! (k div 8) AND NOT (push_bit (k mod 8) 1)]"

definition bit_test :: "bytes \<Rightarrow> nat \<Rightarrow> bool" where
  "bit_test b k \<longleftrightarrow> b ! (k div 8) AND push_bit (k mod 8) 1 \<noteq> 0"

section \<open>On-disk structures\<close>

record mcsfs1_super_disk =
  s_magic :: u32
  s_version :: u32
  s_block_size :: u32
  s_block_count :: u32
  s_inode_count :: u32
  s_inode_bmap_lba :: u32
  s_block_bmap_lba :: u32
  s_inode_table_lba :: u32
  s_inode_table_blocks :: u32
  s_root_ino :: u32
  s_root_dir_lba :: u32
  s_data_start_lba :: u32
  s_clean :: u32
  s_reserved :: bytes

definition enc_sb :: "mcsfs1_super_disk \<Rightarrow> bytes" where
  "enc_sb sb = enc32 (s_magic sb) @ enc32 (s_version sb) @ enc32 (s_block_size sb) @ enc32 (s_block_count sb) @
     enc32 (s_inode_count sb) @ enc32 (s_inode_bmap_lba sb) @ enc32 (s_block_bmap_lba sb) @
     enc32 (s_inode_table_lba sb) @ enc32 (s_inode_table_blocks sb) @ enc32 (s_root_ino sb) @
     enc32 (s_root_dir_lba sb) @ enc32 (s_data_start_lba sb) @ enc32 (s_clean sb) @ s_reserved sb"

definition dec_sb :: "bytes \<Rightarrow> mcsfs1_super_disk" where
  "dec_sb b = \<lparr>s_magic = get32 0 b, s_version = get32 4 b, s_block_size = get32 8 b, s_block_count = get32 12 b,
     s_inode_count = get32 16 b, s_inode_bmap_lba = get32 20 b, s_block_bmap_lba = get32 24 b,
     s_inode_table_lba = get32 28 b, s_inode_table_blocks = get32 32 b, s_root_ino = get32 36 b,
     s_root_dir_lba = get32 40 b, s_data_start_lba = get32 44 b, s_clean = get32 48 b, s_reserved = drop 52 b\<rparr>"

record mcsfs1_inode_disk =
  i_mode :: u16
  i_links :: u16
  i_size :: u32
  i_direct :: "u32 list"
  i_reserved :: bytes

definition INODE_SIZE :: nat where [layout]: "INODE_SIZE = 60"
definition DIRENT_SIZE :: nat where [layout]: "DIRENT_SIZE = 32"

definition enc_ino :: "mcsfs1_inode_disk \<Rightarrow> bytes" where
  "enc_ino n = enc16 (i_mode n) @ enc16 (i_links n) @ enc32 (i_size n) @ enc_array enc32 (i_direct n) @ i_reserved n"

definition dec_ino :: "bytes \<Rightarrow> mcsfs1_inode_disk" where
  "dec_ino b = \<lparr>i_mode = get16 0 b, i_links = get16 2 b, i_size = get32 4 b,
     i_direct = dec_array 4 le_dec MCSFS1_DIRECT_BLOCKS (field 8 32 b), i_reserved = drop 40 b\<rparr>"

definition zero_ino :: mcsfs1_inode_disk where
  "zero_ino = \<lparr>i_mode = 0, i_links = 0, i_size = 0, i_direct = replicate MCSFS1_DIRECT_BLOCKS 0,
     i_reserved = replicate 20 0\<rparr>"

text \<open>Entry \<open>i\<close> of the directory block: inode number, type byte, and 27 bytes of name.\<close>

definition ent_ino :: "bytes \<Rightarrow> nat \<Rightarrow> u32" where
  "ent_ino blk i = get32 (i * DIRENT_SIZE) blk"

definition ent_type :: "bytes \<Rightarrow> nat \<Rightarrow> u8" where
  "ent_type blk i = blk ! (i * DIRENT_SIZE + 4)"

text \<open>
  \<open>de[i].name\<close> as the pointer it is passed as: the rest of the block. \<open>mcsfs_strlen_bound\<close> is called
  on it with a bound of 28 although the array has 27 bytes; in the last entry the 28th byte lies
  outside the block.
\<close>

definition ent_name :: "bytes \<Rightarrow> nat \<Rightarrow> bytes" where
  "ent_name blk i = drop (i * DIRENT_SIZE + 5) blk"

definition ent_name_overread :: "bytes \<Rightarrow> nat \<Rightarrow> bool" where
  "ent_name_overread blk i \<longleftrightarrow> length (ent_name blk i) < MCSFS1_MAX_NAME + 1 \<and>
     strlen_bounded (ent_name blk i) MCSFS1_MAX_NAME = MCSFS1_MAX_NAME"

section \<open>Access to the on-disk structures\<close>

definition load_super :: "('c, mcsfs1_super_disk) m1_prog" where
  "load_super =
     pbind (dev_read MCSFS1_SB_LBA) (\<lambda>b. let sb = dec_sb b in
     pthen (pguard (\<not> (s_magic sb \<noteq> MCSFS1_MAGIC \<or> s_version sb \<noteq> MCSFS1_VERSION \<or>
                       s_block_size sb \<noteq> of_nat MCSFS1_BLOCK_SIZE)) MCSFS1_ERR_CORRUPT)
     (pthen (pcheck (\<lambda>dev. \<not> (s_block_count sb \<noteq> block_count dev \<or>
                       s_inode_count sb \<noteq> of_nat MCSFS1_MAX_INODES)) MCSFS1_ERR_CORRUPT)
     (pthen (pguard (\<not> (s_inode_bmap_lba sb \<noteq> MCSFS1_INODE_BMAP_LBA \<or> s_block_bmap_lba sb \<noteq> MCSFS1_BLOCK_BMAP_LBA \<or>
                       s_inode_table_lba sb \<noteq> MCSFS1_INODE_TABLE_LBA)) MCSFS1_ERR_CORRUPT)
     (pthen (pguard (\<not> (s_root_ino sb \<noteq> of_nat MCSFS1_ROOT_INO \<or> s_root_dir_lba sb \<noteq> MCSFS1_ROOT_DIR_LBA \<or>
                       s_data_start_lba sb \<noteq> MCSFS1_DATA_START_LBA)) MCSFS1_ERR_CORRUPT)
     (pthen (pguard (\<not> s_block_count sb \<le> s_data_start_lba sb) MCSFS1_ERR_CORRUPT)
     (pret sb))))))"

text \<open>The block and the byte offset of an inode: eight inodes of 60 bytes per block.\<close>

definition inode_lba :: "nat \<Rightarrow> nat" where
  "inode_lba ino = unat MCSFS1_INODE_TABLE_LBA + (ino - 1) div (MCSFS1_BLOCK_SIZE div INODE_SIZE)"

definition inode_off :: "nat \<Rightarrow> nat" where
  "inode_off ino = (ino - 1) mod (MCSFS1_BLOCK_SIZE div INODE_SIZE) * INODE_SIZE"

definition read_inode :: "nat \<Rightarrow> ('c, mcsfs1_inode_disk) m1_prog" where
  "read_inode ino =
     pthen (pguard (\<not> (ino = 0 \<or> MCSFS1_MAX_INODES < ino)) MCSFS1_ERR_INVAL)
     (pthen (pguard (\<not> unat MCSFS1_DATA_START_LBA \<le> inode_lba ino) MCSFS1_ERR_CORRUPT)
     (pbind (dev_read (of_nat (inode_lba ino))) (\<lambda>b. pret (dec_ino (field (inode_off ino) INODE_SIZE b)))))"

definition write_inode :: "nat \<Rightarrow> mcsfs1_inode_disk \<Rightarrow> ('c, unit) m1_prog" where
  "write_inode ino inode =
     pthen (pguard (\<not> (ino = 0 \<or> MCSFS1_MAX_INODES < ino)) MCSFS1_ERR_INVAL)
     (pthen (pguard (\<not> unat MCSFS1_DATA_START_LBA \<le> inode_lba ino) MCSFS1_ERR_CORRUPT)
     (pbind (dev_read (of_nat (inode_lba ino))) (\<lambda>b.
        dev_write (of_nat (inode_lba ino)) (copy_into (inode_off ino) (enc_ino inode) b))))"

definition load_bmaps :: "('c, bytes \<times> bytes) m1_prog" where
  "load_bmaps =
     pbind (dev_read MCSFS1_INODE_BMAP_LBA) (\<lambda>ib. pbind (dev_read MCSFS1_BLOCK_BMAP_LBA) (\<lambda>bb. pret (ib, bb)))"

definition store_bmaps :: "bytes \<Rightarrow> bytes \<Rightarrow> ('c, unit) m1_prog" where
  "store_bmaps ib bb =
     pthen (dev_write MCSFS1_INODE_BMAP_LBA ib) (dev_write MCSFS1_BLOCK_BMAP_LBA bb)"

section \<open>Directory search and allocation\<close>

definition find_dirent :: "bytes option \<Rightarrow> ('c, nat \<times> nat) m1_prog" where
  "find_dirent name =
     pbind (plift (valid_name name)) (\<lambda>name_len.
     pbind (dev_read MCSFS1_ROOT_DIR_LBA) (\<lambda>blk.
       case List.find (\<lambda>i. ent_ino blk i \<noteq> 0 \<and> (ent_name_overread blk i \<or>
              strlen_bounded (ent_name blk i) (MCSFS1_MAX_NAME + 1) = name_len \<and>
              mcsfs_memeq (ent_name blk i) (the name) name_len)) [0..<MCSFS1_DIRENT_COUNT] of
         None \<Rightarrow> pfail MCSFS1_ERR_NOENT
       | Some i \<Rightarrow> if ent_name_overread blk i then pfail MCSFS1_FAULT else pret (i, unat (ent_ino blk i))))"

text \<open>
  \<open>for (b = lo; b < hi; b++) if (!bit_test(bm, b))\<close>; a test behind the bitmap's block is a fault.
\<close>

definition first_clear :: "bytes \<Rightarrow> nat \<Rightarrow> nat \<Rightarrow> mcsfs1_err + nat" where
  "first_clear bm lo hi =
     (case List.find (\<lambda>b. length bm \<le> b div 8 \<or> \<not> bit_test bm b) [lo..<hi] of
        None \<Rightarrow> Inl MCSFS1_ERR_NOSPC
      | Some b \<Rightarrow> if length bm \<le> b div 8 then Inl MCSFS1_FAULT else Inr b)"

definition alloc_inode_block :: "('c, nat \<times> nat) m1_prog" where
  "alloc_inode_block =
     pbind load_bmaps (\<lambda>(ib, bb).
     pbind (plift (first_clear ib 2 (MCSFS1_MAX_INODES + 1))) (\<lambda>ino.
     pbind dev_count (\<lambda>n.
     pbind (plift (first_clear bb (unat MCSFS1_DATA_START_LBA) n)) (\<lambda>lba.
     pthen (store_bmaps (bit_set ib ino) (bit_set bb lba)) (pret (ino, lba))))))"

definition alloc_data_block :: "('c, nat) m1_prog" where
  "alloc_data_block =
     pbind load_bmaps (\<lambda>(ib, bb).
     pbind dev_count (\<lambda>n.
     pbind (plift (first_clear bb (unat MCSFS1_DATA_START_LBA) n)) (\<lambda>b.
     pthen (store_bmaps ib (bit_set bb b)) (pret b))))"

text \<open>The loop over \<open>inode->direct\<close>; an update behind the bitmap's block is a fault.\<close>

definition clear_blocks :: "nat \<Rightarrow> mcsfs1_inode_disk \<Rightarrow> bytes \<Rightarrow> bytes" where
  "clear_blocks n inode bb = fold (\<lambda>d bb. if d \<noteq> 0 \<and> unat d < n then bit_clear bb (unat d) else bb) (i_direct inode) bb"

definition free_inode_and_blocks :: "nat \<Rightarrow> mcsfs1_inode_disk \<Rightarrow> ('c, unit) m1_prog" where
  "free_inode_and_blocks ino inode =
     pbind load_bmaps (\<lambda>(ib, bb).
     pbind dev_count (\<lambda>n.
     pthen (pguard (\<forall>d\<in>set (i_direct inode). d \<noteq> 0 \<and> unat d < n \<longrightarrow> unat d div 8 < length bb) MCSFS1_FAULT)
     (store_bmaps (bit_clear ib ino) (clear_blocks n inode bb))))"

section \<open>Format and mount\<close>

definition format_sb :: "u32 \<Rightarrow> mcsfs1_super_disk" where
  "format_sb n = \<lparr>s_magic = MCSFS1_MAGIC, s_version = MCSFS1_VERSION, s_block_size = of_nat MCSFS1_BLOCK_SIZE,
     s_block_count = n, s_inode_count = of_nat MCSFS1_MAX_INODES, s_inode_bmap_lba = MCSFS1_INODE_BMAP_LBA,
     s_block_bmap_lba = MCSFS1_BLOCK_BMAP_LBA, s_inode_table_lba = MCSFS1_INODE_TABLE_LBA,
     s_inode_table_blocks = MCSFS1_INODE_TABLE_BLOCKS, s_root_ino = of_nat MCSFS1_ROOT_INO,
     s_root_dir_lba = MCSFS1_ROOT_DIR_LBA, s_data_start_lba = MCSFS1_DATA_START_LBA, s_clean = 1,
     s_reserved = replicate 460 0\<rparr>"

definition format_ib :: bytes where
  "format_ib = bit_set (bit_set zero_block 0) MCSFS1_ROOT_INO"

definition format_bb :: bytes where
  "format_bb = bit_set (fold (\<lambda>b bm. bit_set bm b) [0..<unat MCSFS1_DATA_START_LBA] zero_block) (unat MCSFS1_ROOT_DIR_LBA)"

definition format_root :: mcsfs1_inode_disk where
  "format_root = zero_ino\<lparr>i_mode := MCSFS1_MODE_DIR, i_links := 1, i_size := of_nat MCSFS1_BLOCK_SIZE,
     i_direct := (i_direct zero_ino)[0 := MCSFS1_ROOT_DIR_LBA]\<rparr>"

definition mcsfs1_format :: "('c, unit) m1_prog" where
  "mcsfs1_format =
     pthen (pcheck (\<lambda>dev. \<not> (block_count dev < MCSFS1_MIN_BLOCKS \<or>
              of_nat (MCSFS1_BLOCK_SIZE * 8) < block_count dev)) MCSFS1_ERR_INVAL)
     (pbind dev_count (\<lambda>n.
      pthen (pfor [0..<n] (\<lambda>lba. dev_write (of_nat lba) zero_block))
     (pthen (\<lambda>dev. dev_write MCSFS1_SB_LBA (enc_sb (format_sb (block_count dev))) dev)
     (pthen (store_bmaps format_ib format_bb)
     (pthen (write_inode MCSFS1_ROOT_INO format_root)
      dev_flush)))))"

definition mcsfs1_mount :: "('c, mcsfs1_mount) m1_prog" where
  "mcsfs1_mount =
     pbind load_super (\<lambda>sb.
     pbind (read_inode MCSFS1_ROOT_INO) (\<lambda>root.
     pthen (pguard (\<not> (i_mode root \<noteq> MCSFS1_MODE_DIR \<or> i_direct root ! 0 \<noteq> MCSFS1_ROOT_DIR_LBA)) MCSFS1_ERR_CORRUPT)
     (pret \<lparr>m_block_count = s_block_count sb, m_data_start = s_data_start_lba sb\<rparr>)))"

section \<open>Files\<close>

text \<open>A NULL mount, or one without a device, is \<open>None\<close>.\<close>

definition new_file_inode :: "nat \<Rightarrow> mcsfs1_inode_disk" where
  "new_file_inode first_data = zero_ino\<lparr>i_mode := MCSFS1_MODE_FILE, i_links := 1, i_size := 0,
     i_direct := (i_direct zero_ino)[0 := of_nat first_data]\<rparr>"

definition new_dirent :: "nat \<Rightarrow> bytes \<Rightarrow> nat \<Rightarrow> bytes" where
  "new_dirent ino name name_len = enc32 (of_nat ino) @ [ucast MCSFS1_MODE_FILE] @
     map (cstr_at name) [0..<name_len] @ replicate (MCSFS1_MAX_NAME - name_len) 0"

definition mcsfs1_create :: "mcsfs1_mount option \<Rightarrow> bytes option \<Rightarrow> ('c, unit) m1_prog" where
  "mcsfs1_create mnt name =
     (case mnt of None \<Rightarrow> pfail MCSFS1_ERR_INVAL | Some m \<Rightarrow>
      pbind (plift (valid_name name)) (\<lambda>name_len.
      pthen (\<lambda>dev. case find_dirent name dev of
                (Inr _, dev') \<Rightarrow> (Inl MCSFS1_ERR_EXIST, dev')
              | (Inl e, dev') \<Rightarrow> (if e = MCSFS1_FAULT then Inl MCSFS1_FAULT else Inr (), dev'))
     (pbind (dev_read MCSFS1_ROOT_DIR_LBA) (\<lambda>dir_block.
      case List.find (\<lambda>i. ent_ino dir_block i = 0) [0..<MCSFS1_DIRENT_COUNT] of
        None \<Rightarrow> pfail MCSFS1_ERR_NOSPC
      | Some free_slot \<Rightarrow>
          pbind alloc_inode_block (\<lambda>(ino, first_data).
          pthen (write_inode ino (new_file_inode first_data))
         (pthen (dev_write MCSFS1_ROOT_DIR_LBA
                   (copy_into (free_slot * DIRENT_SIZE) (new_dirent ino (the name) name_len) dir_block))
          dev_flush))))))"

primrec alloc_direct :: "nat list \<Rightarrow> mcsfs1_inode_disk \<Rightarrow> ('c, mcsfs1_inode_disk) m1_prog" where
  "alloc_direct [] inode = pret inode"
| "alloc_direct (i # is) inode =
     (if i_direct inode ! i = 0
      then pbind alloc_data_block (\<lambda>b. alloc_direct is (inode\<lparr>i_direct := (i_direct inode)[i := of_nat b]\<rparr>))
      else alloc_direct is inode)"

primrec write_blocks :: "nat list \<Rightarrow> mcsfs1_inode_disk \<Rightarrow> bytes \<Rightarrow> nat \<Rightarrow> nat \<Rightarrow> ('c, unit) m1_prog" where
  "write_blocks [] inode buf len written = pret ()"
| "write_blocks (i # is) inode buf len written =
     (let remain = len - written;
          chunk = (if MCSFS1_BLOCK_SIZE < remain then MCSFS1_BLOCK_SIZE else remain);
          block = copy_into 0 (take chunk (drop written buf)) zero_block
      in pthen (dev_write (i_direct inode ! i) block) (write_blocks is inode buf len (written + chunk)))"

definition mcsfs1_write ::
  "mcsfs1_mount option \<Rightarrow> bytes option \<Rightarrow> bytes option \<Rightarrow> u32 \<Rightarrow> ('c, unit) m1_prog" where
  "mcsfs1_write mnt name buf len =
     (if mnt = None \<or> buf = None \<and> len \<noteq> 0 then pfail MCSFS1_ERR_INVAL
      else if of_nat (MCSFS1_DIRECT_BLOCKS * MCSFS1_BLOCK_SIZE) < len then pfail MCSFS1_ERR_RANGE
      else pbind (find_dirent name) (\<lambda>(slot, ino).
           pbind (read_inode ino) (\<lambda>inode.
           pthen (pguard (i_mode inode = MCSFS1_MODE_FILE) MCSFS1_ERR_ISDIR)
          (let needed0 = (unat len + MCSFS1_BLOCK_SIZE - 1) div MCSFS1_BLOCK_SIZE;
               blocks_needed = (if needed0 = 0 then 1 else needed0)
           in pbind (alloc_direct [0..<blocks_needed] inode) (\<lambda>inode.
              pthen (write_blocks [0..<blocks_needed] inode (case buf of None \<Rightarrow> [] | Some b \<Rightarrow> b) (unat len) 0)
             (pthen (write_inode ino (inode\<lparr>i_size := len\<rparr>))
              dev_flush))))))"

primrec read_blocks :: "nat list \<Rightarrow> mcsfs1_mount \<Rightarrow> mcsfs1_inode_disk \<Rightarrow> u32 \<Rightarrow> ('c, bytes) m1_prog" where
  "read_blocks [] m inode copied = pret []"
| "read_blocks (i # is) m inode copied =
     (if MCSFS1_DIRECT_BLOCKS \<le> i then pfail MCSFS1_FAULT
      else if i_direct inode ! i = 0 \<or> m_block_count m \<le> i_direct inode ! i then pfail MCSFS1_ERR_CORRUPT
      else pbind (dev_read (i_direct inode ! i)) (\<lambda>block.
        let remain = i_size inode - copied;
            chunk = (if of_nat MCSFS1_BLOCK_SIZE < remain then of_nat MCSFS1_BLOCK_SIZE else remain)
        in pbind (read_blocks is m inode (copied + chunk)) (\<lambda>rest. pret (take (unat chunk) block @ rest))))"

text \<open>
  The output buffer is its capacity on entry; the bytes copied into it and the length reported are the
  result.
\<close>

definition mcsfs1_read ::
  "mcsfs1_mount option \<Rightarrow> bytes option \<Rightarrow> u32 option \<Rightarrow> ('c, bytes \<times> u32) m1_prog" where
  "mcsfs1_read mnt name buf_cap =
     (case (mnt, buf_cap) of
        (Some m, Some cap) \<Rightarrow>
           pbind (find_dirent name) (\<lambda>(slot, ino).
           pbind (read_inode ino) (\<lambda>inode.
           pthen (pguard (i_mode inode = MCSFS1_MODE_FILE) MCSFS1_ERR_ISDIR)
          (pthen (pguard (\<not> cap < i_size inode) MCSFS1_ERR_RANGE)
          (let blocks_needed = (i_size inode + of_nat MCSFS1_BLOCK_SIZE - 1) div of_nat MCSFS1_BLOCK_SIZE
           in pbind (read_blocks [0..<unat blocks_needed] m inode 0) (\<lambda>out. pret (out, i_size inode))))))
      | _ \<Rightarrow> pfail MCSFS1_ERR_INVAL)"

definition mcsfs1_unlink :: "mcsfs1_mount option \<Rightarrow> bytes option \<Rightarrow> ('c, unit) m1_prog" where
  "mcsfs1_unlink mnt name =
     (case mnt of None \<Rightarrow> pfail MCSFS1_ERR_INVAL | Some m \<Rightarrow>
      pbind (find_dirent name) (\<lambda>(slot, ino).
      pbind (read_inode ino) (\<lambda>inode.
      pthen (pguard (i_mode inode = MCSFS1_MODE_FILE) MCSFS1_ERR_ISDIR)
     (pbind (dev_read MCSFS1_ROOT_DIR_LBA) (\<lambda>dir_block.
      pthen (dev_write MCSFS1_ROOT_DIR_LBA (copy_into (slot * DIRENT_SIZE) (replicate DIRENT_SIZE 0) dir_block))
     (pthen (free_inode_and_blocks ino inode)
     (pthen (write_inode ino zero_ino)
      dev_flush)))))))"

section \<open>The consistency check\<close>

definition fsck_block :: "bytes \<Rightarrow> u32 \<Rightarrow> ('c, unit) m1_prog" where
  "fsck_block bb lba =
     pthen (pcheck (\<lambda>dev. \<not> (lba < MCSFS1_DATA_START_LBA \<or> block_count dev \<le> lba)) MCSFS1_ERR_CORRUPT)
     (pthen (pguard (unat lba div 8 < length bb) MCSFS1_FAULT)
     (pguard (bit_test bb (unat lba)) MCSFS1_ERR_CORRUPT))"

definition fsck_entry :: "bytes \<Rightarrow> bytes \<Rightarrow> bytes \<Rightarrow> nat \<Rightarrow> ('c, unit) m1_prog" where
  "fsck_entry ib bb dir_block i =
     (if ent_ino dir_block i = 0 then pret ()
      else pthen (pguard (\<not> (MCSFS1_MAX_INODES < unat (ent_ino dir_block i) \<or>
                    ent_type dir_block i \<noteq> ucast MCSFS1_MODE_FILE \<or>
                    \<not> bit_test ib (unat (ent_ino dir_block i)))) MCSFS1_ERR_CORRUPT)
          (pbind (read_inode (unat (ent_ino dir_block i))) (\<lambda>inode.
           pthen (pguard (\<not> (i_mode inode \<noteq> MCSFS1_MODE_FILE \<or>
                    MCSFS1_DIRECT_BLOCKS * MCSFS1_BLOCK_SIZE < unat (i_size inode))) MCSFS1_ERR_CORRUPT)
          (let needed0 = (unat (i_size inode) + MCSFS1_BLOCK_SIZE - 1) div MCSFS1_BLOCK_SIZE;
               needed = (if needed0 = 0 then 1 else needed0)
           in pfor [0..<needed] (\<lambda>j. fsck_block bb (i_direct inode ! j))))))"

definition mcsfs1_fsck :: "('c, unit) m1_prog" where
  "mcsfs1_fsck =
     pbind load_super (\<lambda>sb.
     pbind load_bmaps (\<lambda>(ib, bb).
     pthen (pguard (\<not> (\<not> bit_test ib MCSFS1_ROOT_INO \<or> \<not> bit_test bb (unat MCSFS1_ROOT_DIR_LBA))) MCSFS1_ERR_CORRUPT)
    (pthen (pfor [0..<unat MCSFS1_DATA_START_LBA] (\<lambda>b. pguard (bit_test bb b) MCSFS1_ERR_CORRUPT))
    (pbind (read_inode MCSFS1_ROOT_INO) (\<lambda>root.
     pthen (pguard (\<not> (i_mode root \<noteq> MCSFS1_MODE_DIR \<or> i_direct root ! 0 \<noteq> MCSFS1_ROOT_DIR_LBA)) MCSFS1_ERR_CORRUPT)
    (pbind (dev_read MCSFS1_ROOT_DIR_LBA) (\<lambda>dir_block.
     pfor [0..<MCSFS1_DIRENT_COUNT] (fsck_entry ib bb dir_block))))))))"

section \<open>Bytes spliced into a block\<close>

lemma length_copy_into [simp]: "off + length src \<le> length b \<Longrightarrow> length (copy_into off src b) = length b"
  by (simp add: copy_into_def)

lemma field_copy_into_same [simp]:
  "n = length src \<Longrightarrow> off + length src \<le> length b \<Longrightarrow> field off n (copy_into off src b) = src"
  by (simp add: copy_into_def field_def)

lemma field_copy_into_other:
  "k + n \<le> off \<or> off + length src \<le> k \<Longrightarrow> off + length src \<le> length b \<Longrightarrow>
   field k n (copy_into off src b) = field k n b"
  by (auto simp: copy_into_def field_def drop_take min_def)

lemma nth_copy_into_other:
  "k < off \<or> off + length src \<le> k \<Longrightarrow> off + length src \<le> length b \<Longrightarrow> copy_into off src b ! k = b ! k"
  by (auto simp: copy_into_def nth_append)

section \<open>Codecs and bitmaps\<close>

definition sb_fits :: "mcsfs1_super_disk \<Rightarrow> bool" where
  "sb_fits sb \<longleftrightarrow> length (s_reserved sb) = 460"

definition ino_fits :: "mcsfs1_inode_disk \<Rightarrow> bool" where
  "ino_fits n \<longleftrightarrow> length (i_direct n) = 8 \<and> length (i_reserved n) = 20"

interpretation sb_codec: fixed_codec 512 enc_sb dec_sb sb_fits
  by unfold_locales (simp_all add: enc_sb_def dec_sb_def sb_fits_def)

interpretation ino_codec: fixed_codec 60 enc_ino dec_ino ino_fits
proof unfold_locales
  show "ino_fits x \<Longrightarrow> length (enc_ino x) = 60" for x
    by (simp add: enc_ino_def ino_fits_def u32_codec.array_len list_all_iff)
  show "dec_ino (enc_ino x) = x" if "ino_fits x" for x
  proof -
    have len: "length (enc_array enc32 (i_direct x)) = 32"
      using that by (simp add: ino_fits_def u32_codec.array_len list_all_iff)
    have "dec_array 4 le_dec 8 (enc_array enc32 (i_direct x)) = i_direct x"
      using that u32_codec.dec_array_enc [of "i_direct x" 8 "[]"] by (simp add: ino_fits_def list_all_iff)
    then show ?thesis by (simp add: enc_ino_def dec_ino_def len MCSFS1_DIRECT_BLOCKS_def)
  qed
  show "length bs = 60 \<Longrightarrow> ino_fits (dec_ino bs)" for bs
    by (simp add: ino_fits_def dec_ino_def MCSFS1_DIRECT_BLOCKS_def)
  show "length bs = 60 \<Longrightarrow> enc_ino (dec_ino bs) = bs" for bs
    by (simp add: enc_ino_def dec_ino_def MCSFS1_DIRECT_BLOCKS_def u32_codec.enc_array_dec)
qed

interpretation m1_bm: bit_array_clear "\<lambda>i. i" bit_test bit_set bit_clear
proof unfold_locales
  show "length (bit_set bm i) = length bm" and "length (bit_clear bm i) = length bm" for bm i
    by (simp_all add: bit_set_def bit_clear_def)
  show "i < 8 * length bm \<Longrightarrow> bit_test (bit_set bm i) j = (j = i \<or> bit_test bm j)" for i bm j
    using bitmap_byte_set [of i bm j] by (simp add: bit_test_def bit_set_def)
  show "i < 8 * length bm \<Longrightarrow> bit_test (bit_clear bm i) j = (j \<noteq> i \<and> bit_test bm j)" for i bm j
    using bitmap_byte_clear [of i bm j] by (simp add: bit_test_def bit_clear_def)
qed

section \<open>A device that stores blocks\<close>

definition ram_read :: "bytes list \<Rightarrow> u32 \<Rightarrow> bytes option \<times> bytes list" where
  "ram_read bs lba = (if unat lba < length bs then Some (bs ! unat lba) else None, bs)"

definition ram_write :: "bytes list \<Rightarrow> u32 \<Rightarrow> bytes \<Rightarrow> bool \<times> bytes list" where
  "ram_write bs lba b = (if unat lba < length bs then (True, bs[unat lba := b]) else (False, bs))"

definition ram_flush :: "bytes list \<Rightarrow> bool \<times> bytes list" where
  "ram_flush bs = (True, bs)"

definition ram :: "bytes list \<Rightarrow> bytes list mcsfs1_blkdev" where
  "ram bs = \<lparr>d_ctx = bs, block_count = of_nat (length bs), d_read = Some ram_read,
     d_write = Some ram_write, d_flush = Some ram_flush\<rparr>"

definition disk_ok :: "bytes list \<Rightarrow> bool" where
  "disk_ok bs \<longleftrightarrow> 16 \<le> length bs \<and> length bs \<le> 4096 \<and> (\<forall>b\<in>set bs. length b = 512)"

lemma disk_okD:
  assumes "disk_ok bs"
  shows "16 \<le> length bs" "length bs \<le> 4096" "i < length bs \<Longrightarrow> length (bs ! i) = 512"
  using assms by (auto simp: disk_ok_def)

lemma disk_ok_update: "disk_ok bs \<Longrightarrow> length b = 512 \<Longrightarrow> disk_ok (bs[i := b])"
  by (auto simp: disk_ok_def dest: set_update_subset_insert [THEN subsetD])

lemma ram_count: "disk_ok bs \<Longrightarrow> unat (of_nat (length bs) :: u32) = length bs"
  by (simp add: disk_ok_def unat_of_nat)

lemma ram_simps [simp]:
  "d_ctx (ram bs) = bs" "block_count (ram bs) = of_nat (length bs)"
  "d_read (ram bs) = Some ram_read" "d_write (ram bs) = Some ram_write" "d_flush (ram bs) = Some ram_flush"
  "(ram bs)\<lparr>d_ctx := cs\<rparr> = ram cs \<longleftrightarrow> (of_nat (length bs) :: u32) = of_nat (length cs)"
  by (simp_all add: ram_def)

lemma ram_read_ok: "disk_ok bs \<Longrightarrow> unat lba < length bs \<Longrightarrow> dev_read lba (ram bs) = (Inr (bs ! unat lba), ram bs)"
  by (simp add: dev_read_def ram_read_def word_le_nat_alt ram_count)

lemma ram_write_ok:
  "disk_ok bs \<Longrightarrow> unat lba < length bs \<Longrightarrow> dev_write lba b (ram bs) = (Inr (), ram (bs[unat lba := b]))"
  by (simp add: dev_write_def ram_write_def word_le_nat_alt ram_count)

lemma ram_flush_ok: "dev_flush (ram bs) = (Inr (), ram bs)"
  by (simp add: dev_flush_def ram_flush_def)

lemma ram_count_ok: "disk_ok bs \<Longrightarrow> dev_count (ram bs) = (Inr (length bs), ram bs)"
  by (simp add: dev_count_def ram_count)

lemmas m1_consts = MCSFS1_BLOCK_SIZE_def MCSFS1_MAX_INODES_def MCSFS1_DIRECT_BLOCKS_def MCSFS1_MAX_NAME_def
  MCSFS1_ROOT_INO_def MCSFS1_SB_LBA_def MCSFS1_INODE_BMAP_LBA_def MCSFS1_BLOCK_BMAP_LBA_def
  MCSFS1_INODE_TABLE_LBA_def MCSFS1_INODE_TABLE_BLOCKS_def MCSFS1_ROOT_DIR_LBA_def MCSFS1_DATA_START_LBA_def
  MCSFS1_MIN_BLOCKS_def MCSFS1_DIRENT_COUNT_def INODE_SIZE_def DIRENT_SIZE_def

lemma unat_small_u32: "n < 4294967296 \<Longrightarrow> unat (of_nat n :: u32) = n"
  by (simp add: unat_of_nat)

section \<open>Inodes on the disk\<close>

definition inode_of :: "bytes list \<Rightarrow> nat \<Rightarrow> mcsfs1_inode_disk" where
  "inode_of bs k = dec_ino (field (inode_off k) INODE_SIZE (bs ! inode_lba k))"

definition set_inode :: "nat \<Rightarrow> mcsfs1_inode_disk \<Rightarrow> bytes list \<Rightarrow> bytes list" where
  "set_inode k x bs = bs[inode_lba k := copy_into (inode_off k) (enc_ino x) (bs ! inode_lba k)]"

definition ino_range :: "nat \<Rightarrow> bool" where
  "ino_range k \<longleftrightarrow> 1 \<le> k \<and> k \<le> 32"

lemma inode_place:
  assumes "ino_range k"
  shows "3 \<le> inode_lba k" "inode_lba k \<le> 6" "inode_off k + 60 \<le> 512"
    and "ino_range j \<Longrightarrow> j \<noteq> k \<Longrightarrow> inode_lba j = inode_lba k \<Longrightarrow> inode_off j + 60 \<le> inode_off k \<or> inode_off k + 60 \<le> inode_off j"
proof -
  have k: "inode_lba k = 3 + (k - 1) div 8" "inode_off k = (k - 1) mod 8 * 60" for k
    by (simp_all add: inode_lba_def inode_off_def m1_consts)
  have "(k - 1) div 8 \<le> 3" using assms by (auto simp: ino_range_def)
  then show "3 \<le> inode_lba k" "inode_lba k \<le> 6" by (simp_all add: k)
  have "(k - 1) mod 8 \<le> 7" by (simp add: less_Suc_eq_le [symmetric])
  then show "inode_off k + 60 \<le> 512" by (simp add: k)
  assume j: "ino_range j" "j \<noteq> k" "inode_lba j = inode_lba k"
  then have "(j - 1) mod 8 \<noteq> (k - 1) mod 8"
    using assms div_mod_8_eq [of "j - 1" "k - 1"] by (auto simp: k ino_range_def)
  then show "inode_off j + 60 \<le> inode_off k \<or> inode_off k + 60 \<le> inode_off j"
    by (auto simp: k neq_iff)
qed

lemma inode_fits: "disk_ok bs \<Longrightarrow> ino_range k \<Longrightarrow> ino_fits (inode_of bs k)"
  using inode_place [of k] disk_okD [of bs] by (simp add: inode_of_def INODE_SIZE_def ino_codec.dec_ok)

lemma read_inode_ok:
  assumes "disk_ok bs" "ino_range k"
  shows "read_inode k (ram bs) = (Inr (inode_of bs k), ram bs)"
proof -
  have "unat (of_nat (inode_lba k) :: u32) = inode_lba k" "inode_lba k < length bs"
    using inode_place(2) [OF assms(2)] disk_okD(1) [OF assms(1)] by (simp_all add: unat_small_u32)
  then show ?thesis using assms inode_place(2) [OF assms(2)]
    by (simp add: read_inode_def prog_run ram_read_ok inode_of_def MCSFS1_MAX_INODES_def MCSFS1_DATA_START_LBA_def ino_range_def)
qed

lemma write_inode_ok:
  assumes "disk_ok bs" "ino_range k"
  shows "write_inode k x (ram bs) = (Inr (), ram (set_inode k x bs))"
proof -
  have "unat (of_nat (inode_lba k) :: u32) = inode_lba k" "inode_lba k < length bs"
    using inode_place(2) [OF assms(2)] disk_okD(1) [OF assms(1)] by (simp_all add: unat_small_u32)
  then show ?thesis using assms inode_place(2) [OF assms(2)]
    by (simp add: write_inode_def prog_run ram_read_ok ram_write_ok set_inode_def MCSFS1_MAX_INODES_def MCSFS1_DATA_START_LBA_def ino_range_def)
qed

lemma length_set_inode [simp]: "length (set_inode k x bs) = length bs"
  by (simp add: set_inode_def)

lemma disk_ok_set_inode:
  assumes "disk_ok bs" "ino_range k" "ino_fits x"
  shows "disk_ok (set_inode k x bs)"
  unfolding set_inode_def using assms inode_place [OF assms(2)] disk_okD [OF assms(1)]
  by (intro disk_ok_update) (simp_all add: ino_codec.enc_len)

lemma set_inode_other: "ino_range k \<Longrightarrow> l < 3 \<or> 6 < l \<Longrightarrow> set_inode k x bs ! l = bs ! l"
  using inode_place [of k] by (auto simp: set_inode_def)

lemma inode_of_set:
  assumes "disk_ok bs" "ino_range k" "ino_fits x" "ino_range j"
  shows "inode_of (set_inode k x bs) j = (if j = k then x else inode_of bs j)"
proof -
  note p = inode_place [OF assms(2)] and d = disk_okD [OF assms(1)]
  have l: "inode_lba k < length bs" using p(2) d(1) by simp
  have len: "length (bs ! inode_lba k) = 512" using d(3) l by simp
  show ?thesis
  proof (cases "inode_lba j = inode_lba k")
    case True
    then show ?thesis using assms p l len p(4) [OF assms(4) _ True]
      by (auto simp: inode_of_def set_inode_def INODE_SIZE_def ino_codec.enc_len ino_codec.dec_enc field_copy_into_other)
  next
    case False
    then show ?thesis using l by (auto simp: inode_of_def set_inode_def)
  qed
qed

lemma inode_of_cong: "(\<And>l. 3 \<le> l \<Longrightarrow> l \<le> 6 \<Longrightarrow> bs' ! l = bs ! l) \<Longrightarrow> ino_range k \<Longrightarrow> inode_of bs' k = inode_of bs k"
  using inode_place [of k] by (simp add: inode_of_def)

section \<open>Directory entries\<close>

lemma DIRENT_SIZE_32 [simp]: "DIRENT_SIZE = 32" by (simp add: DIRENT_SIZE_def)

definition name_key :: "bytes \<Rightarrow> bytes" where
  "name_key s = map (cstr_at s) [0..<strlen_bounded s 27]"

lemma length_name_key [simp]: "length (name_key s) = strlen_bounded s 27"
  by (simp add: name_key_def)

lemma strlen_bounded_mono:
  assumes "strlen_bounded s m < m" "m \<le> m'"
  shows "strlen_bounded s m' = strlen_bounded s m"
  by (rule strlen_bounded_unique)
    (use assms strlen_bounded_zero [OF assms(1)] strlen_bounded_nonzero [of _ s m] in auto)

lemma strlen_bounded_take: "strlen_bounded (take m s) m = strlen_bounded s m"
proof -
  have "List.find (\<lambda>n. cstr_at (take m s) n = 0) [0..<m] = List.find (\<lambda>n. cstr_at s n = 0) [0..<m]"
    by (rule find_cong) (auto simp: cstr_at_def)
  then show ?thesis by (simp add: strlen_bounded_def)
qed

definition ent_key :: "bytes \<Rightarrow> nat \<Rightarrow> bytes" where
  "ent_key blk i = name_key (field (i * 32 + 5) 27 blk)"

lemma ent_key_strlen: "length (ent_key blk i) = strlen_bounded (ent_name blk i) 27"
  by (simp add: ent_key_def field_def ent_name_def strlen_bounded_take)

lemma ent_key_nth: "j < length (ent_key blk i) \<Longrightarrow> ent_key blk i ! j = cstr_at (ent_name blk i) j"
  using strlen_bounded_le [of "field (i * 32 + 5) 27 blk" 27]
  by (auto simp: ent_key_def name_key_def field_def ent_name_def cstr_at_def)

text \<open>Comparing a short stored name with a short argument.\<close>

lemma valid_name_Some:
  "valid_name (Some nm) =
     (if strlen_bounded nm 28 = 0 then Inl MCSFS1_ERR_INVAL
      else if 27 < strlen_bounded nm 28 then Inl MCSFS1_ERR_NAMETOOLONG
      else if 0x2f \<in> set (name_key nm) then Inl MCSFS1_ERR_INVAL
      else Inr (length (name_key nm)))"
proof -
  have "strlen_bounded nm 28 = strlen_bounded nm 27" if "\<not> 27 < strlen_bounded nm 28"
  proof (cases "strlen_bounded nm 27 < 27")
    case True
    then show ?thesis by (intro strlen_bounded_mono) simp_all
  next
    case False
    then have "strlen_bounded nm 27 = 27" using strlen_bounded_le [of nm 27] by simp
    then have "cstr_at nm i \<noteq> 0" if "i < 27" for i using strlen_bounded_nonzero [of i nm 27] that by simp
    then have "\<not> strlen_bounded nm 28 < 27" using strlen_bounded_zero [of nm 28] by auto
    then show ?thesis using that \<open>strlen_bounded nm 27 = 27\<close> by simp
  qed
  then show ?thesis
    by (auto simp: valid_name_def mcsfs_strlen_bound_def m1_consts Let_def name_key_def)
qed

definition short_name :: "bytes \<Rightarrow> bool" where
  "short_name nm \<longleftrightarrow> valid_name (Some nm) = Inr (length (name_key nm)) \<and> length (name_key nm) \<le> 26"

lemma match_iff:
  assumes "length (ent_key blk i) \<le> 26"
  shows "strlen_bounded (ent_name blk i) 28 = length (name_key nm) \<and>
      mcsfs_memeq (ent_name blk i) nm (length (name_key nm)) \<longleftrightarrow> ent_key blk i = name_key nm"
proof -
  have s: "strlen_bounded (ent_name blk i) 28 = length (ent_key blk i)"
    using assms by (subst strlen_bounded_mono [of _ 27]) (simp_all add: ent_key_strlen)
  have "mcsfs_memeq (ent_name blk i) nm (length (name_key nm)) \<longleftrightarrow> ent_key blk i = name_key nm"
    if "length (ent_key blk i) = length (name_key nm)"
    using that ent_key_nth [of _ blk i]
    by (auto simp: mcsfs_memeq_def list_eq_iff_nth_eq) (auto simp: name_key_def)
  then show ?thesis using s by auto
qed

lemma no_overread: "length (ent_key blk i) \<le> 26 \<Longrightarrow> \<not> ent_name_overread blk i"
  using ent_key_strlen [of blk i] by (auto simp: ent_name_overread_def m1_consts)

text \<open>One entry overwritten.\<close>

lemma ent_copy_into:
  assumes "length e = 32" "length blk = 512" "i < 16" "j < 16"
  shows "ent_ino (copy_into (i * 32) e blk) j = (if j = i then get32 0 e else ent_ino blk j)"
    and "ent_type (copy_into (i * 32) e blk) j = (if j = i then e ! 4 else ent_type blk j)"
    and "ent_key (copy_into (i * 32) e blk) j = (if j = i then name_key (drop 5 e) else ent_key blk j)"
proof -
  have i: "i * 32 + 32 \<le> 512" using assms(3) by simp
  have d: "j * 32 + 32 \<le> i * 32 \<or> i * 32 + 32 \<le> j * 32" if "j \<noteq> i" using that by (auto simp: neq_iff)
  have f: "field k n (copy_into (i * 32) e blk) = field (k - i * 32) n e" if "i * 32 \<le> k" "k + n \<le> i * 32 + 32" for k n
    using that assms i by (simp add: copy_into_def field_def)
  show "ent_ino (copy_into (i * 32) e blk) j = (if j = i then get32 0 e else ent_ino blk j)"
    using f [of "i * 32" 4] d assms i by (auto simp: ent_ino_def get32_def field_copy_into_other)
  show "ent_type (copy_into (i * 32) e blk) j = (if j = i then e ! 4 else ent_type blk j)"
  proof (cases "j = i")
    case True
    then show ?thesis using assms i by (simp add: ent_type_def copy_into_def nth_append)
  next
    case False
    then show ?thesis using d [OF False] assms i by (auto simp: ent_type_def intro: nth_copy_into_other)
  qed
  have "field 5 27 e = drop 5 e" using assms(1) by (simp add: field_def)
  then show "ent_key (copy_into (i * 32) e blk) j = (if j = i then name_key (drop 5 e) else ent_key blk j)"
    using f [of "i * 32 + 5" 27] d assms i by (auto simp: ent_key_def field_copy_into_other)
qed

lemma new_dirent_parts:
  assumes "short_name nm" "k < 4294967296"
  shows "length (new_dirent k nm (length (name_key nm))) = 32"
    "get32 0 (new_dirent k nm (length (name_key nm))) = of_nat k"
    "new_dirent k nm (length (name_key nm)) ! 4 = 1"
    "name_key (drop 5 (new_dirent k nm (length (name_key nm)))) = name_key nm"
proof -
  let ?n = "strlen_bounded nm 27"
  have n: "?n \<le> 26" using assms(1) by (simp add: short_name_def)
  have nm: "map (cstr_at nm) [0..<?n] = name_key nm" by (simp add: name_key_def)
  show "length (new_dirent k nm (length (name_key nm))) = 32" using n by (simp add: new_dirent_def m1_consts)
  show "get32 0 (new_dirent k nm (length (name_key nm))) = of_nat k" by (simp add: new_dirent_def)
  show "new_dirent k nm (length (name_key nm)) ! 4 = 1"
    by (simp add: new_dirent_def nth_append MCSFS1_MODE_FILE_def)
  have d: "drop 5 (new_dirent k nm (length (name_key nm))) = name_key nm @ replicate (27 - ?n) 0"
    by (simp add: new_dirent_def nm MCSFS1_MAX_NAME_def)
  have c: "cstr_at (name_key nm @ replicate (27 - ?n) 0) i = (if i < ?n then cstr_at nm i else 0)" for i
    by (auto simp: cstr_at_def nth_append name_key_def)
  have s: "strlen_bounded (name_key nm @ replicate (27 - ?n) 0) 27 = ?n"
    using n strlen_bounded_nonzero [of _ nm 27] by (intro strlen_bounded_unique) (simp_all add: c)
  show "name_key (drop 5 (new_dirent k nm (length (name_key nm)))) = name_key nm"
    unfolding d
  proof -
    have "name_key (name_key nm @ replicate (27 - ?n) 0) =
        map (cstr_at (name_key nm @ replicate (27 - ?n) 0)) [0..<?n]"
      by (simp only: name_key_def [of "name_key nm @ replicate (27 - ?n) 0"] s)
    also have "\<dots> = map (cstr_at nm) [0..<?n]" by (rule map_cong) (simp_all add: c)
    also have "\<dots> = name_key nm" by (rule nm)
    finally show "name_key (name_key nm @ replicate (27 - ?n) 0) = name_key nm" .
  qed
qed

lemma zero_dirent: "get32 0 (replicate 32 (0 :: u8)) = 0"
  by (simp add: get32_def field_def numeral_eq_Suc)

end
