(* ===== verification/Mcsfs1_Volume.thy ===== *)
theory Mcsfs1_Volume
  imports Mcsfs1
begin

text \<open>
  Consistent MCSFS1 volumes: the invariant \<open>fs_ok\<close> of the blocks of a volume, the map of files a consistent volume holds
  (\<open>files\<close>), and what is left of both when one slot of the directory changes (\<open>slot_change\<close>). Mounting, reading and the
  consistency check of \<open>src/fs/mcsfs1/mcsfs1.c\<close> on such a volume.
\<close>

section \<open>Consistent file systems\<close>

definition sb_ok :: "bytes list \<Rightarrow> bool" where
  "sb_ok bs \<longleftrightarrow> (let sb = dec_sb (bs ! 0) in
     s_magic sb = MCSFS1_MAGIC \<and> s_version sb = MCSFS1_VERSION \<and> s_block_size sb = 512 \<and>
     s_block_count sb = of_nat (length bs) \<and> s_inode_count sb = 32 \<and> s_inode_bmap_lba sb = 1 \<and>
     s_block_bmap_lba sb = 2 \<and> s_inode_table_lba sb = 3 \<and> s_root_ino sb = 1 \<and> s_root_dir_lba sb = 7 \<and>
     s_data_start_lba sb = 8)"

abbreviation used :: "bytes list \<Rightarrow> nat \<Rightarrow> bool" where
  "used bs i \<equiv> ent_ino (bs ! 7) i \<noteq> 0"

definition sino :: "bytes list \<Rightarrow> nat \<Rightarrow> nat" where
  "sino bs i = unat (ent_ino (bs ! 7) i)"

definition snode :: "bytes list \<Rightarrow> nat \<Rightarrow> mcsfs1_inode_disk" where
  "snode bs i = inode_of bs (sino bs i)"

definition needed :: "nat \<Rightarrow> nat" where
  "needed sz = (if sz = 0 then 1 else (sz + 511) div 512)"

text \<open>The blocks of an inode, whether its size reaches them or not.\<close>

definition node_blocks :: "mcsfs1_inode_disk \<Rightarrow> nat set" where
  "node_blocks n = {unat d | d. d \<in> set (i_direct n) \<and> d \<noteq> 0}"

definition node_ok :: "bytes list \<Rightarrow> mcsfs1_inode_disk \<Rightarrow> bool" where
  "node_ok bs n \<longleftrightarrow> i_mode n = MCSFS1_MODE_FILE \<and> unat (i_size n) \<le> 4096 \<and>
     (\<forall>j<needed (unat (i_size n)). i_direct n ! j \<noteq> 0) \<and>
     (\<forall>b\<in>node_blocks n. 8 \<le> b \<and> b < length bs \<and> bit_test (bs ! 2) b) \<and>
     (\<forall>j<8. \<forall>l<8. i_direct n ! j = i_direct n ! l \<longrightarrow> i_direct n ! j \<noteq> 0 \<longrightarrow> j = l)"

definition entry_ok :: "bytes list \<Rightarrow> nat \<Rightarrow> bool" where
  "entry_ok bs i \<longleftrightarrow> 2 \<le> sino bs i \<and> sino bs i \<le> 32 \<and> ent_type (bs ! 7) i = 1 \<and>
     length (ent_key (bs ! 7) i) \<le> 26 \<and> bit_test (bs ! 1) (sino bs i) \<and> node_ok bs (snode bs i)"

definition fs_ok :: "bytes list \<Rightarrow> bool" where
  "fs_ok bs \<longleftrightarrow> disk_ok bs \<and> sb_ok bs \<and> bit_test (bs ! 1) 1 \<and> (\<forall>b<8. bit_test (bs ! 2) b) \<and>
     i_mode (inode_of bs 1) = MCSFS1_MODE_DIR \<and> i_direct (inode_of bs 1) ! 0 = 7 \<and>
     (\<forall>i<16. used bs i \<longrightarrow> entry_ok bs i) \<and>
     (\<forall>i<16. \<forall>j<16. used bs i \<longrightarrow> used bs j \<longrightarrow> i \<noteq> j \<longrightarrow>
        sino bs i \<noteq> sino bs j \<and> ent_key (bs ! 7) i \<noteq> ent_key (bs ! 7) j \<and>
        node_blocks (snode bs i) \<inter> node_blocks (snode bs j) = {})"

definition node_data :: "bytes list \<Rightarrow> mcsfs1_inode_disk \<Rightarrow> bytes" where
  "node_data bs n = take (unat (i_size n)) (concat (map (\<lambda>j. bs ! unat (i_direct n ! j)) [0..<needed (unat (i_size n))]))"

definition files :: "bytes list \<Rightarrow> bytes \<Rightarrow> bytes option" where
  "files bs k = (case List.find (\<lambda>i. used bs i \<and> ent_key (bs ! 7) i = k) [0..<16] of
      None \<Rightarrow> None | Some i \<Rightarrow> Some (node_data bs (snode bs i)))"

lemma fs_okD:
  assumes "fs_ok bs"
  shows "disk_ok bs" "sb_ok bs" "bit_test (bs ! 1) 1" "b < 8 \<Longrightarrow> bit_test (bs ! 2) b"
    "i_mode (inode_of bs 1) = MCSFS1_MODE_DIR" "i_direct (inode_of bs 1) ! 0 = 7"
    "i < 16 \<Longrightarrow> used bs i \<Longrightarrow> entry_ok bs i"
    "i < 16 \<Longrightarrow> j < 16 \<Longrightarrow> used bs i \<Longrightarrow> used bs j \<Longrightarrow> i \<noteq> j \<Longrightarrow>
       sino bs i \<noteq> sino bs j \<and> ent_key (bs ! 7) i \<noteq> ent_key (bs ! 7) j \<and>
       node_blocks (snode bs i) \<inter> node_blocks (snode bs j) = {}"
  using assms unfolding fs_ok_def by blast+

lemma files_slot:
  assumes "fs_ok bs" "i < 16" "used bs i"
  shows "files bs (ent_key (bs ! 7) i) = Some (node_data bs (snode bs i))"
proof -
  obtain j where j: "List.find (\<lambda>j. used bs j \<and> ent_key (bs ! 7) j = ent_key (bs ! 7) i) [0..<16] = Some j"
    by (rule find_upt_Some_exI [of "\<lambda>j. used bs j \<and> ent_key (bs ! 7) j = ent_key (bs ! 7) i" i 0 16]) (use assms in auto)
  have "j = i" using find_upt_SomeD [OF j] fs_okD(8) [OF assms(1), of i j] assms(2,3) by auto
  then show ?thesis using j by (simp add: files_def)
qed

lemma files_None_iff: "files bs k = None \<longleftrightarrow> (\<forall>i<16. used bs i \<longrightarrow> ent_key (bs ! 7) i \<noteq> k)"
proof (cases "List.find (\<lambda>i. used bs i \<and> ent_key (bs ! 7) i = k) [0..<16]")
  case None
  then have "files bs k = None" by (simp add: files_def)
  moreover have "\<forall>i<16. used bs i \<longrightarrow> ent_key (bs ! 7) i \<noteq> k" using None unfolding find_upt_None_iff by blast
  ultimately show ?thesis by blast
next
  case (Some i)
  from find_upt_SomeD(2,3) [OF Some] Some show ?thesis by (auto simp: files_def)
qed

lemma files_Some_slot:
  assumes "files bs k = Some d"
  obtains i where "i < 16" "used bs i" "ent_key (bs ! 7) i = k" "d = node_data bs (snode bs i)"
    "List.find (\<lambda>i. used bs i \<and> ent_key (bs ! 7) i = k) [0..<16] = Some i"
  using assms by (auto simp: files_def split: option.splits dest: find_upt_SomeD)

text \<open>How the map changes when one slot changes.\<close>

lemma find_dirent_ok:
  assumes fs: "fs_ok bs" and v: "short_name nm"
  shows "find_dirent (Some nm) (ram bs) =
    (case List.find (\<lambda>i. used bs i \<and> ent_key (bs ! 7) i = name_key nm) [0..<16] of
       None \<Rightarrow> (Inl MCSFS1_ERR_NOENT, ram bs) | Some i \<Rightarrow> (Inr (i, sino bs i), ram bs))"
proof -
  note d = fs_okD [OF fs]
  have rd: "dev_read MCSFS1_ROOT_DIR_LBA (ram bs) = (Inr (bs ! 7), ram bs)"
    using ram_read_ok [OF d(1), of 7] disk_okD(1) [OF d(1)] by (simp add: MCSFS1_ROOT_DIR_LBA_def)
  have short: "length (ent_key (bs ! 7) i) \<le> 26" if "i < 16" "used bs i" for i
    using d(7) [OF that] by (simp add: entry_ok_def)
  have "List.find (\<lambda>i. used bs i \<and> (ent_name_overread (bs ! 7) i \<or>
        strlen_bounded (ent_name (bs ! 7) i) 28 = length (name_key nm) \<and>
        mcsfs_memeq (ent_name (bs ! 7) i) nm (length (name_key nm)))) [0..<16] =
      List.find (\<lambda>i. used bs i \<and> ent_key (bs ! 7) i = name_key nm) [0..<16]"
    using short match_iff no_overread by (intro find_cong refl) auto
  then have run: "find_dirent (Some nm) (ram bs) =
    (case List.find (\<lambda>i. used bs i \<and> ent_key (bs ! 7) i = name_key nm) [0..<16] of
       None \<Rightarrow> (Inl MCSFS1_ERR_NOENT, ram bs)
     | Some i \<Rightarrow> if ent_name_overread (bs ! 7) i then (Inl MCSFS1_FAULT, ram bs) else (Inr (i, sino bs i), ram bs))"
    using v rd by (auto simp: find_dirent_def short_name_def prog_run sino_def m1_consts split: option.split)
  show ?thesis
  proof (cases "List.find (\<lambda>i. used bs i \<and> ent_key (bs ! 7) i = name_key nm) [0..<16]")
    case (Some i)
    then show ?thesis using run no_overread [OF short] find_upt_SomeD(2,3) [OF Some] by simp
  qed (use run in simp)
qed

section \<open>One slot changes\<close>

definition slot_kept :: "bytes list \<Rightarrow> bytes list \<Rightarrow> nat \<Rightarrow> bool" where
  "slot_kept bs bs' i \<longleftrightarrow> ent_ino (bs' ! 7) i = ent_ino (bs ! 7) i \<and> ent_type (bs' ! 7) i = ent_type (bs ! 7) i \<and>
     ent_key (bs' ! 7) i = ent_key (bs ! 7) i \<and>
     (used bs i \<longrightarrow> snode bs' i = snode bs i \<and> bit_test (bs' ! 1) (sino bs i) \<and>
        (\<forall>b\<in>node_blocks (snode bs i). bit_test (bs' ! 2) b \<and> bs' ! b = bs ! b))"

lemma node_blocks_I: "j < length (i_direct n) \<Longrightarrow> i_direct n ! j \<noteq> 0 \<Longrightarrow> unat (i_direct n ! j) \<in> node_blocks n"
  by (auto simp: node_blocks_def)

lemma needed_le_8: "sz \<le> 4096 \<Longrightarrow> needed sz \<le> 8"
  by (auto simp: needed_def)

lemma node_data_cong:
  assumes "node_ok bs n" "ino_fits n" "\<And>b. b \<in> node_blocks n \<Longrightarrow> bs' ! b = bs ! b"
  shows "node_data bs' n = node_data bs n"
proof -
  have "bs' ! unat (i_direct n ! j) = bs ! unat (i_direct n ! j)" if "j < needed (unat (i_size n))" for j
    using that assms needed_le_8 [of "unat (i_size n)"]
    by (intro assms(3) node_blocks_I) (auto simp: node_ok_def ino_fits_def)
  then have m: "map (\<lambda>j. bs' ! unat (i_direct n ! j)) [0..<needed (unat (i_size n))] =
      map (\<lambda>j. bs ! unat (i_direct n ! j)) [0..<needed (unat (i_size n))]" by simp
  show ?thesis by (simp only: node_data_def m)
qed

lemma slot_kept_entry:
  assumes "slot_kept bs bs' i" "used bs i" "entry_ok bs i" "length bs' = length bs"
  shows "entry_ok bs' i"
  using assms by (auto simp: slot_kept_def entry_ok_def sino_def node_ok_def)

lemma snode_fits: "disk_ok bs \<Longrightarrow> entry_ok bs i \<Longrightarrow> ino_fits (snode bs i)"
  by (simp add: snode_def entry_ok_def inode_fits ino_range_def)

text \<open>
  What an operation on the slot \<open>s\<close> of the directory leaves: the other slots keep their files, and a file in \<open>s\<close> shares its
  inode, its name and its blocks with none of them.
\<close>

definition slot_fresh :: "bytes list \<Rightarrow> bytes list \<Rightarrow> nat \<Rightarrow> bool" where
  "slot_fresh bs bs' s \<longleftrightarrow> entry_ok bs' s \<and> (\<forall>i<16. i \<noteq> s \<longrightarrow> used bs i \<longrightarrow>
     sino bs' s \<noteq> sino bs i \<and> ent_key (bs' ! 7) s \<noteq> ent_key (bs ! 7) i \<and>
     node_blocks (snode bs' s) \<inter> node_blocks (snode bs i) = {})"

definition root_kept :: "bytes list \<Rightarrow> bytes list \<Rightarrow> bool" where
  "root_kept bs bs' \<longleftrightarrow> disk_ok bs' \<and> length bs' = length bs \<and> bs' ! 0 = bs ! 0 \<and> bit_test (bs' ! 1) 1 \<and>
     (\<forall>b<8. bit_test (bs' ! 2) b) \<and> inode_of bs' 1 = inode_of bs 1"

definition slot_change :: "bytes list \<Rightarrow> bytes list \<Rightarrow> nat \<Rightarrow> bool" where
  "slot_change bs bs' s \<longleftrightarrow> root_kept bs bs' \<and> s < 16 \<and> (\<forall>i<16. i \<noteq> s \<longrightarrow> slot_kept bs bs' i) \<and>
     (used bs' s \<longrightarrow> slot_fresh bs bs' s)"

lemma root_keptD:
  assumes "root_kept bs bs'"
  shows "disk_ok bs'" "length bs' = length bs" "bs' ! 0 = bs ! 0" "bit_test (bs' ! 1) 1" "b < 8 \<Longrightarrow> bit_test (bs' ! 2) b"
    "inode_of bs' 1 = inode_of bs 1"
  using assms by (simp_all add: root_kept_def)

lemma slot_changeD:
  assumes "slot_change bs bs' s"
  shows "root_kept bs bs'" "s < 16" "i < 16 \<Longrightarrow> i \<noteq> s \<Longrightarrow> slot_kept bs bs' i" "used bs' s \<Longrightarrow> entry_ok bs' s"
    "used bs' s \<Longrightarrow> i < 16 \<Longrightarrow> i \<noteq> s \<Longrightarrow> used bs i \<Longrightarrow> sino bs' s \<noteq> sino bs i \<and>
       ent_key (bs' ! 7) s \<noteq> ent_key (bs ! 7) i \<and> node_blocks (snode bs' s) \<inter> node_blocks (snode bs i) = {}"
  using assms by (simp_all add: slot_change_def slot_fresh_def)

lemma slot_keptD:
  assumes "slot_kept bs bs' i"
  shows "used bs' i \<longleftrightarrow> used bs i" "sino bs' i = sino bs i" "ent_key (bs' ! 7) i = ent_key (bs ! 7) i"
    "used bs i \<Longrightarrow> snode bs' i = snode bs i"
  using assms by (auto simp: slot_kept_def sino_def)

lemma slot_kept_data:
  assumes "slot_kept bs bs' i" "fs_ok bs" "i < 16" "used bs i"
  shows "node_data bs' (snode bs' i) = node_data bs (snode bs i)"
  using assms fs_okD(7) [OF assms(2-4)] snode_fits [OF fs_okD(1) [OF assms(2)]]
  by (auto simp: slot_kept_def entry_ok_def intro!: node_data_cong)

lemma slot_change_pairs:
  assumes fs: "fs_ok bs" and ch: "slot_change bs bs' s"
    and ij: "i < 16" "j < 16" "used bs' i" "used bs' j" "i \<noteq> j"
  shows "sino bs' i \<noteq> sino bs' j \<and> ent_key (bs' ! 7) i \<noteq> ent_key (bs' ! 7) j \<and>
    node_blocks (snode bs' i) \<inter> node_blocks (snode bs' j) = {}"
proof -
  note K = slot_keptD [OF slot_changeD(3) [OF ch]] and F = slot_changeD(5) [OF ch]
  consider "i = s" | "j = s" | "i \<noteq> s" "j \<noteq> s" by blast
  then show ?thesis
  proof cases
    case 1
    then show ?thesis using ij F [of j] K [of j] by auto
  next
    case 2
    then show ?thesis using ij F [of i] K [of i] by auto
  next
    case 3
    then show ?thesis using ij fs_okD(8) [OF fs, of i j] K [of i] K [of j] by auto
  qed
qed

lemma slot_change_fs_ok:
  assumes fs: "fs_ok bs" and ch: "slot_change bs bs' s"
  shows "fs_ok bs'"
proof -
  note r = root_keptD [OF slot_changeD(1) [OF ch]]
  have "entry_ok bs' i" if "i < 16" "used bs' i" for i
    using that slot_changeD(3,4) [OF ch] slot_kept_entry [of bs bs' i] slot_keptD(1) [of bs bs' i] fs_okD(7) [OF fs that(1)] r(2)
    by (cases "i = s") auto
  then show ?thesis
    unfolding fs_ok_def using r fs_okD(2,5,6) [OF fs] slot_change_pairs [OF fs ch] by (simp add: sb_ok_def)
qed

text \<open>The map of files changes at the names of the slot only.\<close>

lemma files_Some_iff:
  assumes "fs_ok bs"
  shows "files bs key = Some d \<longleftrightarrow> (\<exists>i<16. used bs i \<and> ent_key (bs ! 7) i = key \<and> node_data bs (snode bs i) = d)"
  using files_slot [OF assms] by (auto elim!: files_Some_slot)

lemma slot_change_files:
  assumes fs: "fs_ok bs" and ch: "slot_change bs bs' s"
  shows "files bs' key = (if used bs' s \<and> ent_key (bs' ! 7) s = key then Some (node_data bs' (snode bs' s))
       else if used bs s \<and> ent_key (bs ! 7) s = key then None else files bs key)"
proof (cases "used bs' s \<and> ent_key (bs' ! 7) s = key")
  case True
  then show ?thesis using files_slot [OF slot_change_fs_ok [OF fs ch] slot_changeD(2) [OF ch]] by auto
next
  case new: False
  have kept: "used bs' i \<and> ent_key (bs' ! 7) i = key \<and> node_data bs' (snode bs' i) = d \<longleftrightarrow>
      used bs i \<and> ent_key (bs ! 7) i = key \<and> node_data bs (snode bs i) = d" if "i < 16" "i \<noteq> s" for i d
    using slot_keptD [OF slot_changeD(3) [OF ch that]] slot_kept_data [OF slot_changeD(3) [OF ch that] fs that(1)] by auto
  have key': "files bs' key = Some d \<longleftrightarrow> (\<exists>i<16. i \<noteq> s \<and> used bs i \<and> ent_key (bs ! 7) i = key \<and> node_data bs (snode bs i) = d)" for d
    unfolding files_Some_iff [OF slot_change_fs_ok [OF fs ch]] using kept new by metis
  show ?thesis
  proof (cases "used bs s \<and> ent_key (bs ! 7) s = key")
    case True
    then have "files bs' key \<noteq> Some d" for d
      unfolding key' using fs_okD(8) [OF fs slot_changeD(2) [OF ch]] by metis
    then show ?thesis using new True by auto
  next
    case False
    then have "files bs' key = Some d \<longleftrightarrow> files bs key = Some d" for d
      unfolding key' files_Some_iff [OF fs] by blast
    then show ?thesis using new False by (metis not_None_eq)
  qed
qed

lemma slot_change_put:
  assumes "fs_ok bs" "slot_change bs bs' s" "used bs' s" "used bs s \<Longrightarrow> ent_key (bs ! 7) s = ent_key (bs' ! 7) s"
  shows "files bs' = (files bs)(ent_key (bs' ! 7) s \<mapsto> node_data bs' (snode bs' s))"
  using assms(3,4) by (auto simp: fun_eq_iff slot_change_files [OF assms(1,2)])

lemma slot_change_remove:
  assumes "fs_ok bs" "slot_change bs bs' s" "used bs s" "\<not> used bs' s"
  shows "files bs' = (files bs)(ent_key (bs ! 7) s := None)"
  using assms(3,4) by (auto simp: fun_eq_iff slot_change_files [OF assms(1,2)])

text \<open>No slot changes.\<close>

lemma slots_kept_change:
  assumes fs: "fs_ok bs" and r: "root_kept bs bs'" and keep: "\<And>i. i < 16 \<Longrightarrow> slot_kept bs bs' i"
  shows "slot_change bs bs' 0"
proof -
  note k = slot_keptD [OF keep [of 0]] and e = slot_kept_entry [OF keep [of 0] _ _ root_keptD(2) [OF r]]
  have "slot_fresh bs bs' 0" if "used bs' 0"
    using that k fs_okD(7,8) [OF fs, of 0] e by (auto simp: slot_fresh_def)
  then show ?thesis using r keep by (simp add: slot_change_def)
qed

lemma slots_kept_fs_ok:
  assumes fs: "fs_ok bs" and r: "root_kept bs bs'" and keep: "\<And>i. i < 16 \<Longrightarrow> slot_kept bs bs' i"
  shows "fs_ok bs'" "files bs' = files bs"
proof -
  note ch = slots_kept_change [OF assms]
  show "fs_ok bs'" by (rule slot_change_fs_ok [OF fs ch])
  show "files bs' = files bs"
    using slot_change_files [OF fs ch] slot_keptD [OF keep [of 0]] slot_kept_data [OF keep fs, of 0] files_slot [OF fs, of 0]
    by (intro ext) auto
qed

section \<open>Mounting and reading\<close>

lemma load_super_ok:
  assumes "disk_ok bs" "sb_ok bs"
  shows "load_super (ram bs) = (Inr (dec_sb (bs ! 0)), ram bs)"
proof -
  have "dev_read MCSFS1_SB_LBA (ram bs) = (Inr (bs ! 0), ram bs)"
    using ram_read_ok [OF assms(1), of 0] disk_okD(1) [OF assms(1)] by (cases bs) (simp_all add: MCSFS1_SB_LBA_def)
  moreover have "\<not> (of_nat (length bs) :: u32) \<le> 8"
    using disk_okD(1) [OF assms(1)] ram_count [OF assms(1)] by (simp add: word_le_nat_alt)
  ultimately show ?thesis using assms(2)
    by (simp add: load_super_def prog_run sb_ok_def Let_def m1_consts)
qed

lemma m1_mount_ok:
  assumes "fs_ok bs"
  shows "mcsfs1_mount (ram bs) = (Inr \<lparr>m_block_count = of_nat (length bs), m_data_start = 8\<rparr>, ram bs)"
  using fs_okD [OF assms] load_super_ok [of bs] read_inode_ok [of bs 1]
  by (simp add: mcsfs1_mount_def prog_run ino_range_def m1_consts sb_ok_def Let_def)

definition the_mount :: "bytes list \<Rightarrow> mcsfs1_mount option" where
  "the_mount bs = Some \<lparr>m_block_count = of_nat (length bs), m_data_start = 8\<rparr>"

lemma read_slot_ok:
  assumes "fs_ok bs" "i < 16" "used bs i"
  shows "read_inode (sino bs i) (ram bs) = (Inr (snode bs i), ram bs)" "i_mode (snode bs i) = MCSFS1_MODE_FILE"
    "ino_range (sino bs i)" "ino_fits (snode bs i)" "node_ok bs (snode bs i)"
proof -
  note f = fs_okD [OF assms(1)]
  have e: "entry_ok bs i" using f(7) assms(2,3) by blast
  then show r: "ino_range (sino bs i)" by (simp add: entry_ok_def ino_range_def)
  show "read_inode (sino bs i) (ram bs) = (Inr (snode bs i), ram bs)"
    using read_inode_ok [OF f(1) r] by (simp add: snode_def)
  show "node_ok bs (snode bs i)" using e by (simp add: entry_ok_def)
  then show "i_mode (snode bs i) = MCSFS1_MODE_FILE" by (simp add: node_ok_def)
  show "ino_fits (snode bs i)" using snode_fits [OF f(1) e] .
qed

lemma read_blocks_ok:
  assumes "disk_ok bs" "node_ok bs n" "ino_fits n" "k \<le> needed (unat (i_size n))" "0 < unat (i_size n)"
    "unat copied = min (unat (i_size n)) (k * 512)"
  shows "read_blocks [k..<needed (unat (i_size n))] \<lparr>m_block_count = of_nat (length bs), m_data_start = 8\<rparr> n copied (ram bs) =
    (Inr (take (unat (i_size n) - k * 512) (concat (map (\<lambda>j. bs ! unat (i_direct n ! j)) [k..<needed (unat (i_size n))]))), ram bs)"
  using assms(4,6)
proof (induction "needed (unat (i_size n)) - k" arbitrary: k copied)
  case 0
  then show ?case by (simp add: pret_def)
next
  case (Suc x)
  let ?sz = "unat (i_size n)" and ?nd = "needed (unat (i_size n))"
  have k: "k < ?nd" using Suc(2) by simp
  have sz: "?sz \<le> 4096" using assms(2) by (simp add: node_ok_def)
  have k8: "k < 8" using k needed_le_8 [OF sz] by simp
  have lt: "k * 512 < ?sz" using k assms(5) by (auto simp: needed_def split: if_splits)
  then have c: "unat copied = k * 512" using Suc(4) by simp
  have nz: "i_direct n ! k \<noteq> 0" using assms(2) k by (simp add: node_ok_def)
  have inb: "unat (i_direct n ! k) < length bs"
    using node_blocks_I [of k n] nz k8 assms(2,3) by (auto simp: node_ok_def ino_fits_def)
  then have nb: "\<not> of_nat (length bs) \<le> i_direct n ! k" using ram_count [OF assms(1)] by (simp add: word_le_nat_alt)
  have rem: "unat (i_size n - copied) = ?sz - k * 512" using c lt by (simp add: unat_sub word_le_nat_alt)
  let ?chunk = "if of_nat MCSFS1_BLOCK_SIZE < i_size n - copied then of_nat MCSFS1_BLOCK_SIZE else i_size n - copied"
  have ch: "unat ?chunk = min 512 (?sz - k * 512)" using rem by (auto simp: MCSFS1_BLOCK_SIZE_def word_less_nat_alt)
  have cp: "unat (copied + ?chunk) = min ?sz (Suc k * 512)"
  proof -
    have "unat copied + unat ?chunk \<le> 8192" using c ch k8 by simp
    then have "unat (copied + ?chunk) = unat copied + unat ?chunk" by (subst unat_plus_simple [THEN iffD1]) (auto simp: no_olen_add_nat)
    then show ?thesis using c ch lt by auto
  qed
  have len: "length (bs ! unat (i_direct n ! k)) = 512" using disk_okD(3) [OF assms(1) inb] .
  have ih: "read_blocks [Suc k..<?nd] \<lparr>m_block_count = of_nat (length bs), m_data_start = 8\<rparr> n (copied + ?chunk) (ram bs) =
    (Inr (take (?sz - Suc k * 512) (concat (map (\<lambda>j. bs ! unat (i_direct n ! j)) [Suc k..<?nd]))), ram bs)"
    using Suc(1) [of "Suc k" "copied + ?chunk"] Suc(2) k cp by simp
  have tk: "take (min 512 (?sz - k * 512)) (bs ! unat (i_direct n ! k)) = take (?sz - k * 512) (bs ! unat (i_direct n ! k))"
    using len by (simp add: min_def)
  have up: "[k..<?nd] = k # [Suc k..<?nd]" using k by (simp add: upt_conv_Cons)
  show ?case
    unfolding up using k8 nz nb ram_read_ok [OF assms(1) inb] ih
    by (simp add: prog_run Let_def ch len tk MCSFS1_DIRECT_BLOCKS_def add.commute)
qed

lemma length_concat_const: "(\<And>x. x \<in> set xs \<Longrightarrow> length (f x) = c) \<Longrightarrow> length (concat (map f xs)) = length xs * c"
  by (induction xs) simp_all

lemma needed_eq:
  "(let needed0 = (sz + MCSFS1_BLOCK_SIZE - 1) div MCSFS1_BLOCK_SIZE; needed = (if needed0 = 0 then 1 else needed0)
    in P needed) = P (needed sz)"
proof -
  have "(sz + 512 - 1) div 512 = 0 \<longleftrightarrow> sz = 0" by (auto simp: div_eq_0_iff)
  moreover have "(sz + 512 - 1) div 512 = (sz + 511) div 512" by simp
  ultimately show ?thesis unfolding needed_def MCSFS1_BLOCK_SIZE_def Let_def by simp
qed

lemma slot_data_length:
  assumes fs: "fs_ok bs" and i: "i < 16" "used bs i"
  shows "length (node_data bs (snode bs i)) = unat (i_size (snode bs i))"
proof -
  note r = read_slot_ok [OF fs i] and dk = fs_okD(1) [OF fs]
  let ?n = "snode bs i"
  let ?sz = "unat (i_size ?n)"
  have sz: "?sz \<le> 4096" using r(5) by (simp add: node_ok_def)
  have "length (bs ! unat (i_direct ?n ! j)) = 512" if "j < needed ?sz" for j
  proof -
    have "unat (i_direct ?n ! j) < length bs"
      using node_blocks_I [of j ?n] that needed_le_8 [OF sz] r(4,5) by (auto simp: node_ok_def ino_fits_def)
    then show ?thesis using disk_okD(3) [OF dk] by blast
  qed
  then have "length (concat (map (\<lambda>j. bs ! unat (i_direct ?n ! j)) [0..<needed ?sz])) = needed ?sz * 512"
    by (subst length_concat_const [where c = 512]) simp_all
  moreover have "?sz \<le> needed ?sz * 512" by (auto simp: needed_def)
  ultimately show ?thesis by (simp add: node_data_def)
qed

lemma read_ok:
  assumes fs: "fs_ok bs" and nm: "short_name nm"
  shows "mcsfs1_read (the_mount bs) (Some nm) (Some cap) (ram bs) =
    (case files bs (name_key nm) of None \<Rightarrow> (Inl MCSFS1_ERR_NOENT, ram bs)
     | Some d \<Rightarrow> if unat cap < length d then (Inl MCSFS1_ERR_RANGE, ram bs)
         else (Inr (d, of_nat (length d)), ram bs))"
proof (cases "files bs (name_key nm)")
  case None
  then have "List.find (\<lambda>i. used bs i \<and> ent_key (bs ! 7) i = name_key nm) [0..<16] = None"
    by (simp add: files_def split: option.splits)
  then show ?thesis using find_dirent_ok [OF fs nm] None by (simp add: mcsfs1_read_def the_mount_def prog_run)
next
  case (Some d)
  then obtain i where i: "i < 16" "used bs i" "d = node_data bs (snode bs i)"
    "List.find (\<lambda>i. used bs i \<and> ent_key (bs ! 7) i = name_key nm) [0..<16] = Some i"
    by (rule files_Some_slot) blast
  note r = read_slot_ok [OF fs i(1,2)] and dk = fs_okD(1) [OF fs]
  let ?n = "snode bs i"
  let ?sz = "unat (i_size ?n)"
  have sz: "?sz \<le> 4096" using r(5) by (simp add: node_ok_def)
  have len: "length d = ?sz" using slot_data_length [OF fs i(1,2)] by (simp add: i(3))
  have bn: "unat ((i_size ?n + of_nat MCSFS1_BLOCK_SIZE - 1) div of_nat MCSFS1_BLOCK_SIZE) = (?sz + 511) div 512"
  proof -
    have "unat (i_size ?n + 511) = ?sz + 511" using sz by (simp add: unat_word_ariths)
    moreover have "i_size ?n + of_nat MCSFS1_BLOCK_SIZE - 1 = i_size ?n + 511" by (simp add: MCSFS1_BLOCK_SIZE_def)
    ultimately show ?thesis by (simp only: unat_div) (simp add: MCSFS1_BLOCK_SIZE_def)
  qed
  have rb: "read_blocks [0..<(?sz + 511) div 512] \<lparr>m_block_count = of_nat (length bs), m_data_start = 8\<rparr> ?n 0 (ram bs) =
      (Inr d, ram bs)"
  proof (cases "?sz = 0")
    case True
    then show ?thesis by (simp add: i(3) node_data_def pret_def)
  next
    case False
    then have "needed ?sz = (?sz + 511) div 512" by (simp add: needed_def)
    then show ?thesis using read_blocks_ok [OF dk r(5,4), of 0 0] False by (simp add: i(3) node_data_def)
  qed
  show ?thesis
    using find_dirent_ok [OF fs nm] i(4) r(1,2) Some rb len
    by (simp add: mcsfs1_read_def the_mount_def prog_run Let_def bn word_less_nat_alt)
qed

section \<open>The consistency check accepts consistent file systems\<close>

lemma load_bmaps_ok: "disk_ok bs \<Longrightarrow> load_bmaps (ram bs) = (Inr (bs ! 1, bs ! 2), ram bs)"
  using ram_read_ok [of bs 1] ram_read_ok [of bs 2] disk_okD(1) [of bs]
  by (simp add: load_bmaps_def prog_run MCSFS1_INODE_BMAP_LBA_def MCSFS1_BLOCK_BMAP_LBA_def)

lemma pfor_ok: "(\<And>i. i \<in> set is \<Longrightarrow> f i s = (Inr (), s)) \<Longrightarrow> pfor is f s = (Inr (), s)"
  by (induction "is") (simp_all add: prog_run)

lemma fsck_entry_ok:
  assumes fs: "fs_ok bs" and i: "i < 16"
  shows "fsck_entry (bs ! 1) (bs ! 2) (bs ! 7) i (ram bs) = (Inr (), ram bs)"
proof (cases "used bs i")
  case False
  then show ?thesis by (simp add: fsck_entry_def pret_def)
next
  case True
  note r = read_slot_ok [OF fs i True] and dk = fs_okD(1) [OF fs]
  let ?n = "snode bs i"
  have e: "entry_ok bs i" using fs_okD(7) [OF fs i True] .
  have sz: "unat (i_size ?n) \<le> 4096" using r(5) by (simp add: node_ok_def)
  have blk: "fsck_block (bs ! 2) (i_direct ?n ! j) (ram bs) = (Inr (), ram bs)" if "j < needed (unat (i_size ?n))" for j
  proof -
    have "unat (i_direct ?n ! j) \<in> node_blocks ?n"
      using that needed_le_8 [OF sz] r(4,5) by (intro node_blocks_I) (auto simp: node_ok_def ino_fits_def)
    then have b: "8 \<le> unat (i_direct ?n ! j)" "unat (i_direct ?n ! j) < length bs" "bit_test (bs ! 2) (unat (i_direct ?n ! j))"
      using r(5) by (auto simp: node_ok_def)
    moreover have "length (bs ! 2) = 512" using disk_okD(1,3) [OF dk] by simp
    ultimately show ?thesis using disk_okD(2) [OF dk] ram_count [OF dk]
      by (simp add: fsck_block_def prog_run MCSFS1_DATA_START_LBA_def word_le_nat_alt word_less_nat_alt)
  qed
  have "pfor [0..<needed (unat (i_size ?n))] (\<lambda>j. fsck_block (bs ! 2) (i_direct ?n ! j)) (ram bs) = (Inr (), ram bs)"
    using blk by (intro pfor_ok) simp
  then show ?thesis
    unfolding fsck_entry_def needed_eq using True r(1,2) e sz
    by (simp add: prog_run entry_ok_def m1_consts MCSFS1_MODE_FILE_def sino_def)
qed

lemma fsck_ok:
  assumes fs: "fs_ok bs"
  shows "mcsfs1_fsck (ram bs) = (Inr (), ram bs)"
proof -
  note f = fs_okD [OF fs]
  have rd: "dev_read MCSFS1_ROOT_DIR_LBA (ram bs) = (Inr (bs ! 7), ram bs)"
    using ram_read_ok [OF f(1), of 7] disk_okD(1) [OF f(1)] by (simp add: MCSFS1_ROOT_DIR_LBA_def)
  have "pfor [0..<16] (fsck_entry (bs ! 1) (bs ! 2) (bs ! 7)) (ram bs) = (Inr (), ram bs)"
    using fsck_entry_ok [OF fs] by (intro pfor_ok) simp
  moreover have "pfor [0..<8] (\<lambda>b. pguard (bit_test (bs ! 2) b) MCSFS1_ERR_CORRUPT) (ram bs) = (Inr (), ram bs)"
    using f(4) by (intro pfor_ok) (simp add: prog_run)
  ultimately show ?thesis
    using load_super_ok [OF f(1,2)] load_bmaps_ok [OF f(1)] read_inode_ok [OF f(1), of 1] f(3,4,5,6) rd
    by (simp add: mcsfs1_fsck_def prog_run MCSFS1_ROOT_INO_def MCSFS1_DATA_START_LBA_def MCSFS1_DIRENT_COUNT_def
        ino_range_def) (simp add: MCSFS1_ROOT_DIR_LBA_def)
qed

end
