(* ===== verification/Mcsfs1_Files.thy ===== *)
theory Mcsfs1_Files
  imports Mcsfs1_Volume
begin

text \<open>
  The operations of \<open>src/fs/mcsfs1/mcsfs1.c\<close> that change a consistent volume: allocation, create, unlink and write. Each
  is run once, and what it leaves is a change of one slot, so that the lemmas of \<open>Mcsfs1_Volume\<close> give its effect on the map
  of files.
\<close>

section \<open>Allocation\<close>

lemma first_clear_cases:
  assumes "hi \<le> 8 * length bm"
  obtains (none) "first_clear bm lo hi = Inl MCSFS1_ERR_NOSPC" "\<forall>b. lo \<le> b \<longrightarrow> b < hi \<longrightarrow> bit_test bm b"
  | (some) b where "first_clear bm lo hi = Inr b" "lo \<le> b" "b < hi" "\<not> bit_test bm b"
proof (cases "List.find (\<lambda>b. length bm \<le> b div 8 \<or> \<not> bit_test bm b) [lo..<hi]")
  case None
  then have "first_clear bm lo hi = Inl MCSFS1_ERR_NOSPC" by (simp add: first_clear_def)
  moreover have "\<forall>b. lo \<le> b \<longrightarrow> b < hi \<longrightarrow> bit_test bm b" using None unfolding find_upt_None_iff by blast
  ultimately show ?thesis by (rule none)
next
  case (Some b)
  have b: "lo \<le> b" "b < hi" "length bm \<le> b div 8 \<or> \<not> bit_test bm b" using find_upt_SomeD [OF Some] by blast+
  have "\<not> length bm \<le> b div 8" using b(2) assms by simp
  then show ?thesis using some [of b] b Some by (simp add: first_clear_def)
qed

lemma store_bmaps_ok:
  "disk_ok bs \<Longrightarrow> length ib = 512 \<Longrightarrow> store_bmaps ib bb (ram bs) = (Inr (), ram (bs[1 := ib, 2 := bb]))"
  using ram_write_ok [of bs 1 ib] ram_write_ok [of "bs[1 := ib]" 2 bb] disk_okD(1) [of bs] disk_ok_update [of bs ib 1]
  by (simp add: store_bmaps_def prog_run MCSFS1_INODE_BMAP_LBA_def MCSFS1_BLOCK_BMAP_LBA_def)

lemma bmap_lengths: "disk_ok bs \<Longrightarrow> length (bs ! 1) = 512" "disk_ok bs \<Longrightarrow> length (bs ! 2) = 512" "disk_ok bs \<Longrightarrow> length (bs ! 7) = 512"
  using disk_okD [of bs] by simp_all

lemma bitmap_set:
  assumes "disk_ok bs" "l = 1 \<or> l = 2" "b < 4096"
  shows "length (bit_set (bs ! l) b) = 512" "bit_test (bit_set (bs ! l) b) c \<longleftrightarrow> c = b \<or> bit_test (bs ! l) c"
  using assms bmap_lengths [OF assms(1)] m1_bm.tst_st [of b "bs ! l" c] by (auto simp: m1_bm.length_st)

text \<open>The block bitmap has no clear bit of the data area; the inode bitmap has none of a file's inode.\<close>

definition blocks_full :: "bytes list \<Rightarrow> bool" where
  "blocks_full bs \<longleftrightarrow> (\<forall>b. 8 \<le> b \<longrightarrow> b < length bs \<longrightarrow> bit_test (bs ! 2) b)"

definition inodes_full :: "bytes list \<Rightarrow> bool" where
  "inodes_full bs \<longleftrightarrow> (\<forall>k. 2 \<le> k \<longrightarrow> k < 33 \<longrightarrow> bit_test (bs ! 1) k)"

definition dir_full :: "bytes list \<Rightarrow> bool" where
  "dir_full bs \<longleftrightarrow> (\<forall>i<16. used bs i)"

lemma alloc_data_block_cases:
  assumes "disk_ok bs"
  obtains (none) "alloc_data_block (ram bs) = (Inl MCSFS1_ERR_NOSPC, ram bs)" "blocks_full bs"
  | (some) b where "alloc_data_block (ram bs) = (Inr b, ram (bs[2 := bit_set (bs ! 2) b]))"
      "8 \<le> b" "b < length bs" "\<not> bit_test (bs ! 2) b"
proof -
  have l: "length bs \<le> 8 * length (bs ! 2)" using bmap_lengths(2) [OF assms] disk_okD(2) [OF assms] by simp
  show ?thesis
  proof (cases rule: first_clear_cases [OF l, where lo = 8])
    case 1
    then show ?thesis using none load_bmaps_ok [OF assms] ram_count_ok [OF assms]
      by (simp add: alloc_data_block_def prog_run MCSFS1_DATA_START_LBA_def blocks_full_def)
  next
    case (2 b)
    have "bs[1 := bs ! 1] = bs" by simp
    then show ?thesis
      using some [of b] 2 load_bmaps_ok [OF assms] ram_count_ok [OF assms] store_bmaps_ok [OF assms bmap_lengths(1) [OF assms]]
      by (simp add: alloc_data_block_def prog_run MCSFS1_DATA_START_LBA_def)
  qed
qed

text \<open>Filling the missing blocks of an inode.\<close>

definition filled :: "nat list \<Rightarrow> mcsfs1_inode_disk \<Rightarrow> mcsfs1_inode_disk \<Rightarrow> bytes list \<Rightarrow> bool" where
  "filled is n n' bs \<longleftrightarrow> length (i_direct n') = length (i_direct n) \<and> n' = n\<lparr>i_direct := i_direct n'\<rparr> \<and>
     (\<forall>j<length (i_direct n). (i_direct n ! j \<noteq> 0 \<or> j \<notin> set is) \<longrightarrow> i_direct n' ! j = i_direct n ! j) \<and>
     (\<forall>j\<in>set is. i_direct n ! j = 0 \<longrightarrow> 8 \<le> unat (i_direct n' ! j) \<and> unat (i_direct n' ! j) < length bs \<and>
        \<not> bit_test (bs ! 2) (unat (i_direct n' ! j))) \<and>
     (\<forall>j\<in>set is. \<forall>l\<in>set is. i_direct n ! j = 0 \<longrightarrow> i_direct n ! l = 0 \<longrightarrow> i_direct n' ! j = i_direct n' ! l \<longrightarrow> j = l)"

definition more_bits :: "bytes list \<Rightarrow> bytes list \<Rightarrow> bool" where
  "more_bits bs bs' \<longleftrightarrow> (\<exists>bb. bs' = bs[2 := bb] \<and> length bb = 512 \<and> (\<forall>b. bit_test (bs ! 2) b \<longrightarrow> bit_test bb b))"

lemma more_bits_refl: "disk_ok bs \<Longrightarrow> more_bits bs bs"
  by (auto simp: more_bits_def bmap_lengths intro!: exI [of _ "bs ! 2"])

lemma more_bits_trans: "disk_ok bs \<Longrightarrow> more_bits bs bs' \<Longrightarrow> more_bits bs' bs'' \<Longrightarrow> more_bits bs bs''"
  using disk_okD(1) [of bs] by (fastforce simp: more_bits_def)

lemma more_bitsD:
  assumes "more_bits bs bs'" "disk_ok bs"
  shows "disk_ok bs'" "length bs' = length bs" "l \<noteq> 2 \<Longrightarrow> bs' ! l = bs ! l" "bit_test (bs ! 2) b \<Longrightarrow> bit_test (bs' ! 2) b"
    "length (bs' ! 2) = 512"
  using assms disk_okD(1) [OF assms(2)] disk_ok_update [OF assms(2)] by (auto simp: more_bits_def)

lemma alloc_direct_present: "\<forall>j\<in>set is. i_direct n ! j \<noteq> 0 \<Longrightarrow> alloc_direct is n dev = (Inr n, dev)"
  by (induction "is") (simp_all add: pret_def)

lemma filled_step:
  assumes dk: "disk_ok bs" and i: "i < length (i_direct n)" "i \<notin> set is" "i_direct n ! i = 0"
    and b: "8 \<le> b" "b < length bs" "\<not> bit_test (bs ! 2) b"
    and fl: "filled is (n\<lparr>i_direct := (i_direct n)[i := of_nat b]\<rparr>) n' (bs[2 := bit_set (bs ! 2) b])"
  shows "unat (i_direct n' ! i) = b" "filled (i # is) n n' bs"
proof -
  note bit = bitmap_set(2) [OF dk disjI2, OF refl, of b]
  have b4: "b < 4096" and l2: "2 < length bs" using b(2) disk_okD(1,2) [OF dk] by simp_all
  have ub: "unat (of_nat b :: u32) = b" using b4 by (simp add: unat_small_u32)
  have ni: "i_direct n' ! i = of_nat b" using fl i(1,2) by (auto simp: filled_def)
  then show ui: "unat (i_direct n' ! i) = b" using ub by simp
  have new: "8 \<le> unat (i_direct n' ! j) \<and> unat (i_direct n' ! j) < length bs \<and> \<not> bit_test (bs ! 2) (unat (i_direct n' ! j)) \<and>
      i_direct n' ! j \<noteq> i_direct n' ! i" if "j \<in> set is" "i_direct n ! j = 0" for j
  proof -
    have "j \<noteq> i" using that(1) i(2) by blast
    then have "8 \<le> unat (i_direct n' ! j) \<and> unat (i_direct n' ! j) < length bs \<and>
        \<not> bit_test (bit_set (bs ! 2) b) (unat (i_direct n' ! j))"
      using fl that l2 by (simp add: filled_def)
    then show ?thesis using ui bit [OF b4] by metis
  qed
  have old: "j \<in> set is \<Longrightarrow> (i_direct n)[i := of_nat b] ! j = i_direct n ! j" for j using i(2) by (metis nth_list_update_neq)
  have inj: "j = l" if "j \<in> set is" "l \<in> set is" "i_direct n ! j = 0" "i_direct n ! l = 0" "i_direct n' ! j = i_direct n' ! l" for j l
    using fl that by (simp add: filled_def old)
  have "length (i_direct n') = length (i_direct n)" "n' = n\<lparr>i_direct := i_direct n'\<rparr>"
    using fl by (cases n; cases n'; simp add: filled_def)+
  moreover have "i_direct n' ! j = i_direct n ! j" if "j < length (i_direct n)" "i_direct n ! j \<noteq> 0 \<or> j \<notin> set (i # is)" for j
    using fl that i(3) by (cases "j = i") (auto simp: filled_def)
  ultimately show "filled (i # is) n n' bs"
    unfolding filled_def using new inj ui b by (metis set_ConsD)
qed

lemma alloc_direct_cases:
  assumes "disk_ok bs" "distinct is" "\<forall>j\<in>set is. j < length (i_direct n)"
  obtains (none) bs' where "alloc_direct is n (ram bs) = (Inl MCSFS1_ERR_NOSPC, ram bs')" "more_bits bs bs'" "blocks_full bs'"
  | (some) n' bs' where "alloc_direct is n (ram bs) = (Inr n', ram bs')" "more_bits bs bs'" "filled is n n' bs"
      "\<forall>j\<in>set is. i_direct n ! j = 0 \<longrightarrow> bit_test (bs' ! 2) (unat (i_direct n' ! j))"
  using assms
proof (induction "is" arbitrary: bs n thesis)
  case Nil
  show ?case by (rule Nil(2) [of n bs]) (simp_all add: pret_def more_bits_refl [OF Nil(3)] filled_def)
next
  case (Cons i "is")
  note none = Cons(2) and some = Cons(3) and dk = Cons(4)
  have i: "i < length (i_direct n)" "i \<notin> set is" "distinct is" "\<forall>j\<in>set is. j < length (i_direct n)" using Cons(5,6) by auto
  show ?case
  proof (cases "i_direct n ! i = 0")
    case False
    then have e: "alloc_direct (i # is) n (ram bs) = alloc_direct is n (ram bs)" by simp
    have "filled is n n' bs \<Longrightarrow> filled (i # is) n n' bs" for n' using False by (simp add: filled_def)
    then show ?thesis using Cons(1) [OF _ _ dk i(3,4)] none some e False by (metis set_ConsD)
  next
    case True
    show ?thesis
    proof (cases rule: alloc_data_block_cases [OF dk])
      case 1
      then show ?thesis using none [of bs] True more_bits_refl [OF dk] by (simp add: prog_run)
    next
      case (2 b)
      let ?bs = "bs[2 := bit_set (bs ! 2) b]" and ?n = "n\<lparr>i_direct := (i_direct n)[i := of_nat b]\<rparr>"
      have b4: "b < 4096" and l2: "2 < length bs" using 2(3) disk_okD(1,2) [OF dk] by simp_all
      note bit = bitmap_set [OF dk disjI2, OF refl b4]
      have mb: "more_bits bs ?bs" using bit by (auto simp: more_bits_def intro!: exI [of _ "bit_set (bs ! 2) b"])
      note dk' = more_bitsD(1) [OF mb dk]
      have e: "alloc_direct (i # is) n (ram bs) = alloc_direct is ?n (ram ?bs)" using True 2(1) by (simp add: prog_run)
      have i': "\<forall>j\<in>set is. j < length (i_direct ?n)" using i(4) by simp
      show ?thesis
      proof (rule Cons(1) [OF _ _ dk' i(3) i'])
        fix bs' assume "alloc_direct is ?n (ram ?bs) = (Inl MCSFS1_ERR_NOSPC, ram bs')" "more_bits ?bs bs'" "blocks_full bs'"
        then show ?thesis using none e more_bits_trans [OF dk mb] by simp
      next
        fix n' bs' assume a: "alloc_direct is ?n (ram ?bs) = (Inr n', ram bs')" "more_bits ?bs bs'" "filled is ?n n' ?bs"
          "\<forall>j\<in>set is. i_direct ?n ! j = 0 \<longrightarrow> bit_test (bs' ! 2) (unat (i_direct n' ! j))"
        note st = filled_step [OF dk i(1,2) True 2(2-4) a(3)]
        have "bit_test (bs' ! 2) b" using more_bitsD(4) [OF a(2) dk'] bit(2) l2 by simp
        moreover have "bit_test (bs' ! 2) (unat (i_direct n' ! j))" if "j \<in> set is" "i_direct n ! j = 0" for j
          using a(4) that i(2) by (cases "j = i") auto
        ultimately show ?thesis using some [of n' bs'] a(1) e more_bits_trans [OF dk mb a(2)] st by simp
      qed
    qed
  qed
qed

section \<open>Writing the data blocks\<close>

definition data_block :: "bytes \<Rightarrow> nat \<Rightarrow> bytes" where
  "data_block d j = take 512 (drop (j * 512) d) @ replicate (512 - (length d - j * 512)) 0"

lemma length_data_block [simp]: "length (data_block d j) = 512"
  by (auto simp: data_block_def)

definition put_blocks :: "mcsfs1_inode_disk \<Rightarrow> bytes \<Rightarrow> nat list \<Rightarrow> bytes list \<Rightarrow> bytes list" where
  "put_blocks n d js bs = fold (\<lambda>j bs. bs[unat (i_direct n ! j) := data_block d j]) js bs"

lemma put_blocks_disk_ok: "disk_ok bs \<Longrightarrow> disk_ok (put_blocks n d js bs) \<and> length (put_blocks n d js bs) = length bs"
proof (induction js arbitrary: bs)
  case (Cons j js)
  from Cons(1) [OF disk_ok_update [OF Cons(2), of "data_block d j" "unat (i_direct n ! j)"]] show ?case
    by (simp add: put_blocks_def)
qed (simp add: put_blocks_def)

lemma put_blocks_other: "(\<And>j. j \<in> set js \<Longrightarrow> unat (i_direct n ! j) \<noteq> b) \<Longrightarrow> put_blocks n d js bs ! b = bs ! b"
  by (induction js arbitrary: bs) (simp_all add: put_blocks_def)

lemma put_blocks_nth:
  assumes "j \<in> set js" "distinct js" "\<And>l. l \<in> set js \<Longrightarrow> i_direct n ! l = i_direct n ! j \<Longrightarrow> l = j"
    "unat (i_direct n ! j) < length bs"
  shows "put_blocks n d js bs ! unat (i_direct n ! j) = data_block d j"
  using assms
proof (induction js arbitrary: bs)
  case (Cons l js)
  show ?case
  proof (cases "l = j")
    case True
    have "put_blocks n d js (bs[unat (i_direct n ! j) := data_block d j]) ! unat (i_direct n ! j) = data_block d j"
      using Cons(3,4,5) True by (subst put_blocks_other) (auto simp: word_unat_eq_iff)
    then show ?thesis using True by (simp add: put_blocks_def)
  next
    case False
    then show ?thesis using Cons(1) [of "bs[unat (i_direct n ! l) := data_block d l]"] Cons(2-5) by (simp add: put_blocks_def)
  qed
qed simp

lemma write_blocks_ok:
  assumes "disk_ok bs" "length d \<le> 4096" "j + k \<le> 8" "j + k = needed (length d)"
    "\<forall>l<8. i_direct n ! l \<noteq> 0 \<longrightarrow> unat (i_direct n ! l) < length bs" "\<forall>l<needed (length d). i_direct n ! l \<noteq> 0"
    "length buf = length d" "buf = d"
  shows "write_blocks [j..<j + k] n buf (length d) (min (length d) (j * 512)) (ram bs) =
    (Inr (), ram (put_blocks n d [j..<j + k] bs))"
  using assms(1,3-6)
proof (induction k arbitrary: j bs)
  case 0
  then show ?case by (simp add: pret_def put_blocks_def)
next
  case (Suc k)
  let ?l = "length d"
  let ?w = "min ?l (j * 512)"
  have up: "[j..<j + Suc k] = j # [Suc j..<Suc j + k]" by (simp add: upt_conv_Cons)
  let ?chunk = "if MCSFS1_BLOCK_SIZE < ?l - ?w then MCSFS1_BLOCK_SIZE else ?l - ?w"
  have w: "?w + ?chunk = min ?l (Suc j * 512)" by (auto simp: MCSFS1_BLOCK_SIZE_def)
  have blk: "copy_into 0 (take ?chunk (drop ?w buf)) zero_block = data_block d j"
  proof (cases "?l \<le> j * 512")
    case True
    then show ?thesis using assms(8) by (simp add: copy_into_def data_block_def zero_block_def MCSFS1_BLOCK_SIZE_def)
  next
    case False
    then show ?thesis using assms(8)
      by (auto simp: copy_into_def data_block_def zero_block_def MCSFS1_BLOCK_SIZE_def min_def)
  qed
  have j8: "j < 8" "i_direct n ! j \<noteq> 0" using Suc(3,4,6) by auto
  then have jb: "unat (i_direct n ! j) < length bs" using Suc(5) by blast
  let ?bs = "bs[unat (i_direct n ! j) := data_block d j]"
  have dk: "disk_ok ?bs" using disk_ok_update [OF Suc(2)] by simp
  have "write_blocks [Suc j..<Suc j + k] n buf ?l (min ?l (Suc j * 512)) (ram ?bs) =
      (Inr (), ram (put_blocks n d [Suc j..<Suc j + k] ?bs))"
  proof (rule Suc(1) [OF dk])
    show "Suc j + k \<le> 8" "Suc j + k = needed ?l" using Suc(3,4) by simp_all
    show "\<forall>l<8. i_direct n ! l \<noteq> 0 \<longrightarrow> unat (i_direct n ! l) < length ?bs" using Suc(5) by simp
    show "\<forall>l<needed ?l. i_direct n ! l \<noteq> 0" using Suc(6) .
  qed
  then show ?case unfolding up write_blocks.simps Let_def w blk
    using ram_write_ok [OF Suc(2) jb] by (simp add: prog_run put_blocks_def)
qed

lemma needed_blocks: "n \<le> 512 * needed n" "needed n \<le> 8 \<longleftrightarrow> n \<le> 4096" "0 < needed n"
  by (auto simp: needed_def)

lemma concat_data_blocks: "take (length d) (concat (map (data_block d) [0..<k])) = take (k * 512) d"
proof (induction k)
  case 0
  show ?case by simp
next
  case (Suc k)
  let ?c = "concat (map (data_block d) [0..<k])"
  have len: "length ?c = k * 512" by (subst length_concat_const [where c = 512]) simp_all
  show ?case
  proof (cases "length d \<le> k * 512")
    case True
    then show ?thesis using Suc len by simp
  next
    case False
    have "concat (map (data_block d) [0..<Suc k]) = ?c @ data_block d k" by simp
    moreover have "take (length d - k * 512) (data_block d k) = take 512 (drop (k * 512) d)"
      using False by (auto simp: data_block_def min_def)
    ultimately have "take (length d) (concat (map (data_block d) [0..<Suc k])) = ?c @ take 512 (drop (k * 512) d)"
      using len False by simp
    moreover have "?c = take (k * 512) d" using Suc len False by simp
    moreover have "Suc k * 512 = k * 512 + 512" by simp
    ultimately show ?thesis by (simp only: take_add)
  qed
qed

lemma concat_data_blocks_needed: "take (length d) (concat (map (data_block d) [0..<needed (length d)])) = d"
  using needed_blocks(1) [of "length d"] by (simp add: concat_data_blocks mult.commute)

section \<open>The operations on a consistent file system\<close>

lemma set_inode_update: "inode_lba k \<noteq> l \<Longrightarrow> (set_inode k x bs)[l := b] = set_inode k x (bs[l := b])"
  by (simp add: set_inode_def list_update_swap)

text \<open>The disk after its bitmaps, its directory and one inode were written.\<close>

definition meta :: "bytes list \<Rightarrow> bytes \<Rightarrow> bytes \<Rightarrow> bytes \<Rightarrow> nat \<Rightarrow> mcsfs1_inode_disk \<Rightarrow> bytes list" where
  "meta bs ib bb dir k x = set_inode k x (bs[1 := ib, 2 := bb, 7 := dir])"

lemma meta_facts:
  assumes "disk_ok bs" "length ib = 512" "length bb = 512" "length dir = 512" "ino_range k" "ino_fits x"
  shows "disk_ok (meta bs ib bb dir k x)" "length (meta bs ib bb dir k x) = length bs"
    "meta bs ib bb dir k x ! 0 = bs ! 0" "meta bs ib bb dir k x ! Suc 0 = ib" "meta bs ib bb dir k x ! 2 = bb"
    "meta bs ib bb dir k x ! 7 = dir" "8 \<le> l \<Longrightarrow> meta bs ib bb dir k x ! l = bs ! l"
    "ino_range j \<Longrightarrow> inode_of (meta bs ib bb dir k x) j = (if j = k then x else inode_of bs j)"
proof -
  let ?bs = "bs[1 := ib, 2 := bb, 7 := dir]"
  have dk: "disk_ok ?bs" using assms by (intro disk_ok_update)
  have l: "16 \<le> length bs" using disk_okD(1) [OF assms(1)] .
  show "disk_ok (meta bs ib bb dir k x)" unfolding meta_def using disk_ok_set_inode [OF dk assms(5,6)] .
  show "length (meta bs ib bb dir k x) = length bs" by (simp add: meta_def)
  show "meta bs ib bb dir k x ! 0 = bs ! 0" "meta bs ib bb dir k x ! Suc 0 = ib" "meta bs ib bb dir k x ! 2 = bb"
    "meta bs ib bb dir k x ! 7 = dir" "8 \<le> l \<Longrightarrow> meta bs ib bb dir k x ! l = bs ! l"
    using l by (simp_all add: meta_def set_inode_other [OF assms(5)])
  have "inode_of ?bs j = inode_of bs j" if "ino_range j" using that by (intro inode_of_cong) simp_all
  then show "ino_range j \<Longrightarrow> inode_of (meta bs ib bb dir k x) j = (if j = k then x else inode_of bs j)"
    unfolding meta_def using inode_of_set [OF dk assms(5,6)] by simp
qed

lemma read_dir_ok: "disk_ok bs \<Longrightarrow> dev_read MCSFS1_ROOT_DIR_LBA (ram bs) = (Inr (bs ! 7), ram bs)"
  using ram_read_ok [of bs 7] disk_okD(1) [of bs] by (simp add: MCSFS1_ROOT_DIR_LBA_def)

lemma write_dir_ok: "disk_ok bs \<Longrightarrow> dev_write MCSFS1_ROOT_DIR_LBA b (ram bs) = (Inr (), ram (bs[7 := b]))"
  using ram_write_ok [of bs 7] disk_okD(1) [of bs] by (simp add: MCSFS1_ROOT_DIR_LBA_def)

lemma files_find_None: "files bs k = None \<Longrightarrow> List.find (\<lambda>i. used bs i \<and> ent_key (bs ! 7) i = k) [0..<16] = None"
  by (simp add: files_def split: option.splits)

lemma short_nameD: "short_name nm \<Longrightarrow> valid_name (Some nm) = Inr (length (name_key nm))" "short_name nm \<Longrightarrow> length (name_key nm) \<le> 26"
  by (simp_all add: short_name_def)

lemma alloc_inode_block_cases:
  assumes "disk_ok bs"
  obtains (none) "alloc_inode_block (ram bs) = (Inl MCSFS1_ERR_NOSPC, ram bs)" "inodes_full bs \<or> blocks_full bs"
  | (some) k b where "alloc_inode_block (ram bs) = (Inr (k, b), ram (bs[1 := bit_set (bs ! 1) k, 2 := bit_set (bs ! 2) b]))"
      "2 \<le> k" "k \<le> 32" "\<not> bit_test (bs ! 1) k" "8 \<le> b" "b < length bs" "\<not> bit_test (bs ! 2) b"
proof -
  have l1: "33 \<le> 8 * length (bs ! 1)" and l2: "length bs \<le> 8 * length (bs ! 2)"
    using bmap_lengths [OF assms] disk_okD(2) [OF assms] by simp_all
  note run = load_bmaps_ok [OF assms] ram_count_ok [OF assms]
  show ?thesis
  proof (cases rule: first_clear_cases [OF l1, where lo = 2])
    case 1
    then show ?thesis using none run by (simp add: alloc_inode_block_def prog_run MCSFS1_MAX_INODES_def inodes_full_def)
  next
    case k: (2 k)
    show ?thesis
    proof (cases rule: first_clear_cases [OF l2, where lo = 8])
      case 1
      then show ?thesis using none run k(1) by (simp add: alloc_inode_block_def prog_run m1_consts blocks_full_def)
    next
      case (2 b)
      have "length (bit_set (bs ! 1) k) = 512" using bmap_lengths(1) [OF assms] by (simp add: m1_bm.length_st)
      then show ?thesis using some [of k b] run k 2 store_bmaps_ok [OF assms]
        by (simp add: alloc_inode_block_def prog_run m1_consts)
    qed
  qed
qed

lemma new_file_inode_facts:
  assumes "8 \<le> b" "b < 4096"
  shows "ino_fits (new_file_inode b)" "node_blocks (new_file_inode b) = {b}" "i_size (new_file_inode b) = 0"
    "i_mode (new_file_inode b) = MCSFS1_MODE_FILE" "i_direct (new_file_inode b) ! 0 \<noteq> 0"
    "j < 8 \<Longrightarrow> l < 8 \<Longrightarrow> i_direct (new_file_inode b) ! j = i_direct (new_file_inode b) ! l \<Longrightarrow>
      i_direct (new_file_inode b) ! j \<noteq> 0 \<Longrightarrow> j = l"
proof -
  have u: "unat (of_nat b :: u32) = b" using assms by (simp add: unat_small_u32)
  then have nz: "(of_nat b :: u32) \<noteq> 0" using assms by auto
  have d: "i_direct (new_file_inode b) = [of_nat b, 0, 0, 0, 0, 0, 0, 0]"
    by (simp add: new_file_inode_def zero_ino_def MCSFS1_DIRECT_BLOCKS_def numeral_eq_Suc)
  show "ino_fits (new_file_inode b)" by (simp add: ino_fits_def new_file_inode_def zero_ino_def MCSFS1_DIRECT_BLOCKS_def)
  show "node_blocks (new_file_inode b) = {b}" using nz u
    by (auto simp: node_blocks_def d intro!: exI [of _ "of_nat b"])
  show "i_size (new_file_inode b) = 0" "i_mode (new_file_inode b) = MCSFS1_MODE_FILE" by (simp_all add: new_file_inode_def)
  show "i_direct (new_file_inode b) ! 0 \<noteq> 0" using nz by (simp add: d)
  have "i_direct (new_file_inode b) ! j \<noteq> 0 \<Longrightarrow> j = 0" if "j < 8" for j
    using that by (cases j) (auto simp: new_file_inode_def zero_ino_def MCSFS1_DIRECT_BLOCKS_def)
  then show "j < 8 \<Longrightarrow> l < 8 \<Longrightarrow> i_direct (new_file_inode b) ! j = i_direct (new_file_inode b) ! l \<Longrightarrow>
      i_direct (new_file_inode b) ! j \<noteq> 0 \<Longrightarrow> j = l" by metis
qed

lemma create_exists:
  assumes "fs_ok bs" "short_name nm" "files bs (name_key nm) \<noteq> None"
  shows "mcsfs1_create (the_mount bs) (Some nm) (ram bs) = (Inl MCSFS1_ERR_EXIST, ram bs)"
proof -
  from assms(3) obtain d where "files bs (name_key nm) = Some d" by blast
  then obtain i where "List.find (\<lambda>i. used bs i \<and> ent_key (bs ! 7) i = name_key nm) [0..<16] = Some i"
    by (rule files_Some_slot) blast
  then show ?thesis using find_dirent_ok [OF assms(1,2)] short_nameD(1) [OF assms(2)]
    by (simp add: mcsfs1_create_def the_mount_def prog_run)
qed

text \<open>The successful path of create.\<close>

lemma create_run:
  assumes dk: "disk_ok bs" and v: "valid_name (Some nm) = Inr (length (name_key nm))"
    and nf: "find_dirent (Some nm) (ram bs) = (Inl MCSFS1_ERR_NOENT, ram bs)"
    and s: "List.find (\<lambda>i. ent_ino (bs ! 7) i = 0) [0..<16] = Some s"
    and al: "alloc_inode_block (ram bs) = (Inr (k, b), ram (bs[1 := ib, 2 := bb]))"
    and len: "length ib = 512" "length bb = 512" and k: "ino_range k" and n: "ino_fits (new_file_inode b)"
  shows "mcsfs1_create (the_mount bs) (Some nm) (ram bs) =
    (Inr (), ram (meta bs ib bb (copy_into (s * 32) (new_dirent k nm (length (name_key nm))) (bs ! 7)) k (new_file_inode b)))"
proof -
  let ?dir = "copy_into (s * 32) (new_dirent k nm (length (name_key nm))) (bs ! 7)"
  have dk1: "disk_ok (bs[1 := ib, 2 := bb])" using dk len by (intro disk_ok_update)
  have "inode_lba k \<noteq> 7" using inode_place(2) [OF k] by simp
  then have "(set_inode k (new_file_inode b) (bs[1 := ib, 2 := bb]))[7 := ?dir] = meta bs ib bb ?dir k (new_file_inode b)"
    by (simp add: meta_def set_inode_update)
  then show ?thesis
    using nf read_dir_ok [OF dk] v s al write_inode_ok [OF dk1 k]
      write_dir_ok [OF disk_ok_set_inode [OF dk1 k n]] ram_flush_ok
    by (simp add: mcsfs1_create_def the_mount_def prog_run MCSFS1_DIRENT_COUNT_def)
qed

lemma used_slot:
  assumes "fs_ok bs" "i < 16" "used bs i"
  shows "sino bs i \<noteq> 1" "2 \<le> sino bs i" "sino bs i \<le> 32" "ino_range (sino bs i)" "bit_test (bs ! 1) (sino bs i)" "ent_type (bs ! 7) i = 1"
    "length (ent_key (bs ! 7) i) \<le> 26" "b \<in> node_blocks (snode bs i) \<Longrightarrow> 8 \<le> b \<and> b < length bs \<and> bit_test (bs ! 2) b"
  using fs_okD(7) [OF assms] read_slot_ok(3) [OF assms] by (auto simp: entry_ok_def node_ok_def)

text \<open>What a change of the bitmaps, of one directory entry and of one inode keeps.\<close>

lemma meta_root_kept:
  assumes "fs_ok bs" "length ib = 512" "length bb = 512" "length dir = 512" "ino_range k" "ino_fits x"
    "k \<noteq> 1" "bit_test ib 1" "\<And>b. b < 8 \<Longrightarrow> bit_test bb b"
  shows "root_kept bs (meta bs ib bb dir k x)"
  using meta_facts [OF fs_okD(1) [OF assms(1)] assms(2-6)] assms(7-9) by (simp add: root_kept_def ino_range_def)

lemma meta_slot_kept:
  assumes fs: "fs_ok bs" and ok: "length ib = 512" "length bb = 512" "length e = 32" "ino_range k" "ino_fits x"
    and s: "s < 16" and i: "i < 16" "i \<noteq> s"
    and kept: "used bs i \<Longrightarrow> sino bs i \<noteq> k" "used bs i \<Longrightarrow> bit_test ib (sino bs i)"
      "\<And>b. used bs i \<Longrightarrow> b \<in> node_blocks (snode bs i) \<Longrightarrow> bit_test bb b"
  shows "slot_kept bs (meta bs ib bb (copy_into (s * 32) e (bs ! 7)) k x) i"
proof -
  note l7 = bmap_lengths(3) [OF fs_okD(1) [OF fs]]
  note e = ent_copy_into [OF ok(3) l7 s i(1)]
  have "length (copy_into (s * 32) e (bs ! 7)) = 512" using l7 s ok(3) by simp
  note mf = meta_facts [OF fs_okD(1) [OF fs] ok(1,2) this ok(4,5)]
  show ?thesis using e i(2) used_slot [OF fs i(1)] kept
    by (auto simp: slot_kept_def mf snode_def sino_def)
qed

text \<open>The volume that create leaves: the inode \<open>k\<close> with the block \<open>b\<close> in the slot \<open>s\<close>.\<close>

definition created :: "bytes list \<Rightarrow> bytes \<Rightarrow> nat \<Rightarrow> nat \<Rightarrow> nat \<Rightarrow> bytes list" where
  "created bs nm s k b = meta bs (bit_set (bs ! 1) k) (bit_set (bs ! 2) b)
     (copy_into (s * 32) (new_dirent k nm (length (name_key nm))) (bs ! 7)) k (new_file_inode b)"

lemma created_change:
  assumes fs: "fs_ok bs" and nm: "short_name nm" "files bs (name_key nm) = None" and s: "s < 16"
    and k: "2 \<le> k" "k \<le> 32" "\<not> bit_test (bs ! 1) k" and b: "8 \<le> b" "b < length bs" "\<not> bit_test (bs ! 2) b"
  shows "slot_change bs (created bs nm s k b) s" "used (created bs nm s k b) s"
    "ent_key (created bs nm s k b ! 7) s = name_key nm" "node_data (created bs nm s k b) (snode (created bs nm s k b) s) = []"
proof -
  note f = fs_okD [OF fs] and dk = fs_okD(1) [OF fs] and l7 = bmap_lengths(3) [OF fs_okD(1) [OF fs]]
  let ?bs = "created bs nm s k b" and ?e = "new_dirent k nm (length (name_key nm))"
  have b4: "b < 4096" and k4: "k < 4096" and k32: "k < 4294967296" and kr: "ino_range k" and ku: "unat (of_nat k :: u32) = k"
    using k(1,2) b(2) disk_okD(2) [OF dk] by (simp_all add: ino_range_def unat_small_u32)
  note n = new_file_inode_facts [OF b(1) b4] and e = new_dirent_parts [OF nm(1) k32]
  note ib = bitmap_set [OF dk disjI1 k4, OF refl] and bb = bitmap_set [OF dk disjI2 b4, OF refl]
  have len: "length (copy_into (s * 32) ?e (bs ! 7)) = 512" using l7 e(1) s by simp
  note mf = meta_facts [OF dk ib(1) bb(1) len kr n(1), folded created_def]
  have ent: "ent_ino (?bs ! 7) s = of_nat k" "ent_type (?bs ! 7) s = 1" "ent_key (?bs ! 7) s = name_key nm"
    using ent_copy_into [OF e(1) l7 s s] e(2,3,4) by (simp_all add: mf)
  have "sino ?bs s = k" using ku by (simp only: sino_def ent)
  then have sn: "sino ?bs s = k" "snode ?bs s = new_file_inode b" using kr by (simp_all add: snode_def mf(8))
  have others: "sino bs i \<noteq> k" "b \<notin> node_blocks (snode bs i)" "ent_key (bs ! 7) i \<noteq> name_key nm" if "i < 16" "used bs i" for i
    using used_slot [OF fs that] k(3) b(3) nm(2) that by (auto simp: files_None_iff)
  have kept: "slot_kept bs ?bs i" if "i < 16" "i \<noteq> s" for i
    unfolding created_def using used_slot [OF fs that(1)] others [OF that(1)]
    by (intro meta_slot_kept [OF fs ib(1) bb(1) e(1) kr n(1) s that]) (simp_all add: ib(2) [simplified] bb(2))
  have root: "root_kept bs ?bs"
    unfolding created_def using k(1) f(3,4) by (intro meta_root_kept [OF fs ib(1) bb(1) len kr n(1)]) (simp_all add: ib(2) [simplified] bb(2))
  have "entry_ok ?bs s"
    unfolding entry_ok_def sn ent using k(1,2) b(1,2) n short_nameD(2) [OF nm(1)]
    by (simp add: mf ib(2) [simplified] bb(2) node_ok_def needed_def)
  moreover have "k \<noteq> sino bs i \<and> name_key nm \<noteq> ent_key (bs ! 7) i \<and> {b} \<inter> node_blocks (snode bs i) = {}"
    if "i < 16" "used bs i" for i using others [OF that] by simp
  ultimately have "slot_fresh bs ?bs s" unfolding slot_fresh_def sn ent n by simp
  then show "slot_change bs ?bs s" using root s kept by (simp add: slot_change_def)
  show "used ?bs s" using ku k(1) by (auto simp: ent)
  show "ent_key (?bs ! 7) s = name_key nm" "node_data ?bs (snode ?bs s) = []" by (simp_all add: ent sn node_data_def n)
qed

lemma create_ok:
  assumes fs: "fs_ok bs" and nm: "short_name nm" and new: "files bs (name_key nm) = None"
  shows "mcsfs1_create (the_mount bs) (Some nm) (ram bs) = (Inl MCSFS1_ERR_NOSPC, ram bs) \<and>
      (dir_full bs \<or> inodes_full bs \<or> blocks_full bs) \<or>
    \<not> (dir_full bs \<or> inodes_full bs \<or> blocks_full bs) \<and> (\<exists>bs'. mcsfs1_create (the_mount bs) (Some nm) (ram bs) = (Inr (), ram bs') \<and> fs_ok bs' \<and>
       length bs' = length bs \<and> files bs' = (files bs)(name_key nm \<mapsto> []))"
proof -
  note dk = fs_okD(1) [OF fs] and v = short_nameD(1) [OF nm]
  have nf: "find_dirent (Some nm) (ram bs) = (Inl MCSFS1_ERR_NOENT, ram bs)"
    using find_dirent_ok [OF fs nm] files_find_None [OF new] by simp
  show ?thesis
  proof (cases "List.find (\<lambda>i. ent_ino (bs ! 7) i = 0) [0..<16]")
    case None
    then have "dir_full bs" unfolding find_upt_None_iff dir_full_def by simp
    then show ?thesis using None nf read_dir_ok [OF dk] v
      by (simp add: mcsfs1_create_def the_mount_def prog_run MCSFS1_DIRENT_COUNT_def)
  next
    case (Some s)
    then have s: "s < 16" "\<not> used bs s" using find_upt_SomeD(2,3) [OF Some] by blast+
    show ?thesis
    proof (cases rule: alloc_inode_block_cases [OF dk])
      case 1
      then show ?thesis using nf read_dir_ok [OF dk] v Some
        by (simp add: mcsfs1_create_def the_mount_def prog_run MCSFS1_DIRENT_COUNT_def)
    next
      case (2 k b)
      have kb: "k < 4096" "b < 4096" "ino_range k" using 2(2,3,6) disk_okD(2) [OF dk] by (simp_all add: ino_range_def)
      note ch = created_change [OF fs nm new s(1) 2(2-7)]
      have "mcsfs1_create (the_mount bs) (Some nm) (ram bs) = (Inr (), ram (created bs nm s k b))"
        unfolding created_def using create_run [OF dk v nf Some 2(1) _ _ kb(3) new_file_inode_facts(1) [OF 2(5) kb(2)]]
          bitmap_set(1) [OF dk disjI1 kb(1)] bitmap_set(1) [OF dk disjI2 kb(2)] by simp
      moreover have "files (created bs nm s k b) = (files bs)(name_key nm \<mapsto> [])"
        using slot_change_put [OF fs ch(1,2)] s(2) by (simp add: ch(3,4))
      moreover have "\<not> (dir_full bs \<or> inodes_full bs \<or> blocks_full bs)"
        using s 2(2-7) by (auto simp: dir_full_def inodes_full_def blocks_full_def)
      ultimately show ?thesis using slot_change_fs_ok [OF fs ch(1)] root_keptD(2) [OF slot_changeD(1) [OF ch(1)]] by blast
    qed
  qed
qed

lemma more_bits_fs_ok:
  assumes fs: "fs_ok bs" and m: "more_bits bs bs'"
  shows "fs_ok bs'" "files bs' = files bs"
proof -
  note f = fs_okD [OF fs] and d = more_bitsD [OF m f(1)]
  have ino: "inode_of bs' k = inode_of bs k" if "ino_range k" for k using that by (intro inode_of_cong) (simp_all add: d)
  have blk: "bs' ! b = bs ! b" if "i < 16" "used bs i" "b \<in> node_blocks (snode bs i)" for i b
    using used_slot(8) [OF fs that] by (simp add: d)
  have keep: "slot_kept bs bs' i" if i: "i < 16" for i
    using used_slot [OF fs i] ino blk [OF i] by (auto simp: slot_kept_def snode_def sino_def d)
  have "root_kept bs bs'" using f(3,4) d ino [of 1] by (simp add: root_kept_def ino_range_def)
  then show "fs_ok bs'" "files bs' = files bs" using slots_kept_fs_ok [OF fs _ keep] by blast+
qed

lemma clear_blocks_facts:
  assumes "n \<le> 8 * length bb"
  shows "length (clear_blocks n x bb) = length bb"
    "bit_test (clear_blocks n x bb) c \<longleftrightarrow> bit_test bb c \<and> \<not> (\<exists>d\<in>set (i_direct x). d \<noteq> 0 \<and> unat d < n \<and> unat d = c)"
proof -
  have "length (fold (\<lambda>d bb. if d \<noteq> 0 \<and> unat d < n then bit_clear bb (unat d) else bb) ds bb) = length bb \<and>
      (bit_test (fold (\<lambda>d bb. if d \<noteq> 0 \<and> unat d < n then bit_clear bb (unat d) else bb) ds bb) c \<longleftrightarrow>
       bit_test bb c \<and> \<not> (\<exists>d\<in>set ds. d \<noteq> 0 \<and> unat d < n \<and> unat d = c))" for ds :: "u32 list"
    using assms
  proof (induction ds arbitrary: bb)
    case (Cons d ds)
    then show ?case by (auto simp: m1_bm.length_cl m1_bm.tst_cl)
  qed simp
  then show "length (clear_blocks n x bb) = length bb"
    "bit_test (clear_blocks n x bb) c \<longleftrightarrow> bit_test bb c \<and> \<not> (\<exists>d\<in>set (i_direct x). d \<noteq> 0 \<and> unat d < n \<and> unat d = c)"
    by (simp_all add: clear_blocks_def)
qed

lemma zero_ino_fits [simp]: "ino_fits zero_ino"
  by (simp add: ino_fits_def zero_ino_def MCSFS1_DIRECT_BLOCKS_def)

lemma unlink_missing:
  assumes "fs_ok bs" "short_name nm" "files bs (name_key nm) = None"
  shows "mcsfs1_unlink (the_mount bs) (Some nm) (ram bs) = (Inl MCSFS1_ERR_NOENT, ram bs)"
  using find_dirent_ok [OF assms(1,2)] files_find_None [OF assms(3)]
  by (simp add: mcsfs1_unlink_def the_mount_def prog_run)

lemma bitmap_clear:
  assumes "disk_ok bs" "k < 4096"
  shows "length (bit_clear (bs ! 1) k) = 512" "bit_test (bit_clear (bs ! 1) k) c \<longleftrightarrow> c \<noteq> k \<and> bit_test (bs ! 1) c"
  using assms bmap_lengths [OF assms(1)] m1_bm.tst_cl [of k "bs ! 1" c] by (auto simp: m1_bm.length_cl)

lemma blocks_clear:
  assumes "disk_ok bs"
  shows "length (clear_blocks (length bs) x (bs ! 2)) = 512"
    "bit_test (bs ! 2) c \<Longrightarrow> c \<notin> node_blocks x \<Longrightarrow> bit_test (clear_blocks (length bs) x (bs ! 2)) c"
  using clear_blocks_facts [of "length bs" "bs ! 2" x] bmap_lengths(2) [OF assms] disk_okD(2) [OF assms]
  by (auto simp: node_blocks_def)

text \<open>The volume that unlink leaves: the slot \<open>s\<close> is empty, its inode and its blocks are free.\<close>

definition unlinked :: "bytes list \<Rightarrow> nat \<Rightarrow> bytes list" where
  "unlinked bs s = meta bs (bit_clear (bs ! 1) (sino bs s)) (clear_blocks (length bs) (snode bs s) (bs ! 2))
     (copy_into (s * 32) (replicate 32 0) (bs ! 7)) (sino bs s) zero_ino"

lemma unlinked_change:
  assumes fs: "fs_ok bs" and s: "s < 16" "used bs s"
  shows "slot_change bs (unlinked bs s) s" "\<not> used (unlinked bs s) s"
proof -
  note f = fs_okD [OF fs] and dk = fs_okD(1) [OF fs] and l7 = bmap_lengths(3) [OF fs_okD(1) [OF fs]] and u = used_slot [OF fs s]
  let ?bs = "unlinked bs s" and ?e = "replicate 32 (0 :: u8)"
  have k4: "sino bs s < 4096" using u(3) by simp
  note ib = bitmap_clear [OF dk k4] and bb = blocks_clear [OF dk, where x = "snode bs s"]
  have len: "length ?e = 32" "length (copy_into (s * 32) ?e (bs ! 7)) = 512" using l7 s by simp_all
  note mf = meta_facts [OF dk ib(1) bb(1) len(2) u(4) zero_ino_fits, folded unlinked_def]
  show us: "\<not> used ?bs s" using ent_copy_into(1) [OF len(1) l7 s(1) s(1)] by (simp add: mf zero_dirent)
  have kept: "slot_kept bs ?bs i" if i: "i < 16" "i \<noteq> s" for i
    unfolding unlinked_def using used_slot [OF fs i(1)] f(8) [OF i(1) s(1) _ s(2) i(2)] bb(2)
    by (intro meta_slot_kept [OF fs ib(1) bb(1) len(1) u(4) zero_ino_fits s(1) i]) (auto simp: ib(2) [simplified])
  have root: "root_kept bs ?bs"
    unfolding unlinked_def using u(1,8) f(3,4) bb(2)
    by (intro meta_root_kept [OF fs ib(1) bb(1) len(2) u(4) zero_ino_fits]) (force simp: ib(2) [simplified])+
  show "slot_change bs ?bs s" using root s(1) kept us by (simp add: slot_change_def)
qed

lemma free_run:
  assumes dk: "disk_ok bs" and k: "k < 4096" and l: "length dir = 512"
  shows "free_inode_and_blocks k x (ram (bs[7 := dir])) =
    (Inr (), ram (bs[1 := bit_clear (bs ! 1) k, 2 := clear_blocks (length bs) x (bs ! 2), 7 := dir]))"
proof -
  have dk1: "disk_ok (bs[7 := dir])" using dk l by (intro disk_ok_update)
  have g: "\<forall>d\<in>set (i_direct x). d \<noteq> 0 \<and> unat d < length bs \<longrightarrow> unat d div 8 < length (bs ! 2)"
    using bmap_lengths(2) [OF dk] disk_okD(2) [OF dk] by auto
  have sw: "bs[7 := dir, 1 := ib, 2 := bb] = bs[1 := ib, 2 := bb, 7 := dir]" for ib bb
    by (simp add: list_update_swap [of 7 "Suc 0"] list_update_swap [of 7 2])
  show ?thesis
    using load_bmaps_ok [OF dk1] ram_count_ok [OF dk1] g store_bmaps_ok [OF dk1 bitmap_clear(1) [OF dk k]] sw
    by (simp add: free_inode_and_blocks_def prog_run)
qed

lemma unlink_run:
  assumes fs: "fs_ok bs" and s: "s < 16" "used bs s" and fd: "find_dirent (Some nm) (ram bs) = (Inr (s, sino bs s), ram bs)"
  shows "mcsfs1_unlink (the_mount bs) (Some nm) (ram bs) = (Inr (), ram (unlinked bs s))"
proof -
  note dk = fs_okD(1) [OF fs] and u = used_slot [OF fs s]
  let ?ib = "bit_clear (bs ! 1) (sino bs s)" and ?bb = "clear_blocks (length bs) (snode bs s) (bs ! 2)"
    and ?dir = "copy_into (s * 32) (replicate 32 0) (bs ! 7)"
  have k4: "sino bs s < 4096" using u(3) by simp
  have dir: "length ?dir = 512" using bmap_lengths(3) [OF dk] s(1) by simp
  have "disk_ok (bs[1 := ?ib, 2 := ?bb, 7 := ?dir])"
    using dk dir bitmap_clear(1) [OF dk k4] blocks_clear(1) [OF dk] by (intro disk_ok_update)
  then have "write_inode (sino bs s) zero_ino (ram (bs[1 := ?ib, 2 := ?bb, 7 := ?dir])) = (Inr (), ram (unlinked bs s))"
    using write_inode_ok [of _ "sino bs s" zero_ino] u(4) by (simp add: unlinked_def meta_def)
  then show ?thesis
    using fd read_slot_ok(1,2) [OF fs s] read_dir_ok [OF dk] write_dir_ok [OF dk] free_run [OF dk k4 dir] ram_flush_ok
    by (simp add: mcsfs1_unlink_def the_mount_def prog_run)
qed

lemma unlink_ok:
  assumes fs: "fs_ok bs" and nm: "short_name nm" and d: "files bs (name_key nm) = Some d"
  obtains bs' where "mcsfs1_unlink (the_mount bs) (Some nm) (ram bs) = (Inr (), ram bs')" "fs_ok bs'"
    "length bs' = length bs" "files bs' = (files bs)(name_key nm := None)"
proof -
  from d obtain s where s: "s < 16" "used bs s" "ent_key (bs ! 7) s = name_key nm"
    "List.find (\<lambda>i. used bs i \<and> ent_key (bs ! 7) i = name_key nm) [0..<16] = Some s"
    by (rule files_Some_slot) blast
  have "find_dirent (Some nm) (ram bs) = (Inr (s, sino bs s), ram bs)" using find_dirent_ok [OF fs nm] s(4) by simp
  note run = unlink_run [OF fs s(1,2) this] and ch = unlinked_change [OF fs s(1,2)]
  show ?thesis
    using that [OF run slot_change_fs_ok [OF fs ch(1)] root_keptD(2) [OF slot_changeD(1) [OF ch(1)]]]
      slot_change_remove [OF fs ch(1) s(2) ch(2)] s(3) by simp
qed

lemma write_missing:
  assumes "fs_ok bs" "short_name nm" "files bs (name_key nm) = None" "unat len \<le> 4096" "length buf = unat len"
  shows "mcsfs1_write (the_mount bs) (Some nm) (Some buf) len (ram bs) = (Inl MCSFS1_ERR_NOENT, ram bs)"
proof -
  have "\<not> 4096 < len" using assms(4) by (simp add: word_less_nat_alt)
  then show ?thesis using find_dirent_ok [OF assms(1,2)] files_find_None [OF assms(3)]
    by (simp add: mcsfs1_write_def the_mount_def prog_run m1_consts)
qed

text \<open>The inode after its missing blocks were allocated.\<close>

lemma filled_entry:
  assumes n: "node_ok bs n" "ino_fits n" and fl: "filled [0..<needed l] n n' bs" and j: "j < 8" "i_direct n' ! j \<noteq> 0"
  obtains (old) "i_direct n ! j \<noteq> 0" "i_direct n' ! j = i_direct n ! j" "unat (i_direct n' ! j) \<in> node_blocks n"
      "8 \<le> unat (i_direct n' ! j)" "unat (i_direct n' ! j) < length bs" "bit_test (bs ! 2) (unat (i_direct n' ! j))"
  | (new) "j < needed l" "i_direct n ! j = 0" "8 \<le> unat (i_direct n' ! j)" "unat (i_direct n' ! j) < length bs"
      "\<not> bit_test (bs ! 2) (unat (i_direct n' ! j))"
proof (cases "i_direct n ! j = 0")
  case True
  then have "j < needed l" using fl j n(2) by (auto simp: filled_def ino_fits_def)
  then show ?thesis using new True fl by (auto simp: filled_def)
next
  case False
  then have e: "i_direct n' ! j = i_direct n ! j" using fl j n(2) by (auto simp: filled_def ino_fits_def)
  have "unat (i_direct n ! j) \<in> node_blocks n" using False j(1) n(2) by (intro node_blocks_I) (simp_all add: ino_fits_def)
  then show ?thesis using old [OF False e] n(1) by (simp add: e node_ok_def)
qed

lemma filled_distinct:
  assumes n: "node_ok bs n" "ino_fits n" and fl: "filled [0..<needed l] n n' bs"
    and jk: "j < 8" "k < 8" "i_direct n' ! j = i_direct n' ! k" "i_direct n' ! j \<noteq> 0"
  shows "j = k"
proof -
  have k: "i_direct n' ! k \<noteq> 0" using jk by simp
  show ?thesis
  proof (cases rule: filled_entry [OF n fl jk(1,4)])
    case oj: 1
    show ?thesis
    proof (cases rule: filled_entry [OF n fl jk(2) k])
      case 1
      then show ?thesis using oj jk n(1) unfolding node_ok_def by metis
    qed (use oj jk(3) in simp)
  next
    case nj: 2
    show ?thesis
    proof (cases rule: filled_entry [OF n fl jk(2) k])
      case 2
      then show ?thesis using nj jk(3) fl by (simp add: filled_def)
    qed (use nj jk(3) in simp)
  qed
qed

lemma filled_node:
  assumes n: "node_ok bs n" "ino_fits n" and m: "more_bits bs bs1" "disk_ok bs"
    and fl: "filled [0..<needed l] n n' bs" "\<forall>j\<in>set [0..<needed l]. i_direct n ! j = 0 \<longrightarrow> bit_test (bs1 ! 2) (unat (i_direct n' ! j))"
    and l: "l \<le> 4096"
  shows "ino_fits n'" "i_mode n' = MCSFS1_MODE_FILE" "\<forall>j<needed l. i_direct n' ! j \<noteq> 0"
    "b \<in> node_blocks n' \<Longrightarrow> 8 \<le> b \<and> b < length bs \<and> bit_test (bs1 ! 2) b"
    "b \<in> node_blocks n' \<Longrightarrow> b \<in> node_blocks n \<or> \<not> bit_test (bs ! 2) b"
proof -
  have len: "length (i_direct n) = 8" "length (i_direct n') = 8" using n(2) fl(1) by (simp_all add: ino_fits_def filled_def)
  obtain ds where rec: "n' = n\<lparr>i_direct := ds\<rparr>" using fl(1) unfolding filled_def by blast
  show "ino_fits n'" using n(2) len by (simp add: rec ino_fits_def)
  show "i_mode n' = MCSFS1_MODE_FILE" using n(1) by (simp add: rec node_ok_def)
  have "i_direct n' ! j \<noteq> 0" if "j < needed l" for j
    using that fl(1) len needed_blocks(2) [of l] l by (cases "i_direct n ! j = 0") (auto simp: filled_def)
  then show "\<forall>j<needed l. i_direct n' ! j \<noteq> 0" by blast
  assume "b \<in> node_blocks n'"
  then obtain j where j: "j < 8" "i_direct n' ! j \<noteq> 0" "b = unat (i_direct n' ! j)"
    using len by (auto simp: node_blocks_def in_set_conv_nth)
  show "8 \<le> b \<and> b < length bs \<and> bit_test (bs1 ! 2) b"
    by (cases rule: filled_entry [OF n fl(1) j(1,2)]) (use j(3) fl(2) more_bitsD(4) [OF m] in auto)
  show "b \<in> node_blocks n \<or> \<not> bit_test (bs ! 2) b"
    by (cases rule: filled_entry [OF n fl(1) j(1,2)]) (use j(3) in auto)
qed

text \<open>The volume that write leaves: the data in the blocks of the inode, and the new size in the inode \<open>k\<close>.\<close>

definition written :: "bytes list \<Rightarrow> mcsfs1_inode_disk \<Rightarrow> bytes \<Rightarrow> u32 \<Rightarrow> nat \<Rightarrow> bytes list" where
  "written bs n d len k = set_inode k (n\<lparr>i_size := len\<rparr>) (put_blocks n d [0..<needed (length d)] bs)"

definition room :: "bytes list \<Rightarrow> mcsfs1_inode_disk \<Rightarrow> bytes \<Rightarrow> bool" where
  "room bs n d \<longleftrightarrow> ino_fits n \<and> length d \<le> 4096 \<and> (\<forall>j<needed (length d). i_direct n ! j \<noteq> 0) \<and>
     (\<forall>b\<in>node_blocks n. 8 \<le> b \<and> b < length bs) \<and>
     (\<forall>j<8. \<forall>l<8. i_direct n ! j = i_direct n ! l \<longrightarrow> i_direct n ! j \<noteq> 0 \<longrightarrow> j = l)"

lemma roomD:
  assumes "room bs n d"
  shows "ino_fits n" "length d \<le> 4096" "needed (length d) \<le> 8" "b \<in> node_blocks n \<Longrightarrow> 8 \<le> b \<and> b < length bs"
    "j < needed (length d) \<Longrightarrow> unat (i_direct n ! j) \<in> node_blocks n \<and> i_direct n ! j \<noteq> 0"
    "j < 8 \<Longrightarrow> l < 8 \<Longrightarrow> i_direct n ! j = i_direct n ! l \<Longrightarrow> i_direct n ! j \<noteq> 0 \<Longrightarrow> j = l"
    "j < 8 \<Longrightarrow> i_direct n ! j \<noteq> 0 \<Longrightarrow> unat (i_direct n ! j) < length bs"
proof -
  have d: "length (i_direct n) = 8" using assms by (simp add: room_def ino_fits_def)
  show l: "ino_fits n" "length d \<le> 4096" "needed (length d) \<le> 8" "b \<in> node_blocks n \<Longrightarrow> 8 \<le> b \<and> b < length bs" for b
    using assms by (simp_all add: room_def needed_blocks(2))
  show "j < needed (length d) \<Longrightarrow> unat (i_direct n ! j) \<in> node_blocks n \<and> i_direct n ! j \<noteq> 0"
    using assms l(3) d by (auto simp: room_def intro: node_blocks_I)
  show "j < 8 \<Longrightarrow> i_direct n ! j \<noteq> 0 \<Longrightarrow> unat (i_direct n ! j) < length bs" using l(4) [OF node_blocks_I] d by simp
  show "j < 8 \<Longrightarrow> l < 8 \<Longrightarrow> i_direct n ! j = i_direct n ! l \<Longrightarrow> i_direct n ! j \<noteq> 0 \<Longrightarrow> j = l"
    using assms unfolding room_def by blast
qed

lemma written_facts:
  assumes dk: "disk_ok bs" and k: "ino_range k" and r: "room bs n d"
  shows "disk_ok (written bs n d len k)" "length (written bs n d len k) = length bs"
    "b < 3 \<or> b = 7 \<Longrightarrow> written bs n d len k ! b = bs ! b"
    "8 \<le> b \<Longrightarrow> b \<notin> node_blocks n \<Longrightarrow> written bs n d len k ! b = bs ! b"
    "ino_range j \<Longrightarrow> inode_of (written bs n d len k) j = (if j = k then n\<lparr>i_size := len\<rparr> else inode_of bs j)"
proof -
  let ?put = "put_blocks n d [0..<needed (length d)] bs"
  have p: "disk_ok ?put" "length ?put = length bs" using put_blocks_disk_ok [OF dk] by simp_all
  have fit: "ino_fits (n\<lparr>i_size := len\<rparr>)" using roomD(1) [OF r] by (simp add: ino_fits_def)
  have put: "?put ! b = bs ! b" if "b < 8 \<or> b \<notin> node_blocks n" for b
    using that roomD(4,5) [OF r] by (intro put_blocks_other) fastforce
  show "disk_ok (written bs n d len k)" "length (written bs n d len k) = length bs"
    using disk_ok_set_inode [OF p(1) k fit] p(2) by (simp_all add: written_def)
  show "b < 3 \<or> b = 7 \<Longrightarrow> written bs n d len k ! b = bs ! b"
    "8 \<le> b \<Longrightarrow> b \<notin> node_blocks n \<Longrightarrow> written bs n d len k ! b = bs ! b"
    using set_inode_other [OF k, of b] put [of b] by (auto simp: written_def)
  show "ino_range j \<Longrightarrow> inode_of (written bs n d len k) j = (if j = k then n\<lparr>i_size := len\<rparr> else inode_of bs j)"
    unfolding written_def using inode_of_set [OF p(1) k fit] inode_of_cong [of ?put bs j] put by simp
qed

lemma written_data:
  assumes dk: "disk_ok bs" and k: "ino_range k" and r: "room bs n d" and len: "unat len = length d"
  shows "node_data (written bs n d len k) (n\<lparr>i_size := len\<rparr>) = d"
proof -
  have "written bs n d len k ! unat (i_direct n ! j) = data_block d j" if j: "j < needed (length d)" for j
  proof -
    have j8: "j < 8" and nb: "unat (i_direct n ! j) \<in> node_blocks n" "i_direct n ! j \<noteq> 0" using j roomD(3,5) [OF r] by auto
    then have b: "8 \<le> unat (i_direct n ! j)" "unat (i_direct n ! j) < length bs" using roomD(4) [OF r] by blast+
    have "put_blocks n d [0..<needed (length d)] bs ! unat (i_direct n ! j) = data_block d j"
      using j b(2) roomD(3) [OF r] roomD(6) [OF r _ j8] nb(2) by (intro put_blocks_nth) auto
    then show ?thesis using b(1) by (simp add: written_def set_inode_other [OF k])
  qed
  then have m: "map (\<lambda>j. written bs n d len k ! unat (i_direct n ! j)) [0..<needed (length d)] = map (data_block d) [0..<needed (length d)]"
    by simp
  show ?thesis by (simp add: node_data_def len m concat_data_blocks_needed)
qed

text \<open>Write up to the allocation of the blocks, and from there on.\<close>

lemma write_start:
  assumes fs: "fs_ok bs" and s: "s < 16" "used bs s" and l: "length d \<le> 4096" "unat len = length d"
    and fd: "find_dirent (Some nm) (ram bs) = (Inr (s, sino bs s), ram bs)"
  shows "mcsfs1_write (the_mount bs) (Some nm) (Some d) len (ram bs) =
      pbind (alloc_direct [0..<needed (length d)] (snode bs s)) (\<lambda>inode.
        pthen (write_blocks [0..<needed (length d)] inode d (length d) 0)
       (pthen (write_inode (sino bs s) (inode\<lparr>i_size := len\<rparr>)) dev_flush)) (ram bs)"
proof -
  have "\<not> of_nat (MCSFS1_DIRECT_BLOCKS * MCSFS1_BLOCK_SIZE) < len" using l by (simp add: word_less_nat_alt m1_consts)
  then show ?thesis
    unfolding mcsfs1_write_def needed_eq using fd read_slot_ok(1,2) [OF fs s]
    by (simp add: the_mount_def pbind_Inr pthen_def pguard_def l)
qed

lemma write_rest:
  assumes dk: "disk_ok bs" and k: "ino_range k" and r: "room bs n d"
  shows "pthen (write_blocks [0..<needed (length d)] n d (length d) 0)
    (pthen (write_inode k (n\<lparr>i_size := len\<rparr>)) dev_flush) (ram bs) = (Inr (), ram (written bs n d len k))"
proof -
  have "write_blocks [0..<needed (length d)] n d (length d) 0 (ram bs) =
      (Inr (), ram (put_blocks n d [0..<needed (length d)] bs))"
    using write_blocks_ok [OF dk, of d 0 "needed (length d)" n d] roomD [OF r] by simp
  then show ?thesis
    using write_inode_ok [OF conjunct1 [OF put_blocks_disk_ok [OF dk]] k] ram_flush_ok by (simp add: prog_run written_def)
qed

lemma written_change:
  assumes fs: "fs_ok bs" and s: "s < 16" "used bs s" and l: "length d \<le> 4096" "unat len = length d" and m: "more_bits bs bs1"
    and fl: "filled [0..<needed (length d)] (snode bs s) n bs"
      "\<forall>j\<in>set [0..<needed (length d)]. i_direct (snode bs s) ! j = 0 \<longrightarrow> bit_test (bs1 ! 2) (unat (i_direct n ! j))"
  shows "room bs1 n d" "slot_change bs (written bs1 n d len (sino bs s)) s"
    "ent_ino (written bs1 n d len (sino bs s) ! 7) s = ent_ino (bs ! 7) s"
    "ent_key (written bs1 n d len (sino bs s) ! 7) s = ent_key (bs ! 7) s"
    "node_data (written bs1 n d len (sino bs s)) (snode (written bs1 n d len (sino bs s)) s) = d"
proof -
  note f = fs_okD [OF fs] and dk = fs_okD(1) [OF fs] and u = used_slot [OF fs s] and rs = read_slot_ok(5,4) [OF fs s]
  note md = more_bitsD [OF m dk] and nn = filled_node [OF rs m dk fl l(1)]
  let ?bs = "written bs1 n d len (sino bs s)" and ?N = "n\<lparr>i_size := len\<rparr>"
  show r: "room bs1 n d"
    unfolding room_def using nn(1,3,4) l(1) md(2) filled_distinct [OF rs fl(1)] by simp
  note w = written_facts [OF md(1) u(4) r]
  have ino: "inode_of ?bs j = (if j = sino bs s then ?N else inode_of bs j)" if "ino_range j" for j
    using w(5) [OF that] inode_of_cong [of bs1 bs j] md(3) that by simp
  have F: "?bs ! 0 = bs ! 0" "?bs ! Suc 0 = bs ! Suc 0" "?bs ! 2 = bs1 ! 2" "?bs ! 7 = bs ! 7" by (simp_all add: w(3) md(3))
  have si: "sino ?bs i = sino bs i" for i by (simp only: sino_def [of ?bs i] sino_def [of bs i] F)
  then have sn: "sino ?bs i = sino bs i" "snode ?bs s = ?N" for i using ino [OF u(4)] by (simp_all add: snode_def)
  have NB: "node_blocks ?N = node_blocks n" by (simp add: node_blocks_def)
  have fresh: "b \<notin> node_blocks n" if "i < 16" "i \<noteq> s" "used bs i" "b \<in> node_blocks (snode bs i)" for i b
    using nn(5) [of b] f(8) [OF s(1) that(1) s(2) that(3)] used_slot(8) [OF fs that(1,3,4)] that(2,4) by blast
  have blk: "?bs ! b = bs ! b \<and> bit_test (bs1 ! 2) b" if "i < 16" "i \<noteq> s" "used bs i" "b \<in> node_blocks (snode bs i)" for i b
    using w(4) [OF _ fresh [OF that]] used_slot(8) [OF fs that(1,3,4)] md(3,4) by simp
  have kept: "slot_kept bs ?bs i" if "i < 16" "i \<noteq> s" for i
  proof -
    have "snode ?bs i = snode bs i" if "used bs i"
      using ino [OF used_slot(4) [OF fs \<open>i < 16\<close> that]] f(8) [OF \<open>i < 16\<close> s(1) that s(2) \<open>i \<noteq> s\<close>] by (simp add: snode_def sn)
    then show ?thesis using used_slot [OF fs that(1)] blk [OF that] by (simp add: slot_kept_def F)
  qed
  have root: "root_kept bs ?bs"
    using w(1,2) md(2,4) f(3,4) u(1) ino [of 1] by (simp add: root_kept_def F ino_range_def)
  have "entry_ok ?bs s"
    unfolding entry_ok_def sn node_ok_def NB F
    using u nn(2,3,4) l w(2) md(2) roomD(6) [OF r] by (simp add: F)
  moreover have "sino bs s \<noteq> sino bs i \<and> ent_key (bs ! 7) s \<noteq> ent_key (bs ! 7) i" if "i < 16" "i \<noteq> s" "used bs i" for i
    using f(8) [OF s(1) that(1) s(2) that(3)] that(2) by blast
  moreover have "node_blocks n \<inter> node_blocks (snode bs i) = {}" if "i < 16" "i \<noteq> s" "used bs i" for i using fresh [OF that] by blast
  ultimately have "slot_fresh bs ?bs s" by (simp add: slot_fresh_def sn F NB)
  then show "slot_change bs ?bs s" using root s(1) kept by (simp add: slot_change_def)
  show "ent_ino (?bs ! 7) s = ent_ino (bs ! 7) s" "ent_key (?bs ! 7) s = ent_key (bs ! 7) s" by (simp_all add: F)
  show "node_data ?bs (snode ?bs s) = d" using written_data [OF md(1) u(4) r l(2)] by (simp add: sn)
qed

lemma write_ok:
  assumes fs: "fs_ok bs" and nm: "short_name nm" and d: "files bs (name_key nm) = Some d0"
    and l: "length d \<le> 4096" "unat len = length d"
  shows "\<exists>bs' r. mcsfs1_write (the_mount bs) (Some nm) (Some d) len (ram bs) = (r, ram bs') \<and> fs_ok bs' \<and>
    length bs' = length bs \<and>
    (r = Inr () \<and> files bs' = (files bs)(name_key nm \<mapsto> d) \<or> r = Inl MCSFS1_ERR_NOSPC \<and> files bs' = files bs \<and> blocks_full bs' \<and>
      needed (length d0) < needed (length d))"
proof -
  note dk = fs_okD(1) [OF fs]
  from d obtain s where s: "s < 16" "used bs s" "ent_key (bs ! 7) s = name_key nm"
    "List.find (\<lambda>i. used bs i \<and> ent_key (bs ! 7) i = name_key nm) [0..<16] = Some s" "d0 = node_data bs (snode bs s)"
    by (rule files_Some_slot) blast
  note r = read_slot_ok [OF fs s(1,2)]
  have "find_dirent (Some nm) (ram bs) = (Inr (s, sino bs s), ram bs)" using find_dirent_ok [OF fs nm] s(4) by simp
  note run = write_start [OF fs s(1,2) l this]
  have ib: "\<forall>j\<in>set [0..<needed (length d)]. j < length (i_direct (snode bs s))"
    using l(1) needed_blocks(2) [of "length d"] r(4) by (simp add: ino_fits_def)
  show ?thesis
  proof (cases rule: alloc_direct_cases [OF dk distinct_upt ib])
    case (1 bs')
    have "needed (length d0) < needed (length d)"
    proof (rule ccontr)
      assume "\<not> needed (length d0) < needed (length d)"
      then have "alloc_direct [0..<needed (length d)] (snode bs s) (ram bs) = (Inr (snode bs s), ram bs)"
        using r(5) slot_data_length [OF fs s(1,2)] s(5) by (intro alloc_direct_present) (simp add: node_ok_def)
      then show False using 1(1) by simp
    qed
    then show ?thesis using 1 run more_bits_fs_ok [OF fs 1(2)] more_bitsD(2) [OF 1(2) dk] by (auto simp: pbind_Inl)
  next
    case (2 n bs1)
    note md = more_bitsD [OF 2(2) dk] and ch = written_change [OF fs s(1,2) l 2(2,3,4)]
    let ?bs = "written bs1 n d len (sino bs s)"
    have "mcsfs1_write (the_mount bs) (Some nm) (Some d) len (ram bs) = (Inr (), ram ?bs)"
      using run 2(1) write_rest [OF md(1) r(3) ch(1)] by (simp add: pbind_Inr)
    moreover have "files ?bs = (files bs)(name_key nm \<mapsto> d)"
      using slot_change_put [OF fs ch(2)] s(2,3) by (simp add: ch(3,4,5))
    ultimately show ?thesis using slot_change_fs_ok [OF fs ch(2)] root_keptD(2) [OF slot_changeD(1) [OF ch(2)]] by blast
  qed
qed

end
