(* ===== verification/Mcsfs1_Refine.thy ===== *)
theory Mcsfs1_Refine
  imports Mcsfs1_Files
begin

text \<open>
  MCSFS1 as a map of files (\<open>src/fs/mcsfs1/mcsfs1.c\<close>). Formatting yields a consistent volume whose map is
  empty; the locale \<open>block_store\<close> is the interface of the block device the file system calls, and
  every operation behaves on any such device as on the list of its blocks (the \<open>sim\<close> lemmas); the
  calls of a client then refine the calls of a map from names to contents.
\<close>

section \<open>Formatting\<close>

lemma format_zero:
  assumes "disk_ok bs" "k \<le> length bs"
  shows "pfor [0..<k] (\<lambda>lba. dev_write (of_nat lba) zero_block) (ram bs) = (Inr (), ram (replicate k zero_block @ drop k bs))"
  using assms(2)
proof (induction k)
  case 0
  then show ?case by (simp add: pret_def)
next
  case (Suc k)
  let ?bs = "replicate k zero_block @ drop k bs"
  have dk: "disk_ok ?bs" using assms(1) Suc(2) by (auto simp: disk_ok_def zero_block_def MCSFS1_BLOCK_SIZE_def dest: in_set_dropD)
  have u: "unat (of_nat k :: u32) = k" using Suc(2) disk_okD(2) [OF assms(1)] by (simp add: unat_small_u32)
  have "?bs[k := zero_block] = replicate (Suc k) zero_block @ drop (Suc k) bs"
    using Suc(2) by (simp add: list_update_append Cons_nth_drop_Suc [symmetric] replicate_append_same)
  then show ?case using Suc ram_write_ok [OF dk, of "of_nat k" zero_block] u by (simp add: pfor_append prog_run)
qed

definition formatted :: "nat \<Rightarrow> bytes list" where
  "formatted n = set_inode 1 format_root ((replicate n zero_block)[0 := enc_sb (format_sb (of_nat n)), 1 := format_ib, 2 := format_bb])"

lemma format_lengths: "length zero_block = 512" "length format_ib = 512" "length format_bb = 512" "ino_fits format_root"
  "sb_fits (format_sb n)"
  by (simp_all add: zero_block_def format_ib_def format_bb_def m1_bm.length_st m1_bm.length_fold_st m1_consts
      ino_fits_def format_root_def zero_ino_def sb_fits_def format_sb_def)

lemma formatted_base_ok:
  "16 \<le> n \<Longrightarrow> n \<le> 4096 \<Longrightarrow> disk_ok ((replicate n zero_block)[0 := enc_sb (format_sb (of_nat n)), 1 := format_ib, 2 := format_bb])"
  by (intro disk_ok_update) (simp_all add: disk_ok_def format_lengths sb_codec.enc_len)

lemma m1_format_run:
  assumes "disk_ok bs"
  shows "mcsfs1_format (ram bs) = (Inr (), ram (formatted (length bs)))"
proof -
  let ?n = "length bs"
  note n = disk_okD(1,2) [OF assms]
  have c: "\<not> (of_nat ?n < MCSFS1_MIN_BLOCKS \<or> of_nat (MCSFS1_BLOCK_SIZE * 8) < (of_nat ?n :: u32))"
    using n ram_count [OF assms] by (simp add: word_less_nat_alt m1_consts)
  let ?z = "replicate ?n zero_block"
  have dz: "disk_ok ?z" using n by (simp add: disk_ok_def format_lengths)
  have z: "pfor [0..<?n] (\<lambda>lba. dev_write (of_nat lba) zero_block) (ram bs) = (Inr (), ram ?z)"
    using format_zero [OF assms, of ?n] by simp
  have w0: "dev_write MCSFS1_SB_LBA b (ram ?z) = (Inr (), ram (?z[0 := b]))" for b
    using ram_write_ok [OF dz, of 0 b] n by (cases bs) (simp_all add: MCSFS1_SB_LBA_def)
  let ?s = "?z[0 := enc_sb (format_sb (of_nat ?n))]"
  have ds: "disk_ok ?s" using dz by (intro disk_ok_update) (simp_all add: sb_codec.enc_len format_lengths)
  have wi: "write_inode 1 format_root (ram (?s[1 := format_ib, 2 := format_bb])) = (Inr (), ram (formatted ?n))"
    using write_inode_ok [OF formatted_base_ok [OF n], of 1 format_root] by (simp add: formatted_def ino_range_def)
  show ?thesis
    using c z w0 store_bmaps_ok [OF ds format_lengths(2)] wi ram_flush_ok ram_count_ok [OF assms]
    by (simp add: mcsfs1_format_def prog_run MCSFS1_ROOT_INO_def)
qed

lemma zero_field: "off + n \<le> 512 \<Longrightarrow> field off n zero_block = replicate n 0"
  by (simp add: field_def zero_block_def MCSFS1_BLOCK_SIZE_def)

lemma formatted_length [simp]: "length (formatted n) = n"
  by (simp add: formatted_def)

lemma formatted_blocks:
  assumes "16 \<le> n" "n \<le> 4096"
  shows "formatted n ! 0 = enc_sb (format_sb (of_nat n))" "formatted n ! Suc 0 = format_ib" "formatted n ! 2 = format_bb"
    "formatted n ! 7 = zero_block" "inode_of (formatted n) (Suc 0) = format_root" "disk_ok (formatted n)"
proof -
  let ?b = "(replicate n zero_block)[0 := enc_sb (format_sb (of_nat n)), 1 := format_ib, 2 := format_bb]"
  note dk = formatted_base_ok [OF assms]
  have r1: "ino_range 1" by (simp add: ino_range_def)
  have o: "formatted n ! l = ?b ! l" if "l < 3 \<or> 6 < l" for l
    unfolding formatted_def using set_inode_other [OF r1 that] .
  show "formatted n ! 0 = enc_sb (format_sb (of_nat n))" "formatted n ! Suc 0 = format_ib" "formatted n ! 2 = format_bb"
    "formatted n ! 7 = zero_block" using o [of 0] o [of 1] o [of 2] o [of 7] assms by simp_all
  show "inode_of (formatted n) (Suc 0) = format_root"
    unfolding formatted_def using inode_of_set [OF dk r1 format_lengths(4) r1] by simp
  show "disk_ok (formatted n)"
    unfolding formatted_def using disk_ok_set_inode [OF dk r1 format_lengths(4)] .
qed

lemma zero_ent: "i < 16 \<Longrightarrow> ent_ino zero_block i = 0"
  using zero_dirent by (simp add: ent_ino_def get32_def zero_field) (simp add: get32_def field_def numeral_eq_Suc)

lemma formatted_fs_ok:
  assumes "16 \<le> n" "n \<le> 4096"
  shows "fs_ok (formatted n)" "files (formatted n) = Map.empty"
proof -
  note b = formatted_blocks [OF assms]
  have "bit_test format_ib 1"
    using m1_bm.tst_st [of 1 "bit_set zero_block 0" 1] by (simp add: format_ib_def MCSFS1_ROOT_INO_def m1_bm.length_st format_lengths)
  moreover have "bit_test format_bb c" if "c < 8" for c
    using that m1_bm.tst_fold_st [of "[0..<8]" zero_block c]
      m1_bm.tst_st [of 7 "fold (\<lambda>b bm. bit_set bm b) [0..<8] zero_block" c]
    by (simp add: format_bb_def MCSFS1_DATA_START_LBA_def MCSFS1_ROOT_DIR_LBA_def m1_bm.length_fold_st format_lengths del: upt_rec_numeral)
  moreover have "sb_ok (formatted n)"
    unfolding sb_ok_def b sb_codec.dec_enc [OF format_lengths(5)] by (simp add: Let_def format_sb_def m1_consts)
  ultimately show "fs_ok (formatted n)"
    using zero_ent by (simp add: fs_ok_def b) (simp add: format_root_def zero_ino_def m1_consts)
  show "files (formatted n) = Map.empty"
    by (rule ext) (simp add: files_None_iff b zero_ent)
qed

section \<open>Any device that stores blocks\<close>

text \<open>
  What the file system relies on in a device: its context stands for a list of blocks, a read inside
  it returns the block and changes none, a write inside it replaces one block, a flush changes none.
\<close>

locale block_store =
  fixes view :: "'c \<Rightarrow> bytes list"
    and rd :: "'c \<Rightarrow> u32 \<Rightarrow> bytes option \<times> 'c"
    and wr :: "'c \<Rightarrow> u32 \<Rightarrow> bytes \<Rightarrow> bool \<times> 'c"
    and fl :: "'c \<Rightarrow> bool \<times> 'c"
  assumes rd_value: "unat lba < length (view c) \<Longrightarrow> fst (rd c lba) = Some (view c ! unat lba)"
    and rd_view: "unat lba < length (view c) \<Longrightarrow> view (snd (rd c lba)) = view c"
    and wr_done: "unat lba < length (view c) \<Longrightarrow> fst (wr c lba b)"
    and wr_view: "unat lba < length (view c) \<Longrightarrow> view (snd (wr c lba b)) = (view c)[unat lba := b]"
    and fl_done: "fst (fl c)" and fl_view: "view (snd (fl c)) = view c"
begin

definition holds :: "'c mcsfs1_blkdev \<Rightarrow> bytes list \<Rightarrow> bool" where
  "holds dev bs \<longleftrightarrow> d_read dev = Some rd \<and> d_write dev = Some wr \<and> d_flush dev = Some fl \<and>
     view (d_ctx dev) = bs \<and> block_count dev = of_nat (length bs) \<and> length bs < 4294967296"

lemma holds_count: "holds dev bs \<Longrightarrow> block_count dev = block_count (ram bs) \<and> unat (block_count dev) = length bs"
  by (simp add: holds_def unat_small_u32)

text \<open>Running the same program on such a device and on the plain list of its blocks.\<close>

definition sim :: "('c, 'a) m1_prog \<Rightarrow> (bytes list, 'a) m1_prog \<Rightarrow> bool" where
  "sim p q \<longleftrightarrow> (\<forall>dev bs. holds dev bs \<longrightarrow>
     (\<exists>r dev' bs'. p dev = (r, dev') \<and> q (ram bs) = (r, ram bs') \<and> holds dev' bs'))"

lemma simD: "sim p q \<Longrightarrow> holds dev bs \<Longrightarrow> \<exists>r dev' bs'. p dev = (r, dev') \<and> q (ram bs) = (r, ram bs') \<and> holds dev' bs'"
  by (simp add: sim_def)

lemma sim_read: "sim (dev_read lba) (dev_read lba)"
  unfolding sim_def
proof (intro allI impI)
  fix dev bs assume h: "holds dev bs"
  show "\<exists>r dev' bs'. dev_read lba dev = (r, dev') \<and> dev_read lba (ram bs) = (r, ram bs') \<and> holds dev' bs'"
  proof (cases "block_count dev \<le> lba")
    case True
    then show ?thesis using h holds_count [OF h] by (intro exI [of _ "Inl MCSFS1_ERR_INVAL"] exI [of _ dev] exI [of _ bs])
      (simp add: dev_read_def holds_def)
  next
    case False
    then have l: "unat lba < length bs" unfolding word_le_nat_alt conjunct2 [OF holds_count [OF h]] by simp
    obtain c where c: "rd (d_ctx dev) lba = (Some (bs ! unat lba), c)" "view c = bs"
      using rd_value [of lba "d_ctx dev"] rd_view [of lba "d_ctx dev"] h l by (cases "rd (d_ctx dev) lba") (auto simp: holds_def)
    have "dev_read lba dev = (Inr (bs ! unat lba), dev\<lparr>d_ctx := c\<rparr>)" using False h c(1) by (simp add: dev_read_def holds_def)
    moreover have "dev_read lba (ram bs) = (Inr (bs ! unat lba), ram bs)"
      using False l h holds_count [OF h] by (simp add: dev_read_def ram_read_def)
    ultimately show ?thesis using h c(2) by (auto simp: holds_def)
  qed
qed

lemma sim_write: "sim (dev_write lba b) (dev_write lba b)"
  unfolding sim_def
proof (intro allI impI)
  fix dev bs assume h: "holds dev bs"
  show "\<exists>r dev' bs'. dev_write lba b dev = (r, dev') \<and> dev_write lba b (ram bs) = (r, ram bs') \<and> holds dev' bs'"
  proof (cases "block_count dev \<le> lba")
    case True
    then show ?thesis using h holds_count [OF h] by (intro exI [of _ "Inl MCSFS1_ERR_INVAL"] exI [of _ dev] exI [of _ bs])
      (simp add: dev_write_def holds_def)
  next
    case False
    then have l: "unat lba < length bs" unfolding word_le_nat_alt conjunct2 [OF holds_count [OF h]] by simp
    obtain c where c: "wr (d_ctx dev) lba b = (True, c)" "view c = bs[unat lba := b]"
      using wr_done [of lba "d_ctx dev" b] wr_view [of lba "d_ctx dev" b] h l
      by (cases "wr (d_ctx dev) lba b") (auto simp: holds_def)
    have "dev_write lba b dev = (Inr (), dev\<lparr>d_ctx := c\<rparr>)" using False h c(1) by (simp add: dev_write_def holds_def)
    moreover have "dev_write lba b (ram bs) = (Inr (), ram (bs[unat lba := b]))"
      using False l h holds_count [OF h] by (simp add: dev_write_def ram_write_def)
    ultimately show ?thesis using h c(2) by (auto simp: holds_def)
  qed
qed

lemma sim_flush: "sim dev_flush dev_flush"
  unfolding sim_def
proof (intro allI impI)
  fix dev bs assume h: "holds dev bs"
  obtain c where c: "fl (d_ctx dev) = (True, c)" "view c = bs"
    using fl_done [of "d_ctx dev"] fl_view [of "d_ctx dev"] h by (cases "fl (d_ctx dev)") (auto simp: holds_def)
  then have "dev_flush dev = (Inr (), dev\<lparr>d_ctx := c\<rparr>)" using h by (simp add: dev_flush_def holds_def)
  then show "\<exists>r dev' bs'. dev_flush dev = (r, dev') \<and> dev_flush (ram bs) = (r, ram bs') \<and> holds dev' bs'"
    using h c(2) ram_flush_ok by (auto simp: holds_def)
qed

lemma sim_pure: "(\<And>dev bs. holds dev bs \<Longrightarrow> \<exists>r. p dev = (r, dev) \<and> q (ram bs) = (r, ram bs)) \<Longrightarrow> sim p q"
  unfolding sim_def by blast

lemma sim_pret: "sim (pret x) (pret x)" by (rule sim_pure) (simp add: pret_def)
lemma sim_pfail: "sim (pfail e) (pfail e)" by (rule sim_pure) (simp add: pfail_def)
lemma sim_pguard: "sim (pguard b e) (pguard b e)" by (rule sim_pure) (simp add: pguard_apply)
lemma sim_plift: "sim (plift r) (plift r)" by (rule sim_pure) (simp add: plift_def)
lemma sim_count: "sim dev_count dev_count" by (rule sim_pure) (simp add: dev_count_def holds_def)

lemma sim_pcheck: "sim (pcheck (\<lambda>dev. P (block_count dev)) e) (pcheck (\<lambda>dev. P (block_count dev)) e)"
  by (rule sim_pure) (simp add: pcheck_apply holds_def)

lemma sim_pbind:
  assumes "sim p q" "\<And>x. sim (f x) (g x)"
  shows "sim (pbind p f) (pbind q g)"
  unfolding sim_def
proof (intro allI impI)
  fix dev bs assume h: "holds dev bs"
  obtain r dev1 bs1 where 1: "p dev = (r, dev1)" "q (ram bs) = (r, ram bs1)" "holds dev1 bs1" using simD [OF assms(1) h] by blast
  show "\<exists>r dev' bs'. pbind p f dev = (r, dev') \<and> pbind q g (ram bs) = (r, ram bs') \<and> holds dev' bs'"
  proof (cases r)
    case (Inl e)
    then show ?thesis using 1 by (simp add: pbind_def) blast
  next
    case (Inr x)
    then show ?thesis using 1 simD [OF assms(2) 1(3), of x] by (simp add: pbind_def)
  qed
qed

lemma sim_pthen: "sim p q \<Longrightarrow> sim p' q' \<Longrightarrow> sim (pthen p p') (pthen q q')"
  unfolding pthen_def by (rule sim_pbind)

lemma sim_pfor: "(\<And>i. sim (f i) (g i)) \<Longrightarrow> sim (pfor is f) (pfor is g)"
  by (induction "is") (simp_all add: sim_pret sim_pthen)

lemma sim_if: "sim p q \<Longrightarrow> sim p' q' \<Longrightarrow> sim (if b then p else p') (if b then q else q')"
  by simp

lemma sim_option: "sim p q \<Longrightarrow> (\<And>x. sim (f x) (g x)) \<Longrightarrow> sim (case opt of None \<Rightarrow> p | Some x \<Rightarrow> f x) (case opt of None \<Rightarrow> q | Some x \<Rightarrow> g x)"
  by (cases opt) simp_all

lemma sim_prod: "(\<And>x y. sim (f x y) (g x y)) \<Longrightarrow> sim (case xy of (x, y) \<Rightarrow> f x y) (case xy of (x, y) \<Rightarrow> g x y)"
  by (cases xy) simp

lemma sim_with_count: "(\<And>n. sim (f n) (g n)) \<Longrightarrow> sim (\<lambda>dev. f (block_count dev) dev) (\<lambda>dev. g (block_count dev) dev)"
  unfolding sim_def by (simp add: holds_def)

lemmas sim_rules = sim_pbind sim_pthen sim_pfor sim_if sim_option sim_prod sim_read sim_write sim_flush sim_pret
  sim_pfail sim_pguard sim_plift sim_count sim_pcheck

lemma sim_load_super: "sim load_super load_super"
  unfolding load_super_def Let_def by (intro sim_rules)

lemma sim_read_inode: "sim (read_inode k) (read_inode k)"
  unfolding read_inode_def by (intro sim_rules)

lemma sim_write_inode: "sim (write_inode k x) (write_inode k x)"
  unfolding write_inode_def by (intro sim_rules)

lemma sim_load_bmaps: "sim load_bmaps load_bmaps"
  unfolding load_bmaps_def by (intro sim_rules)

lemma sim_store_bmaps: "sim (store_bmaps ib bb) (store_bmaps ib bb)"
  unfolding store_bmaps_def by (intro sim_rules)

lemma sim_find_dirent: "sim (find_dirent nm) (find_dirent nm)"
  unfolding find_dirent_def by (intro sim_rules)

lemma sim_alloc_inode_block: "sim alloc_inode_block alloc_inode_block"
  unfolding alloc_inode_block_def by (intro sim_rules sim_load_bmaps sim_store_bmaps)

lemma sim_alloc_data_block: "sim alloc_data_block alloc_data_block"
  unfolding alloc_data_block_def by (intro sim_rules sim_load_bmaps sim_store_bmaps)

lemma sim_free_inode_and_blocks: "sim (free_inode_and_blocks k x) (free_inode_and_blocks k x)"
  unfolding free_inode_and_blocks_def by (intro sim_rules sim_load_bmaps sim_store_bmaps)

lemma sim_alloc_direct: "sim (alloc_direct is n) (alloc_direct is n)"
  by (induction "is" arbitrary: n) (simp_all add: sim_pret sim_pbind sim_alloc_data_block)

lemma sim_write_blocks: "sim (write_blocks is n buf len w) (write_blocks is n buf len w)"
  by (induction "is" arbitrary: w) (simp_all add: sim_pret sim_pthen sim_write Let_def)

lemma sim_read_blocks: "sim (read_blocks is m n c) (read_blocks is m n c)"
  by (induction "is" arbitrary: c) (simp_all add: sim_pret sim_pfail sim_pbind sim_read Let_def)

text \<open>Every operation of the file system behaves on the device as on the list of its blocks.\<close>

lemma sim_format: "sim mcsfs1_format mcsfs1_format"
  unfolding mcsfs1_format_def
  by (intro sim_rules sim_store_bmaps sim_write_inode sim_with_count [where f = "\<lambda>n. dev_write MCSFS1_SB_LBA (enc_sb (format_sb n))"
        and g = "\<lambda>n. dev_write MCSFS1_SB_LBA (enc_sb (format_sb n))"])

lemma sim_mount: "sim mcsfs1_mount mcsfs1_mount"
  unfolding mcsfs1_mount_def by (intro sim_rules sim_load_super sim_read_inode)

lemma sim_catch:
  assumes "sim p q"
  shows "sim (\<lambda>dev. case p dev of (Inr _, dev') \<Rightarrow> (Inl e1, dev') | (Inl e, dev') \<Rightarrow> (if e = e2 then Inl e2 else Inr (), dev'))
    (\<lambda>dev. case q dev of (Inr _, dev') \<Rightarrow> (Inl e1, dev') | (Inl e, dev') \<Rightarrow> (if e = e2 then Inl e2 else Inr (), dev'))"
  unfolding sim_def
proof (intro allI impI)
  fix dev bs assume h: "holds dev bs"
  obtain r dev1 bs1 where "p dev = (r, dev1)" "q (ram bs) = (r, ram bs1)" "holds dev1 bs1" using simD [OF assms h] by blast
  then show "\<exists>r dev' bs'. (case p dev of (Inr _, dev') \<Rightarrow> (Inl e1, dev') | (Inl e, dev') \<Rightarrow> (if e = e2 then Inl e2 else Inr (), dev')) = (r, dev') \<and>
      (case q (ram bs) of (Inr _, dev') \<Rightarrow> (Inl e1, dev') | (Inl e, dev') \<Rightarrow> (if e = e2 then Inl e2 else Inr (), dev')) = (r, ram bs') \<and>
      holds dev' bs'" by (cases r) auto
qed

lemma sim_create: "sim (mcsfs1_create m nm) (mcsfs1_create m nm)"
  unfolding mcsfs1_create_def
  by (intro sim_rules sim_catch sim_find_dirent sim_alloc_inode_block sim_write_inode)

lemma sim_write_file: "sim (mcsfs1_write m nm buf len) (mcsfs1_write m nm buf len)"
  unfolding mcsfs1_write_def Let_def
  by (intro sim_rules sim_find_dirent sim_read_inode sim_alloc_direct sim_write_blocks sim_write_inode)

lemma sim_read_file: "sim (mcsfs1_read m nm cap) (mcsfs1_read m nm cap)"
  unfolding mcsfs1_read_def Let_def
  by (cases m; cases cap) (auto intro!: sim_rules sim_find_dirent sim_read_inode sim_read_blocks)

lemma sim_unlink: "sim (mcsfs1_unlink m nm) (mcsfs1_unlink m nm)"
  unfolding mcsfs1_unlink_def
  by (intro sim_rules sim_find_dirent sim_read_inode sim_free_inode_and_blocks sim_write_inode)

lemma sim_fsck_entry: "sim (fsck_entry ib bb dir i) (fsck_entry ib bb dir i)"
  unfolding fsck_entry_def fsck_block_def Let_def by (intro sim_rules sim_read_inode)

lemma sim_fsck: "sim mcsfs1_fsck mcsfs1_fsck"
  unfolding mcsfs1_fsck_def by (intro sim_rules sim_load_super sim_load_bmaps sim_read_inode sim_fsck_entry)

end

interpretation ram_store: block_store "\<lambda>bs. bs" ram_read ram_write ram_flush
  by unfold_locales (simp_all add: ram_read_def ram_write_def ram_flush_def)


section \<open>The abstract map of files\<close>

text \<open>
  What a client sees: a map from names to contents. A call is refused for its arguments whatever the files
  are: the name is empty, has a slash or is too long, or a write has more than eight blocks. A call may run
  out of space; a write only does so when the file needs more blocks than it has. Names of exactly 27 bytes,
  which the code accepts and then does not find again, are left out.
\<close>

datatype m1_op = M1_Create bytes | M1_Write bytes bytes | M1_Read bytes u32 | M1_Unlink bytes

definition name_in_scope :: "bytes \<Rightarrow> bool" where
  "name_in_scope nm \<longleftrightarrow> valid_name (Some nm) \<noteq> Inr 27"

definition name_error :: "bytes \<Rightarrow> mcsfs1_err option" where
  "name_error nm = (case valid_name (Some nm) of Inl e \<Rightarrow> Some e | Inr _ \<Rightarrow> None)"

fun m1_op_ok :: "m1_op \<Rightarrow> bool" where
  "m1_op_ok (M1_Create nm) = name_in_scope nm"
| "m1_op_ok (M1_Write nm d) = (name_in_scope nm \<and> length d < 4294967296)"
| "m1_op_ok (M1_Read nm cap) = name_in_scope nm"
| "m1_op_ok (M1_Unlink nm) = name_in_scope nm"

fun m1_refused :: "m1_op \<Rightarrow> mcsfs1_err option" where
  "m1_refused (M1_Create nm) = name_error nm"
| "m1_refused (M1_Write nm d) = (if 4096 < length d then Some MCSFS1_ERR_RANGE else name_error nm)"
| "m1_refused (M1_Read nm cap) = name_error nm"
| "m1_refused (M1_Unlink nm) = name_error nm"

fun m1_call :: "mcsfs1_mount option \<Rightarrow> m1_op \<Rightarrow> ('c, bytes) m1_prog" where
  "m1_call m (M1_Create nm) = pthen (mcsfs1_create m (Some nm)) (pret [])"
| "m1_call m (M1_Write nm d) = pthen (mcsfs1_write m (Some nm) (Some d) (of_nat (length d))) (pret [])"
| "m1_call m (M1_Read nm cap) = pbind (mcsfs1_read m (Some nm) (Some cap)) (\<lambda>(d, n). pret d)"
| "m1_call m (M1_Unlink nm) = pthen (mcsfs1_unlink m (Some nm)) (pret [])"



fun m1_served :: "(bytes \<Rightarrow> bytes option) \<Rightarrow> m1_op \<Rightarrow> mcsfs1_err + bytes \<Rightarrow> (bytes \<Rightarrow> bytes option) \<Rightarrow> bool" where
  "m1_served M (M1_Create nm) r M' =
     (if M (name_key nm) \<noteq> None then r = Inl MCSFS1_ERR_EXIST \<and> M' = M
      else r = Inr [] \<and> M' = M(name_key nm \<mapsto> []) \<or> r = Inl MCSFS1_ERR_NOSPC \<and> M' = M)"
| "m1_served M (M1_Write nm d) r M' =
     (case M (name_key nm) of None \<Rightarrow> r = Inl MCSFS1_ERR_NOENT \<and> M' = M
      | Some d0 \<Rightarrow> r = Inr [] \<and> M' = M(name_key nm \<mapsto> d) \<or>
          r = Inl MCSFS1_ERR_NOSPC \<and> M' = M \<and> needed (length d0) < needed (length d))"
| "m1_served M (M1_Read nm cap) r M' =
     (M' = M \<and> (case M (name_key nm) of None \<Rightarrow> r = Inl MCSFS1_ERR_NOENT
      | Some d \<Rightarrow> if unat cap < length d then r = Inl MCSFS1_ERR_RANGE else r = Inr d))"
| "m1_served M (M1_Unlink nm) r M' =
     (if M (name_key nm) = None then r = Inl MCSFS1_ERR_NOENT \<and> M' = M
      else r = Inr [] \<and> M' = M(name_key nm := None))"

definition m1_spec :: "(bytes \<Rightarrow> bytes option) \<Rightarrow> m1_op \<Rightarrow> mcsfs1_err + bytes \<Rightarrow> (bytes \<Rightarrow> bytes option) \<Rightarrow> bool" where
  "m1_spec M op r M' \<longleftrightarrow> (case m1_refused op of Some e \<Rightarrow> r = Inl e \<and> M' = M | None \<Rightarrow> m1_served M op r M')"

lemma short_or_refused: "name_in_scope nm \<Longrightarrow> name_error nm = None \<Longrightarrow> short_name nm"
proof -
  assume a: "name_in_scope nm" "name_error nm = None"
  have "length (name_key nm) \<le> 27" by (simp add: strlen_bounded_le)
  then show ?thesis
    using a by (auto simp: name_in_scope_def name_error_def short_name_def valid_name_Some split: if_splits)
qed

lemma find_dirent_refused: "name_error nm = Some e \<Longrightarrow> find_dirent (Some nm) dev = (Inl e, dev)"
  by (simp add: name_error_def find_dirent_def prog_run split: sum.splits)

lemma m1_call_refused:
  assumes "m1_refused op = Some e" "m1_op_ok op"
  shows "m1_call (the_mount bs) op dev = (Inl e, dev)"
proof (cases op)
  case (M1_Write nm d)
  have u: "unat (of_nat (length d) :: u32) = length d"
    using assms(2) M1_Write by (simp add: unsigned_of_nat take_bit_nat_eq_self)
  show ?thesis
    using assms(1) find_dirent_refused [of nm e dev] M1_Write u
    by (auto simp: mcsfs1_write_def the_mount_def prog_run word_less_nat_alt m1_consts split: if_splits)
qed (use assms(1) find_dirent_refused [of _ e dev] in
  \<open>auto simp: mcsfs1_create_def mcsfs1_read_def mcsfs1_unlink_def the_mount_def prog_run name_error_def split: sum.splits\<close>)

lemma m1_call_served:
  assumes fs: "fs_ok bs" and op: "m1_op_ok op" and served: "m1_refused op = None"
  shows "\<exists>r bs'. m1_call (the_mount bs) op (ram bs) = (r, ram bs') \<and> fs_ok bs' \<and> length bs' = length bs \<and>
    m1_served (files bs) op r (files bs')"
proof (cases op)
  case (M1_Create nm)
  then have nm: "short_name nm" using op served short_or_refused by simp
  show ?thesis
  proof (cases "files bs (name_key nm)")
    case None
    then show ?thesis using create_ok [OF fs nm] fs M1_Create by (auto simp: prog_run)
  next
    case (Some d)
    then show ?thesis using create_exists [OF fs nm] fs M1_Create by (auto simp: prog_run)
  qed
next
  case (M1_Write nm d)
  then have nm: "short_name nm" "length d \<le> 4096" using op served short_or_refused by (auto split: if_splits)
  have u: "unat (of_nat (length d) :: u32) = length d" using nm(2) by (simp add: unat_small_u32)
  show ?thesis
  proof (cases "files bs (name_key nm)")
    case None
    then show ?thesis using write_missing [OF fs nm(1) None, of "of_nat (length d)" d] fs nm(2) u M1_Write
      by (auto simp: prog_run)
  next
    case (Some d0)
    then show ?thesis using write_ok [OF fs nm(1) Some nm(2) u] M1_Write by (fastforce simp: prog_run)
  qed
next
  case (M1_Read nm cap)
  then have "short_name nm" using op served short_or_refused by simp
  then show ?thesis using read_ok [OF fs, of nm cap] fs M1_Read
    by (cases "files bs (name_key nm)") (auto simp: prog_run)
next
  case (M1_Unlink nm)
  then have nm: "short_name nm" using op served short_or_refused by simp
  show ?thesis
  proof (cases "files bs (name_key nm)")
    case None
    then show ?thesis using unlink_missing [OF fs nm] fs M1_Unlink by (auto simp: prog_run)
  next
    case (Some d)
    from unlink_ok [OF fs nm Some] obtain bs' where
      "mcsfs1_unlink (the_mount bs) (Some nm) (ram bs) = (Inr (), ram bs')" "fs_ok bs'"
      "length bs' = length bs" "files bs' = (files bs)(name_key nm := None)" .
    then show ?thesis using M1_Unlink Some by (auto simp: prog_run)
  qed
qed

lemma m1_call_ok:
  assumes fs: "fs_ok bs" and op: "m1_op_ok op"
  shows "\<exists>r bs'. m1_call (the_mount bs) op (ram bs) = (r, ram bs') \<and> fs_ok bs' \<and> length bs' = length bs \<and>
    m1_spec (files bs) op r (files bs')"
  using m1_call_served [OF assms] m1_call_refused [OF _ op] fs by (cases "m1_refused op") (auto simp: m1_spec_def)

context block_store
begin

lemma sim_call: "sim (m1_call m op) (m1_call m op)"
  by (cases op) (simp_all add: sim_pthen sim_pbind sim_prod sim_pret sim_create sim_write_file sim_read_file sim_unlink)

interpretation m1: call_refinement "m1_call (the_mount (replicate n b))" m1_spec "\<lambda>_. m1_op_ok"
  "\<lambda>dev M. \<exists>bs. holds dev bs \<and> fs_ok bs \<and> length bs = n \<and> M = files bs" for n b
proof (unfold_locales, elim exE conjE)
  fix dev M op r dev' bs
  assume a: "m1_op_ok op" "m1_call (the_mount (replicate n b)) op dev = (r, dev')" "holds dev bs" "fs_ok bs" "length bs = n" "M = files bs"
  have m: "the_mount (replicate n b) = the_mount bs" using a(5) by (simp add: the_mount_def)
  obtain r1 bs1 where r: "m1_call (the_mount bs) op (ram bs) = (r1, ram bs1)" "fs_ok bs1" "length bs1 = n"
    "m1_spec (files bs) op r1 (files bs1)" using m1_call_ok [OF a(4,1)] a(5) by auto
  have "r1 = r \<and> holds dev' bs1"
    using simD [OF sim_call a(3), of "the_mount bs" op] r(1) a(2) by (auto simp: ram_def m)
  then show "\<exists>M'. m1_spec M op r M' \<and> (\<exists>bs. holds dev' bs \<and> fs_ok bs \<and> length bs = n \<and> M' = files bs)"
    using r a(6) by blast
qed

lemma calls_refine:
  assumes "holds dev bs" "fs_ok bs" "list_all m1_op_ok ops"
  obtains rs dev' bs' where "run_calls (m1_call (the_mount bs)) ops dev = (rs, dev')" "holds dev' bs'" "fs_ok bs'"
    "length bs' = length bs" "calls_spec m1_spec (files bs) ops rs (files bs')"
proof -
  have m: "the_mount (replicate (length bs) []) = the_mount bs" by (simp add: the_mount_def)
  have pre: "calls_pre m1_spec (\<lambda>_. m1_op_ok) (files bs) ops" using assms(3) by (intro calls_pre_kept)
  have rel: "\<exists>cs. holds dev cs \<and> fs_ok cs \<and> length cs = length bs \<and> files bs = files cs" using assms(1,2) by blast
  obtain rs dev' M' where "run_calls (m1_call (the_mount bs)) ops dev = (rs, dev')" "calls_spec m1_spec (files bs) ops rs M'"
    "\<exists>cs. holds dev' cs \<and> fs_ok cs \<and> length cs = length bs \<and> M' = files cs"
    by (rule m1.calls_refine [where n = "length bs" and b = "[]", OF rel pre, unfolded m])
  then show ?thesis using that by blast
qed

end

text \<open>The block device a mount works on: the callbacks store and return the blocks of the list.\<close>

definition m1_device ::
  "('c \<Rightarrow> bytes list) \<Rightarrow> ('c \<Rightarrow> u32 \<Rightarrow> bytes option \<times> 'c) \<Rightarrow> ('c \<Rightarrow> u32 \<Rightarrow> bytes \<Rightarrow> bool \<times> 'c) \<Rightarrow>
   ('c \<Rightarrow> bool \<times> 'c) \<Rightarrow> 'c mcsfs1_blkdev \<Rightarrow> bytes list \<Rightarrow> bool" where
  "m1_device view rd wr fl dev bs \<longleftrightarrow> block_store view rd wr fl \<and> block_store.holds view rd wr fl dev bs"

lemma m1_device_ram: "length bs < 4294967296 \<Longrightarrow> m1_device (\<lambda>bs. bs) ram_read ram_write ram_flush (ram bs) bs"
  unfolding m1_device_def using ram_store.block_store_axioms by (simp add: ram_store.holds_def ram_def)

lemma formatted_not_full:
  assumes "16 \<le> n" "n \<le> 4096"
  shows "\<not> (dir_full (formatted n) \<or> inodes_full (formatted n) \<or> blocks_full (formatted n))"
proof -
  note b = formatted_blocks [OF assms]
  have "\<not> used (formatted n) 0" using b(4) zero_ent [of 0] by simp
  moreover have "\<not> bit_test (formatted n ! Suc 0) 2"
    using m1_bm.tst_st [of 1 "bit_set zero_block 0" 2] m1_bm.tst_st [of 0 zero_block 2]
    by (simp add: b(2) format_ib_def MCSFS1_ROOT_INO_def m1_bm.length_st format_lengths) (simp add: bit_test_def zero_block_def MCSFS1_BLOCK_SIZE_def)
  moreover have "\<not> bit_test (formatted n ! 2) 8"
    using m1_bm.tst_fold_st [of "[0..<8]" zero_block 8]
      m1_bm.tst_st [of 7 "fold (\<lambda>b bm. bit_set bm b) [0..<8] zero_block" 8]
    by (simp add: b(3) format_bb_def MCSFS1_DATA_START_LBA_def MCSFS1_ROOT_DIR_LBA_def m1_bm.length_fold_st format_lengths
        del: upt_rec_numeral) (simp add: bit_test_def zero_block_def MCSFS1_BLOCK_SIZE_def)
  ultimately show ?thesis using assms unfolding dir_full_def inodes_full_def blocks_full_def formatted_length by fastforce
qed


lemma m1_device_run:
  assumes "m1_device view rd wr fl dev bs" "block_store.sim view rd wr fl p q" "q (ram bs) = (r, ram bs')"
  obtains dev' where "p dev = (r, dev')" "m1_device view rd wr fl dev' bs'"
  using assms block_store.simD [of view rd wr fl p q dev bs] unfolding m1_device_def by (fastforce simp: ram_def)

section \<open>A fresh volume\<close>

text \<open>Format, mount, create, write, read back and check, stopping at the first error.\<close>

definition m1_fresh :: "bytes \<Rightarrow> bytes \<Rightarrow> u32 \<Rightarrow> ('c, bytes) m1_prog" where
  "m1_fresh nm d cap =
     pthen mcsfs1_format
    (pbind mcsfs1_mount (\<lambda>m.
     pthen (m1_call (Some m) (M1_Create nm))
    (pthen (m1_call (Some m) (M1_Write nm d))
    (pthen mcsfs1_fsck
    (m1_call (Some m) (M1_Read nm cap))))))"

lemma m1_fresh_ok:
  assumes "disk_ok bs" "short_name nm" "length d \<le> 512" "length d \<le> unat cap"
  shows "\<exists>bs'. m1_fresh nm d cap (ram bs) = (Inr d, ram bs') \<and> fs_ok bs' \<and> files bs' = [name_key nm \<mapsto> d]"
proof -
  let ?f = "formatted (length bs)"
  note n = disk_okD(1,2) [OF assms(1)] and fm = formatted_fs_ok [OF disk_okD(1,2) [OF assms(1)]]
  have m: "mcsfs1_mount (ram ?f) = (Inr (the (the_mount ?f)), ram ?f)" using m1_mount_ok [OF fm(1)] by (simp add: the_mount_def)
  have sm: "Some (the (the_mount x)) = the_mount x" for x by (simp add: the_mount_def)
  obtain bs1 where c: "mcsfs1_create (the_mount ?f) (Some nm) (ram ?f) = (Inr (), ram bs1)" "fs_ok bs1"
    "length bs1 = length bs" "files bs1 = [name_key nm \<mapsto> []]"
    using create_ok [OF fm(1) assms(2)] formatted_not_full [OF n] fm(2) by auto
  have m1: "the_mount bs1 = the_mount ?f" using c(3) by (simp add: the_mount_def)
  have u: "unat (of_nat (length d) :: u32) = length d" using assms(3) by (simp add: unat_small_u32)
  have nd: "\<not> needed 0 < needed (length d)" using assms(3) by (auto simp: needed_def)
  have "\<exists>bs' r. mcsfs1_write (the_mount bs1) (Some nm) (Some d) (of_nat (length d)) (ram bs1) = (r, ram bs') \<and> fs_ok bs' \<and>
    length bs' = length bs1 \<and> (r = Inr () \<and> files bs' = (files bs1)(name_key nm \<mapsto> d) \<or>
      r = Inl MCSFS1_ERR_NOSPC \<and> files bs' = files bs1 \<and> blocks_full bs' \<and> needed (length ([] :: bytes)) < needed (length d))"
    by (rule write_ok [OF c(2) assms(2)]) (use assms(3) u in \<open>simp_all add: c(4)\<close>)
  then obtain bs2 where w: "mcsfs1_write (the_mount ?f) (Some nm) (Some d) (of_nat (length d)) (ram bs1) = (Inr (), ram bs2)"
    "fs_ok bs2" "length bs2 = length bs1" "files bs2 = [name_key nm \<mapsto> d]"
    using nd c(4) m1 by auto
  have m2: "the_mount bs2 = the_mount ?f" using c(3) w(3) by (simp add: the_mount_def)
  have "mcsfs1_read (the_mount ?f) (Some nm) (Some cap) (ram bs2) = (Inr (d, of_nat (length d)), ram bs2)"
    using read_ok [OF w(2) assms(2), of cap] assms(4) w(4) m2 by simp
  then have "m1_fresh nm d cap (ram bs) = (Inr d, ram bs2)"
    using m1_format_run [OF assms(1)] m c(1) w(1) fsck_ok [OF w(2)] by (simp add: m1_fresh_def prog_run sm)
  then show ?thesis using w(2,4) by blast
qed

context block_store
begin

lemma sim_fresh: "sim (m1_fresh nm d cap) (m1_fresh nm d cap)"
  unfolding m1_fresh_def by (intro sim_rules sim_format sim_mount sim_call sim_fsck)

end

lemma short_name_a: "short_name [0x61, 0]" "name_in_scope [0x61, 0]" "name_in_scope [0x2f, 0]"
  by code_simp+

section \<open>Properties\<close>

text \<open>
  C28. On any block device whose callbacks do not fail and return what was stored, from every consistent
  volume, every sequence of create, write, read and unlink calls, with any name whose length is not exactly
  27 bytes and contents of any length below \<open>2^32\<close>, behaves as the calls of a map from names to contents:
  names that are empty, too long or have a slash and contents of more than 4096 bytes are refused with the
  code for it; otherwise the returned codes are those the map prescribes (EXIST, NOENT, RANGE), a read
  returns exactly the bytes last written, no call changes another file, and the volume stays consistent.
  (Names of 27 bytes are accepted by the code, but an existing one is not found again.)
\<close>

theorem m1_ops_refine_files:
  assumes "m1_device view rd wr fl dev bs" "fs_ok bs" "list_all m1_op_ok ops"
  shows "\<exists>rs dev' bs'. run_calls (m1_call (the_mount bs)) ops dev = (rs, dev') \<and> m1_device view rd wr fl dev' bs' \<and>
    fs_ok bs' \<and> length bs' = length bs \<and> calls_spec m1_spec (files bs) ops rs (files bs')"
proof -
  have b: "block_store view rd wr fl" "block_store.holds view rd wr fl dev bs" using assms(1) by (simp_all add: m1_device_def)
  show ?thesis by (rule block_store.calls_refine [OF b assms(2,3)]) (use b(1) in \<open>auto simp: m1_device_def\<close>)
qed

theorem m1_ops_refine_files_witness:
  "\<exists>rs dev' bs'. run_calls (m1_call (the_mount (formatted 16))) [M1_Create [0x61, 0], M1_Create [0x2f, 0], M1_Write [0x61, 0] [1, 2, 3], M1_Read [0x61, 0] 3]
      (ram (formatted 16)) = (rs, dev') \<and> m1_device (\<lambda>bs. bs) ram_read ram_write ram_flush dev' bs' \<and>
    fs_ok bs' \<and> length bs' = length (formatted 16) \<and> calls_spec m1_spec (files (formatted 16))
      [M1_Create [0x61, 0], M1_Create [0x2f, 0], M1_Write [0x61, 0] [1, 2, 3], M1_Read [0x61, 0] 3] rs (files bs')"
  by (rule m1_ops_refine_files [OF m1_device_ram])
    (simp_all add: formatted_fs_ok short_name_a)

text \<open>
  C29. On a block device whose callbacks do not fail, with a consistent volume, a create with any name whose
  length is not exactly 27 bytes reports ENOSPC exactly when the name is well formed and new and the
  directory, the inodes or the data blocks are all in use.
\<close>

theorem m1_create_nospc_iff_full:
  assumes "m1_device view rd wr fl dev bs" "fs_ok bs" "name_in_scope nm"
  shows "fst (mcsfs1_create (the_mount bs) (Some nm) dev) = Inl MCSFS1_ERR_NOSPC \<longleftrightarrow>
    name_error nm = None \<and> files bs (name_key nm) = None \<and> (dir_full bs \<or> inodes_full bs \<or> blocks_full bs)"
proof -
  have s: "block_store.sim view rd wr fl (mcsfs1_create (the_mount bs) (Some nm)) (mcsfs1_create (the_mount bs) (Some nm))"
    using assms(1) block_store.sim_create by (auto simp: m1_device_def)
  show ?thesis
  proof (cases "name_error nm")
    case (Some e)
    then have "mcsfs1_create (the_mount bs) (Some nm) dev = (Inl e, dev)" "e \<noteq> MCSFS1_ERR_NOSPC"
      by (auto simp: mcsfs1_create_def the_mount_def prog_run name_error_def valid_name_def Let_def split: sum.splits if_splits)
    with Some show ?thesis by simp
  next
    case nm: None
    note sn = short_or_refused [OF assms(3) nm]
    show ?thesis
    proof (cases "files bs (name_key nm)")
      case None
      then show ?thesis using create_ok [OF assms(2) sn] nm by (auto elim: m1_device_run [OF assms(1) s])
    next
      case (Some d)
      then show ?thesis using create_exists [OF assms(2) sn] by (auto elim: m1_device_run [OF assms(1) s])
    qed
  qed
qed

theorem m1_create_nospc_iff_full_witness:
  "fst (mcsfs1_create (the_mount (formatted 16)) (Some [0x61, 0]) (ram (formatted 16))) \<noteq> Inl MCSFS1_ERR_NOSPC"
  using m1_create_nospc_iff_full [OF m1_device_ram formatted_fs_ok(1) short_name_a(2), of 16] formatted_not_full [of 16] by simp

text \<open>
  On every device of 16 to 4096 blocks of 512 bytes, whatever it holds, formatting, mounting,
  creating a file and writing up to 512 bytes to it succeed, the consistency check accepts the volume,
  and reading the file returns the bytes written.
\<close>

theorem m1_fresh_roundtrip:
  assumes "m1_device view rd wr fl dev bs" "disk_ok bs" "short_name nm" "length d \<le> 512" "length d \<le> unat cap"
  shows "fst (m1_fresh nm d cap dev) = Inr d"
proof -
  have s: "block_store.sim view rd wr fl (m1_fresh nm d cap) (m1_fresh nm d cap)"
    using assms(1) block_store.sim_fresh by (auto simp: m1_device_def)
  obtain bs' where "m1_fresh nm d cap (ram bs) = (Inr d, ram bs')" using m1_fresh_ok [OF assms(2-5)] by blast
  from m1_device_run [OF assms(1) s this] show ?thesis by (metis fst_conv)
qed

theorem m1_fresh_roundtrip_witness:
  "fst (m1_fresh [0x61, 0] [1, 2, 3] 64 (ram (replicate 16 zero_block))) = Inr [1, 2, 3]"
  by (rule m1_fresh_roundtrip [OF m1_device_ram]) (simp_all add: short_name_a disk_ok_def format_lengths)

end
