(* ===== verification/Block.thy ===== *)
theory Block
  imports Prelude Bytes
begin

text \<open>
  The block layer of \<open>src/kernel/block\<close>: the device registry and the checked read, write and flush
  (\<open>blk.c\<close>), the RAM disk driver (\<open>ramblk.c\<close>), and the write-back cache (\<open>bcache.c\<close>). Devices live at
  addresses (0 is NULL) in one state; a driver is the three functions of its \<open>mcsos_blk_ops_t\<close>, which
  may change the buffer they are given and the driver data of the device.
\<close>

section \<open>Devices\<close>

definition MCSOS_BLK_NAME_MAX :: nat where [layout]: "MCSOS_BLK_NAME_MAX = 16"
definition MCSOS_BLK_MAX_DEVICES :: u32 where [layout]: "MCSOS_BLK_MAX_DEVICES = 8"
definition MCSOS_BLK_DEFAULT_SECTOR_SIZE :: u32 where [layout]: "MCSOS_BLK_DEFAULT_SECTOR_SIZE = 512"

text \<open>\<open>MCSOS_BLK_OK\<close> is \<open>Inr ()\<close>; \<open>MCSOS_BLK_FAULT\<close> marks an access outside of a C object.\<close>

datatype mcsos_blk_status =
  MCSOS_BLK_EINVAL | MCSOS_BLK_ERANGE | MCSOS_BLK_EFULL | MCSOS_BLK_EIO | MCSOS_BLK_ENODEV | MCSOS_BLK_FAULT

text \<open>What a driver sees of its device: all of \<open>mcsos_blk_device_t\<close> but the pointer to the driver itself.\<close>

record 'd mcsos_blk_data =
  dev_name :: bytes
  block_size :: u32
  block_count :: u64
  dev_flags :: u32
  driver_data :: 'd

type_synonym 'd mcsos_blk_rw_fn =
  "'d mcsos_blk_data \<Rightarrow> u64 \<Rightarrow> u32 \<Rightarrow> bytes option \<Rightarrow> (mcsos_blk_status + unit) \<times> bytes option \<times> 'd"

record 'd mcsos_blk_ops =
  op_read :: "'d mcsos_blk_rw_fn"
  op_write :: "'d mcsos_blk_rw_fn"
  op_flush :: "'d mcsos_blk_rw_fn option"

record 'd mcsos_blk_device = "'d mcsos_blk_data" +
  ops :: "'d mcsos_blk_ops option"

record 'd blk_state =
  devices :: "nat \<Rightarrow> 'd mcsos_blk_device"
  g_blk_devices :: "nat list"
  g_blk_count :: u32

abbreviation dev_data :: "('d, 'z) blk_state_scheme \<Rightarrow> nat \<Rightarrow> 'd mcsos_blk_data" where
  "dev_data s d \<equiv> mcsos_blk_data.truncate (devices s d)"

definition mcsos_blk_registry_reset :: "('d, 'z) blk_state_scheme \<Rightarrow> ('d, 'z) blk_state_scheme" where
  "mcsos_blk_registry_reset s = s\<lparr>g_blk_count := 0\<rparr>"

definition mcsos_blk_register :: "nat \<Rightarrow> (('d, 'z) blk_state_scheme, mcsos_blk_status, unit) prog" where
  "mcsos_blk_register dev s =
     (if MCSOS_BLK_MAX_DEVICES \<le> g_blk_count s then (Inl MCSOS_BLK_EFULL, s)
      else (Inr (), s\<lparr>g_blk_devices := (g_blk_devices s)[unat (g_blk_count s) := dev], g_blk_count := g_blk_count s + 1\<rparr>))"

definition mcsos_blk_get :: "u32 \<Rightarrow> ('d, 'z) blk_state_scheme \<Rightarrow> nat" where
  "mcsos_blk_get index s = (if g_blk_count s \<le> index then 0 else g_blk_devices s ! unat index)"

definition mcsos_blk_count :: "('d, 'z) blk_state_scheme \<Rightarrow> u32" where
  "mcsos_blk_count s = g_blk_count s"

text \<open>The call of a driver function: it may change the buffer and its driver data.\<close>

definition blk_call ::
  "'d mcsos_blk_rw_fn \<Rightarrow> nat \<Rightarrow> u64 \<Rightarrow> u32 \<Rightarrow> bytes option \<Rightarrow> ('d, 'z) blk_state_scheme \<Rightarrow>
   (mcsos_blk_status + unit) \<times> bytes option \<times> ('d, 'z) blk_state_scheme" where
  "blk_call f dev lba count buffer s =
     (case f (dev_data s dev) lba count buffer of (st, buffer', dd) \<Rightarrow>
        (st, buffer', s\<lparr>devices := (devices s)(dev := (devices s dev)\<lparr>driver_data := dd\<rparr>)\<rparr>))"

definition mcsos_blk_validate_range ::
  "nat \<Rightarrow> u64 \<Rightarrow> u32 \<Rightarrow> bytes option \<Rightarrow> ('d, 'z) blk_state_scheme \<Rightarrow> mcsos_blk_status + unit" where
  "mcsos_blk_validate_range dev lba count buffer s =
     (if dev = 0 \<or> buffer = None \<or> count = 0 \<or> ops (devices s dev) = None then Inl MCSOS_BLK_EINVAL
      else if block_count (devices s dev) \<le> lba \<or> block_count (devices s dev) - lba < ucast count then Inl MCSOS_BLK_ERANGE
      else Inr ())"

definition mcsos_blk_read ::
  "nat \<Rightarrow> u64 \<Rightarrow> u32 \<Rightarrow> bytes option \<Rightarrow> ('d, 'z) blk_state_scheme \<Rightarrow>
   (mcsos_blk_status + unit) \<times> bytes option \<times> ('d, 'z) blk_state_scheme" where
  "mcsos_blk_read dev lba count buffer s =
     (case mcsos_blk_validate_range dev lba count buffer s of
        Inl st \<Rightarrow> (Inl st, buffer, s)
      | Inr _ \<Rightarrow> blk_call (op_read (the (ops (devices s dev)))) dev lba count buffer s)"

definition mcsos_blk_write ::
  "nat \<Rightarrow> u64 \<Rightarrow> u32 \<Rightarrow> bytes option \<Rightarrow> ('d, 'z) blk_state_scheme \<Rightarrow>
   (mcsos_blk_status + unit) \<times> bytes option \<times> ('d, 'z) blk_state_scheme" where
  "mcsos_blk_write dev lba count buffer s =
     (case mcsos_blk_validate_range dev lba count buffer s of
        Inl st \<Rightarrow> (Inl st, buffer, s)
      | Inr _ \<Rightarrow> blk_call (op_write (the (ops (devices s dev)))) dev lba count buffer s)"

definition mcsos_blk_flush :: "nat \<Rightarrow> (('d, 'z) blk_state_scheme, mcsos_blk_status, unit) prog" where
  "mcsos_blk_flush dev s =
     (if dev = 0 then (Inl MCSOS_BLK_EINVAL, s)
      else case ops (devices s dev) of
        None \<Rightarrow> (Inl MCSOS_BLK_EINVAL, s)
      | Some vt \<Rightarrow> (case op_flush vt of
          None \<Rightarrow> (Inr (), s)
        | Some f \<Rightarrow> (case blk_call f dev 0 0 None s of (st, _, s') \<Rightarrow> (st, s'))))"

text \<open>\<open>for (i = 0; i < MCSOS_BLK_NAME_MAX - 1 && src[i]; i++) dst[i] = src[i];\<close> - no terminating zero is written.\<close>

definition mcsos_blk_copy_name_for_driver :: "bytes \<Rightarrow> bytes \<Rightarrow> bytes" where
  "mcsos_blk_copy_name_for_driver dst src =
     (let n = strlen_bounded src (MCSOS_BLK_NAME_MAX - 1) in map (cstr_at src) [0..<n] @ drop n dst)"

section \<open>The RAM disk\<close>

record mcsos_ramblk =
  storage :: bytes
  storage_size :: u64

definition mcsos_is_power_of_two_u32_local :: "u32 \<Rightarrow> bool" where
  "mcsos_is_power_of_two_u32_local value \<longleftrightarrow> value \<noteq> 0 \<and> value AND (value - 1) = 0"

text \<open>\<open>mcsos_memcpy_u8(dst + off, src, n)\<close>\<close>

definition mcsos_memcpy_u8 :: "bytes \<Rightarrow> nat \<Rightarrow> bytes \<Rightarrow> nat \<Rightarrow> bytes" where
  "mcsos_memcpy_u8 dst off src n = take off dst @ take n src @ drop (off + n) dst"

text \<open>A NULL \<open>driver_data\<close> or buffer is \<open>None\<close>.\<close>

definition mcsos_ramblk_rw ::
  "mcsos_ramblk option mcsos_blk_data \<Rightarrow> u64 \<Rightarrow> u32 \<Rightarrow> bytes option \<Rightarrow> bool \<Rightarrow>
   (mcsos_blk_status + unit) \<times> bytes option \<times> mcsos_ramblk option" where
  "mcsos_ramblk_rw dev lba count buffer is_write =
     (case (driver_data dev, buffer) of
        (Some ram, Some buf) \<Rightarrow>
          (let byte_offset = lba * ucast (block_size dev);
               byte_count = ucast count * ucast (block_size dev)
           in if storage_size ram < byte_offset \<or> storage_size ram - byte_offset < byte_count
              then (Inl MCSOS_BLK_ERANGE, buffer, driver_data dev)
              else if length (storage ram) < unat byte_offset + unat byte_count \<or> length buf < unat byte_count
              then (Inl MCSOS_BLK_FAULT, buffer, driver_data dev)
              else if is_write
              then (Inr (), buffer,
                    Some (ram\<lparr>storage := mcsos_memcpy_u8 (storage ram) (unat byte_offset) buf (unat byte_count)\<rparr>))
              else (Inr (), Some (mcsos_memcpy_u8 buf 0 (drop (unat byte_offset) (storage ram)) (unat byte_count)),
                    driver_data dev))
      | _ \<Rightarrow> (Inl MCSOS_BLK_EINVAL, buffer, driver_data dev))"

definition mcsos_ramblk_read :: "mcsos_ramblk option mcsos_blk_rw_fn" where
  "mcsos_ramblk_read dev lba count buffer = mcsos_ramblk_rw dev lba count buffer False"

definition mcsos_ramblk_write :: "mcsos_ramblk option mcsos_blk_rw_fn" where
  "mcsos_ramblk_write dev lba count buffer = mcsos_ramblk_rw dev lba count buffer True"

definition mcsos_ramblk_flush :: "mcsos_ramblk option mcsos_blk_rw_fn" where
  "mcsos_ramblk_flush dev lba count buffer = (Inr (), buffer, driver_data dev)"

definition g_ramblk_ops :: "mcsos_ramblk option mcsos_blk_ops" where
  "g_ramblk_ops = \<lparr>op_read = mcsos_ramblk_read, op_write = mcsos_ramblk_write, op_flush = Some mcsos_ramblk_flush\<rparr>"

text \<open>\<open>dev\<close> and \<open>ram\<close> are addresses; the RAM disk's own struct is the driver data of the device.\<close>

definition mcsos_ramblk_init ::
  "nat \<Rightarrow> nat \<Rightarrow> bytes option \<Rightarrow> bytes option \<Rightarrow> u64 \<Rightarrow> u32 \<Rightarrow>
   ((mcsos_ramblk option, 'z) blk_state_scheme, mcsos_blk_status, unit) prog" where
  "mcsos_ramblk_init dev ram name stor stor_size bsize s =
     (case (stor, name) of
        (Some st, Some nm) \<Rightarrow>
          if dev = 0 \<or> ram = 0 then (Inl MCSOS_BLK_EINVAL, s)
          else if bsize < MCSOS_BLK_DEFAULT_SECTOR_SIZE \<or> \<not> mcsos_is_power_of_two_u32_local bsize then (Inl MCSOS_BLK_EINVAL, s)
          else if stor_size < ucast bsize \<or> stor_size mod ucast bsize \<noteq> 0 then (Inl MCSOS_BLK_EINVAL, s)
          else (Inr (), s\<lparr>devices := (devices s)(dev :=
                 \<lparr>dev_name = mcsos_blk_copy_name_for_driver (dev_name (devices s dev)) nm, block_size = bsize,
                  block_count = stor_size div ucast bsize, dev_flags = 0,
                  driver_data = Some \<lparr>storage = st, storage_size = stor_size\<rparr>, ops = Some g_ramblk_ops\<rparr>)\<rparr>)
      | _ \<Rightarrow> (Inl MCSOS_BLK_EINVAL, s))"

definition m14_block_demo_init ::
  "nat \<Rightarrow> nat \<Rightarrow> bytes \<Rightarrow> (mcsos_ramblk option, 'z) blk_state_scheme \<Rightarrow> (mcsos_ramblk option, 'z) blk_state_scheme" where
  "m14_block_demo_init g_dev g_ram g_storage s =
     (case mcsos_ramblk_init g_dev g_ram (Some [0x72, 0x61, 0x6d, 0x30, 0]) (Some g_storage) (512 * 64) 512
             (mcsos_blk_registry_reset s) of
        (Inl _, s') \<Rightarrow> s'
      | (Inr _, s') \<Rightarrow> snd (mcsos_blk_register g_dev s'))"

section \<open>The cache\<close>

record mcsos_bcache_entry =
  data :: bytes
  capacity :: u32
  e_lba :: u64
  valid :: bool
  dirty :: bool
  e_dev :: nat

record mcsos_bcache =
  entries :: "mcsos_bcache_entry list"
  entry_count :: u32
  cache_block_size :: u32
  clock_hand :: u64

record 'd bcache_state = "'d blk_state" +
  cache :: mcsos_bcache

abbreviation entry :: "'d bcache_state \<Rightarrow> nat \<Rightarrow> mcsos_bcache_entry" where
  "entry s i \<equiv> entries (cache s) ! i"

definition set_entry :: "nat \<Rightarrow> (mcsos_bcache_entry \<Rightarrow> mcsos_bcache_entry) \<Rightarrow> 'd bcache_state \<Rightarrow> 'd bcache_state" where
  "set_entry i f s = s\<lparr>cache := (cache s)\<lparr>entries := (entries (cache s))[i := f (entry s i)]\<rparr>\<rparr>"

definition mcsos_bcache_find :: "mcsos_bcache \<Rightarrow> nat \<Rightarrow> u64 \<Rightarrow> nat option" where
  "mcsos_bcache_find c dev lba =
     List.find (\<lambda>i. valid (entries c ! i) \<and> e_dev (entries c ! i) = dev \<and> e_lba (entries c ! i) = lba)
       [0..<unat (entry_count c)]"

definition mcsos_bcache_flush_entry :: "nat \<Rightarrow> ('d bcache_state, mcsos_blk_status, unit) prog" where
  "mcsos_bcache_flush_entry i s =
     (if \<not> valid (entry s i) \<or> \<not> dirty (entry s i) then (Inr (), s)
      else case mcsos_blk_write (e_dev (entry s i)) (e_lba (entry s i)) 1 (Some (data (entry s i))) s of
        (Inl st, buf, s') \<Rightarrow> (Inl st, set_entry i (\<lambda>e. e\<lparr>data := the buf\<rparr>) s')
      | (Inr _, buf, s') \<Rightarrow> (Inr (), set_entry i (\<lambda>e. e\<lparr>data := the buf, dirty := False\<rparr>) s'))"

definition set_clock_hand :: "u64 \<Rightarrow> 'd bcache_state \<Rightarrow> 'd bcache_state" where
  "set_clock_hand h s = s\<lparr>cache := (cache s)\<lparr>clock_hand := h\<rparr>\<rparr>"

definition mcsos_bcache_select_victim :: "('d bcache_state, mcsos_blk_status, nat) prog" where
  "mcsos_bcache_select_victim s =
     (if entry_count (cache s) = 0 then (Inl MCSOS_BLK_EINVAL, s)
      else let start = ucast (clock_hand (cache s) mod ucast (entry_count (cache s))) :: u32 in
        case List.find (\<lambda>pass. \<not> valid (entry s (unat ((start + of_nat pass) mod entry_count (cache s)))))
               [0..<unat (entry_count (cache s))] of
          Some pass \<Rightarrow> (let idx = (start + of_nat pass) mod entry_count (cache s) in
            (Inr (unat idx), set_clock_hand (ucast (idx + 1)) s))
        | None \<Rightarrow>
            pbind (mcsos_bcache_flush_entry (unat start)) (\<lambda>_. pret (unat start)) (set_clock_hand (ucast (start + 1)) s))"

text \<open>The entries, the data pool and its slices.\<close>

definition mcsos_bcache_init ::
  "mcsos_bcache_entry list option \<Rightarrow> u32 \<Rightarrow> bytes option \<Rightarrow> u32 \<Rightarrow> ('d bcache_state, mcsos_blk_status, unit) prog" where
  "mcsos_bcache_init es n pool bsize s =
     (case (es, pool) of
        (Some es, Some pool) \<Rightarrow>
          if n = 0 \<or> bsize = 0 then (Inl MCSOS_BLK_EINVAL, s)
          else (Inr (), s\<lparr>cache := \<lparr>entries = map (\<lambda>i. \<lparr>data = take (unat bsize) (drop (i * unat bsize) pool),
                   capacity = bsize, e_lba = 0, valid = False, dirty = False, e_dev = 0\<rparr>) [0..<unat n] @ drop (unat n) es,
                 entry_count = n, cache_block_size = bsize, clock_hand = 0\<rparr>\<rparr>)
      | _ \<Rightarrow> (Inl MCSOS_BLK_EINVAL, s))"

definition mcsos_bcache_read ::
  "nat \<Rightarrow> u64 \<Rightarrow> bytes option \<Rightarrow> 'd bcache_state \<Rightarrow> (mcsos_blk_status + unit) \<times> bytes option \<times> 'd bcache_state" where
  "mcsos_bcache_read dev lba buffer s =
     (if dev = 0 \<or> buffer = None \<or> cache_block_size (cache s) \<noteq> block_size (devices s dev)
      then (Inl MCSOS_BLK_EINVAL, buffer, s)
      else let copied = (\<lambda>i s. Some (mcsos_memcpy_u8 (the buffer) 0 (data (entry s i)) (unat (cache_block_size (cache s))))) in
        case mcsos_bcache_find (cache s) dev lba of
          Some i \<Rightarrow> (Inr (), copied i s, s)
        | None \<Rightarrow>
          (case mcsos_bcache_select_victim s of
             (Inl st, s1) \<Rightarrow> (Inl st, buffer, s1)
           | (Inr i, s1) \<Rightarrow>
             (case mcsos_blk_read dev lba 1 (Some (data (entry s1 i))) s1 of
                (Inl st, buf, s2) \<Rightarrow> (Inl st, buffer, set_entry i (\<lambda>e. e\<lparr>data := the buf, valid := False\<rparr>) s2)
              | (Inr _, buf, s2) \<Rightarrow>
                (let s3 = set_entry i (\<lambda>e. e\<lparr>data := the buf, e_dev := dev, e_lba := lba, valid := True, dirty := False\<rparr>) s2
                 in (Inr (), copied i s3, s3)))))"

definition mcsos_bcache_write :: "nat \<Rightarrow> u64 \<Rightarrow> bytes option \<Rightarrow> ('d bcache_state, mcsos_blk_status, unit) prog" where
  "mcsos_bcache_write dev lba buffer s =
     (if dev = 0 \<or> buffer = None \<or> cache_block_size (cache s) \<noteq> block_size (devices s dev)
      then (Inl MCSOS_BLK_EINVAL, s)
      else let store = (\<lambda>i s. set_entry i (\<lambda>e. e\<lparr>data := mcsos_memcpy_u8 (data e) 0 (the buffer) (unat (cache_block_size (cache s))),
                 dirty := True\<rparr>) s) in
        case mcsos_bcache_find (cache s) dev lba of
          Some i \<Rightarrow> (Inr (), store i s)
        | None \<Rightarrow>
          (case mcsos_bcache_select_victim s of
             (Inl st, s1) \<Rightarrow> (Inl st, s1)
           | (Inr i, s1) \<Rightarrow>
               (Inr (), store i (set_entry i (\<lambda>e. e\<lparr>e_dev := dev, e_lba := lba, valid := True, dirty := False\<rparr>) s1))))"

text \<open>A cache whose entries are NULL is not represented.\<close>

definition mcsos_bcache_flush_all :: "('d bcache_state, mcsos_blk_status, unit) prog" where
  "mcsos_bcache_flush_all s = pfor [0..<unat (entry_count (cache s))] mcsos_bcache_flush_entry s"

end
