(* ===== verification/Block_Cache.thy ===== *)
theory Block_Cache
  imports Block
begin

text \<open>
  The block cache is transparent (\<open>src/kernel/block\<close>). The locale \<open>blk_driver\<close> is what the cache relies on
  in a driver, \<open>reliable_driver\<close> adds that it never fails, and the RAM disk of \<open>ramblk.c\<close> is an instance of
  both. Within the locale: the cache invariant, the effect of every operation on the view of a client,
  and the refinement of abstract disks.
\<close>

section \<open>What a driver promises\<close>

text \<open>
  Of a device in a good state, the contents of its blocks are \<open>blk\<close>. A one-block read returns the block
  or fails; a one-block write stores the block, or fails and leaves anything in that block; it changes no
  other block; the device stays good, and a write does not change the buffer.
\<close>

locale blk_driver =
  fixes vt :: "'d mcsos_blk_ops"
    and good :: "'d mcsos_blk_data \<Rightarrow> bool"
    and blk :: "'d mcsos_blk_data \<Rightarrow> nat \<Rightarrow> bytes"
  assumes blk_length: "good d \<Longrightarrow> b < unat (block_count d) \<Longrightarrow> length (blk d b) = unat (block_size d)"
    and read_block: "good d \<Longrightarrow> lba < block_count d \<Longrightarrow> length buf = unat (block_size d) \<Longrightarrow>
      \<exists>r buf' dd. op_read vt d lba 1 (Some buf) = (r, Some buf', dd) \<and> length buf' = length buf \<and>
        good (d\<lparr>driver_data := dd\<rparr>) \<and> blk (d\<lparr>driver_data := dd\<rparr>) = blk d \<and> (r = Inr () \<longrightarrow> buf' = blk d (unat lba))"
    and write_block: "good d \<Longrightarrow> lba < block_count d \<Longrightarrow> length buf = unat (block_size d) \<Longrightarrow>
      \<exists>r dd. op_write vt d lba 1 (Some buf) = (r, Some buf, dd) \<and> good (d\<lparr>driver_data := dd\<rparr>) \<and>
        (\<forall>b<unat (block_count d). b \<noteq> unat lba \<longrightarrow> blk (d\<lparr>driver_data := dd\<rparr>) b = blk d b) \<and>
        (r = Inr () \<longrightarrow> blk (d\<lparr>driver_data := dd\<rparr>) (unat lba) = buf)"

text \<open>A driver that never fails on a block of the device.\<close>

locale reliable_driver = blk_driver +
  assumes read_done: "good d \<Longrightarrow> lba < block_count d \<Longrightarrow> length buf = unat (block_size d) \<Longrightarrow>
      fst (op_read vt d lba 1 (Some buf)) = Inr ()"
    and write_done: "good d \<Longrightarrow> lba < block_count d \<Longrightarrow> length buf = unat (block_size d) \<Longrightarrow>
      fst (op_write vt d lba 1 (Some buf)) = Inr ()"

context blk_driver
begin

definition dev_ok :: "('d, 'z) blk_state_scheme \<Rightarrow> nat \<Rightarrow> bool" where
  "dev_ok s d \<longleftrightarrow> d \<noteq> 0 \<and> ops (devices s d) = Some vt \<and> good (dev_data s d)"

definition contents :: "('d, 'z) blk_state_scheme \<Rightarrow> nat \<Rightarrow> nat \<Rightarrow> bytes" where
  "contents s d b = blk (dev_data s d) b"

definition put_data :: "('d, 'z) blk_state_scheme \<Rightarrow> nat \<Rightarrow> 'd \<Rightarrow> ('d, 'z) blk_state_scheme" where
  "put_data s d dd = s\<lparr>devices := (devices s)(d := (devices s d)\<lparr>driver_data := dd\<rparr>)\<rparr>"

lemma put_data_simps [simp]:
  "dev_data (put_data s d dd) d' = (if d' = d then (dev_data s d)\<lparr>driver_data := dd\<rparr> else dev_data s d')"
  "ops (devices (put_data s d dd) d') = ops (devices s d')" "block_size (devices (put_data s d dd) d') = block_size (devices s d')"
  "block_count (devices (put_data s d dd) d') = block_count (devices s d')"
  by (simp_all add: put_data_def mcsos_blk_data.truncate_def)

lemma truncate_simps [simp]:
  "block_count (dev_data s d) = block_count (devices s d)" "block_size (dev_data s d) = block_size (devices s d)"
  by (simp_all add: mcsos_blk_data.truncate_def)

lemma range_one: "lba < block_count (devices s d) \<Longrightarrow> dev_ok s d \<Longrightarrow> mcsos_blk_validate_range d lba 1 (Some buf) s = Inr ()"
  by (auto simp: mcsos_blk_validate_range_def dev_ok_def word_less_nat_alt word_le_nat_alt unat_sub_if_size)

lemma range_err: "\<not> lba < block_count (devices s d) \<Longrightarrow> dev_ok s d \<Longrightarrow> mcsos_blk_validate_range d lba 1 (Some buf) s = Inl MCSOS_BLK_ERANGE"
  by (auto simp: mcsos_blk_validate_range_def dev_ok_def)

lemma blk_read_one:
  assumes d: "dev_ok s d" and l: "lba < block_count (devices s d)" and b: "length buf = unat (block_size (devices s d))"
  obtains r buf' dd where "mcsos_blk_read d lba 1 (Some buf) s = (r, Some buf', put_data s d dd)" "length buf' = length buf"
    "dev_ok (put_data s d dd) d" "contents (put_data s d dd) = contents s" "r = Inr () \<Longrightarrow> buf' = contents s d (unat lba)"
proof -
  obtain r buf' dd where "op_read vt (dev_data s d) lba 1 (Some buf) = (r, Some buf', dd)" "length buf' = length buf"
    "good ((dev_data s d)\<lparr>driver_data := dd\<rparr>)" "blk ((dev_data s d)\<lparr>driver_data := dd\<rparr>) = blk (dev_data s d)"
    "r = Inr () \<longrightarrow> buf' = blk (dev_data s d) (unat lba)"
    using read_block [of "dev_data s d" lba buf] d l b by (auto simp: dev_ok_def)
  then show ?thesis using d
    by (intro that [of r buf' dd]) (simp_all add: mcsos_blk_read_def range_one [OF l d] blk_call_def put_data_def
        dev_ok_def contents_def fun_eq_iff mcsos_blk_data.truncate_def)
qed

lemma blk_write_one:
  assumes d: "dev_ok s d" and l: "lba < block_count (devices s d)" and b: "length buf = unat (block_size (devices s d))"
  obtains r dd x where "mcsos_blk_write d lba 1 (Some buf) s = (r, Some buf, put_data s d dd)" "dev_ok (put_data s d dd) d"
    "\<forall>d' b'. b' < unat (block_count (devices s d')) \<longrightarrow>
       contents (put_data s d dd) d' b' = (if d' = d \<and> b' = unat lba then x else contents s d' b')"
    "r = Inr () \<Longrightarrow> x = buf"
proof -
  obtain r dd where o: "op_write vt (dev_data s d) lba 1 (Some buf) = (r, Some buf, dd)"
    "good ((dev_data s d)\<lparr>driver_data := dd\<rparr>)"
    "\<forall>b<unat (block_count (devices s d)). b \<noteq> unat lba \<longrightarrow> blk ((dev_data s d)\<lparr>driver_data := dd\<rparr>) b = blk (dev_data s d) b"
    "r = Inr () \<longrightarrow> blk ((dev_data s d)\<lparr>driver_data := dd\<rparr>) (unat lba) = buf"
    using write_block [of "dev_data s d" lba buf, unfolded truncate_simps] d l b unfolding dev_ok_def by blast
  show ?thesis
  proof (rule that)
    show "mcsos_blk_write d lba 1 (Some buf) s = (r, Some buf, put_data s d dd)"
      using o(1) d by (simp add: mcsos_blk_write_def range_one [OF l d] blk_call_def put_data_def dev_ok_def)
    show "dev_ok (put_data s d dd) d" using o(2) d by (simp add: dev_ok_def)
    show "\<forall>d' b'. b' < unat (block_count (devices s d')) \<longrightarrow> contents (put_data s d dd) d' b' =
        (if d' = d \<and> b' = unat lba then blk ((dev_data s d)\<lparr>driver_data := dd\<rparr>) (unat lba) else contents s d' b')"
      using o(3) by (auto simp: contents_def)
  qed (use o(4) in simp)
qed

section \<open>The cache invariant and the view of a client\<close>

text \<open>
  Every valid entry holds one block of a device of \<open>D\<close>, no block is held twice, and an entry that is not
  dirty agrees with the device. The view of a client is the entry of a block where there is one.
\<close>

definition cache_ok :: "nat set \<Rightarrow> 'd bcache_state \<Rightarrow> bool" where
  "cache_ok D s \<longleftrightarrow> length (entries (cache s)) = unat (entry_count (cache s)) \<and> entry_count (cache s) \<noteq> 0 \<and>
     (\<forall>d\<in>D. dev_ok s d \<and> block_size (devices s d) = cache_block_size (cache s)) \<and>
     (\<forall>i<unat (entry_count (cache s)). length (data (entry s i)) = unat (cache_block_size (cache s)) \<and>
        (valid (entry s i) \<longrightarrow> e_dev (entry s i) \<in> D \<and> e_lba (entry s i) < block_count (devices s (e_dev (entry s i))) \<and>
          (\<not> dirty (entry s i) \<longrightarrow> data (entry s i) = contents s (e_dev (entry s i)) (unat (e_lba (entry s i)))))) \<and>
     (\<forall>i<unat (entry_count (cache s)). \<forall>j<unat (entry_count (cache s)). valid (entry s i) \<longrightarrow> valid (entry s j) \<longrightarrow>
        e_dev (entry s i) = e_dev (entry s j) \<longrightarrow> e_lba (entry s i) = e_lba (entry s j) \<longrightarrow> i = j)"

definition view :: "'d bcache_state \<Rightarrow> nat \<Rightarrow> u64 \<Rightarrow> bytes" where
  "view s d lba = (case mcsos_bcache_find (cache s) d lba of
     Some i \<Rightarrow> data (entry s i) | None \<Rightarrow> contents s d (unat lba))"

definition in_range :: "nat set \<Rightarrow> 'd bcache_state \<Rightarrow> nat \<Rightarrow> u64 \<Rightarrow> bool" where
  "in_range D s d lba \<longleftrightarrow> d \<in> D \<and> lba < block_count (devices s d)"

lemma cache_okD:
  assumes "cache_ok D s"
  shows "length (entries (cache s)) = unat (entry_count (cache s))" "entry_count (cache s) \<noteq> 0"
    "d \<in> D \<Longrightarrow> dev_ok s d" "d \<in> D \<Longrightarrow> block_size (devices s d) = cache_block_size (cache s)"
    "i < unat (entry_count (cache s)) \<Longrightarrow> length (data (entry s i)) = unat (cache_block_size (cache s))"
    "i < unat (entry_count (cache s)) \<Longrightarrow> valid (entry s i) \<Longrightarrow> in_range D s (e_dev (entry s i)) (e_lba (entry s i))"
    "i < unat (entry_count (cache s)) \<Longrightarrow> valid (entry s i) \<Longrightarrow> \<not> dirty (entry s i) \<Longrightarrow>
       data (entry s i) = contents s (e_dev (entry s i)) (unat (e_lba (entry s i)))"
    "i < unat (entry_count (cache s)) \<Longrightarrow> j < unat (entry_count (cache s)) \<Longrightarrow> valid (entry s i) \<Longrightarrow> valid (entry s j) \<Longrightarrow>
       e_dev (entry s i) = e_dev (entry s j) \<Longrightarrow> e_lba (entry s i) = e_lba (entry s j) \<Longrightarrow> i = j"
  using assms unfolding cache_ok_def in_range_def by blast+

lemma find_None_iff': "mcsos_bcache_find (cache s) d lba = None \<longleftrightarrow>
    (\<forall>i<unat (entry_count (cache s)). \<not> (valid (entry s i) \<and> e_dev (entry s i) = d \<and> e_lba (entry s i) = lba))"
  unfolding mcsos_bcache_find_def find_upt_None_iff by blast

lemma find_Some_iff':
  assumes "cache_ok D s"
  shows "mcsos_bcache_find (cache s) d lba = Some i \<longleftrightarrow>
    i < unat (entry_count (cache s)) \<and> valid (entry s i) \<and> e_dev (entry s i) = d \<and> e_lba (entry s i) = lba"
proof
  assume "mcsos_bcache_find (cache s) d lba = Some i"
  then show "i < unat (entry_count (cache s)) \<and> valid (entry s i) \<and> e_dev (entry s i) = d \<and> e_lba (entry s i) = lba"
    unfolding mcsos_bcache_find_def using find_upt_SomeD(2,3) by fast
next
  assume i: "i < unat (entry_count (cache s)) \<and> valid (entry s i) \<and> e_dev (entry s i) = d \<and> e_lba (entry s i) = lba"
  then obtain j where j: "mcsos_bcache_find (cache s) d lba = Some j"
    using find_None_iff' [of s d lba] by (cases "mcsos_bcache_find (cache s) d lba") auto
  then have "j < unat (entry_count (cache s)) \<and> valid (entry s j) \<and> e_dev (entry s j) = d \<and> e_lba (entry s j) = lba"
    unfolding mcsos_bcache_find_def using find_upt_SomeD(2,3) by fast
  then show "mcsos_bcache_find (cache s) d lba = Some i" using j cache_okD(8) [OF assms, of i j] i by simp
qed

lemma view_hit: "cache_ok D s \<Longrightarrow> i < unat (entry_count (cache s)) \<Longrightarrow> valid (entry s i) \<Longrightarrow>
    view s (e_dev (entry s i)) (e_lba (entry s i)) = data (entry s i)"
  using find_Some_iff' [of D s "e_dev (entry s i)" "e_lba (entry s i)" i] by (simp add: view_def)

lemma view_miss: "mcsos_bcache_find (cache s) d lba = None \<Longrightarrow> view s d lba = contents s d (unat lba)"
  by (simp add: view_def)

lemma set_entry_simps [simp]:
  "devices (set_entry i f s) = devices s" "entry_count (cache (set_entry i f s)) = entry_count (cache s)"
  "cache_block_size (cache (set_entry i f s)) = cache_block_size (cache s)" "length (entries (cache (set_entry i f s))) = length (entries (cache s))"
  "contents (set_entry i f s) = contents s" "dev_ok (set_entry i f s) = dev_ok s"
  by (auto simp: set_entry_def contents_def dev_ok_def fun_eq_iff)

lemma entry_set_entry: "i < length (entries (cache s)) \<Longrightarrow> entry (set_entry i f s) j = (if j = i then f (entry s i) else entry s j)"
  by (simp add: set_entry_def)

text \<open>One entry changes: it becomes invalid, or holds a block no other entry holds.\<close>

definition fits :: "nat set \<Rightarrow> 'd bcache_state \<Rightarrow> nat \<Rightarrow> mcsos_bcache_entry \<Rightarrow> bool" where
  "fits D s i e \<longleftrightarrow> length (data e) = unat (cache_block_size (cache s)) \<and>
     (valid e \<longrightarrow> in_range D s (e_dev e) (e_lba e) \<and> (\<not> dirty e \<longrightarrow> data e = contents s (e_dev e) (unat (e_lba e))) \<and>
       (\<forall>j<unat (entry_count (cache s)). j \<noteq> i \<longrightarrow> valid (entry s j) \<longrightarrow>
          \<not> (e_dev (entry s j) = e_dev e \<and> e_lba (entry s j) = e_lba e)))"

lemma entry_fits: "cache_ok D s \<Longrightarrow> i < unat (entry_count (cache s)) \<Longrightarrow> fits D s i (entry s i)"
  using cache_okD(5-7) [of D s i] cache_okD(8) [of D s _ i] by (auto simp: fits_def)

lemma cache_okI:
  assumes "length (entries (cache s)) = unat (entry_count (cache s))" "entry_count (cache s) \<noteq> 0"
    "\<And>d. d \<in> D \<Longrightarrow> dev_ok s d" "\<And>d. d \<in> D \<Longrightarrow> block_size (devices s d) = cache_block_size (cache s)"
    "\<And>i. i < unat (entry_count (cache s)) \<Longrightarrow> fits D s i (entry s i)"
  shows "cache_ok D s"
  using assms unfolding cache_ok_def fits_def in_range_def by metis

lemma change_entry_ok:
  assumes ok: "cache_ok D s" and i: "i < unat (entry_count (cache s))" and f: "fits D s i (f (entry s i))"
  shows "cache_ok D (set_entry i f s)"
proof (rule cache_okI)
  fix j assume j: "j < unat (entry_count (cache (set_entry i f s)))"
  then show "fits D (set_entry i f s) j (entry (set_entry i f s) j)"
    using i cache_okD(1) [OF ok] f entry_fits [OF ok, of j] by (auto simp: fits_def in_range_def entry_set_entry)
qed (use cache_okD [OF ok] in simp_all)

text \<open>A client sees the new entry at its block, and the device at the block that the entry held before.\<close>

lemma change_entry_view:
  assumes ok: "cache_ok D s" and i: "i < unat (entry_count (cache s))" and f: "fits D s i (f (entry s i))"
  shows "view (set_entry i f s) d lba =
      (if valid (f (entry s i)) \<and> e_dev (f (entry s i)) = d \<and> e_lba (f (entry s i)) = lba then data (f (entry s i))
       else if valid (entry s i) \<and> e_dev (entry s i) = d \<and> e_lba (entry s i) = lba then contents s d (unat lba)
       else view s d lba)"
proof -
  note e = entry_set_entry [of i s f] and len = cache_okD(1) [OF ok] and ok' = change_entry_ok [where f = f, OF ok i f]
  show ?thesis
  proof (cases "mcsos_bcache_find (cache (set_entry i f s)) d lba")
    case (Some j)
    then have j: "j < unat (entry_count (cache s))" "valid (entry (set_entry i f s) j)" "e_dev (entry (set_entry i f s) j) = d"
      "e_lba (entry (set_entry i f s) j) = lba" using find_Some_iff' [OF ok', of d lba j] by simp_all
    then show ?thesis
      using Some i len view_hit [OF ok j(1)] f cache_okD(8) [OF ok i j(1)] by (cases "j = i") (auto simp: view_def e fits_def)
  next
    case None
    then have n: "\<not> (valid (f (entry s i)) \<and> e_dev (f (entry s i)) = d \<and> e_lba (f (entry s i)) = lba)"
      "\<And>j. j < unat (entry_count (cache s)) \<Longrightarrow> j \<noteq> i \<Longrightarrow> \<not> (valid (entry s j) \<and> e_dev (entry s j) = d \<and> e_lba (entry s j) = lba)"
      using i len unfolding find_None_iff' by (auto simp: e)
    have "view s d lba = contents s d (unat lba)" if "\<not> (valid (entry s i) \<and> e_dev (entry s i) = d \<and> e_lba (entry s i) = lba)"
      by (rule view_miss) (use n(2) that in \<open>unfold find_None_iff', blast\<close>)
    then show ?thesis using None n(1) by (auto simp: view_def)
  qed
qed

text \<open>The driver data of one device changes: only a block of a dirty entry may differ.\<close>

lemma change_device:
  assumes ok: "cache_ok D s" and d: "dev_ok (put_data s d dd) d"
    and c: "\<And>d' b. d' \<in> D \<Longrightarrow> b < unat (block_count (devices s d')) \<Longrightarrow>
      contents (put_data s d dd) d' b = (if d' = d \<and> hit b then x else contents s d' b)"
    and h: "\<And>b. hit b \<Longrightarrow> i < unat (entry_count (cache s)) \<and> valid (entry s i) \<and> e_dev (entry s i) = d \<and>
      unat (e_lba (entry s i)) = b \<and> dirty (entry s i)"
  shows "cache_ok D (put_data s d dd)" "in_range D s d' lba \<Longrightarrow> view (put_data s d dd) d' lba = view s d' lba"
proof -
  let ?s = "put_data s d dd"
  have ca: "cache ?s = cache s" by (simp add: put_data_def)
  have dev: "dev_ok ?s d'" if "d' \<in> D" for d' using d cache_okD(3) [OF ok that] by (cases "d' = d") (simp_all add: dev_ok_def)
  show "cache_ok D ?s"
    unfolding cache_ok_def ca
  proof (intro conjI allI impI ballI)
    fix j assume j: "j < unat (entry_count (cache s))" "valid (entry s j)" "\<not> dirty (entry s j)"
    note r = cache_okD(6) [OF ok j(1,2)]
    show "data (entry s j) = contents ?s (e_dev (entry s j)) (unat (e_lba (entry s j)))"
    proof (cases "e_dev (entry s j) = d \<and> hit (unat (e_lba (entry s j)))")
      case True
      then have e: "i < unat (entry_count (cache s))" "valid (entry s i)" "e_dev (entry s i) = e_dev (entry s j)"
        "e_lba (entry s i) = e_lba (entry s j)" using h [of "unat (e_lba (entry s j))"] by (simp_all add: word_unat_eq_iff)
      then have "i = j" using cache_okD(8) [OF ok e(1) j(1) e(2) j(2)] by blast
      moreover have "dirty (entry s i)" using True h by blast
      ultimately show ?thesis using j(3) by simp
    next
      case False
      then have "contents ?s (e_dev (entry s j)) (unat (e_lba (entry s j))) = contents s (e_dev (entry s j)) (unat (e_lba (entry s j)))"
        using c [of "e_dev (entry s j)" "unat (e_lba (entry s j))"] r by (auto simp: in_range_def word_less_nat_alt)
      then show ?thesis using cache_okD(7) [OF ok j] by simp
    qed
  qed (use cache_okD [OF ok] dev in \<open>auto simp: in_range_def\<close>)
  show "view ?s d' lba = view s d' lba" if r: "in_range D s d' lba"
  proof (cases "mcsos_bcache_find (cache s) d' lba")
    case None
    have "\<not> (d' = d \<and> hit (unat lba))"
    proof
      assume "d' = d \<and> hit (unat lba)"
      then have "i < unat (entry_count (cache s)) \<and> valid (entry s i) \<and> e_dev (entry s i) = d' \<and> e_lba (entry s i) = lba"
        using h [of "unat lba"] by (simp add: word_unat_eq_iff)
      then show False using None unfolding find_None_iff' by blast
    qed
    then show ?thesis using None c [of d' "unat lba"] r by (auto simp: view_def ca in_range_def word_less_nat_alt)
  next
    case (Some j)
    then show ?thesis by (simp add: view_def ca)
  qed
qed

text \<open>The state reached by a step that changes nothing a client sees.\<close>

definition same_view :: "nat set \<Rightarrow> 'd bcache_state \<Rightarrow> 'd bcache_state \<Rightarrow> bool" where
  "same_view D s s' \<longleftrightarrow> cache_ok D s' \<and> entry_count (cache s') = entry_count (cache s) \<and>
     cache_block_size (cache s') = cache_block_size (cache s) \<and>
     (\<forall>d. block_count (devices s' d) = block_count (devices s d)) \<and>
     (\<forall>d lba. in_range D s d lba \<longrightarrow> view s' d lba = view s d lba)"

lemma same_viewD:
  assumes "same_view D s s'"
  shows "cache_ok D s'" "entry_count (cache s') = entry_count (cache s)" "cache_block_size (cache s') = cache_block_size (cache s)"
    "block_count (devices s' d) = block_count (devices s d)" "in_range D s' d lba = in_range D s d lba"
    "in_range D s d lba \<Longrightarrow> view s' d lba = view s d lba"
  using assms by (auto simp: same_view_def in_range_def)

lemma same_view_refl: "cache_ok D s \<Longrightarrow> same_view D s s"
  by (simp add: same_view_def)

lemma same_view_trans: "same_view D s s' \<Longrightarrow> same_view D s' s'' \<Longrightarrow> same_view D s s''"
  by (simp add: same_view_def in_range_def)

lemma change_data_same:
  assumes "cache_ok D s" "dev_ok (put_data s d dd) d" "contents (put_data s d dd) = contents s"
  shows "same_view D s (put_data s d dd)"
  using change_device [OF assms(1,2), of "\<lambda>_. False"] assms(3) by (simp add: same_view_def) (simp add: put_data_def)

text \<open>A dirty entry is written to its device: a client sees no difference, and then the device agrees with the entry.\<close>

lemma flush_write:
  assumes ok: "cache_ok D s" and i: "i < unat (entry_count (cache s))" and v: "valid (entry s i)" "dirty (entry s i)"
  obtains r dd where "mcsos_blk_write (e_dev (entry s i)) (e_lba (entry s i)) 1 (Some (data (entry s i))) s =
      (r, Some (data (entry s i)), put_data s (e_dev (entry s i)) dd)" "same_view D s (put_data s (e_dev (entry s i)) dd)"
    "r = Inr () \<Longrightarrow> contents (put_data s (e_dev (entry s i)) dd) (e_dev (entry s i)) (unat (e_lba (entry s i))) = data (entry s i)"
proof -
  let ?e = "entry s i"
  note r = cache_okD(6) [OF ok i v(1)]
  have d: "dev_ok s (e_dev ?e)" "e_lba ?e < block_count (devices s (e_dev ?e))" "length (data ?e) = unat (block_size (devices s (e_dev ?e)))"
    using r cache_okD(3-5) [OF ok] i by (auto simp: in_range_def)
  obtain rr dd x where w: "mcsos_blk_write (e_dev ?e) (e_lba ?e) 1 (Some (data ?e)) s = (rr, Some (data ?e), put_data s (e_dev ?e) dd)"
    "dev_ok (put_data s (e_dev ?e) dd) (e_dev ?e)"
    "\<forall>d' b'. b' < unat (block_count (devices s d')) \<longrightarrow>
       contents (put_data s (e_dev ?e) dd) d' b' = (if d' = e_dev ?e \<and> b' = unat (e_lba ?e) then x else contents s d' b')"
    "rr = Inr () \<Longrightarrow> x = data ?e"
    by (rule blk_write_one [OF d]) blast
  have "same_view D s (put_data s (e_dev ?e) dd)"
    using change_device [OF ok w(2), of "\<lambda>b. b = unat (e_lba ?e)" x i] w(3) i v
    by (simp add: same_view_def) (simp add: put_data_def)
  moreover have "contents (put_data s (e_dev ?e) dd) (e_dev ?e) (unat (e_lba ?e)) = data ?e" if "rr = Inr ()"
    using w(3) w(4) [OF that] d(2) by (simp add: word_less_nat_alt)
  ultimately show ?thesis using that [OF w(1)] by blast
qed

text \<open>The dirty bit of an entry that agrees with its device is cleared.\<close>

lemma clean_entry:
  assumes ok: "cache_ok D s" and i: "i < unat (entry_count (cache s))" and v: "valid (entry s i)"
    and c: "contents s (e_dev (entry s i)) (unat (e_lba (entry s i))) = data (entry s i)"
  shows "same_view D s (set_entry i (\<lambda>e. e\<lparr>data := data (entry s i), dirty := False\<rparr>) s)"
proof -
  let ?f = "\<lambda>e. e\<lparr>data := data (entry s i), dirty := False\<rparr>"
  have f: "fits D s i (?f (entry s i))" using entry_fits [OF ok i] v c by (simp add: fits_def)
  have "view (set_entry i ?f s) d lba = view s d lba" for d lba
    using change_entry_view [where f = ?f, OF ok i f, of d lba] view_hit [OF ok i v] v by auto
  then show ?thesis using change_entry_ok [where f = ?f, OF ok i f] by (simp add: same_view_def)
qed

lemma flush_entry_ok:
  assumes ok: "cache_ok D s" and i: "i < unat (entry_count (cache s))"
  obtains r s' where "mcsos_bcache_flush_entry i s = (r, s')" "same_view D s s'"
    "\<And>j. (valid (entry s' j), e_dev (entry s' j), e_lba (entry s' j)) = (valid (entry s j), e_dev (entry s j), e_lba (entry s j))"
    "\<And>j. dirty (entry s' j) \<Longrightarrow> dirty (entry s j)"
    "r = Inr () \<Longrightarrow> \<not> (valid (entry s' i) \<and> dirty (entry s' i))"
proof (cases "valid (entry s i) \<and> dirty (entry s i)")
  case False
  then show ?thesis using that [of "Inr ()" s] same_view_refl [OF ok] by (auto simp: mcsos_bcache_flush_entry_def)
next
  case True
  let ?e = "entry s i"
  obtain r dd where w: "mcsos_blk_write (e_dev ?e) (e_lba ?e) 1 (Some (data ?e)) s = (r, Some (data ?e), put_data s (e_dev ?e) dd)"
    "same_view D s (put_data s (e_dev ?e) dd)"
    "r = Inr () \<Longrightarrow> contents (put_data s (e_dev ?e) dd) (e_dev ?e) (unat (e_lba ?e)) = data ?e"
    by (rule flush_write [OF ok i conjunct1 [OF True] conjunct2 [OF True]]) blast
  let ?s = "put_data s (e_dev ?e) dd"
  have ca: "cache ?s = cache s" by (simp add: put_data_def)
  have i': "i < unat (entry_count (cache ?s))" "i < length (entries (cache ?s))" using i ca cache_okD(1) [OF ok] by simp_all
  show ?thesis
  proof (cases r)
    case (Inl e)
    have "set_entry i (\<lambda>e. e\<lparr>data := data ?e\<rparr>) ?s = ?s" by (simp add: set_entry_def ca)
    then have "mcsos_bcache_flush_entry i s = (Inl e, ?s)" using True w(1) Inl by (simp add: mcsos_bcache_flush_entry_def)
    then show ?thesis using that [of "Inl e" ?s] w(2) ca by simp
  next
    case (Inr u)
    let ?s' = "set_entry i (\<lambda>e. e\<lparr>data := data ?e, dirty := False\<rparr>) ?s"
    have run: "mcsos_bcache_flush_entry i s = (Inr (), ?s')" using True w(1) Inr by (simp add: mcsos_bcache_flush_entry_def)
    have "same_view D ?s ?s'" using clean_entry [OF same_viewD(1) [OF w(2)] i'(1)] True w(3) Inr by (simp add: ca)
    then show ?thesis
      by (rule that [OF run same_view_trans [OF w(2)]]) (use True i'(2) in \<open>auto simp: entry_set_entry ca split: if_splits\<close>)
  qed
qed

lemma set_clock_hand_simps [simp]:
  "entries (cache (set_clock_hand h s)) = entries (cache s)" "entry_count (cache (set_clock_hand h s)) = entry_count (cache s)"
  "cache_block_size (cache (set_clock_hand h s)) = cache_block_size (cache s)" "devices (set_clock_hand h s) = devices s"
  "contents (set_clock_hand h s) = contents s" "dev_ok (set_clock_hand h s) = dev_ok s"
  "mcsos_bcache_find (cache (set_clock_hand h s)) = mcsos_bcache_find (cache s)"
  by (auto simp: set_clock_hand_def contents_def dev_ok_def mcsos_bcache_find_def fun_eq_iff)

lemma set_clock_hand_same: "cache_ok D s \<Longrightarrow> same_view D s (set_clock_hand h s)"
  by (simp add: same_view_def view_def split: option.split) (simp add: cache_ok_def)

text \<open>The victim is free to be overwritten, and no other entry was touched.\<close>

lemma select_victim_ok:
  assumes ok: "cache_ok D s"
  obtains e s' where "mcsos_bcache_select_victim s = (Inl e, s')" "same_view D s s'"
  | i s' where "mcsos_bcache_select_victim s = (Inr i, s')" "same_view D s s'" "i < unat (entry_count (cache s))"
      "\<not> (valid (entry s' i) \<and> dirty (entry s' i))"
      "\<And>d lba. mcsos_bcache_find (cache s') d lba = mcsos_bcache_find (cache s) d lba"
proof -
  let ?n = "entry_count (cache s)"
  have n: "?n \<noteq> 0" using cache_okD(2) [OF ok] .
  define start where "start = (ucast (clock_hand (cache s) mod ucast ?n) :: u32)"
  have n': "0 < unat ?n" using n by (simp add: unat_gt_0)
  have st: "unat start < unat ?n"
  proof -
    have u: "unat (ucast ?n :: u64) = unat ?n" using unat_u32_lt [of ?n] by (simp add: unsigned_ucast_eq take_bit_nat_eq_self)
    have "unat (clock_hand (cache s) mod ucast ?n) < unat ?n" using n' by (simp add: unat_mod u)
    then show ?thesis unfolding start_def using unat_u32_lt [of ?n] by (simp add: unsigned_ucast_eq take_bit_nat_eq_self)
  qed
  show ?thesis
  proof (cases "List.find (\<lambda>pass. \<not> valid (entry s (unat ((start + of_nat pass) mod ?n)))) [0..<unat ?n]")
    case (Some p)
    define idx where "idx = (start + of_nat p) mod ?n"
    let ?s = "set_clock_hand (ucast (idx + 1)) s"
    have run: "mcsos_bcache_select_victim s = (Inr (unat idx), ?s)"
      using n Some by (simp add: mcsos_bcache_select_victim_def start_def [symmetric] Let_def idx_def)
    have "unat idx < unat ?n" using n' by (simp add: idx_def unat_mod)
    moreover have "\<not> valid (entry s (unat idx))" using find_upt_SomeD(3) [OF Some] by (simp add: idx_def)
    ultimately show ?thesis using set_clock_hand_same [OF ok]
      by (intro that(2) [OF run]) (simp_all add: mcsos_bcache_find_def)
  next
    case None
    let ?s = "set_clock_hand (ucast (start + 1)) s"
    note sv = set_clock_hand_same [OF ok, of "ucast (start + 1)"]
    have st': "unat start < unat (entry_count (cache ?s))" using st by simp
    obtain r s' where f: "mcsos_bcache_flush_entry (unat start) ?s = (r, s')" "same_view D ?s s'"
      "\<And>j. (valid (entry s' j), e_dev (entry s' j), e_lba (entry s' j)) = (valid (entry ?s j), e_dev (entry ?s j), e_lba (entry ?s j))"
      "r = Inr () \<Longrightarrow> \<not> (valid (entry s' (unat start)) \<and> dirty (entry s' (unat start)))"
      by (rule flush_entry_ok [OF same_viewD(1) [OF sv] st']) blast
    have run: "mcsos_bcache_select_victim s = (case r of Inl e \<Rightarrow> (Inl e, s') | Inr _ \<Rightarrow> (Inr (unat start), s'))"
      using n None f(1) by (cases r) (simp_all add: mcsos_bcache_select_victim_def start_def [symmetric] prog_run)
    note sv' = same_view_trans [OF sv f(2)]
    have "mcsos_bcache_find (cache s') d lba = mcsos_bcache_find (cache s) d lba" for d lba
      using f(3) same_viewD(2) [OF sv'] by (simp add: mcsos_bcache_find_def)
    then show ?thesis using run sv' st f(4) that by (cases r) auto
  qed
qed

text \<open>Overwriting a victim: the block of the new entry gets its data, nothing else changes.\<close>

lemma clean_view:
  assumes "cache_ok D s" "i < unat (entry_count (cache s))" "\<not> (valid (entry s i) \<and> dirty (entry s i))"
    "valid (entry s i)" "e_dev (entry s i) = d" "e_lba (entry s i) = lba"
  shows "contents s d (unat lba) = view s d lba"
  using view_hit [OF assms(1,2,4)] cache_okD(7) [OF assms(1,2,4)] assms(3-6) by auto

lemma fill_entry:
  assumes ok: "cache_ok D s" and i: "i < unat (entry_count (cache s))" and v: "\<not> (valid (entry s i) \<and> dirty (entry s i))"
    and f: "length (data (f (entry s i))) = unat (cache_block_size (cache s))"
      "valid (f (entry s i))" "e_dev (f (entry s i)) = d" "e_lba (f (entry s i)) = lba"
    and m: "mcsos_bcache_find (cache s) d lba = None" "in_range D s d lba"
    and c: "\<not> dirty (f (entry s i)) \<Longrightarrow> data (f (entry s i)) = contents s d (unat lba)"
  shows "cache_ok D (set_entry i f s)"
    "view (set_entry i f s) d' lba' = (if d' = d \<and> lba' = lba then data (f (entry s i)) else view s d' lba')"
proof -
  have b: "fits D s i (f (entry s i))" using m c f unfolding fits_def find_None_iff' by auto
  show "cache_ok D (set_entry i f s)" by (rule change_entry_ok [where f = f, OF ok i b])
  show "view (set_entry i f s) d' lba' = (if d' = d \<and> lba' = lba then data (f (entry s i)) else view s d' lba')"
    using change_entry_view [where f = f, OF ok i b, of d' lba'] f clean_view [OF ok i v, of d' lba'] by auto
qed

lemma discard_entry:
  assumes ok: "cache_ok D s" and i: "i < unat (entry_count (cache s))" and v: "\<not> (valid (entry s i) \<and> dirty (entry s i))"
    and f: "length (data (f (entry s i))) = unat (cache_block_size (cache s))" "\<not> valid (f (entry s i))"
  shows "same_view D s (set_entry i f s)"
proof -
  have b: "fits D s i (f (entry s i))" using f by (simp add: fits_def)
  show ?thesis using change_entry_ok [where f = f, OF ok i b] change_entry_view [where f = f, OF ok i b] f(2) clean_view [OF ok i v]
    by (auto simp: same_view_def)
qed

section \<open>The operations\<close>

lemma contents_length: "in_range D s d lba \<Longrightarrow> cache_ok D s \<Longrightarrow> length (contents s d (unat lba)) = unat (cache_block_size (cache s))"
  using cache_okD(3,4) [of D s d] blk_length [of "dev_data s d" "unat lba"]
  by (simp add: in_range_def contents_def dev_ok_def word_less_nat_alt)

lemma view_length: "in_range D s d lba \<Longrightarrow> cache_ok D s \<Longrightarrow> length (view s d lba) = unat (cache_block_size (cache s))"
  using contents_length [of D s d lba] find_Some_iff' [of D s d lba] cache_okD(5) [of D s] by (auto simp: view_def split: option.split)

lemma memcpy_full: "length src = n \<Longrightarrow> length dst = n \<Longrightarrow> mcsos_memcpy_u8 dst 0 src n = src"
  by (simp add: mcsos_memcpy_u8_def)

text \<open>Reading a block into a victim: the read fails and the victim is invalid, or the victim holds the block.\<close>

lemma load_victim:
  assumes ok: "cache_ok D s" and d: "d \<in> D" and i: "i < unat (entry_count (cache s))" "\<not> (valid (entry s i) \<and> dirty (entry s i))"
    and m: "mcsos_bcache_find (cache s) d lba = None"
  obtains e buf s' where "mcsos_blk_read d lba 1 (Some (data (entry s i))) s = (Inl e, Some buf, s')"
      "same_view D s (set_entry i (\<lambda>e. e\<lparr>data := buf, valid := False\<rparr>) s')"
  | s' where "mcsos_blk_read d lba 1 (Some (data (entry s i))) s = (Inr (), Some (view s d lba), s')" "in_range D s d lba"
      "same_view D s (set_entry i (\<lambda>e. e\<lparr>data := view s d lba, e_dev := d, e_lba := lba, valid := True, dirty := False\<rparr>) s')"
      "cache s' = cache s"
proof (cases "lba < block_count (devices s d)")
  case False
  note rd = range_err [OF False cache_okD(3) [OF ok d]]
  show ?thesis
  proof (rule that(1))
    show "mcsos_blk_read d lba 1 (Some (data (entry s i))) s = (Inl MCSOS_BLK_ERANGE, Some (data (entry s i)), s)"
      using rd by (simp add: mcsos_blk_read_def)
    show "same_view D s (set_entry i (\<lambda>e. e\<lparr>data := data (entry s i), valid := False\<rparr>) s)"
      using cache_okD(5) [OF ok i(1)] by (intro discard_entry [OF ok i]) simp_all
  qed
next
  case True
  have len: "length (data (entry s i)) = unat (block_size (devices s d))" using cache_okD(4,5) [OF ok] d i(1) by simp
  obtain r buf dd where r: "mcsos_blk_read d lba 1 (Some (data (entry s i))) s = (r, Some buf, put_data s d dd)"
    "length buf = length (data (entry s i))" "dev_ok (put_data s d dd) d" "contents (put_data s d dd) = contents s"
    "r = Inr () \<Longrightarrow> buf = contents s d (unat lba)"
    by (rule blk_read_one [OF cache_okD(3) [OF ok d] True len]) blast
  let ?s = "put_data s d dd"
  have ca: "cache ?s = cache s" by (simp add: put_data_def)
  note sv = change_data_same [OF ok r(3,4)]
  note ok' = same_viewD(1) [OF sv]
  have i': "i < unat (entry_count (cache ?s))" "\<not> (valid (entry ?s i) \<and> dirty (entry ?s i))" using i ca by simp_all
  have l': "length buf = unat (cache_block_size (cache ?s))" using r(2) cache_okD(5) [OF ok i(1)] by (simp add: ca)
  have rng: "in_range D s d lba" using d True by (simp add: in_range_def)
  show ?thesis
  proof (cases r)
    case (Inl e)
    have "same_view D ?s (set_entry i (\<lambda>e. e\<lparr>data := buf, valid := False\<rparr>) ?s)" using l' by (intro discard_entry [OF ok' i']) simp_all
    then show ?thesis using that(1) r(1) same_view_trans [OF sv] Inl by blast
  next
    case (Inr u)
    let ?f = "\<lambda>e. e\<lparr>data := buf, e_dev := d, e_lba := lba, valid := True, dirty := False\<rparr>"
    have bv: "buf = view s d lba" "buf = contents ?s d (unat lba)" using r(4,5) Inr view_miss [OF m] by simp_all
    have m': "mcsos_bcache_find (cache ?s) d lba = None" "in_range D ?s d lba" using m rng by (simp_all add: ca in_range_def)
    have ff: "length (data (?f (entry ?s i))) = unat (cache_block_size (cache ?s))" "valid (?f (entry ?s i))"
      "e_dev (?f (entry ?s i)) = d" "e_lba (?f (entry ?s i)) = lba" using l' by simp_all
    have dv: "data (?f (entry ?s i)) = view ?s d lba" using bv(2) view_miss [OF m'(1)] by simp
    note fe = fill_entry [where f = ?f, OF ok' i' ff m']
    have "same_view D ?s (set_entry i ?f ?s)"
      unfolding same_view_def using fe(1) fe(2) dv bv(2) by (simp del: put_data_simps mcsos_bcache_entry.simps)
    then show ?thesis using that(2) [OF _ rng, of ?s] r(1) Inr same_view_trans [OF sv] bv(1) ca by simp
  qed
qed

lemma bcache_read_ok:
  assumes ok: "cache_ok D s" and d: "d \<in> D" and b: "length buf = unat (cache_block_size (cache s))"
  obtains e s' where "mcsos_bcache_read d lba (Some buf) s = (Inl e, Some buf, s')" "same_view D s s'"
  | s' where "mcsos_bcache_read d lba (Some buf) s = (Inr (), Some (view s d lba), s')" "same_view D s s'" "in_range D s d lba"
proof -
  have g: "d \<noteq> 0" "cache_block_size (cache s) = block_size (devices s d)" using cache_okD(3,4) [OF ok d] by (auto simp: dev_ok_def)
  show ?thesis
  proof (cases "mcsos_bcache_find (cache s) d lba")
    case (Some i)
    then have i: "i < unat (entry_count (cache s))" "valid (entry s i)" "e_dev (entry s i) = d" "e_lba (entry s i) = lba"
      using find_Some_iff' [OF ok] by simp_all
    have "mcsos_bcache_read d lba (Some buf) s = (Inr (), Some (view s d lba), s)"
      using Some g cache_okD(5) [OF ok i(1)] b by (simp add: mcsos_bcache_read_def view_def memcpy_full)
    then show ?thesis using that(2) same_view_refl [OF ok] cache_okD(6) [OF ok i(1,2)] i by blast
  next
    case None
    show ?thesis
    proof (cases rule: select_victim_ok [OF ok])
      case (1 e s')
      then show ?thesis using that(1) [of e s'] None g by (simp add: mcsos_bcache_read_def)
    next
      case (2 i s1)
      note sv = 2(2) and ok1 = same_viewD(1) [OF 2(2)]
      have i: "i < unat (entry_count (cache s1))" "mcsos_bcache_find (cache s1) d lba = None"
        using 2(3,5) None same_viewD(2) [OF sv] by simp_all
      show ?thesis
      proof (cases rule: load_victim [OF ok1 d i(1) 2(4) i(2)])
        case (1 e buf' s')
        then have "mcsos_bcache_read d lba (Some buf) s = (Inl e, Some buf, set_entry i (\<lambda>e. e\<lparr>data := buf', valid := False\<rparr>) s')"
          using None g 2(1) by (simp add: mcsos_bcache_read_def)
        then show ?thesis using that(1) same_view_trans [OF sv 1(2)] by blast
      next
        case l: (2 s')
        let ?f = "\<lambda>e. e\<lparr>data := view s1 d lba, e_dev := d, e_lba := lba, valid := True, dirty := False\<rparr>"
        have r: "in_range D s d lba" "view s1 d lba = view s d lba" using l(2) same_viewD(5,6) [OF sv] by blast+
        have "i < length (entries (cache s'))" using i(1) cache_okD(1) [OF ok1] l(4) by simp
        then have "mcsos_bcache_read d lba (Some buf) s = (Inr (), Some (view s1 d lba), set_entry i ?f s')"
          using None g 2(1) l(1,4) b view_length [OF l(2) ok1] same_viewD(3) [OF sv]
          by (simp add: mcsos_bcache_read_def Let_def entry_set_entry memcpy_full)
        then show ?thesis using that(2) same_view_trans [OF sv l(3)] r by simp
      qed
    qed
  qed
qed

text \<open>The new entry of a written block: in the entry that holds the block already, or in a victim.\<close>

lemma store_entry:
  assumes ok: "cache_ok D s" and i: "i < unat (entry_count (cache s))" and r: "in_range D s d lba"
    and f: "data (f (entry s i)) = x" "valid (f (entry s i))" "e_dev (f (entry s i)) = d" "e_lba (f (entry s i)) = lba" "dirty (f (entry s i))"
    and x: "length x = unat (cache_block_size (cache s))"
    and h: "mcsos_bcache_find (cache s) d lba = Some i \<or> mcsos_bcache_find (cache s) d lba = None \<and> \<not> (valid (entry s i) \<and> dirty (entry s i))"
  shows "cache_ok D (set_entry i f s)" "view (set_entry i f s) d' l = (if d' = d \<and> l = lba then x else view s d' l)"
proof -
  have "cache_ok D (set_entry i f s) \<and> view (set_entry i f s) d' l = (if d' = d \<and> l = lba then x else view s d' l)"
    using h
  proof
    assume "mcsos_bcache_find (cache s) d lba = Some i"
    then have e: "valid (entry s i)" "e_dev (entry s i) = d" "e_lba (entry s i) = lba" using find_Some_iff' [OF ok] by simp_all
    have b: "fits D s i (f (entry s i))" using entry_fits [OF ok i] r f x e by (simp add: fits_def)
    show ?thesis using change_entry_ok [where f = f, OF ok i b] change_entry_view [where f = f, OF ok i b, of d' l] f e by auto
  next
    assume m: "mcsos_bcache_find (cache s) d lba = None \<and> \<not> (valid (entry s i) \<and> dirty (entry s i))"
    show ?thesis
      using fill_entry [where f = f, OF ok i conjunct2 [OF m] _ f(2-4) conjunct1 [OF m] r] f(1,5) x by simp
  qed
  then show "cache_ok D (set_entry i f s)" "view (set_entry i f s) d' l = (if d' = d \<and> l = lba then x else view s d' l)" by blast+
qed

lemma bcache_write_ok:
  assumes ok: "cache_ok D s" and r: "in_range D s d lba" and x: "length x = unat (cache_block_size (cache s))"
  obtains e s' where "mcsos_bcache_write d lba (Some x) s = (Inl e, s')" "same_view D s s'"
  | s' where "mcsos_bcache_write d lba (Some x) s = (Inr (), s')" "cache_ok D s'" "cache_block_size (cache s') = cache_block_size (cache s)"
      "\<And>d. block_count (devices s' d) = block_count (devices s d)"
      "\<And>d' l. in_range D s d' l \<Longrightarrow> view s' d' l = (if d' = d \<and> l = lba then x else view s d' l)"
proof -
  have dD: "d \<in> D" using r by (simp add: in_range_def)
  have g: "d \<noteq> 0" "cache_block_size (cache s) = block_size (devices s d)" using cache_okD(3,4) [OF ok dD] by (auto simp: dev_ok_def)
  show ?thesis
  proof (cases "mcsos_bcache_find (cache s) d lba")
    case (Some i)
    let ?f = "\<lambda>e. e\<lparr>data := mcsos_memcpy_u8 (data e) 0 x (unat (cache_block_size (cache s))), dirty := True\<rparr>"
    have i: "i < unat (entry_count (cache s))" "valid (entry s i)" "e_dev (entry s i) = d" "e_lba (entry s i) = lba"
      using Some find_Some_iff' [OF ok] by simp_all
    have run: "mcsos_bcache_write d lba (Some x) s = (Inr (), set_entry i ?f s)" using Some g by (simp add: mcsos_bcache_write_def)
    have "data (?f (entry s i)) = x" using x cache_okD(5) [OF ok i(1)] by (simp add: memcpy_full)
    note st = store_entry [where f = ?f, OF ok i(1) r this _ _ _ _ x disjI1 [OF Some]]
    show ?thesis by (rule that(2) [OF run]) (use st i in auto)
  next
    case None
    show ?thesis
    proof (cases rule: select_victim_ok [OF ok])
      case (1 e s')
      then show ?thesis using that(1) [of e s'] None g by (simp add: mcsos_bcache_write_def)
    next
      case (2 i s1)
      note sv = 2(2) and ok1 = same_viewD(1) [OF 2(2)] and bs = same_viewD(3) [OF 2(2)]
      let ?f = "\<lambda>e. e\<lparr>e_dev := d, e_lba := lba, valid := True,
          data := mcsos_memcpy_u8 (data e) 0 x (unat (cache_block_size (cache s))), dirty := True\<rparr>"
      have i: "i < unat (entry_count (cache s1))" "i < length (entries (cache s1))"
        using 2(3) same_viewD(2) [OF sv] cache_okD(1) [OF ok1] by simp_all
      have run: "mcsos_bcache_write d lba (Some x) s = (Inr (), set_entry i ?f s1)"
        using None g 2(1) i(2) bs by (simp add: mcsos_bcache_write_def set_entry_def)
      have m: "mcsos_bcache_find (cache s1) d lba = None \<and> \<not> (valid (entry s1 i) \<and> dirty (entry s1 i))" "in_range D s1 d lba"
        using None 2(4,5) r same_viewD(5) [OF sv] by simp_all
      have "data (?f (entry s1 i)) = x" "length x = unat (cache_block_size (cache s1))"
        using x cache_okD(5) [OF ok1 i(1)] bs by (simp_all add: memcpy_full)
      note st = store_entry [where f = ?f, OF ok1 i(1) m(2) this(1) _ _ _ _ this(2) disjI2 [OF m(1)]]
      show ?thesis by (rule that(2) [OF run]) (use st bs same_viewD(4,6) [OF sv] in auto)
    qed
  qed
qed

end

context blk_driver
begin

lemma flush_from_ok:
  assumes "cache_ok D s" "k \<le> unat (entry_count (cache s))"
  shows "\<exists>r s'. pfor [0..<k] mcsos_bcache_flush_entry s = (r, s') \<and> same_view D s s' \<and>
    (r = Inr () \<longrightarrow> (\<forall>j<k. \<not> (valid (entry s' j) \<and> dirty (entry s' j))))"
  using assms(2)
proof (induction k)
  case 0
  then show ?case using same_view_refl [OF assms(1)] by (simp add: pret_def)
next
  case (Suc k)
  then obtain r1 s1 where 1: "pfor [0..<k] mcsos_bcache_flush_entry s = (r1, s1)" "same_view D s s1"
    "r1 = Inr () \<longrightarrow> (\<forall>j<k. \<not> (valid (entry s1 j) \<and> dirty (entry s1 j)))" by auto
  have k: "k < unat (entry_count (cache s1))" using Suc(2) same_viewD(2) [OF 1(2)] by simp
  obtain r s' where f: "mcsos_bcache_flush_entry k s1 = (r, s')" "same_view D s1 s'"
    "\<And>j. (valid (entry s' j), e_dev (entry s' j), e_lba (entry s' j)) = (valid (entry s1 j), e_dev (entry s1 j), e_lba (entry s1 j))"
    "\<And>j. dirty (entry s' j) \<Longrightarrow> dirty (entry s1 j)" "r = Inr () \<Longrightarrow> \<not> (valid (entry s' k) \<and> dirty (entry s' k))"
    using flush_entry_ok [OF same_viewD(1) [OF 1(2)] k] by metis
  show ?case
  proof (cases r1)
    case (Inl e)
    then show ?thesis using 1 by (simp add: pfor_append prog_run)
  next
    case (Inr u)
    then have "pfor [0..<Suc k] mcsos_bcache_flush_entry s = (r, s')"
      using 1 f(1) by (cases r) (simp_all add: pfor_append prog_run)
    moreover have "\<not> (valid (entry s' j) \<and> dirty (entry s' j))" if "r = Inr ()" "j < Suc k" for j
      using that 1(3) Inr f(3,4) [of j] f(5) by (cases "j = k") auto
    ultimately show ?thesis using same_view_trans [OF 1(2) f(2)] by blast
  qed
qed

lemma flush_all_ok:
  assumes ok: "cache_ok D s"
  obtains r s' where "mcsos_bcache_flush_all s = (r, s')" "same_view D s s'"
    "\<And>d lba. r = Inr () \<Longrightarrow> contents s' d (unat lba) = view s' d lba"
proof -
  obtain r s' where f: "mcsos_bcache_flush_all s = (r, s')" "same_view D s s'"
    "r = Inr () \<longrightarrow> (\<forall>j<unat (entry_count (cache s)). \<not> (valid (entry s' j) \<and> dirty (entry s' j)))"
    using flush_from_ok [OF ok order.refl] by (auto simp: mcsos_bcache_flush_all_def)
  note ok' = same_viewD(1) [OF f(2)]
  have "contents s' d (unat lba) = view s' d lba" if r: "r = Inr ()" for d lba
  proof (cases "mcsos_bcache_find (cache s') d lba")
    case None
    then show ?thesis by (simp add: view_miss)
  next
    case (Some i)
    then have i: "i < unat (entry_count (cache s'))" "valid (entry s' i)" "e_dev (entry s' i) = d" "e_lba (entry s' i) = lba"
      using find_Some_iff' [OF ok'] by simp_all
    then have "\<not> dirty (entry s' i)" using f(3) r same_viewD(2) [OF f(2)] by simp
    then show ?thesis using cache_okD(7) [OF ok' i(1,2)] i Some by (simp add: view_def)
  qed
  then show ?thesis by (rule that [OF f(1,2)])
qed

end

section \<open>The disk a client sees\<close>

datatype bc_op = Bc_Read nat u64 bytes | Bc_Write nat u64 bytes | Bc_Flush

fun bc_call :: "bc_op \<Rightarrow> ('d bcache_state, mcsos_blk_status, bytes) prog" where
  "bc_call (Bc_Read d lba buf) s =
     (case mcsos_bcache_read d lba (Some buf) s of (Inl e, _, s') \<Rightarrow> (Inl e, s') | (Inr _, b, s') \<Rightarrow> (Inr (the b), s'))"
| "bc_call (Bc_Write d lba x) s = pthen (mcsos_bcache_write d lba (Some x)) (pret []) s"
| "bc_call Bc_Flush s = pthen mcsos_bcache_flush_all (pret []) s"

text \<open>The abstract disks: a block is there or not. With \<open>rel\<close>, the drivers do not fail.\<close>

type_synonym disks = "nat \<Rightarrow> u64 \<Rightarrow> bytes option"

fun bc_op_ok :: "nat \<Rightarrow> nat set \<Rightarrow> disks \<Rightarrow> bc_op \<Rightarrow> bool" where
  "bc_op_ok bs D M (Bc_Read d lba buf) = (d \<in> D \<and> length buf = bs)"
| "bc_op_ok bs D M (Bc_Write d lba x) = (M d lba \<noteq> None \<and> length x = bs)"
| "bc_op_ok bs D M Bc_Flush = True"

fun bc_spec :: "bool \<Rightarrow> disks \<Rightarrow> bc_op \<Rightarrow> mcsos_blk_status + bytes \<Rightarrow> disks \<Rightarrow> bool" where
  "bc_spec rel M (Bc_Read d lba buf) r M' =
     (M' = M \<and> (case M d lba of None \<Rightarrow> \<exists>e. r = Inl e | Some x \<Rightarrow> r = Inr x \<or> \<not> rel \<and> (\<exists>e. r = Inl e)))"
| "bc_spec rel M (Bc_Write d lba x) r M' =
     (r = Inr [] \<and> M' = M(d := (M d)(lba \<mapsto> x)) \<or> \<not> rel \<and> (\<exists>e. r = Inl e) \<and> M' = M)"
| "bc_spec rel M Bc_Flush r M' = (M' = M \<and> (r = Inr [] \<or> \<not> rel \<and> (\<exists>e. r = Inl e)))"

lemma bc_pre_kept: "list_all (bc_op_ok bs D M) calls \<Longrightarrow> calls_pre (bc_spec rel) (bc_op_ok bs D) M calls"
proof (rule calls_pre_kept)
  fix M c r M' d
  show "bc_spec rel M c r M' \<Longrightarrow> bc_op_ok bs D M c \<Longrightarrow> bc_op_ok bs D M d \<Longrightarrow> bc_op_ok bs D M' d"
    by (cases c; cases d) auto
qed

context blk_driver
begin

definition disks_of :: "nat set \<Rightarrow> 'd bcache_state \<Rightarrow> disks" where
  "disks_of D s = (\<lambda>d lba. if in_range D s d lba then Some (view s d lba) else None)"

lemma disks_of_same: "same_view D s s' \<Longrightarrow> disks_of D s' = disks_of D s"
  by (auto simp: disks_of_def fun_eq_iff same_viewD(5,6))

lemma bc_call_ok:
  assumes ok: "cache_ok D s" and op: "bc_op_ok (unat (cache_block_size (cache s))) D (disks_of D s) op"
  shows "\<exists>r s'. bc_call op s = (r, s') \<and> cache_ok D s' \<and> cache_block_size (cache s') = cache_block_size (cache s) \<and>
    (\<forall>d. block_count (devices s' d) = block_count (devices s d)) \<and>
    bc_spec False (disks_of D s) op r (disks_of D s') \<and>
    (op = Bc_Flush \<longrightarrow> r = Inr [] \<longrightarrow> (\<forall>d lba. contents s' d (unat lba) = view s' d lba))"
proof (cases op)
  case (Bc_Read d lba buf)
  then have d: "d \<in> D" "length buf = unat (cache_block_size (cache s))" using op by simp_all
  show ?thesis
  proof (cases rule: bcache_read_ok [OF ok d, where lba = lba])
    case (1 e s')
    then show ?thesis using Bc_Read same_viewD [OF 1(2)] disks_of_same [OF 1(2)] by (simp split: option.split)
  next
    case (2 s')
    then show ?thesis using Bc_Read same_viewD [OF 2(2)] disks_of_same [OF 2(2)] by (simp add: disks_of_def)
  qed
next
  case (Bc_Write d lba x)
  then have w: "in_range D s d lba" "length x = unat (cache_block_size (cache s))"
    using op by (simp_all add: disks_of_def split: if_splits)
  show ?thesis
  proof (cases rule: bcache_write_ok [OF ok w])
    case (1 e s')
    then show ?thesis using Bc_Write same_viewD [OF 1(2)] disks_of_same [OF 1(2)] by (simp add: prog_run)
  next
    case (2 s')
    have "disks_of D s' = (disks_of D s)(d := (disks_of D s d)(lba \<mapsto> x))"
      using 2(5) w(1) by (auto simp: disks_of_def fun_eq_iff in_range_def 2(4))
    then show ?thesis using Bc_Write 2 by (simp add: prog_run)
  qed
next
  case Bc_Flush
  obtain r s' where f: "mcsos_bcache_flush_all s = (r, s')" "same_view D s s'"
    "\<And>d lba. r = Inr () \<Longrightarrow> contents s' d (unat lba) = view s' d lba" using flush_all_ok [OF ok] by metis
  then show ?thesis using Bc_Flush same_viewD [OF f(2)] disks_of_same [OF f(2)] by (cases r) (simp_all add: prog_run)
qed

interpretation bc: call_refinement bc_call "bc_spec False" "bc_op_ok bs D"
  "\<lambda>s M. cache_ok D s \<and> unat (cache_block_size (cache s)) = bs \<and> M = disks_of D s" for bs D
  by unfold_locales (use bc_call_ok in fastforce)

lemma bc_calls_ok:
  assumes "cache_ok D s" "list_all (bc_op_ok (unat (cache_block_size (cache s))) D (disks_of D s)) calls"
  obtains rs s' where "run_calls bc_call calls s = (rs, s')" "cache_ok D s'"
    "calls_spec (bc_spec False) (disks_of D s) calls rs (disks_of D s')"
  by (rule bc.calls_refine [OF _ bc_pre_kept [OF assms(2)]]) (use assms(1) in blast)+

end

context reliable_driver
begin

lemma fst_blk_call: "fst (blk_call f d lba n buf s) = fst (f (dev_data s d) lba n buf)"
  by (simp add: blk_call_def split: prod.split)

lemma blk_read_done:
  "dev_ok s d \<Longrightarrow> lba < block_count (devices s d) \<Longrightarrow> length buf = unat (block_size (devices s d)) \<Longrightarrow>
   fst (mcsos_blk_read d lba 1 (Some buf) s) = Inr ()"
  using read_done [of "dev_data s d" lba buf] by (simp add: mcsos_blk_read_def range_one fst_blk_call) (simp add: dev_ok_def)

lemma blk_write_done:
  "dev_ok s d \<Longrightarrow> lba < block_count (devices s d) \<Longrightarrow> length buf = unat (block_size (devices s d)) \<Longrightarrow>
   fst (mcsos_blk_write d lba 1 (Some buf) s) = Inr ()"
  using write_done [of "dev_data s d" lba buf] by (simp add: mcsos_blk_write_def range_one fst_blk_call) (simp add: dev_ok_def)

lemma flush_entry_done:
  assumes ok: "cache_ok D s" and i: "i < unat (entry_count (cache s))"
  shows "fst (mcsos_bcache_flush_entry i s) = Inr ()"
proof (cases "valid (entry s i) \<and> dirty (entry s i)")
  case False
  then show ?thesis by (auto simp: mcsos_bcache_flush_entry_def)
next
  case True
  have r: "in_range D s (e_dev (entry s i)) (e_lba (entry s i))" using cache_okD(6) [OF ok i] True by blast
  then have "fst (mcsos_blk_write (e_dev (entry s i)) (e_lba (entry s i)) 1 (Some (data (entry s i))) s) = Inr ()"
    using cache_okD(3-5) [OF ok] i by (intro blk_write_done) (auto simp: in_range_def)
  then show ?thesis using True by (auto simp: mcsos_bcache_flush_entry_def split: prod.split sum.split)
qed

lemma select_victim_done:
  assumes ok: "cache_ok D s"
  obtains i s' where "mcsos_bcache_select_victim s = (Inr i, s')"
proof -
  let ?n = "entry_count (cache s)"
  let ?st = "ucast (clock_hand (cache s) mod ucast ?n) :: u32"
  have n: "?n \<noteq> 0" using cache_okD(2) [OF ok] .
  then have n': "0 < unat ?n" by (simp add: unat_gt_0)
  have u: "unat (ucast ?n :: u64) = unat ?n"
    using unat_u32_lt [of ?n] by (simp add: unsigned_ucast_eq take_bit_nat_eq_self)
  have "unat (clock_hand (cache s) mod ucast ?n) < unat ?n" using n' by (simp add: unat_mod u)
  then have st: "unat ?st < unat (entry_count (cache (set_clock_hand h s)))" for h
    using unat_u32_lt [of ?n] by (simp add: unsigned_ucast_eq take_bit_nat_eq_self)
  have "fst (mcsos_bcache_flush_entry (unat ?st) (set_clock_hand h s)) = Inr ()" for h
    using flush_entry_done [OF same_viewD(1) [OF set_clock_hand_same [OF ok]] st] .
  then have f: "\<exists>s'. mcsos_bcache_flush_entry (unat ?st) (set_clock_hand h s) = (Inr (), s')" for h
    by (metis prod.collapse)
  show ?thesis
  proof (cases "List.find (\<lambda>pass. \<not> valid (entry s (unat ((?st + of_nat pass) mod ?n)))) [0..<unat ?n]")
    case (Some p)
    then show ?thesis using n that by (simp add: mcsos_bcache_select_victim_def Let_def)
  next
    case None
    obtain s' where "mcsos_bcache_flush_entry (unat ?st) (set_clock_hand (ucast (?st + 1)) s) = (Inr (), s')" using f by blast
    then show ?thesis using n None that by (simp add: mcsos_bcache_select_victim_def Let_def prog_run)
  qed
qed

lemma bcache_read_done:
  assumes ok: "cache_ok D s" and r: "in_range D s d lba" and b: "length buf = unat (cache_block_size (cache s))"
  shows "fst (mcsos_bcache_read d lba (Some buf) s) = Inr ()"
proof -
  have d: "d \<in> D" using r by (simp add: in_range_def)
  have g: "d \<noteq> 0" "cache_block_size (cache s) = block_size (devices s d)" using cache_okD(3,4) [OF ok d] by (auto simp: dev_ok_def)
  show ?thesis
  proof (cases rule: select_victim_ok [OF ok])
    case (1 e s')
    then show ?thesis using select_victim_done [OF ok] by fastforce
  next
    case (2 i s1)
    note ok1 = same_viewD(1) [OF 2(2)]
    have "fst (mcsos_blk_read d lba 1 (Some (data (entry s1 i))) s1) = Inr ()"
      using cache_okD(3-5) [OF ok1] d r 2(3) same_viewD [OF 2(2)] by (intro blk_read_done) (auto simp: in_range_def)
    then show ?thesis using g 2(1)
      by (auto simp: mcsos_bcache_read_def Let_def split: option.split prod.split sum.split)
  qed
qed

lemma bcache_write_done:
  assumes ok: "cache_ok D s" and r: "in_range D s d lba"
  shows "fst (mcsos_bcache_write d lba (Some x) s) = Inr ()"
proof -
  have g: "d \<noteq> 0" "cache_block_size (cache s) = block_size (devices s d)"
    using cache_okD(3,4) [OF ok, of d] r by (auto simp: dev_ok_def in_range_def)
  obtain i s' where "mcsos_bcache_select_victim s = (Inr i, s')" by (rule select_victim_done [OF ok])
  then show ?thesis using g by (simp add: mcsos_bcache_write_def Let_def split: option.split)
qed

lemma flush_from_done:
  assumes "cache_ok D s" "k \<le> unat (entry_count (cache s))"
  shows "fst (pfor [0..<k] mcsos_bcache_flush_entry s) = Inr ()"
  using assms(2)
proof (induction k)
  case (Suc k)
  obtain s1 where 1: "pfor [0..<k] mcsos_bcache_flush_entry s = (Inr (), s1)" "same_view D s s1"
    using flush_from_ok [OF assms(1), of k] Suc by auto
  have "fst (mcsos_bcache_flush_entry k s1) = Inr ()"
    using flush_entry_done [OF same_viewD(1) [OF 1(2)]] same_viewD(2) [OF 1(2)] Suc(2) by simp
  then show ?case using 1(1) by (cases "mcsos_bcache_flush_entry k s1") (simp add: pfor_append prog_run)
qed (simp add: pret_def)

lemma bc_call_reliable:
  assumes ok: "cache_ok D s" and c: "bc_op_ok (unat (cache_block_size (cache s))) D (disks_of D s) c"
    and run: "bc_call c s = (r, s')" and sp: "bc_spec False (disks_of D s) c r M'"
  shows "bc_spec True (disks_of D s) c r M'"
proof (cases c)
  case (Bc_Read d lba buf)
  show ?thesis
  proof (cases "in_range D s d lba")
    case True
    then have "fst (mcsos_bcache_read d lba (Some buf) s) = Inr ()" using bcache_read_done [OF ok] c Bc_Read by simp
    then show ?thesis using run sp Bc_Read True
      by (cases "mcsos_bcache_read d lba (Some buf) s") (auto simp: disks_of_def split: prod.splits)
  qed (use sp Bc_Read in \<open>auto simp: disks_of_def\<close>)
next
  case (Bc_Write d lba x)
  have "in_range D s d lba" using c Bc_Write by (simp add: disks_of_def split: if_splits)
  then have "fst (mcsos_bcache_write d lba (Some x) s) = Inr ()" using bcache_write_done [OF ok] by blast
  then show ?thesis using run sp Bc_Write by (cases "mcsos_bcache_write d lba (Some x) s") (auto simp: prog_run)
next
  case Bc_Flush
  have "fst (mcsos_bcache_flush_all s) = Inr ()" using flush_from_done [OF ok order.refl] by (simp add: mcsos_bcache_flush_all_def)
  then show ?thesis using run sp Bc_Flush by (cases "mcsos_bcache_flush_all s") (auto simp: prog_run)
qed

interpretation bcr: call_refinement bc_call "bc_spec True" "bc_op_ok bs D"
  "\<lambda>s M. cache_ok D s \<and> unat (cache_block_size (cache s)) = bs \<and> M = disks_of D s" for bs D
  by unfold_locales (use bc_call_ok bc_call_reliable in fastforce)

lemma bc_calls_reliable:
  assumes "cache_ok D s" "list_all (bc_op_ok (unat (cache_block_size (cache s))) D (disks_of D s)) calls"
  obtains rs s' where "run_calls bc_call calls s = (rs, s')" "cache_ok D s'"
    "unat (cache_block_size (cache s')) = unat (cache_block_size (cache s))"
    "calls_spec (bc_spec True) (disks_of D s) calls rs (disks_of D s')"
  by (rule bcr.calls_refine [OF _ bc_pre_kept [OF assms(2)]]) (use assms(1) in blast)+

text \<open>After a flush the devices hold what the client saw.\<close>

lemma flush_all_reliable:
  assumes ok: "cache_ok D s"
  obtains s' where "mcsos_bcache_flush_all s = (Inr (), s')" "cache_ok D s'" "disks_of D s' = disks_of D s"
    "\<And>d lba buf. in_range D s d lba \<Longrightarrow> length buf = unat (cache_block_size (cache s)) \<Longrightarrow>
       fst (mcsos_blk_read d lba 1 (Some buf) s') = Inr () \<and> fst (snd (mcsos_blk_read d lba 1 (Some buf) s')) = Some (view s d lba)"
proof -
  have "fst (mcsos_bcache_flush_all s) = Inr ()" using flush_from_done [OF ok order.refl] by (simp add: mcsos_bcache_flush_all_def)
  then obtain s' where f: "mcsos_bcache_flush_all s = (Inr (), s')" "same_view D s s'"
    "\<And>d lba. contents s' d (unat lba) = view s' d lba" using flush_all_ok [OF ok] by (metis fst_conv)
  have "fst (mcsos_blk_read d lba 1 (Some buf) s') = Inr () \<and> fst (snd (mcsos_blk_read d lba 1 (Some buf) s')) = Some (view s d lba)"
    if r: "in_range D s d lba" and b: "length buf = unat (cache_block_size (cache s))" for d lba buf
  proof -
    have d: "dev_ok s' d" "lba < block_count (devices s' d)" "length buf = unat (block_size (devices s' d))"
      using cache_okD(3,4) [OF same_viewD(1) [OF f(2)], of d] same_viewD(3,4) [OF f(2)] r b by (simp_all add: in_range_def)
    obtain rr buf' dd where "mcsos_blk_read d lba 1 (Some buf) s' = (rr, Some buf', put_data s' d dd)"
      "rr = Inr () \<Longrightarrow> buf' = contents s' d (unat lba)" by (rule blk_read_one [OF d]) blast
    then show ?thesis using blk_read_done [OF d] f(3) same_viewD(6) [OF f(2) r] by simp
  qed
  then show ?thesis using that [OF f(1) same_viewD(1) [OF f(2)] disks_of_same [OF f(2)]] by blast
qed

end

section \<open>The RAM disk keeps the promise\<close>

definition ram_good :: "mcsos_ramblk option mcsos_blk_data \<Rightarrow> bool" where
  "ram_good d \<longleftrightarrow> (case driver_data d of None \<Rightarrow> False | Some ram \<Rightarrow>
     length (storage ram) = unat (storage_size ram) \<and> block_size d \<noteq> 0 \<and>
     unat (storage_size ram) = unat (block_count d) * unat (block_size d))"

definition ram_blk :: "mcsos_ramblk option mcsos_blk_data \<Rightarrow> nat \<Rightarrow> bytes" where
  "ram_blk d b = (case driver_data d of None \<Rightarrow> [] | Some ram \<Rightarrow>
     take (unat (block_size d)) (drop (b * unat (block_size d)) (storage ram)))"

lemma block_end: "b < n \<Longrightarrow> b * s + s \<le> n * (s :: nat)"
  by (metis Suc_leI add.commute mult_Suc mult_le_mono1)

lemma memcpy_other:
  assumes "off + n \<le> length st" "length x = n" "a + m \<le> off \<or> off + n \<le> a"
  shows "take m (drop a (mcsos_memcpy_u8 st off x n)) = take m (drop a st)"
  using assms(3)
proof
  assume "a + m \<le> off"
  then show ?thesis using assms(1,2) by (simp add: mcsos_memcpy_u8_def take_drop)
next
  assume "off + n \<le> a"
  then show ?thesis using assms(1,2) by (simp add: mcsos_memcpy_u8_def)
qed

text \<open>The transfer of one block of a good disk.\<close>

lemma ram_rw_one:
  assumes g: "ram_good d" "driver_data d = Some ram" and l: "lba < block_count d" and b: "length buf = unat (block_size d)"
  shows "mcsos_ramblk_rw d lba 1 (Some buf) w =
    (if w then (Inr (), Some buf, Some (ram\<lparr>storage := mcsos_memcpy_u8 (storage ram) (unat lba * unat (block_size d)) buf (unat (block_size d))\<rparr>))
     else (Inr (), Some (ram_blk d (unat lba)), driver_data d))"
proof -
  let ?s = "unat (block_size d)"
  have st: "length (storage ram) = unat (storage_size ram)" "unat (storage_size ram) = unat (block_count d) * ?s"
    using g by (simp_all add: ram_good_def)
  have e: "unat lba * ?s + ?s \<le> unat (storage_size ram)" using block_end [of "unat lba" "unat (block_count d)" ?s] l st(2)
    by (simp add: word_less_nat_alt)
  have u: "unat (ucast (block_size d) :: u64) = ?s"
    using unat_u32_lt [of "block_size d"] by (simp add: unsigned_ucast_eq take_bit_nat_eq_self)
  have o: "unat (lba * ucast (block_size d)) = unat lba * ?s"
    using e unat_u64_lt [of "storage_size ram"] by (simp add: unat_word_ariths u)
  have c: "unat (ucast (1 :: u32) * ucast (block_size d) :: u64) = ?s" by (simp add: u)
  have nr: "\<not> storage_size ram < lba * ucast (block_size d)" "\<not> storage_size ram - lba * ucast (block_size d) < ucast (1 :: u32) * ucast (block_size d)"
    using e o u by (simp_all add: word_less_nat_alt unat_sub_if_size)
  have nf: "\<not> (length (storage ram) < unat lba * ?s + ?s \<or> length buf < ?s)" using e st(1) b by simp
  have cp: "mcsos_memcpy_u8 buf 0 (drop (unat lba * ?s) (storage ram)) ?s = ram_blk d (unat lba)"
    using b by (simp add: mcsos_memcpy_u8_def ram_blk_def g(2))
  show ?thesis unfolding mcsos_ramblk_rw_def g(2) Let_def o c using nr nf cp by simp
qed

interpretation ram_disk: reliable_driver g_ramblk_ops ram_good ram_blk
proof unfold_locales
  fix d :: "mcsos_ramblk option mcsos_blk_data" and b :: nat and lba :: u64 and buf :: bytes
  assume g: "ram_good d"
  then obtain ram where ram: "driver_data d = Some ram" "length (storage ram) = unat (block_count d) * unat (block_size d)"
    "length (storage ram) = unat (storage_size ram)"
    by (auto simp: ram_good_def split: option.splits)
  show "length (ram_blk d b) = unat (block_size d)" if "b < unat (block_count d)"
    using block_end [OF that, of "unat (block_size d)"] ram by (simp add: ram_blk_def)
  assume l: "lba < block_count d" "length buf = unat (block_size d)"
  note rw = ram_rw_one [OF g ram(1) l]
  have keep: "d\<lparr>driver_data := Some ram\<rparr> = d" using ram(1) by (cases d) simp
  have len: "length (ram_blk d (unat lba)) = unat (block_size d)"
    using block_end [of "unat lba" "unat (block_count d)" "unat (block_size d)"] l ram
    by (simp add: ram_blk_def word_less_nat_alt)
  show "\<exists>r buf' dd. op_read g_ramblk_ops d lba 1 (Some buf) = (r, Some buf', dd) \<and> length buf' = length buf \<and>
        ram_good (d\<lparr>driver_data := dd\<rparr>) \<and> ram_blk (d\<lparr>driver_data := dd\<rparr>) = ram_blk d \<and> (r = Inr () \<longrightarrow> buf' = ram_blk d (unat lba))"
    using rw [of False] g l(2) ram(1) len by (simp add: g_ramblk_ops_def mcsos_ramblk_read_def keep)
  show "fst (op_read g_ramblk_ops d lba 1 (Some buf)) = Inr ()" "fst (op_write g_ramblk_ops d lba 1 (Some buf)) = Inr ()"
    using rw by (simp_all add: g_ramblk_ops_def mcsos_ramblk_read_def mcsos_ramblk_write_def)
  let ?s = "unat (block_size d)"
  let ?ram = "ram\<lparr>storage := mcsos_memcpy_u8 (storage ram) (unat lba * ?s) buf ?s\<rparr>"
  have e: "unat lba * ?s + ?s \<le> length (storage ram)"
    using l(1) block_end [of "unat lba" "unat (block_count d)" ?s] ram(2) by (simp add: word_less_nat_alt)
  have "ram_good (d\<lparr>driver_data := Some ?ram\<rparr>)" using g ram e l(2) by (simp add: ram_good_def mcsos_memcpy_u8_def)
  moreover have "ram_blk (d\<lparr>driver_data := Some ?ram\<rparr>) b = ((ram_blk d)(unat lba := buf)) b" for b
  proof (cases "b = unat lba")
    case True
    then show ?thesis using e l(2) by (simp add: ram_blk_def mcsos_memcpy_u8_def)
  next
    case False
    then have "b * ?s + ?s \<le> unat lba * ?s \<or> unat lba * ?s + ?s \<le> b * ?s"
      using block_end [of b "unat lba" ?s] block_end [of "unat lba" b ?s] by linarith
    then have "take ?s (drop (b * ?s) (mcsos_memcpy_u8 (storage ram) (unat lba * ?s) buf ?s)) = take ?s (drop (b * ?s) (storage ram))"
      using e l(2) by (intro memcpy_other) simp_all
    then show ?thesis using False ram(1) by (simp add: ram_blk_def)
  qed
  ultimately show "\<exists>r dd. op_write g_ramblk_ops d lba 1 (Some buf) = (r, Some buf, dd) \<and> ram_good (d\<lparr>driver_data := dd\<rparr>) \<and>
        (\<forall>b<unat (block_count d). b \<noteq> unat lba \<longrightarrow> ram_blk (d\<lparr>driver_data := dd\<rparr>) b = ram_blk d b) \<and>
        (r = Inr () \<longrightarrow> ram_blk (d\<lparr>driver_data := dd\<rparr>) (unat lba) = buf)"
    using rw [of True] by (auto simp: g_ramblk_ops_def mcsos_ramblk_write_def)
qed

section \<open>A fresh cache on a fresh RAM disk\<close>

lemma ramblk_init_ok:
  assumes "mcsos_ramblk_init d ram (Some nm) (Some st) sz bs s = (Inr (), s')" "length st = unat sz"
  shows "ram_disk.dev_ok s' d" "block_size (devices s' d) = bs" "block_count (devices s' d) = sz div ucast bs"
    "dev_data s' d = \<lparr>dev_name = mcsos_blk_copy_name_for_driver (dev_name (devices s d)) nm, block_size = bs,
       block_count = sz div ucast bs, dev_flags = 0, driver_data = Some \<lparr>storage = st, storage_size = sz\<rparr>\<rparr>"
proof -
  have c: "d \<noteq> 0" "\<not> bs < 512" "\<not> (sz < ucast bs \<or> sz mod ucast bs \<noteq> 0)" and s': "s' = snd (mcsos_ramblk_init d ram (Some nm) (Some st) sz bs s)"
    using assms(1) by (auto simp: mcsos_ramblk_init_def MCSOS_BLK_DEFAULT_SECTOR_SIZE_def split: if_splits)
  have dev: "devices s' d = \<lparr>dev_name = mcsos_blk_copy_name_for_driver (dev_name (devices s d)) nm, block_size = bs,
       block_count = sz div ucast bs, dev_flags = 0, driver_data = Some \<lparr>storage = st, storage_size = sz\<rparr>, ops = Some g_ramblk_ops\<rparr>"
    using assms(1) by (auto simp: mcsos_ramblk_init_def split: if_splits)
  show dd: "dev_data s' d = \<lparr>dev_name = mcsos_blk_copy_name_for_driver (dev_name (devices s d)) nm, block_size = bs,
       block_count = sz div ucast bs, dev_flags = 0, driver_data = Some \<lparr>storage = st, storage_size = sz\<rparr>\<rparr>"
    by (simp add: dev mcsos_blk_data.truncate_def)
  have u: "unat (ucast bs :: u64) = unat bs" using unat_u32_lt [of bs] by (simp add: unsigned_ucast_eq take_bit_nat_eq_self)
  have "sz mod ucast bs = 0" using c(3) by simp
  then have m: "unat sz mod unat bs = 0" by (metis u unat_mod unsigned_0)
  have nz: "bs \<noteq> 0" using c(2) by auto
  have "unat sz = unat (sz div ucast bs) * unat bs"
    using m by (simp add: unat_div u) (metis add.right_neutral div_mult_mod_eq)
  then have "ram_good (dev_data s' d)" using assms(2) nz by (simp add: dd ram_good_def)
  then show "ram_disk.dev_ok s' d" using c(1) by (simp add: ram_disk.dev_ok_def dev)
  show "block_size (devices s' d) = bs" "block_count (devices s' d) = sz div ucast bs" by (simp_all add: dev)
qed

lemma fresh_cache_ok:
  assumes r: "mcsos_ramblk_init d ram (Some nm) (Some st) sz bs s = (Inr (), s1)" "length st = unat sz"
    and c: "mcsos_bcache_init (Some es) n (Some pool) bs s1 = (Inr (), s2)" "unat n * unat bs \<le> length pool" "length es = unat n"
  shows "ram_disk.cache_ok {d} s2" "cache_block_size (cache s2) = bs"
    "disks_of' = ram_disk.disks_of {d} s2 \<Longrightarrow> lba < sz div ucast bs \<Longrightarrow>
       disks_of' d lba = Some (take (unat bs) (drop (unat lba * unat bs) st))"
    "disks_of' = ram_disk.disks_of {d} s2 \<Longrightarrow> \<not> (d' = d \<and> lba < sz div ucast bs) \<Longrightarrow> disks_of' d' lba = None"
proof -
  note k = ramblk_init_ok [OF r]
  have n: "n \<noteq> 0" "bs \<noteq> 0" using c(1) by (auto simp: mcsos_bcache_init_def split: if_splits)
  define es' where "es' = map (\<lambda>i. \<lparr>data = take (unat bs) (drop (i * unat bs) pool), capacity = bs, e_lba = 0, valid = False,
      dirty = False, e_dev = 0\<rparr>) [0..<unat n] @ drop (unat n) es"
  have s2: "s2 = s1\<lparr>cache := \<lparr>entries = es', entry_count = n, cache_block_size = bs, clock_hand = 0\<rparr>\<rparr>"
    using c(1) n by (simp add: mcsos_bcache_init_def es'_def)
  have dev: "ram_disk.dev_ok s2 d" "devices s2 d = devices s1 d" using k(1) by (simp_all add: s2 ram_disk.dev_ok_def)
  have e: "entry s2 i = \<lparr>data = take (unat bs) (drop (i * unat bs) pool), capacity = bs, e_lba = 0, valid = False,
      dirty = False, e_dev = 0\<rparr>" if "i < unat n" for i
    using that by (simp add: s2 es'_def nth_append)
  have len: "length (take (unat bs) (drop (i * unat bs) pool)) = unat bs" if "i < unat n" for i
    using block_end [OF that, of "unat bs"] c(2) by simp
  have ca: "entry_count (cache s2) = n" "cache_block_size (cache s2) = bs" "length (entries (cache s2)) = unat n"
    by (simp_all add: s2 es'_def c(3))
  show "ram_disk.cache_ok {d} s2" "cache_block_size (cache s2) = bs"
    unfolding ram_disk.cache_ok_def ca using n dev k(2) e len by simp_all
  have nf: "mcsos_bcache_find (cache s2) d' lba' = None" for d' lba'
    unfolding mcsos_bcache_find_def find_upt_None_iff ca using e by simp
  show "disks_of' d lba = Some (take (unat bs) (drop (unat lba * unat bs) st))"
    if "disks_of' = ram_disk.disks_of {d} s2" "lba < sz div ucast bs"
    using that k(3) dev(2) nf by (simp add: ram_disk.disks_of_def ram_disk.in_range_def ram_disk.view_def ram_disk.contents_def
        ram_blk_def k(4))
  show "disks_of' d' lba = None" if "disks_of' = ram_disk.disks_of {d} s2" "\<not> (d' = d \<and> lba < sz div ucast bs)"
    using that k(3) dev(2) by (auto simp: ram_disk.disks_of_def ram_disk.in_range_def)
qed

definition demo_blk_state :: "mcsos_ramblk option bcache_state" where
  "demo_blk_state = \<lparr>devices = (\<lambda>_. \<lparr>dev_name = replicate 16 0, block_size = 0, block_count = 0, dev_flags = 0,
     driver_data = None, ops = None\<rparr>), g_blk_devices = replicate 8 0, g_blk_count = 0,
     cache = \<lparr>entries = [], entry_count = 0, cache_block_size = 0, clock_hand = 0\<rparr>\<rparr>"

definition demo_bcache :: "mcsos_ramblk option bcache_state" where
  "demo_bcache = snd (mcsos_bcache_init
     (Some (replicate 2 \<lparr>data = [], capacity = 0, e_lba = 0, valid = False, dirty = False, e_dev = 0\<rparr>)) 2
     (Some (replicate 1024 0)) 512 (snd (mcsos_ramblk_init 1 2 (Some [0x72, 0]) (Some (replicate 2048 0)) 2048 512 demo_blk_state)))"

lemma demo_bcache_ok: "ram_disk.cache_ok {1} demo_bcache" "cache_block_size (cache demo_bcache) = 512"
  "ram_disk.disks_of {1} demo_bcache 1 0 = Some (replicate 512 0)" "ram_disk.disks_of {1} demo_bcache 1 3 = Some (replicate 512 0)"
proof -
  define s1 where "s1 = snd (mcsos_ramblk_init 1 2 (Some [0x72, 0]) (Some (replicate 2048 0)) 2048 512 demo_blk_state)"
  have r: "mcsos_ramblk_init 1 2 (Some [0x72, 0]) (Some (replicate 2048 0)) 2048 512 demo_blk_state = (Inr (), s1)"
    by (simp add: s1_def mcsos_ramblk_init_def MCSOS_BLK_DEFAULT_SECTOR_SIZE_def mcsos_is_power_of_two_u32_local_def word_less_nat_alt)
  have c: "mcsos_bcache_init (Some (replicate 2 \<lparr>data = [], capacity = 0, e_lba = 0, valid = False, dirty = False, e_dev = 0\<rparr>)) 2
     (Some (replicate 1024 0)) 512 s1 = (Inr (), demo_bcache)"
    by (simp add: demo_bcache_def s1_def mcsos_bcache_init_def)
  note f = fresh_cache_ok [OF r _ c]
  show "ram_disk.cache_ok {1} demo_bcache" "cache_block_size (cache demo_bcache) = 512"
    "ram_disk.disks_of {1} demo_bcache 1 0 = Some (replicate 512 0)" "ram_disk.disks_of {1} demo_bcache 1 3 = Some (replicate 512 0)"
    using f(1,2) f(3) [OF _ _ _ refl, of 0] f(3) [OF _ _ _ refl, of 3] by (simp_all add: word_less_nat_alt unat_div)
qed

section \<open>A write behind the end of the device\<close>

text \<open>
  The cache does not check the block number of a write: behind the end of the device it is accepted, and the
  entry it makes cannot be written back, so every flush that reaches the entry fails.
\<close>

theorem bcache_write_past_end:
  assumes ok: "ram_disk.cache_ok D s" and d: "d \<in> D" and l: "block_count (devices s d) \<le> lba"
  shows "\<exists>i s'. mcsos_bcache_write d lba (Some x) s = (Inr (), s') \<and> i < unat (entry_count (cache s')) \<and>
    mcsos_bcache_flush_entry i s' = (Inl MCSOS_BLK_ERANGE, s')"
proof -
  note ck = ram_disk.cache_okD [OF ok]
  have g: "d \<noteq> 0" "cache_block_size (cache s) = block_size (devices s d)" using ck(3,4) d by (auto simp: ram_disk.dev_ok_def)
  have none: "mcsos_bcache_find (cache s) d lba = None"
    unfolding ram_disk.find_None_iff' using ck(6) l by (fastforce simp: ram_disk.in_range_def)
  obtain i s1 where v: "mcsos_bcache_select_victim s = (Inr i, s1)" by (rule ram_disk.select_victim_done [OF ok])
  then have sv: "ram_disk.same_view D s s1" "i < unat (entry_count (cache s))"
    using ram_disk.select_victim_ok [OF ok] by (metis prod.inject sum.inject(2) sum.distinct(1))+
  note ck1 = ram_disk.cache_okD [OF ram_disk.same_viewD(1) [OF sv(1)]]
  let ?f = "\<lambda>e. e\<lparr>e_dev := d, e_lba := lba, valid := True, data := mcsos_memcpy_u8 (data e) 0 x (unat (cache_block_size (cache s))), dirty := True\<rparr>"
  have i: "i < length (entries (cache s1))" "i < unat (entry_count (cache s1))" using sv ck1(1) ram_disk.same_viewD(2) [OF sv(1)] by simp_all
  have w: "mcsos_bcache_write d lba (Some x) s = (Inr (), set_entry i ?f s1)"
    using none g v i(1) ram_disk.same_viewD(3) [OF sv(1)] by (simp add: mcsos_bcache_write_def set_entry_def)
  have r: "\<not> lba < block_count (devices (set_entry i ?f s1) d)" "ram_disk.dev_ok (set_entry i ?f s1) d"
    using l ram_disk.same_viewD(4) [OF sv(1)] ck1(3) [OF d] by simp_all
  let ?s = "set_entry i ?f s1"
  have e: "entry ?s i = ?f (entry s1 i)" using i(1) by (simp add: ram_disk.entry_set_entry)
  have "set_entry i (\<lambda>e. e\<lparr>data := data (entry ?s i)\<rparr>) ?s = ?s" by (simp add: set_entry_def)
  then have "mcsos_bcache_flush_entry i ?s = (Inl MCSOS_BLK_ERANGE, ?s)"
    using ram_disk.range_err [OF r] by (simp add: mcsos_bcache_flush_entry_def mcsos_blk_write_def e del: ram_disk.set_entry_simps)
  then show ?thesis using w i(2) by auto
qed

section \<open>Properties\<close>

text \<open>
  C30. Over any driver whose one-block calls touch no other block and may fail, a failed write leaving
  anything in its block, from every consistent cache, every sequence of cached reads of any block, writes of
  blocks that the devices have, and flushes, on several devices, behaves as the calls on abstract disks: a
  read returns exactly the bytes last written to that block or an error, an error changes no block, a read
  behind the end of a device is an error, and the cache stays consistent. Writes behind the end of a device
  are outside of this: \<open>mcsos_bcache_write\<close> accepts them, and no flush can write such an entry back
  (\<open>bcache_write_past_end\<close>).
\<close>

theorem bcache_ops_refine_disks:
  assumes "blk_driver vt good blk" "blk_driver.cache_ok vt good blk D s"
    "list_all (bc_op_ok (unat (cache_block_size (cache s))) D (blk_driver.disks_of blk D s)) calls"
  shows "\<exists>rs s'. run_calls bc_call calls s = (rs, s') \<and> blk_driver.cache_ok vt good blk D s' \<and>
    calls_spec (bc_spec False) (blk_driver.disks_of blk D s) calls rs (blk_driver.disks_of blk D s')"
  by (rule blk_driver.bc_calls_ok [OF assms]) blast

theorem bcache_ops_refine_disks_witness:
  "\<exists>rs s'. run_calls bc_call [Bc_Write 1 3 (replicate 512 7), Bc_Read 1 3 (replicate 512 0), Bc_Flush] demo_bcache = (rs, s') \<and>
    blk_driver.cache_ok g_ramblk_ops ram_good ram_blk {1} s' \<and>
    calls_spec (bc_spec False) (blk_driver.disks_of ram_blk {1} demo_bcache)
      [Bc_Write 1 3 (replicate 512 7), Bc_Read 1 3 (replicate 512 0), Bc_Flush] rs (blk_driver.disks_of ram_blk {1} s')"
  by (rule bcache_ops_refine_disks [OF ram_disk.blk_driver_axioms demo_bcache_ok(1)]) (simp add: demo_bcache_ok(2) demo_bcache_ok(4) [unfolded One_nat_def])

text \<open>
  C31. On RAM disks no call fails: every in-range read returns the bytes last written, every write and
  flush succeeds, only reads behind the end fail; and after a final flush the checked read of the
  device, past the cache, returns for every block the bytes a client of the cache sees.
\<close>

theorem bcache_on_ramblk_durable:
  assumes "ram_disk.cache_ok D s" "list_all (bc_op_ok (unat (cache_block_size (cache s))) D (ram_disk.disks_of D s)) calls"
  shows "\<exists>rs s1 s2. run_calls bc_call calls s = (rs, s1) \<and> calls_spec (bc_spec True) (ram_disk.disks_of D s) calls rs (ram_disk.disks_of D s1) \<and>
    mcsos_bcache_flush_all s1 = (Inr (), s2) \<and> ram_disk.cache_ok D s2 \<and> ram_disk.disks_of D s2 = ram_disk.disks_of D s1 \<and>
    (\<forall>d lba x. ram_disk.disks_of D s1 d lba = Some x \<longrightarrow>
       (\<exists>s3. mcsos_blk_read d lba 1 (Some (replicate (unat (cache_block_size (cache s))) 0)) s2 = (Inr (), Some x, s3)))"
proof -
  obtain rs s1 where 1: "run_calls bc_call calls s = (rs, s1)" "ram_disk.cache_ok D s1"
    "unat (cache_block_size (cache s1)) = unat (cache_block_size (cache s))"
    "calls_spec (bc_spec True) (ram_disk.disks_of D s) calls rs (ram_disk.disks_of D s1)"
    by (rule ram_disk.bc_calls_reliable [OF assms])
  obtain s2 where 2: "mcsos_bcache_flush_all s1 = (Inr (), s2)" "ram_disk.cache_ok D s2" "ram_disk.disks_of D s2 = ram_disk.disks_of D s1"
    "\<And>d lba buf. ram_disk.in_range D s1 d lba \<Longrightarrow> length buf = unat (cache_block_size (cache s1)) \<Longrightarrow>
       fst (mcsos_blk_read d lba 1 (Some buf) s2) = Inr () \<and> fst (snd (mcsos_blk_read d lba 1 (Some buf) s2)) = Some (ram_disk.view s1 d lba)"
    by (rule ram_disk.flush_all_reliable [OF 1(2)]) blast
  have "\<exists>s3. mcsos_blk_read d lba 1 (Some (replicate (unat (cache_block_size (cache s))) 0)) s2 = (Inr (), Some x, s3)"
    if "ram_disk.disks_of D s1 d lba = Some x" for d lba x
  proof -
    have "ram_disk.in_range D s1 d lba" "x = ram_disk.view s1 d lba" using that by (simp_all add: ram_disk.disks_of_def split: if_splits)
    then show ?thesis using 2(4) [of d lba "replicate (unat (cache_block_size (cache s))) 0"] 1(3)
      by (metis length_replicate prod.collapse)
  qed
  then show ?thesis using 1 2(1-3) by blast
qed

theorem bcache_on_ramblk_durable_witness:
  "\<exists>rs s1 s2. run_calls bc_call [Bc_Write 1 3 (replicate 512 7), Bc_Read 1 9 (replicate 512 0)] demo_bcache = (rs, s1) \<and>
    calls_spec (bc_spec True) (ram_disk.disks_of {1} demo_bcache) [Bc_Write 1 3 (replicate 512 7), Bc_Read 1 9 (replicate 512 0)] rs
      (ram_disk.disks_of {1} s1) \<and>
    mcsos_bcache_flush_all s1 = (Inr (), s2) \<and> ram_disk.cache_ok {1} s2 \<and> ram_disk.disks_of {1} s2 = ram_disk.disks_of {1} s1 \<and>
    (\<forall>d lba x. ram_disk.disks_of {1} s1 d lba = Some x \<longrightarrow>
       (\<exists>s3. mcsos_blk_read d lba 1 (Some (replicate (unat (cache_block_size (cache demo_bcache))) 0)) s2 = (Inr (), Some x, s3)))"
  by (rule bcache_on_ramblk_durable [OF demo_bcache_ok(1)]) (simp add: demo_bcache_ok(2) demo_bcache_ok(4) [unfolded One_nat_def])

end
