(* ===== verification/Vfs.thy ===== *)
theory Vfs
  imports Prelude Bytes
begin

text \<open>
  The RAM file system and the file descriptors of a process: \<open>src/kernel/vfs/ramfs.c\<close>, \<open>fd.c\<close> and
  \<open>sys_vfs.c\<close>. A vnode pointer is the index of the node in the file system. An access outside of
  \<open>fs->data\<close> or of a node's name is the error \<open>MCS_FAULT\<close>; other than that the functions return what the
  C code returns, a status or a non-negative number.
\<close>

section \<open>Data\<close>

definition MCS_MAX_NAME :: nat where [layout]: "MCS_MAX_NAME = 32"
definition MCS_MAX_NODES :: u64 where [layout]: "MCS_MAX_NODES = 64"
definition MCS_MAX_OPEN_FILES :: nat where [layout]: "MCS_MAX_OPEN_FILES = 16"
definition MCS_RAMFS_DATA_BYTES :: nat where [layout]: "MCS_RAMFS_DATA_BYTES = 8192"
definition MCS_O_CREAT :: u32 where [layout]: "MCS_O_CREAT = 0x100"
definition MCS_SEEK_SET :: u32 where [layout]: "MCS_SEEK_SET = 0"

datatype mcs_vnode_type = MCS_VNODE_DIR | MCS_VNODE_FILE

datatype mcs_vfs_status =
  MCS_ENOENT | MCS_EBADF | MCS_EACCES | MCS_EEXIST | MCS_ENOTDIR | MCS_EISDIR | MCS_EINVAL | MCS_ENFILE | MCS_ENOSPC
| MCS_ENAMETOOLONG | MCS_FAULT

record mcs_vnode =
  n_used :: u32
  n_id :: u32
  n_parent :: u32
  n_type :: mcs_vnode_type
  n_name :: bytes
  n_size :: u64
  data_offset :: u64
  data_capacity :: u64

record mcs_ramfs =
  nodes :: "mcs_vnode list"
  node_count :: u64
  fs_data :: bytes
  data_used :: u64

record mcs_file =
  f_used :: u32
  f_flags :: u32
  f_offset :: u64
  f_node :: nat

text \<open>One process and the file system its descriptors point to.\<close>

record mcs_state =
  fs :: mcs_ramfs
  fd_table :: "mcs_file list"

type_synonym 'a vfs_prog = "(mcs_state, mcs_vfs_status, 'a) prog"

section \<open>The RAM file system\<close>

definition mcs_ramfs_init :: "mcs_ramfs \<Rightarrow> mcs_ramfs" where
  "mcs_ramfs_init r = r\<lparr>node_count := 1, data_used := 0,
     nodes := (nodes r)[0 := (nodes r ! 0)\<lparr>n_used := 1, n_id := 0, n_type := MCS_VNODE_DIR,
       n_name := (n_name (nodes r ! 0))[0 := 0x2f, 1 := 0], n_size := 0\<rparr>]\<rparr>"

text \<open>\<open>(path[0] == '/') ? path + 1 : path\<close>\<close>

definition path_name :: "bytes \<Rightarrow> bytes" where
  "path_name path = (if cstr_at path 0 = 0x2f then tl path else path)"

text \<open>
  \<open>while (name[j] == node.name[j] && name[j] != 0) j++\<close>, then both ended; no end within the array of the
  node is a read outside it (\<open>None\<close>).
\<close>

definition name_matches :: "bytes \<Rightarrow> bytes \<Rightarrow> bool option" where
  "name_matches name node_name =
     (case List.find (\<lambda>j. cstr_at name j \<noteq> node_name ! j \<or> cstr_at name j = 0) [0..<length node_name] of
        None \<Rightarrow> None
      | Some j \<Rightarrow> Some (cstr_at name j = 0 \<and> node_name ! j = 0))"

definition mcs_ramfs_lookup :: "mcs_ramfs \<Rightarrow> bytes option \<Rightarrow> mcs_vfs_status + nat" where
  "mcs_ramfs_lookup r path =
     (case path of None \<Rightarrow> Inl MCS_EINVAL
      | Some p \<Rightarrow>
        if cstr_at p 0 = 0x2f \<and> cstr_at p 1 = 0 then Inr 0
        else case List.find (\<lambda>i. name_matches (path_name p) (n_name (nodes r ! i)) \<noteq> Some False) [1..<unat (node_count r)] of
          None \<Rightarrow> Inl MCS_ENOENT
        | Some i \<Rightarrow> if name_matches (path_name p) (n_name (nodes r ! i)) = None then Inl MCS_FAULT else Inr i)"

text \<open>\<open>for (i = 0; i < MCS_MAX_NAME - 1; i++) { node->name[i] = name[i]; if (name[i] == 0) break; }\<close>\<close>

definition copy_node_name :: "bytes \<Rightarrow> bytes \<Rightarrow> bytes" where
  "copy_node_name old name =
     (let k = strlen_bounded name (MCS_MAX_NAME - 1); m = (if k < MCS_MAX_NAME - 1 then k + 1 else k)
      in map (cstr_at name) [0..<m] @ drop m old)"

definition mcs_ramfs_create_file :: "bytes \<Rightarrow> mcs_ramfs \<Rightarrow> (mcs_vfs_status + nat) \<times> mcs_ramfs" where
  "mcs_ramfs_create_file path r =
     (if MCS_MAX_NODES \<le> node_count r then (Inl MCS_ENOSPC, r)
      else let i = unat (node_count r); node = nodes r ! i in
        (Inr i, r\<lparr>node_count := node_count r + 1, data_used := data_used r + 256,
           nodes := (nodes r)[i := node\<lparr>n_used := 1, n_id := ucast (node_count r), n_type := MCS_VNODE_FILE,
             data_capacity := 256, data_offset := data_used r, n_size := 0,
             n_name := copy_node_name (n_name node) (path_name path)\<rparr>]\<rparr>))"

text \<open>\<open>for (i = 0; i < n; i++) fs->data[off + i] = s[i]\<close> and the reading loop.\<close>

definition store_data :: "u64 \<Rightarrow> bytes \<Rightarrow> mcs_ramfs \<Rightarrow> mcs_ramfs option" where
  "store_data off s r =
     (if s \<noteq> [] \<and> length (fs_data r) < unat off + length s then None
      else Some (r\<lparr>fs_data := take (unat off) (fs_data r) @ s @ drop (unat off + length s) (fs_data r)\<rparr>))"

definition load_data :: "u64 \<Rightarrow> nat \<Rightarrow> mcs_ramfs \<Rightarrow> bytes option" where
  "load_data off n r =
     (if n \<noteq> 0 \<and> length (fs_data r) < unat off + n then None else Some (take n (drop (unat off) (fs_data r))))"

definition mcs_ramfs_seed_file :: "bytes \<Rightarrow> bytes \<Rightarrow> mcs_ramfs \<Rightarrow> (mcs_vfs_status + unit) \<times> mcs_ramfs" where
  "mcs_ramfs_seed_file path d r =
     (case mcs_ramfs_create_file path r of
        (Inl rc, r') \<Rightarrow> (Inl rc, r')
      | (Inr i, r') \<Rightarrow> (case store_data (data_offset (nodes r' ! i)) d r' of
          None \<Rightarrow> (Inl MCS_FAULT, r')
        | Some r'' \<Rightarrow> (Inr (), r''\<lparr>nodes := (nodes r'')[i := (nodes r'' ! i)\<lparr>n_size := of_nat (length d)\<rparr>]\<rparr>)))"

section \<open>File descriptors\<close>

definition mcs_fd_table_init :: "mcs_file list \<Rightarrow> mcs_file list" where
  "mcs_fd_table_init t = map (\<lambda>f. f\<lparr>f_used := 0\<rparr>) t"

text \<open>\<open>mcs_fd_get\<close>: the index of an open descriptor; NULL is \<open>None\<close>.\<close>

definition mcs_fd_get :: "mcs_file list \<Rightarrow> int \<Rightarrow> nat option" where
  "mcs_fd_get t fd = (if fd < 0 \<or> int MCS_MAX_OPEN_FILES \<le> fd \<or> f_used (t ! nat fd) = 0 then None else Some (nat fd))"

definition mcs_fd_alloc :: "nat vfs_prog" where
  "mcs_fd_alloc s =
     (case List.find (\<lambda>i. f_used (fd_table s ! i) = 0) [0..<MCS_MAX_OPEN_FILES] of
        None \<Rightarrow> (Inl MCS_ENFILE, s)
      | Some i \<Rightarrow> (Inr i, s\<lparr>fd_table := (fd_table s)[i := (fd_table s ! i)\<lparr>f_used := 1\<rparr>]\<rparr>))"

definition set_file :: "nat \<Rightarrow> (mcs_file \<Rightarrow> mcs_file) \<Rightarrow> mcs_state \<Rightarrow> mcs_state" where
  "set_file i f s = s\<lparr>fd_table := (fd_table s)[i := f (fd_table s ! i)]\<rparr>"

definition mcs_sys_open :: "bytes option \<Rightarrow> u32 \<Rightarrow> int vfs_prog" where
  "mcs_sys_open path flags s =
     (case path of None \<Rightarrow> (Inl MCS_EINVAL, s)
      | Some p \<Rightarrow>
        if cstr_at p 0 \<noteq> 0x2f then (Inl MCS_EINVAL, s)
        else case mcs_fd_alloc s of
          (Inl e, s') \<Rightarrow> (Inl e, s')
        | (Inr fd, s1) \<Rightarrow>
          let found = (\<lambda>i s. (Inr (int fd), set_file fd (\<lambda>f. f\<lparr>f_flags := flags, f_node := i, f_offset := 0\<rparr>) s));
              failed = (\<lambda>s. (Inl MCS_ENOENT, set_file fd (\<lambda>f. f\<lparr>f_used := 0\<rparr>) s))
          in case mcs_ramfs_lookup (fs s1) (Some p) of
               Inr i \<Rightarrow> found i s1
             | Inl e \<Rightarrow>
                 if e = MCS_FAULT then (Inl MCS_FAULT, s1)
                 else if flags AND MCS_O_CREAT = 0 then failed s1
                 else (case mcs_ramfs_create_file p (fs s1) of
                     (Inl _, r) \<Rightarrow> failed (s1\<lparr>fs := r\<rparr>)
                   | (Inr i, r) \<Rightarrow> found i (s1\<lparr>fs := r\<rparr>)))"

definition mcs_sys_read :: "int \<Rightarrow> u64 \<Rightarrow> bytes vfs_prog" where
  "mcs_sys_read fd len s =
     (case mcs_fd_get (fd_table s) fd of None \<Rightarrow> (Inl MCS_EBADF, s)
      | Some i \<Rightarrow>
        (let f = fd_table s ! i; node = nodes (fs s) ! f_node f; avail = n_size node - f_offset f;
             n = (if len < avail then len else avail)
         in case load_data (data_offset node + f_offset f) (unat n) (fs s) of
              None \<Rightarrow> (Inl MCS_FAULT, s)
            | Some d \<Rightarrow> (Inr d, set_file i (\<lambda>f. f\<lparr>f_offset := f_offset f + n\<rparr>) s)))"

text \<open>The buffer and its length are the bytes written.\<close>

definition mcs_sys_write :: "int \<Rightarrow> bytes \<Rightarrow> nat vfs_prog" where
  "mcs_sys_write fd buf s =
     (case mcs_fd_get (fd_table s) fd of None \<Rightarrow> (Inl MCS_EBADF, s)
      | Some i \<Rightarrow>
        (let f = fd_table s ! i; j = f_node f; node = nodes (fs s) ! j in
         case store_data (data_offset node + f_offset f) buf (fs s) of
           None \<Rightarrow> (Inl MCS_FAULT, s)
         | Some r \<Rightarrow>
           (let offset' = f_offset f + of_nat (length buf);
                r' = (if n_size node < offset' then r\<lparr>nodes := (nodes r)[j := node\<lparr>n_size := offset'\<rparr>]\<rparr> else r)
            in (Inr (length buf), set_file i (\<lambda>f. f\<lparr>f_offset := offset'\<rparr>) (s\<lparr>fs := r'\<rparr>)))))"

definition mcs_sys_close :: "int \<Rightarrow> unit vfs_prog" where
  "mcs_sys_close fd s =
     (case mcs_fd_get (fd_table s) fd of None \<Rightarrow> (Inl MCS_EBADF, s)
      | Some i \<Rightarrow> (Inr (), set_file i (\<lambda>f. f\<lparr>f_used := 0\<rparr>) s))"

definition mcs_sys_lseek :: "int \<Rightarrow> u64 \<Rightarrow> u32 \<Rightarrow> int vfs_prog" where
  "mcs_sys_lseek fd offset whence s =
     (case mcs_fd_get (fd_table s) fd of None \<Rightarrow> (Inl MCS_EBADF, s)
      | Some i \<Rightarrow>
        (let s' = (if whence = MCS_SEEK_SET then set_file i (\<lambda>f. f\<lparr>f_offset := offset\<rparr>) s else s)
         in (Inr (sint (ucast (f_offset (fd_table s' ! i)) :: u32)), s')))"

end
