(* ===== verification/Vfs_Refine.thy ===== *)
theory Vfs_Refine
  imports Vfs
begin

text \<open>
  What the calls of the RAM file system promise (\<open>vfs_spec\<close>: a map of files and a table of open
  descriptors, each with its offset), the well-formed states \<open>vfs_ok\<close> of the code, the state of the
  specification that a state of the code stands for (\<open>vabs\<close>), and the proof that every program of calls
  within the limits of \<open>vfs_pre\<close> returns what the specification returns.
\<close>

section \<open>Names\<close>

definition cstr :: "bytes \<Rightarrow> bytes" where
  "cstr s = takeWhile (\<lambda>c. c \<noteq> 0) s"

lemma cstr_at_less: "j < length (cstr s) \<Longrightarrow> cstr_at s j = cstr s ! j \<and> cstr s ! j \<noteq> 0"
  using nth_mem [of j "cstr s"] length_takeWhile_le [of "\<lambda>c. c \<noteq> 0" s]
  by (auto simp: cstr_def cstr_at_def takeWhile_nth dest: set_takeWhileD)

lemma cstr_at_end: "cstr_at s (length (cstr s)) = 0"
  using nth_length_takeWhile [of "\<lambda>c. c \<noteq> 0" s] by (auto simp: cstr_def cstr_at_def)

lemma cstr_length_iff: "cstr_at s n = 0 \<Longrightarrow> (\<And>j. j < n \<Longrightarrow> cstr_at s j \<noteq> 0) \<Longrightarrow> length (cstr s) = n"
  by (rule linorder_cases [of "length (cstr s)" n]) (use cstr_at_end [of s] cstr_at_less [of n s] in auto)

lemma cstr_eqI: "length (cstr s) = n \<Longrightarrow> length (cstr t) = n \<Longrightarrow> (\<And>j. j < n \<Longrightarrow> cstr_at s j = cstr_at t j) \<Longrightarrow> cstr s = cstr t"
  by (rule nth_equalityI) (use cstr_at_less in metis)+

lemma name_matches_iff:
  assumes "length (cstr nn) < length nn"
  shows "name_matches name nn = Some (cstr name = cstr nn)"
proof -
  let ?P = "\<lambda>j. cstr_at name j \<noteq> nn ! j \<or> cstr_at name j = 0"
  have at: "nn ! j = cstr_at nn j" if "j < length nn" for j using that by (simp add: cstr_at_def)
  have "?P (length (cstr nn))" using cstr_at_end [of nn] at [OF assms] by auto
  then obtain j where j: "List.find ?P [0..<length nn] = Some j"
    by (rule find_upt_Some_exI [of ?P _ 0 "length nn"]) (use assms in simp_all)
  have ln: "j < length nn" and pj: "?P j" and pre: "\<And>i. i < j \<Longrightarrow> cstr_at name i = cstr_at nn i \<and> cstr_at name i \<noteq> 0"
    using find_upt_SomeD [OF j] at by auto
  have "(cstr name = cstr nn) \<longleftrightarrow> cstr_at name j = 0 \<and> cstr_at nn j = 0"
  proof
    assume z: "cstr_at name j = 0 \<and> cstr_at nn j = 0"
    then have "length (cstr name) = j" "length (cstr nn) = j" using pre by (metis cstr_length_iff)+
    then show "cstr name = cstr nn" using pre by (intro cstr_eqI [of _ j]) simp_all
  next
    assume e: "cstr name = cstr nn"
    have l: "j \<le> length (cstr name)"
    proof (rule ccontr)
      assume "\<not> ?thesis"
      then show False using pre [of "length (cstr name)"] cstr_at_end [of name] by simp
    qed
    show "cstr_at name j = 0 \<and> cstr_at nn j = 0"
    proof (cases "j = length (cstr name)")
      case True
      then show ?thesis using cstr_at_end [of name] cstr_at_end [of nn] e by simp
    next
      case False
      then have "cstr_at name j = cstr_at nn j" "cstr_at name j \<noteq> 0"
        using cstr_at_less [of j name] cstr_at_less [of j nn] e l by simp_all
      then show ?thesis using pj at [OF ln] by simp
    qed
  qed
  then show ?thesis using j at [OF ln] by (simp add: name_matches_def)
qed

section \<open>The file system a program sees\<close>

abbreviation vnode :: "mcs_state \<Rightarrow> nat \<Rightarrow> mcs_vnode" where
  "vnode s i \<equiv> nodes (fs s) ! i"

abbreviation vkey :: "mcs_state \<Rightarrow> nat \<Rightarrow> bytes" where
  "vkey s i \<equiv> cstr (n_name (vnode s i))"

definition vfs_ok :: "mcs_state \<Rightarrow> bool" where
  "vfs_ok s \<longleftrightarrow> length (nodes (fs s)) = 64 \<and> length (fs_data (fs s)) = 8192 \<and> length (fd_table s) = 16 \<and>
     1 \<le> unat (node_count (fs s)) \<and> unat (node_count (fs s)) \<le> 33 \<and>
     unat (data_used (fs s)) = 256 * (unat (node_count (fs s)) - 1) \<and>
     (\<forall>i<64. length (n_name (vnode s i)) = 32) \<and>
     (\<forall>i. 1 \<le> i \<longrightarrow> i < unat (node_count (fs s)) \<longrightarrow> unat (data_offset (vnode s i)) = 256 * (i - 1) \<and>
        unat (n_size (vnode s i)) \<le> 256 \<and> vkey s i \<noteq> [] \<and> length (vkey s i) \<le> 30) \<and>
     (\<forall>i j. 1 \<le> i \<longrightarrow> i < unat (node_count (fs s)) \<longrightarrow> 1 \<le> j \<longrightarrow> j < unat (node_count (fs s)) \<longrightarrow> vkey s i = vkey s j \<longrightarrow> i = j) \<and>
     (\<forall>d<16. f_used (fd_table s ! d) \<noteq> 0 \<longrightarrow> 1 \<le> f_node (fd_table s ! d) \<and> f_node (fd_table s ! d) < unat (node_count (fs s)))"

definition slot_data :: "mcs_state \<Rightarrow> nat \<Rightarrow> bytes" where
  "slot_data s i = take (unat (n_size (vnode s i))) (drop (256 * (i - 1)) (fs_data (fs s)))"

definition vslot :: "mcs_state \<Rightarrow> bytes \<Rightarrow> nat option" where
  "vslot s k = List.find (\<lambda>i. vkey s i = k) [1..<unat (node_count (fs s))]"

type_synonym vfs_abs = "(bytes \<Rightarrow> bytes option) \<times> (nat \<Rightarrow> (bytes \<times> nat) option)"

definition vfiles :: "mcs_state \<Rightarrow> bytes \<Rightarrow> bytes option" where
  "vfiles s k = map_option (slot_data s) (vslot s k)"

definition vfds :: "mcs_state \<Rightarrow> nat \<Rightarrow> (bytes \<times> nat) option" where
  "vfds s d = (if d < 16 \<and> f_used (fd_table s ! d) \<noteq> 0
     then Some (vkey s (f_node (fd_table s ! d)), unat (f_offset (fd_table s ! d))) else None)"

definition vabs :: "mcs_state \<Rightarrow> vfs_abs" where
  "vabs s = (vfiles s, vfds s)"

lemma vfs_okD:
  assumes "vfs_ok s"
  shows "length (nodes (fs s)) = 64" "length (fs_data (fs s)) = 8192" "length (fd_table s) = 16"
    "1 \<le> unat (node_count (fs s))" "unat (node_count (fs s)) \<le> 33" "unat (data_used (fs s)) = 256 * (unat (node_count (fs s)) - 1)"
    "i < 64 \<Longrightarrow> length (n_name (vnode s i)) = 32"
    "1 \<le> i \<Longrightarrow> i < unat (node_count (fs s)) \<Longrightarrow> unat (data_offset (vnode s i)) = 256 * (i - 1)"
    "1 \<le> i \<Longrightarrow> i < unat (node_count (fs s)) \<Longrightarrow> unat (n_size (vnode s i)) \<le> 256"
    "1 \<le> i \<Longrightarrow> i < unat (node_count (fs s)) \<Longrightarrow> vkey s i \<noteq> [] \<and> length (vkey s i) \<le> 30"
    "1 \<le> i \<Longrightarrow> i < unat (node_count (fs s)) \<Longrightarrow> 1 \<le> j \<Longrightarrow> j < unat (node_count (fs s)) \<Longrightarrow> vkey s i = vkey s j \<Longrightarrow> i = j"
    "d < 16 \<Longrightarrow> f_used (fd_table s ! d) \<noteq> 0 \<Longrightarrow> 1 \<le> f_node (fd_table s ! d) \<and> f_node (fd_table s ! d) < unat (node_count (fs s))"
  using assms unfolding vfs_ok_def by blast+

lemma vslot_Some_iff:
  assumes "vfs_ok s"
  shows "vslot s k = Some i \<longleftrightarrow> 1 \<le> i \<and> i < unat (node_count (fs s)) \<and> vkey s i = k"
proof
  assume "vslot s k = Some i"
  then show "1 \<le> i \<and> i < unat (node_count (fs s)) \<and> vkey s i = k" unfolding vslot_def using find_upt_SomeD(1-3) by fast
next
  assume i: "1 \<le> i \<and> i < unat (node_count (fs s)) \<and> vkey s i = k"
  then obtain j where j: "vslot s k = Some j" unfolding vslot_def
    by (metis (mono_tags, lifting) find_upt_Some_exI)
  then have "1 \<le> j \<and> j < unat (node_count (fs s)) \<and> vkey s j = k" unfolding vslot_def using find_upt_SomeD(1-3) by fast
  then show "vslot s k = Some i" using i j vfs_okD(11) [OF assms, of i j] by simp
qed

lemma vslot_None_iff: "vslot s k = None \<longleftrightarrow> (\<forall>i. 1 \<le> i \<longrightarrow> i < unat (node_count (fs s)) \<longrightarrow> vkey s i \<noteq> k)"
  unfolding vslot_def find_upt_None_iff by blast

lemma vfiles_slot: "vfs_ok s \<Longrightarrow> 1 \<le> i \<Longrightarrow> i < unat (node_count (fs s)) \<Longrightarrow> vfiles s (vkey s i) = Some (slot_data s i)"
  using vslot_Some_iff [of s "vkey s i" i] by (simp add: vfiles_def)

lemma vslot_data_length:
  "vfs_ok s \<Longrightarrow> 1 \<le> i \<Longrightarrow> i < unat (node_count (fs s)) \<Longrightarrow> length (slot_data s i) = unat (n_size (vnode s i))"
  using vfs_okD(2,5,9) [of s] by (fastforce simp: slot_data_def)

definition path_key :: "bytes \<Rightarrow> bytes" where
  "path_key p = cstr (path_name p)"

lemma vfs_lookup_ok:
  assumes ok: "vfs_ok s" and p: "path_key p \<noteq> []"
  shows "mcs_ramfs_lookup (fs s) (Some p) = (case vslot s (path_key p) of None \<Rightarrow> Inl MCS_ENOENT | Some i \<Rightarrow> Inr i)"
proof -
  have m: "name_matches (path_name p) (n_name (vnode s i)) = Some (path_key p = vkey s i)" if "1 \<le> i" "i < unat (node_count (fs s))" for i
    using name_matches_iff [of "n_name (vnode s i)" "path_name p"] vfs_okD(5) [OF ok] vfs_okD(7,10) [OF ok, of i] that by (simp add: path_key_def)
  have f: "List.find (\<lambda>i. name_matches (path_name p) (n_name (vnode s i)) \<noteq> Some False) [1..<unat (node_count (fs s))] = vslot s (path_key p)"
    unfolding vslot_def by (rule find_cong) (use m in auto)
  have "\<not> (cstr_at p 0 = 0x2f \<and> cstr_at p 1 = 0)"
  proof
    assume a: "cstr_at p 0 = 0x2f \<and> cstr_at p 1 = 0"
    then obtain q where q: "p = 0x2f # q" by (cases p) (auto simp: cstr_at_def)
    then have "cstr_at q 0 = 0" using a by (cases q) (simp_all add: cstr_at_def)
    then show False using p q by (cases q) (auto simp: path_key_def path_name_def cstr_def cstr_at_def)
  qed
  then have run: "mcs_ramfs_lookup (fs s) (Some p) = (case vslot s (path_key p) of None \<Rightarrow> Inl MCS_ENOENT
      | Some i \<Rightarrow> if name_matches (path_name p) (n_name (vnode s i)) = None then Inl MCS_FAULT else Inr i)"
    by (auto simp: mcs_ramfs_lookup_def f [unfolded One_nat_def])
  show ?thesis
  proof (cases "vslot s (path_key p)")
    case (Some i)
    then show ?thesis using run m vslot_Some_iff [OF ok, of "path_key p" i] by simp
  qed (simp add: run)
qed

lemma vfs_copy_node_name_ok:
  assumes "length old = 32" "length (cstr name) \<le> 30"
  shows "length (copy_node_name old name) = 32" "cstr (copy_node_name old name) = cstr name"
proof -
  let ?k = "length (cstr name)"
  have k: "strlen_bounded name 31 = ?k"
    using assms(2) cstr_at_end [of name] cstr_at_less [of _ name] by (intro strlen_bounded_unique) auto
  have e: "copy_node_name old name = map (cstr_at name) [0..<?k + 1] @ drop (?k + 1) old"
    using assms(2) k by (simp add: copy_node_name_def MCS_MAX_NAME_def Let_def)
  show "length (copy_node_name old name) = 32" using assms by (simp add: e del: upt_Suc)
  have at: "cstr_at (copy_node_name old name) j = cstr_at name j" if "j \<le> ?k" for j
    using that by (simp add: e cstr_at_def [of "map _ _ @ _"] nth_append del: upt_Suc)
  have "length (cstr (copy_node_name old name)) = ?k"
    using cstr_at_less [of _ name] at cstr_at_end [of name] by (intro cstr_length_iff) auto
  then show "cstr (copy_node_name old name) = cstr name" using at by (intro cstr_eqI [of _ ?k]) simp_all
qed

section \<open>The calls of a program, and what they mean\<close>

datatype vfs_op = V_Seed bytes bytes | V_Open bytes u32 | V_Read int u64 | V_Write int bytes | V_Seek int u64 u32 | V_Close int
datatype vfs_res = V_Number int | V_Data bytes

text \<open>\<open>V_Seed\<close> is the kernel putting a file into the file system before programs run.\<close>

fun vfs_call :: "vfs_op \<Rightarrow> vfs_res vfs_prog" where
  "vfs_call (V_Seed p d) s = (case mcs_ramfs_seed_file p d (fs s) of
     (Inl e, r) \<Rightarrow> (Inl e, s\<lparr>fs := r\<rparr>) | (Inr _, r) \<Rightarrow> (Inr (V_Number 0), s\<lparr>fs := r\<rparr>))"
| "vfs_call (V_Open p fl) s = pbind (mcs_sys_open (Some p) fl) (\<lambda>n. pret (V_Number n)) s"
| "vfs_call (V_Read fd len) s = pbind (mcs_sys_read fd len) (\<lambda>d. pret (V_Data d)) s"
| "vfs_call (V_Write fd d) s = pbind (mcs_sys_write fd d) (\<lambda>n. pret (V_Number (int n))) s"
| "vfs_call (V_Seek fd off wh) s = pbind (mcs_sys_lseek fd off wh) (\<lambda>n. pret (V_Number n)) s"
| "vfs_call (V_Close fd) s = pbind (mcs_sys_close fd) (\<lambda>_. pret (V_Number 0)) s"

text \<open>A map of files and a table of open files, each with its offset.\<close>

definition fd_at :: "(nat \<Rightarrow> 'a option) \<Rightarrow> int \<Rightarrow> 'a option" where
  "fd_at T fd = (if fd < 0 then None else T (nat fd))"

definition patch :: "nat \<Rightarrow> bytes \<Rightarrow> bytes \<Rightarrow> bytes" where
  "patch o' d c = take o' c @ d @ drop (o' + length d) c"

fun vfs_spec :: "vfs_op \<Rightarrow> vfs_abs \<Rightarrow> (mcs_vfs_status + vfs_res) \<times> vfs_abs" where
  "vfs_spec (V_Seed p d) (F, T) = (Inr (V_Number 0), (F(path_key p \<mapsto> d), T))"
| "vfs_spec (V_Open p fl) (F, T) =
     (case List.find (\<lambda>i. T i = None) [0..<16] of None \<Rightarrow> (Inl MCS_ENFILE, (F, T))
      | Some fd \<Rightarrow> let k = path_key p in
          if F k \<noteq> None then (Inr (V_Number (int fd)), (F, T(fd \<mapsto> (k, 0))))
          else if fl AND MCS_O_CREAT = 0 then (Inl MCS_ENOENT, (F, T))
          else (Inr (V_Number (int fd)), (F(k \<mapsto> []), T(fd \<mapsto> (k, 0)))))"
| "vfs_spec (V_Read fd len) (F, T) =
     (case fd_at T fd of None \<Rightarrow> (Inl MCS_EBADF, (F, T))
      | Some (k, p) \<Rightarrow> let d = take (unat len) (drop p (the (F k))) in (Inr (V_Data d), (F, T(nat fd \<mapsto> (k, p + length d)))))"
| "vfs_spec (V_Write fd d) (F, T) =
     (case fd_at T fd of None \<Rightarrow> (Inl MCS_EBADF, (F, T))
      | Some (k, p) \<Rightarrow> (Inr (V_Number (int (length d))), (F(k \<mapsto> patch p d (the (F k))), T(nat fd \<mapsto> (k, p + length d)))))"
| "vfs_spec (V_Seek fd off wh) (F, T) =
     (case fd_at T fd of None \<Rightarrow> (Inl MCS_EBADF, (F, T))
      | Some (k, p) \<Rightarrow> let p' = (if wh = MCS_SEEK_SET then unat off else p) in
          (Inr (V_Number (sint (of_nat p' :: u32))), (F, T(nat fd \<mapsto> (k, p')))))"
| "vfs_spec (V_Close fd) (F, T) =
     (case fd_at T fd of None \<Rightarrow> (Inl MCS_EBADF, (F, T))
      | Some _ \<Rightarrow> (Inr (V_Number 0), (F, T(nat fd := None))))"

text \<open>
  The calls the code is made for: absolute paths with a name of 1 to 30 characters, at most 32 files,
  reads and writes that start inside the file, and files of at most 256 bytes.
\<close>

fun vfs_pre :: "vfs_op \<Rightarrow> vfs_abs \<Rightarrow> bool" where
  "vfs_pre (V_Seed p d) (F, T) = (path_key p \<noteq> [] \<and> length (path_key p) \<le> 30 \<and> F (path_key p) = None \<and>
     card (dom F) < 32 \<and> length d \<le> 256)"
| "vfs_pre (V_Open p fl) (F, T) = (cstr_at p 0 = 0x2f \<and> path_key p \<noteq> [] \<and> length (path_key p) \<le> 30 \<and>
     (F (path_key p) = None \<longrightarrow> card (dom F) < 32))"
| "vfs_pre (V_Read fd len) (F, T) = (case fd_at T fd of None \<Rightarrow> True | Some (k, p) \<Rightarrow> p \<le> length (the (F k)))"
| "vfs_pre (V_Write fd d) (F, T) = (case fd_at T fd of None \<Rightarrow> True
     | Some (k, p) \<Rightarrow> p \<le> length (the (F k)) \<and> p + length d \<le> 256)"
| "vfs_pre (V_Seek fd off wh) (F, T) = True"
| "vfs_pre (V_Close fd) (F, T) = True"

fun vfs_pres :: "vfs_op list \<Rightarrow> vfs_abs \<Rightarrow> bool" where
  "vfs_pres [] a = True"
| "vfs_pres (c # cs) a = (vfs_pre c a \<and> vfs_pres cs (snd (vfs_spec c a)))"

section \<open>Changes of the table\<close>

lemma set_file_simps [simp]:
  "fs (set_file i f s) = fs s" "length (fd_table (set_file i f s)) = length (fd_table s)"
  "i < length (fd_table s) \<Longrightarrow> fd_table (set_file i f s) ! j = (if j = i then f (fd_table s ! i) else fd_table s ! j)"
  by (simp_all add: set_file_def)

lemma vfiles_set_file [simp]: "vfiles (set_file i f s) = vfiles s"
proof -
  have e: "slot_data (set_file i f s) = slot_data s" by (rule ext) (simp add: slot_data_def)
  show ?thesis by (rule ext) (simp add: vfiles_def vslot_def e)
qed

lemma vfs_ok_set_file:
  assumes "vfs_ok s" "i < 16" "f_used (f (fd_table s ! i)) \<noteq> 0 \<Longrightarrow>
    1 \<le> f_node (f (fd_table s ! i)) \<and> f_node (f (fd_table s ! i)) < unat (node_count (fs s))"
  shows "vfs_ok (set_file i f s)"
  using assms unfolding vfs_ok_def by simp

lemma vfds_set_file:
  assumes "vfs_ok s" "i < 16"
  shows "vfds (set_file i f s) = (vfds s)(i := (if f_used (f (fd_table s ! i)) \<noteq> 0
    then Some (vkey s (f_node (f (fd_table s ! i))), unat (f_offset (f (fd_table s ! i)))) else None))"
  using assms vfs_okD(3) [OF assms(1)] by (auto simp: vfds_def fun_eq_iff)

lemma fd_get_vfds:
  assumes "vfs_ok s"
  shows "mcs_fd_get (fd_table s) fd = (case fd_at (vfds s) fd of None \<Rightarrow> None | Some _ \<Rightarrow> Some (nat fd))"
  by (auto simp: mcs_fd_get_def fd_at_def vfds_def MCS_MAX_OPEN_FILES_def)

text \<open>An open descriptor.\<close>

lemma fd_at_Some:
  assumes ok: "vfs_ok s" and fd: "fd_at (vfds s) fd = Some (k, p)"
  defines "i \<equiv> nat fd"
  defines "j \<equiv> f_node (fd_table s ! i)"
  shows "mcs_fd_get (fd_table s) fd = Some i" "i < 16" "f_used (fd_table s ! i) \<noteq> 0" "1 \<le> j" "j < unat (node_count (fs s))"
    "k = vkey s j" "p = unat (f_offset (fd_table s ! i))" "vfiles s k = Some (slot_data s j)"
proof -
  have a: "\<not> fd < 0" "i < 16" "f_used (fd_table s ! i) \<noteq> 0" "k = vkey s j" "p = unat (f_offset (fd_table s ! i))"
    using fd by (auto simp: fd_at_def vfds_def i_def j_def split: if_splits)
  then show "mcs_fd_get (fd_table s) fd = Some i" "i < 16" "f_used (fd_table s ! i) \<noteq> 0" "k = vkey s j" "p = unat (f_offset (fd_table s ! i))"
    using fd_get_vfds [OF ok, of fd] fd by (simp_all add: i_def)
  show j: "1 \<le> j" "j < unat (node_count (fs s))" using vfs_okD(12) [OF ok a(2,3)] by (simp_all add: j_def)
  show "vfiles s k = Some (slot_data s j)" using vfiles_slot [OF ok j] a(4) by simp
qed

section \<open>The calls keep to the specification\<close>

definition vfs_refines :: "vfs_op \<Rightarrow> mcs_state \<Rightarrow> bool" where
  "vfs_refines c s \<longleftrightarrow> (\<exists>r s'. vfs_call c s = (r, s') \<and> vfs_ok s' \<and> (r, vabs s') = vfs_spec c (vabs s))"

lemma vfs_close_ok:
  assumes ok: "vfs_ok s"
  shows "vfs_refines (V_Close fd) s"
proof (cases "fd_at (vfds s) fd")
  case None
  then show ?thesis using ok fd_get_vfds [OF ok, of fd] by (simp add: vfs_refines_def vabs_def mcs_sys_close_def prog_run)
next
  case (Some kp)
  obtain k p where kp: "kp = (k, p)" by (cases kp)
  note f = fd_at_Some [OF ok Some [unfolded kp]]
  have "vfs_ok (set_file (nat fd) (\<lambda>f. f\<lparr>f_used := 0\<rparr>) s)" using f(2) by (intro vfs_ok_set_file ok) simp_all
  then show ?thesis using f(1) Some vfds_set_file [OF ok f(2), of "\<lambda>f. f\<lparr>f_used := 0\<rparr>"]
    by (simp add: vfs_refines_def vabs_def mcs_sys_close_def prog_run kp)
qed

lemma vfs_seek_ok:
  assumes ok: "vfs_ok s"
  shows "vfs_refines (V_Seek fd off wh) s"
proof (cases "fd_at (vfds s) fd")
  case None
  then show ?thesis using ok fd_get_vfds [OF ok, of fd] by (simp add: vfs_refines_def vabs_def mcs_sys_lseek_def prog_run)
next
  case (Some kp)
  obtain k p where kp: "kp = (k, p)" by (cases kp)
  note f = fd_at_Some [OF ok Some [unfolded kp]]
  define s' where "s' = (if wh = MCS_SEEK_SET then set_file (nat fd) (\<lambda>f. f\<lparr>f_offset := off\<rparr>) s else s)"
  have "vfs_ok s'" using f(2,3,4,5) unfolding s'_def by (auto intro!: vfs_ok_set_file ok)
  moreover have "vabs s' = (vfiles s, (vfds s)(nat fd \<mapsto> (k, if wh = MCS_SEEK_SET then unat off else p)))"
  proof (cases "wh = MCS_SEEK_SET")
    case True
    then show ?thesis using f(3,6) by (simp add: s'_def vabs_def vfds_set_file [OF ok f(2)])
  next
    case False
    have "vfds s (nat fd) = Some (k, p)" using Some kp by (simp add: fd_at_def split: if_splits)
    then show ?thesis using False by (simp add: s'_def vabs_def fun_upd_idem)
  qed
  moreover have "f_offset (fd_table s' ! nat fd) = (if wh = MCS_SEEK_SET then off else f_offset (fd_table s ! nat fd))"
    using f(2) vfs_okD(3) [OF ok] by (simp add: s'_def)
  moreover have "vfs_call (V_Seek fd off wh) s = (Inr (V_Number (sint (ucast (f_offset (fd_table s' ! nat fd)) :: u32))), s')"
    using f(1) by (simp add: mcs_sys_lseek_def prog_run Let_def s'_def)
  ultimately show ?thesis using Some by (auto simp: vfs_refines_def vabs_def kp f(7) Let_def)
qed

lemma slot_bound: "j < unat nc \<Longrightarrow> unat (nc :: u64) \<le> 33 \<Longrightarrow> 1 \<le> j \<Longrightarrow> 256 * (j - 1) + 256 \<le> (8192 :: nat)"
  by simp

lemma slot_offset:
  assumes "vfs_ok s" "1 \<le> j" "j < unat (node_count (fs s))" "unat o' \<le> 256"
  shows "unat (data_offset (vnode s j) + o') = 256 * (j - 1) + unat o'"
proof -
  have "256 * (j - 1) + unat o' < 18446744073709551616" using slot_bound [OF assms(3) vfs_okD(5) [OF assms(1)] assms(2)] assms(4) by simp
  then show ?thesis using vfs_okD(8) [OF assms(1-3)] by (simp add: unat_word_ariths)
qed

lemma vfs_read_ok:
  assumes ok: "vfs_ok s" and pre: "vfs_pre (V_Read fd len) (vabs s)"
  shows "vfs_refines (V_Read fd len) s"
proof (cases "fd_at (vfds s) fd")
  case None
  then show ?thesis using ok fd_get_vfds [OF ok, of fd] by (simp add: vfs_refines_def vabs_def mcs_sys_read_def prog_run)
next
  case (Some kp)
  obtain k p where kp: "kp = (k, p)" by (cases kp)
  note f = fd_at_Some [OF ok Some [unfolded kp]]
  define i j where "i = nat fd" and "j = f_node (fd_table s ! nat fd)"
  note j = f(4,5) [folded j_def]
  let ?f = "fd_table s ! nat fd"
  let ?c = "slot_data s j"
  let ?sz = "unat (n_size (vnode s j))"
  have c: "vfiles s k = Some ?c" "length ?c = ?sz" "?sz \<le> 256"
    using f(8) vslot_data_length [OF ok j] vfs_okD(9) [OF ok j] by (simp_all add: j_def)
  have p: "p \<le> ?sz" using pre Some kp c by (simp add: vabs_def)
  define n where "n = (if len < n_size (vnode s j) - f_offset ?f then len else n_size (vnode s j) - f_offset ?f)"
  have un: "unat n = min (unat len) (?sz - p)"
    using p f(7) by (auto simp: n_def word_less_nat_alt unat_sub_if_size)
  have off: "unat (data_offset (vnode s j) + f_offset ?f) = 256 * (j - 1) + p"
    using slot_offset [OF ok j, of "f_offset ?f"] p c(3) f(7) by simp
  let ?d = "take (unat len) (drop p ?c)"
  have "take (unat n) (drop (256 * (j - 1) + p) (fs_data (fs s))) = ?d"
    by (simp add: slot_data_def drop_take un min.commute add.commute)
  moreover have "\<not> length (fs_data (fs s)) < 256 * (j - 1) + p + unat n"
    using slot_bound [OF j(2) vfs_okD(5) [OF ok] j(1)] vfs_okD(2) [OF ok] un p c(3) by simp
  ultimately have ld: "load_data (data_offset (vnode s j) + f_offset ?f) (unat n) (fs s) = Some ?d"
    by (simp add: load_data_def off)
  let ?s = "set_file (nat fd) (\<lambda>f. f\<lparr>f_offset := f_offset f + n\<rparr>) s"
  have run: "vfs_call (V_Read fd len) s = (Inr (V_Data ?d), ?s)"
    using f(1) ld unfolding n_def j_def by (simp add: mcs_sys_read_def prog_run Let_def)
  have ld': "length ?d = unat n" using c(2) un by (simp add: min.commute)
  have "p + unat n \<le> 256" using un p c(3) by simp
  then have "unat (f_offset ?f + n) = p + length ?d" unfolding ld' using f(7) by (simp add: unat_word_ariths)
  then have "vabs ?s = (vfiles s, (vfds s)(nat fd \<mapsto> (k, p + length ?d)))"
    using f(3,6) by (simp add: vabs_def vfds_set_file [OF ok f(2)] j_def)
  moreover have "vfs_ok ?s" using f(2-5) by (intro vfs_ok_set_file ok) simp_all
  ultimately show ?thesis using run Some kp c(1) by (simp add: vfs_refines_def vabs_def Let_def)
qed

text \<open>Writing inside one slot.\<close>

lemma take_drop_patch_other:
  assumes "a + m \<le> b \<or> b + length d \<le> a" "b + length d \<le> length xs"
  shows "take m (drop a (take b xs @ d @ drop (b + length d) xs)) = take m (drop a (xs :: 'a list))"
  using assms(1)
proof
  assume "a + m \<le> b"
  then show ?thesis using assms(2) by (simp add: take_drop)
next
  assume "b + length d \<le> a"
  then show ?thesis using assms(2) by simp
qed

lemma take_drop_patch_inside:
  assumes "o' \<le> sz" "a + sz \<le> length xs" "a + o' + length d \<le> length xs"
  shows "take (max sz (o' + length d)) (drop a (take (a + o') xs @ d @ drop (a + o' + length d) xs)) =
    patch o' d (take sz (drop a xs))"
proof -
  let ?y = "drop a xs"
  have "drop (a + o' + length d) xs = drop (o' + length d) ?y" by (simp add: add.commute add.left_commute)
  moreover have "drop a (take (a + o') xs) = take o' ?y" by (simp add: drop_take)
  moreover have "a \<le> length (take (a + o') xs)" using assms by simp
  ultimately have "drop a (take (a + o') xs @ d @ drop (a + o' + length d) xs) = take o' ?y @ d @ drop (o' + length d) ?y"
    by (simp only: drop_append) simp
  moreover have "o' \<le> length ?y" using assms by simp
  moreover have "max sz (o' + length d) - (o' + length d) = sz - (o' + length d)" by simp
  ultimately show ?thesis using assms(1) by (simp add: patch_def drop_take)
qed

text \<open>One slot gets new contents, or is new: the map of files changes at its name only.\<close>

lemma vfiles_Some_iff:
  assumes "vfs_ok s"
  shows "vfiles s key = Some d \<longleftrightarrow> (\<exists>i. 1 \<le> i \<and> i < unat (node_count (fs s)) \<and> vkey s i = key \<and> slot_data s i = d)"
  using vslot_Some_iff [OF assms] by (auto simp: vfiles_def split: option.split)

lemma vfiles_change:
  assumes ok: "vfs_ok s" "vfs_ok s'" and j: "1 \<le> j" "j < unat (node_count (fs s'))" "j < unat (node_count (fs s)) \<Longrightarrow> vkey s j = vkey s' j"
    and range: "\<And>i. i \<noteq> j \<Longrightarrow> 1 \<le> i \<Longrightarrow> i < unat (node_count (fs s')) \<longleftrightarrow> i < unat (node_count (fs s))"
    and same: "\<And>i. i \<noteq> j \<Longrightarrow> 1 \<le> i \<Longrightarrow> i < unat (node_count (fs s)) \<Longrightarrow> vkey s' i = vkey s i \<and> slot_data s' i = slot_data s i"
  shows "vfiles s' = (vfiles s)(vkey s' j \<mapsto> slot_data s' j)"
proof
  fix key
  show "vfiles s' key = ((vfiles s)(vkey s' j \<mapsto> slot_data s' j)) key"
  proof (cases "key = vkey s' j")
    case True
    then have "vfiles s' key = Some (slot_data s' j)" unfolding vfiles_Some_iff [OF ok(2)] using j by blast
    then show ?thesis using True by simp
  next
    case False
    have "vfiles s' key = Some d \<longleftrightarrow> vfiles s key = Some d" for d
      unfolding vfiles_Some_iff [OF ok(1)] vfiles_Some_iff [OF ok(2)] using False j(3) range same by metis
    then have "vfiles s' key = vfiles s key" by (metis not_None_eq)
    then show ?thesis using False by simp
  qed
qed

definition patch_file :: "nat \<Rightarrow> nat \<Rightarrow> bytes \<Rightarrow> u64 \<Rightarrow> mcs_state \<Rightarrow> mcs_state" where
  "patch_file j o' d sz s = s\<lparr>fs := (fs s)
     \<lparr>fs_data := take (256 * (j - 1) + o') (fs_data (fs s)) @ d @ drop (256 * (j - 1) + o' + length d) (fs_data (fs s)),
      nodes := (nodes (fs s))[j := (vnode s j)\<lparr>n_size := sz\<rparr>]\<rparr>\<rparr>"

lemma patch_file_facts:
  assumes ok: "vfs_ok s" and j: "1 \<le> j" "j < unat (node_count (fs s))" and o': "o' + length d \<le> 256"
  shows "n_name (vnode (patch_file j o' d sz s) i) = n_name (vnode s i)"
    "data_offset (vnode (patch_file j o' d sz s) i) = data_offset (vnode s i)"
    "n_size (vnode (patch_file j o' d sz s) i) = (if i = j then sz else n_size (vnode s i))"
    "fd_table (patch_file j o' d sz s) = fd_table s" "node_count (fs (patch_file j o' d sz s)) = node_count (fs s)"
    "data_used (fs (patch_file j o' d sz s)) = data_used (fs s)"
    "length (nodes (fs (patch_file j o' d sz s))) = length (nodes (fs s))"
    "length (fs_data (fs (patch_file j o' d sz s))) = length (fs_data (fs s))"
proof -
  have jl: "j < length (nodes (fs s))" using j vfs_okD(1,5) [OF ok] by simp
  have b: "256 * (j - 1) + 256 \<le> length (fs_data (fs s))" using slot_bound [OF j(2) vfs_okD(5) [OF ok] j(1)] vfs_okD(2) [OF ok] by simp
  show "n_name (vnode (patch_file j o' d sz s) i) = n_name (vnode s i)"
    "data_offset (vnode (patch_file j o' d sz s) i) = data_offset (vnode s i)"
    "n_size (vnode (patch_file j o' d sz s) i) = (if i = j then sz else n_size (vnode s i))"
    using jl by (simp_all add: patch_file_def nth_list_update)
  show "fd_table (patch_file j o' d sz s) = fd_table s" "node_count (fs (patch_file j o' d sz s)) = node_count (fs s)"
    "data_used (fs (patch_file j o' d sz s)) = data_used (fs s)"
    "length (nodes (fs (patch_file j o' d sz s))) = length (nodes (fs s))"
    "length (fs_data (fs (patch_file j o' d sz s))) = length (fs_data (fs s))"
    using b o' by (simp_all add: patch_file_def)
qed

lemma patch_file_data:
  assumes ok: "vfs_ok s" and j: "1 \<le> j" "j < unat (node_count (fs s))" and o': "o' \<le> unat (n_size (vnode s j))" "o' + length d \<le> 256"
    and sz: "unat sz = max (unat (n_size (vnode s j))) (o' + length d)" and i: "1 \<le> i" "i < unat (node_count (fs s))"
  shows "slot_data (patch_file j o' d sz s) i = (if i = j then patch o' d (slot_data s j) else slot_data s i)"
proof -
  let ?s = "patch_file j o' d sz s"
  note f = patch_file_facts [OF ok j o'(2)]
  have b: "256 * (j - 1) + 256 \<le> length (fs_data (fs s))" using slot_bound [OF j(2) vfs_okD(5) [OF ok] j(1)] vfs_okD(2) [OF ok] by simp
  have fd: "fs_data (fs ?s) = take (256 * (j - 1) + o') (fs_data (fs s)) @ d @ drop (256 * (j - 1) + o' + length d) (fs_data (fs s))"
    by (simp add: patch_file_def)
  show ?thesis
  proof (cases "i = j")
    case True
    have "take (max (unat (n_size (vnode s j))) (o' + length d)) (drop (256 * (j - 1)) (fs_data (fs ?s))) = patch o' d (slot_data s j)"
      unfolding fd slot_data_def using o' b vfs_okD(9) [OF ok j] by (intro take_drop_patch_inside) simp_all
    then show ?thesis unfolding True slot_data_def [of ?s] f(3) if_P [OF refl] sz .
  next
    case False
    have "256 * (i - 1) + unat (n_size (vnode s i)) \<le> 256 * (j - 1) + o' \<or> 256 * (j - 1) + o' + length d \<le> 256 * (i - 1)"
      using False i j(1) o'(2) vfs_okD(9) [OF ok i] by (cases "i < j") auto
    then have "take (unat (n_size (vnode s i))) (drop (256 * (i - 1)) (fs_data (fs ?s))) = slot_data s i"
      using take_drop_patch_other [of "256 * (i - 1)" "unat (n_size (vnode s i))" "256 * (j - 1) + o'" d "fs_data (fs s)"] b o'(2)
      by (simp add: slot_data_def fd)
    then show ?thesis unfolding slot_data_def [of ?s] f(3) if_not_P [OF False] .
  qed
qed

lemma patch_file_ok:
  assumes ok: "vfs_ok s" and j: "1 \<le> j" "j < unat (node_count (fs s))" and o': "o' \<le> unat (n_size (vnode s j))" "o' + length d \<le> 256"
    and sz: "unat sz = max (unat (n_size (vnode s j))) (o' + length d)"
  shows "vfs_ok (patch_file j o' d sz s)" "vfiles (patch_file j o' d sz s) = (vfiles s)(vkey s j \<mapsto> patch o' d (slot_data s j))"
    "vfds (patch_file j o' d sz s) = vfds s"
proof -
  note f = patch_file_facts [OF ok j o'(2)]
  have "unat sz \<le> 256" using sz vfs_okD(9) [OF ok j] o'(2) by simp
  then show ok': "vfs_ok (patch_file j o' d sz s)" using ok unfolding vfs_ok_def f by auto
  show "vfds (patch_file j o' d sz s) = vfds s" by (rule ext) (simp only: vfds_def f)
  show "vfiles (patch_file j o' d sz s) = (vfiles s)(vkey s j \<mapsto> patch o' d (slot_data s j))"
    using vfiles_change [OF ok ok' j(1)] j patch_file_data [OF assms] by (simp add: f)
qed

lemma vfs_write_ok:
  assumes ok: "vfs_ok s" and pre: "vfs_pre (V_Write fd d) (vabs s)"
  shows "vfs_refines (V_Write fd d) s"
proof (cases "fd_at (vfds s) fd")
  case None
  then show ?thesis using ok fd_get_vfds [OF ok, of fd] by (simp add: vfs_refines_def vabs_def mcs_sys_write_def prog_run)
next
  case (Some kp)
  obtain k p where kp: "kp = (k, p)" by (cases kp)
  note f = fd_at_Some [OF ok Some [unfolded kp]]
  define j where "j = f_node (fd_table s ! nat fd)"
  note j = f(4,5) [folded j_def]
  let ?f = "fd_table s ! nat fd"
  have c: "vfiles s k = Some (slot_data s j)" "length (slot_data s j) = unat (n_size (vnode s j))"
    using f(8) vslot_data_length [OF ok j] by (simp_all add: j_def)
  have p: "p \<le> unat (n_size (vnode s j))" "p + length d \<le> 256" using pre Some kp c by (simp_all add: vabs_def)
  have off: "unat (data_offset (vnode s j) + f_offset ?f) = 256 * (j - 1) + p"
    using slot_offset [OF ok j, of "f_offset ?f"] p f(7) by simp
  define off' where "off' = f_offset ?f + of_nat (length d)"
  have uo: "unat off' = p + length d" using p(2) f(7) by (simp add: off'_def unat_word_ariths unsigned_of_nat take_bit_nat_eq_self)
  define sz where "sz = (if n_size (vnode s j) < off' then off' else n_size (vnode s j))"
  have usz: "unat sz = max (unat (n_size (vnode s j))) (p + length d)" using uo by (auto simp: sz_def word_less_nat_alt)
  note ps = patch_file_ok [OF ok j p usz]
  have sp: "node_count (fs (patch_file j p d sz s)) = node_count (fs s)" "vkey (patch_file j p d sz s) j = vkey s j"
    using patch_file_facts [OF ok j p(2)] by simp_all
  have nf: "\<not> length (fs_data (fs s)) < 256 * (j - 1) + p + length d"
    using slot_bound [OF j(2) vfs_okD(5) [OF ok] j(1)] vfs_okD(2) [OF ok] p(2) by simp
  define r0 where "r0 = (fs s)\<lparr>fs_data := take (256 * (j - 1) + p) (fs_data (fs s)) @ d @ drop (256 * (j - 1) + p + length d) (fs_data (fs s))\<rparr>"
  have st: "store_data (data_offset (vnode s j) + f_offset ?f) d (fs s) = Some r0" using nf by (simp add: store_data_def off r0_def)
  have r: "s\<lparr>fs := if n_size (vnode s j) < off' then r0\<lparr>nodes := (nodes r0)[j := (vnode s j)\<lparr>n_size := off'\<rparr>]\<rparr> else r0\<rparr> = patch_file j p d sz s"
    by (simp add: patch_file_def r0_def sz_def)
  let ?s = "set_file (nat fd) (\<lambda>f. f\<lparr>f_offset := off'\<rparr>) (patch_file j p d sz s)"
  have run: "vfs_call (V_Write fd d) s = (Inr (V_Number (int (length d))), ?s)"
    using f(1) st r unfolding off'_def j_def by (simp add: mcs_sys_write_def prog_run Let_def)
  have "fd_table (patch_file j p d sz s) = fd_table s" by (simp add: patch_file_def)
  then have "vabs ?s = (vfiles (patch_file j p d sz s), (vfds s)(nat fd \<mapsto> (k, p + length d)))"
    using f(3,6) ps(3) vfds_set_file [OF ps(1) f(2), of "\<lambda>f. f\<lparr>f_offset := off'\<rparr>"] uo sp(2) by (simp add: vabs_def j_def)
  moreover have "vfs_ok ?s" using f(2-5) sp(1) by (intro vfs_ok_set_file ps(1)) (simp_all add: patch_file_def)
  ultimately show ?thesis using run Some kp c(1) ps(2) f(6) by (simp add: vfs_refines_def vabs_def Let_def j_def)
qed

section \<open>Opening and creating\<close>

lemma fd_alloc_find:
  assumes "vfs_ok s"
  shows "List.find (\<lambda>i. f_used (fd_table s ! i) = 0) [0..<16] = List.find (\<lambda>i. vfds s i = None) [0..<16]"
  by (rule find_cong) (auto simp: vfds_def)

text \<open>The descriptor that was allocated, pointed to a node.\<close>

definition opened :: "nat \<Rightarrow> u32 \<Rightarrow> nat \<Rightarrow> mcs_state \<Rightarrow> mcs_state" where
  "opened fd fl i s = set_file fd (\<lambda>f. f\<lparr>f_used := 1, f_flags := fl, f_node := i, f_offset := 0\<rparr>) s"

lemma vfs_open_run:
  assumes ok: "vfs_ok s" and p: "cstr_at p 0 = 0x2f" "path_key p \<noteq> []" and fd: "List.find (\<lambda>i. vfds s i = None) [0..<16] = Some fd"
  shows "mcs_sys_open (Some p) fl s = (case vslot s (path_key p) of
      Some i \<Rightarrow> (Inr (int fd), opened fd fl i s)
    | None \<Rightarrow> if fl AND MCS_O_CREAT = 0 then (Inl MCS_ENOENT, s)
        else (case mcs_ramfs_create_file p (fs s) of
            (Inl _, r) \<Rightarrow> (Inl MCS_ENOENT, s\<lparr>fs := r\<rparr>)
          | (Inr i, r) \<Rightarrow> (Inr (int fd), opened fd fl i (s\<lparr>fs := r\<rparr>))))"
proof -
  let ?t = "fd_table s"
  have fd16: "fd < 16" using find_upt_SomeD(2) [OF fd] .
  have unused: "f_used (?t ! fd) = 0"
    by (rule ccontr) (use find_upt_SomeD(3) [OF fd] fd16 in \<open>simp add: vfds_def\<close>)
  define s1 where "s1 = s\<lparr>fd_table := ?t[fd := (?t ! fd)\<lparr>f_used := 1\<rparr>]\<rparr>"
  have al: "mcs_fd_alloc s = (Inr fd, s1)"
    using fd fd_alloc_find [OF ok] by (simp add: mcs_fd_alloc_def MCS_MAX_OPEN_FILES_def s1_def)
  have l: "fd < length ?t" using fd16 vfs_okD(3) [OF ok] by simp
  have fs1: "fs s1 = fs s" by (simp add: s1_def)
  have "(?t ! fd)\<lparr>f_used := 0\<rparr> = ?t ! fd" using unused by (cases "?t ! fd") simp
  then have fail: "set_file fd (\<lambda>f. f\<lparr>f_used := 0\<rparr>) (s1\<lparr>fs := r\<rparr>) = s\<lparr>fs := r\<rparr>" for r
    using l by (simp add: set_file_def s1_def)
  have fail': "set_file fd (\<lambda>f. f\<lparr>f_used := 0\<rparr>) s1 = s" using fail [of "fs s"] by (simp add: s1_def)
  have found: "set_file fd (\<lambda>f. f\<lparr>f_flags := fl, f_node := i, f_offset := 0\<rparr>) (s1\<lparr>fs := r\<rparr>) = opened fd fl i (s\<lparr>fs := r\<rparr>)" for i r
    using l by (simp add: set_file_def s1_def opened_def)
  have found': "set_file fd (\<lambda>f. f\<lparr>f_flags := fl, f_node := i, f_offset := 0\<rparr>) s1 = opened fd fl i s" for i
    using found [of i "fs s"] by (simp add: s1_def)
  show ?thesis
    using p(1) al vfs_lookup_ok [OF ok p(2)] fail fail' found found'
    by (cases "vslot s (path_key p)") (auto simp: mcs_sys_open_def fs1 Let_def split: prod.split sum.split)
qed

lemma opened_ok:
  assumes "vfs_ok s" "fd < 16" "1 \<le> i" "i < unat (node_count (fs s))"
  shows "vfs_ok (opened fd fl i s)" "vabs (opened fd fl i s) = (vfiles s, (vfds s)(fd \<mapsto> (vkey s i, 0)))"
  using assms vfds_set_file [OF assms(1,2)] by (auto simp: opened_def vabs_def intro!: vfs_ok_set_file)

lemma dom_vfiles:
  assumes "vfs_ok s"
  shows "card (dom (vfiles s)) = unat (node_count (fs s)) - 1"
proof -
  have "dom (vfiles s) = vkey s ` {1..<unat (node_count (fs s))}"
  proof (rule set_eqI)
    fix k
    show "k \<in> dom (vfiles s) \<longleftrightarrow> k \<in> vkey s ` {1..<unat (node_count (fs s))}"
      using vslot_None_iff [of s k] by (cases "vslot s k") (auto simp: vfiles_def dom_def image_iff dest: iffD1 [OF vslot_Some_iff [OF assms]])
  qed
  moreover have "inj_on (vkey s) {1..<unat (node_count (fs s))}"
    using vfs_okD(11) [OF assms] by (auto simp: inj_on_def)
  ultimately show ?thesis by (simp add: card_image)
qed

text \<open>The file that create adds: the next node, with the next 256 bytes of the arena.\<close>

definition new_file :: "bytes \<Rightarrow> mcs_state \<Rightarrow> mcs_state" where
  "new_file p s = (let n = unat (node_count (fs s)) in s\<lparr>fs := (fs s)
     \<lparr>node_count := node_count (fs s) + 1, data_used := data_used (fs s) + 256,
      nodes := (nodes (fs s))[n := (vnode s n)\<lparr>n_used := 1, n_id := ucast (node_count (fs s)), n_type := MCS_VNODE_FILE,
        data_capacity := 256, data_offset := data_used (fs s), n_size := 0,
        n_name := copy_node_name (n_name (vnode s n)) (path_name p)\<rparr>]\<rparr>\<rparr>)"

lemma new_file_run:
  assumes "unat (node_count (fs s)) \<le> 32"
  shows "mcs_ramfs_create_file p (fs s) = (Inr (unat (node_count (fs s))), fs (new_file p s))"
  using assms by (simp add: mcs_ramfs_create_file_def MCS_MAX_NODES_def word_le_nat_alt Let_def new_file_def)

lemma new_file_facts:
  assumes ok: "vfs_ok s" and k: "length (path_key p) \<le> 30" and room: "unat (node_count (fs s)) \<le> 32"
  defines "n \<equiv> unat (node_count (fs s))"
  shows "vkey (new_file p s) i = (if i = n then path_key p else vkey s i)"
    "i < 64 \<Longrightarrow> length (n_name (vnode (new_file p s) i)) = 32"
    "data_offset (vnode (new_file p s) i) = (if i = n then data_used (fs s) else data_offset (vnode s i))"
    "n_size (vnode (new_file p s) i) = (if i = n then 0 else n_size (vnode s i))"
    "unat (node_count (fs (new_file p s))) = n + 1" "unat (data_used (fs (new_file p s))) = 256 * n"
    "length (nodes (fs (new_file p s))) = 64" "fs_data (fs (new_file p s)) = fs_data (fs s)" "fd_table (new_file p s) = fd_table s"
proof -
  have nl: "n < length (nodes (fs s))" and n64: "n < 64" using room vfs_okD(1) [OF ok] by (simp_all add: n_def)
  have nm: "length (copy_node_name (n_name (vnode s n)) (path_name p)) = 32" "cstr (copy_node_name (n_name (vnode s n)) (path_name p)) = path_key p"
    using vfs_copy_node_name_ok [of "n_name (vnode s n)" "path_name p"] vfs_okD(7) [OF ok n64] k by (simp_all add: path_key_def)
  show "vkey (new_file p s) i = (if i = n then path_key p else vkey s i)"
    "i < 64 \<Longrightarrow> length (n_name (vnode (new_file p s) i)) = 32"
    "data_offset (vnode (new_file p s) i) = (if i = n then data_used (fs s) else data_offset (vnode s i))"
    "n_size (vnode (new_file p s) i) = (if i = n then 0 else n_size (vnode s i))"
    using nl nm vfs_okD(7) [OF ok, of i] by (auto simp: new_file_def n_def [symmetric] nth_list_update)
  show "unat (node_count (fs (new_file p s))) = n + 1" using room by (simp add: new_file_def Let_def n_def unat_word_ariths)
  show "unat (data_used (fs (new_file p s))) = 256 * n"
    using room vfs_okD(4,6) [OF ok, folded n_def] by (simp add: new_file_def n_def [symmetric] unat_word_ariths)
  show "length (nodes (fs (new_file p s))) = 64" "fs_data (fs (new_file p s)) = fs_data (fs s)" "fd_table (new_file p s) = fd_table s"
    using vfs_okD(1) [OF ok] by (simp_all add: new_file_def Let_def)
qed

lemma new_file_ok:
  assumes ok: "vfs_ok s" and k: "path_key p \<noteq> []" "length (path_key p) \<le> 30" and new: "vslot s (path_key p) = None"
    and room: "unat (node_count (fs s)) \<le> 32"
  shows "vfs_ok (new_file p s)"
proof -
  define n where "n = unat (node_count (fs s))"
  note f = new_file_facts [OF ok k(2) room, folded n_def] and n1 = vfs_okD(4) [OF ok, folded n_def]
  let ?s = "new_file p s"
  have new': "vkey s i \<noteq> path_key p" if "1 \<le> i" "i < n" for i using new that unfolding vslot_None_iff n_def by blast
  have slot: "unat (data_offset (vnode ?s i)) = 256 * (i - 1) \<and> unat (n_size (vnode ?s i)) \<le> 256 \<and> vkey ?s i \<noteq> [] \<and> length (vkey ?s i) \<le> 30"
    if "1 \<le> i" "i < n + 1" for i
    using that k vfs_okD(6,8-10) [OF ok, folded n_def] unfolding f by (cases "i = n") simp_all
  have dist: "i = j" if "1 \<le> i" "i < n + 1" "1 \<le> j" "j < n + 1" "vkey ?s i = vkey ?s j" for i j
    using that new' [of i] new' [of j] vfs_okD(11) [OF ok, of i j, folded n_def] unfolding f
    by (cases "i = n"; cases "j = n") simp_all
  have fdn: "1 \<le> f_node (fd_table s ! d) \<and> f_node (fd_table s ! d) < n + 1" if "d < 16" "f_used (fd_table s ! d) \<noteq> 0" for d
    using vfs_okD(12) [OF ok that] by (simp add: n_def)
  show ?thesis
    unfolding vfs_ok_def f(5-9)
    using room n1 slot dist fdn f(2) vfs_okD(2,3) [OF ok] by (intro conjI) (auto simp: n_def)
qed

lemma vfs_create_file_ok:
  assumes ok: "vfs_ok s" and k: "path_key p \<noteq> []" "length (path_key p) \<le> 30" and new: "vslot s (path_key p) = None"
    and room: "unat (node_count (fs s)) \<le> 32"
  obtains r where "mcs_ramfs_create_file p (fs s) = (Inr (unat (node_count (fs s))), r)"
    "vfs_ok (s\<lparr>fs := r\<rparr>)" "vfiles (s\<lparr>fs := r\<rparr>) = (vfiles s)(path_key p \<mapsto> [])" "vfds (s\<lparr>fs := r\<rparr>) = vfds s"
    "unat (node_count r) = unat (node_count (fs s)) + 1" "vkey (s\<lparr>fs := r\<rparr>) (unat (node_count (fs s))) = path_key p"
proof -
  define n where "n = unat (node_count (fs s))"
  note f = new_file_facts [OF ok k(2) room, folded n_def] and ok' = new_file_ok [OF assms]
  let ?s = "new_file p s"
  have s: "s\<lparr>fs := fs ?s\<rparr> = ?s" by (simp add: new_file_def Let_def)
  have "slot_data ?s i = (if i = n then [] else slot_data s i)" for i unfolding slot_data_def f by simp
  then have "vfiles ?s = (vfiles s)(path_key p \<mapsto> [])"
    using vfiles_change [OF ok ok', of n] vfs_okD(4) [OF ok, folded n_def] by (simp add: f n_def [symmetric] less_Suc_eq)
  moreover have "vfds ?s = vfds s"
  proof (rule ext)
    fix d
    show "vfds ?s d = vfds s d" unfolding vfds_def f(9) f(1) using vfs_okD(12) [OF ok, of d] by (auto simp: n_def)
  qed
  ultimately show ?thesis
    using that [OF new_file_run [OF room, of p]] ok' f(1) [of n] f(5) unfolding s by (simp add: n_def)
qed

lemma vfs_open_ok:
  assumes ok: "vfs_ok s" and pre: "vfs_pre (V_Open p fl) (vabs s)"
  shows "vfs_refines (V_Open p fl) s"
proof -
  have p: "cstr_at p 0 = 0x2f" "path_key p \<noteq> []" "length (path_key p) \<le> 30"
    and room: "vfiles s (path_key p) = None \<Longrightarrow> unat (node_count (fs s)) \<le> 32"
    using pre vfs_okD(4,5) [OF ok] dom_vfiles [OF ok] by (auto simp: vabs_def)
  show ?thesis
  proof (cases "List.find (\<lambda>i. vfds s i = None) [0..<16]")
    case None
    then have "mcs_sys_open (Some p) fl s = (Inl MCS_ENFILE, s)"
      using p(1) fd_alloc_find [OF ok] by (simp add: mcs_sys_open_def mcs_fd_alloc_def MCS_MAX_OPEN_FILES_def)
    then show ?thesis using ok None by (simp add: vfs_refines_def vabs_def prog_run)
  next
    case (Some fd)
    note run = vfs_open_run [OF ok p(1,2) Some, of fl]
    have fd: "fd < 16" using find_upt_SomeD(2) [OF Some] .
    show ?thesis
    proof (cases "vslot s (path_key p)")
      case slot: (Some i)
      note i = iffD1 [OF vslot_Some_iff [OF ok] slot]
      have "vfiles s (path_key p) \<noteq> None" using slot by (simp add: vfiles_def)
      then show ?thesis using run slot Some opened_ok [OF ok fd, of i fl] i
        by (simp add: vfs_refines_def prog_run) (simp add: vabs_def Let_def)
    next
      case none: None
      then have f: "vfiles s (path_key p) = None" by (simp add: vfiles_def)
      show ?thesis
      proof (cases "fl AND MCS_O_CREAT = 0")
        case True
        then show ?thesis using run none Some ok f by (simp add: vfs_refines_def vabs_def prog_run Let_def)
      next
        case False
        obtain r where r: "mcs_ramfs_create_file p (fs s) = (Inr (unat (node_count (fs s))), r)"
          "vfs_ok (s\<lparr>fs := r\<rparr>)" "vfiles (s\<lparr>fs := r\<rparr>) = (vfiles s)(path_key p \<mapsto> [])" "vfds (s\<lparr>fs := r\<rparr>) = vfds s"
          "unat (node_count r) = unat (node_count (fs s)) + 1" "vkey (s\<lparr>fs := r\<rparr>) (unat (node_count (fs s))) = path_key p"
          by (rule vfs_create_file_ok [OF ok p(2,3) none room [OF f]]) blast
        have o1: "vfs_ok (opened fd fl (unat (node_count (fs s))) (s\<lparr>fs := r\<rparr>))"
          "vabs (opened fd fl (unat (node_count (fs s))) (s\<lparr>fs := r\<rparr>)) = ((vfiles s)(path_key p \<mapsto> []), (vfds s)(fd \<mapsto> (path_key p, 0)))"
          using opened_ok [OF r(2) fd, of "unat (node_count (fs s))" fl] vfs_okD(4) [OF ok] r(3-6) by simp_all
        have "vfs_call (V_Open p fl) s = (Inr (V_Number (int fd)), opened fd fl (unat (node_count (fs s))) (s\<lparr>fs := r\<rparr>))"
          using run none False r(1) by (simp add: prog_run)
        then show ?thesis using o1 Some f False by (simp add: vfs_refines_def) (simp add: vabs_def Let_def)
      qed
    qed
  qed
qed

lemma vfs_seed_ok:
  assumes ok: "vfs_ok s" and pre: "vfs_pre (V_Seed p d) (vabs s)"
  shows "vfs_refines (V_Seed p d) s"
proof -
  let ?n = "unat (node_count (fs s))"
  have k: "path_key p \<noteq> []" "length (path_key p) \<le> 30" and f: "vfiles s (path_key p) = None" and d: "length d \<le> 256"
    and room: "?n \<le> 32"
    using pre vfs_okD(4,5) [OF ok] dom_vfiles [OF ok] by (auto simp: vabs_def)
  have "vslot s (path_key p) = None" using f by (simp add: vfiles_def split: option.splits)
  then obtain r where r: "mcs_ramfs_create_file p (fs s) = (Inr ?n, r)" "vfs_ok (s\<lparr>fs := r\<rparr>)"
    "vfiles (s\<lparr>fs := r\<rparr>) = (vfiles s)(path_key p \<mapsto> [])" "vfds (s\<lparr>fs := r\<rparr>) = vfds s"
    "unat (node_count r) = ?n + 1" "vkey (s\<lparr>fs := r\<rparr>) ?n = path_key p"
    by (rule vfs_create_file_ok [OF ok k _ room]) blast
  let ?s = "s\<lparr>fs := r\<rparr>"
  have n: "1 \<le> ?n" "?n < unat (node_count (fs ?s))" using vfs_okD(4) [OF ok] r(5) by simp_all
  have sd: "slot_data ?s ?n = []" using vfiles_slot [OF r(2) n] r(3,6) by simp
  have sz: "unat (of_nat (length d) :: u64) = max (unat (n_size (vnode ?s ?n))) (0 + length d)"
    using d sd vslot_data_length [OF r(2) n] by (simp add: unsigned_of_nat take_bit_nat_eq_self)
  let ?s2 = "patch_file ?n 0 d (of_nat (length d)) ?s"
  have b: "256 * (?n - 1) + 256 \<le> length (fs_data r)"
    using slot_bound [OF n(2) vfs_okD(5) [OF r(2)] n(1)] vfs_okD(2) [OF r(2)] by simp
  have "vfs_call (V_Seed p d) s = (Inr (V_Number 0), ?s2)"
    using r(1) b d vfs_okD(8) [OF r(2) n] by (simp add: mcs_ramfs_seed_file_def store_data_def patch_file_def)
  moreover have "vfs_ok ?s2" "vfiles ?s2 = (vfiles s)(path_key p \<mapsto> d)" "vfds ?s2 = vfds s"
    using patch_file_ok [OF r(2) n _ _ sz] d r(3,4,6) sd by (simp_all add: patch_def)
  ultimately show ?thesis by (simp add: vfs_refines_def vabs_def)
qed

lemma vfs_call_ok: "vfs_ok s \<Longrightarrow> vfs_pre c (vabs s) \<Longrightarrow> vfs_refines c s"
  by (cases c) (simp_all add: vfs_seed_ok vfs_open_ok vfs_read_ok vfs_write_ok vfs_seek_ok vfs_close_ok del: vfs_pre.simps)

interpretation vfs: call_refinement vfs_call "\<lambda>a c r a'. vfs_spec c a = (r, a')" "\<lambda>a c. vfs_pre c a" "\<lambda>s a. vfs_ok s \<and> a = vabs s"
proof (unfold_locales, elim conjE)
  fix s a c r s'
  assume "vfs_ok s" "a = vabs s" "vfs_pre c a" "vfs_call c s = (r, s')"
  then show "\<exists>a'. vfs_spec c a = (r, a') \<and> vfs_ok s' \<and> a' = vabs s'"
    using vfs_call_ok [of s c] by (intro exI [of _ "vabs s'"]) (simp add: vfs_refines_def)
qed

text \<open>The specification is a function, so the sequences it allows can be computed.\<close>

lemma vfs_pres_calls: "vfs_pres cs a \<Longrightarrow> calls_pre (\<lambda>a c r a'. vfs_spec c a = (r, a')) (\<lambda>a c. vfs_pre c a) a cs"
  by (induction cs arbitrary: a) auto

lemma vfs_specs_calls: "calls_spec (\<lambda>a c r a'. vfs_spec c a = (r, a')) a cs rs a' \<longleftrightarrow> run_calls vfs_spec cs a = (rs, a')"
  by (induction cs arbitrary: a rs) (auto split: list.splits prod.splits)

section \<open>The whole life of the file system\<close>

text \<open>The initialisation: memory of the right size, then \<open>mcs_ramfs_init\<close> and \<open>mcs_fd_table_init\<close>.\<close>

definition vfs_memory :: "mcs_state \<Rightarrow> bool" where
  "vfs_memory s \<longleftrightarrow> length (nodes (fs s)) = 64 \<and> list_all (\<lambda>n. length (n_name n) = MCS_MAX_NAME) (nodes (fs s)) \<and>
     length (fs_data (fs s)) = MCS_RAMFS_DATA_BYTES \<and> length (fd_table s) = MCS_MAX_OPEN_FILES"

definition vfs_boot :: "mcs_state \<Rightarrow> mcs_state" where
  "vfs_boot s = s\<lparr>fs := mcs_ramfs_init (fs s), fd_table := mcs_fd_table_init (fd_table s)\<rparr>"

lemma vfs_boot_ok:
  assumes "vfs_memory s"
  shows "vfs_ok (vfs_boot s)" "vabs (vfs_boot s) = (Map.empty, Map.empty)"
proof -
  note m = assms [unfolded vfs_memory_def MCS_MAX_NAME_def MCS_RAMFS_DATA_BYTES_def MCS_MAX_OPEN_FILES_def list_all_length]
  have nm: "length (n_name (vnode (vfs_boot s) i)) = 32" if "i < 64" for i
    using m that by (cases "i = 0") (simp_all add: vfs_boot_def mcs_ramfs_init_def)
  have c: "unat (node_count (fs (vfs_boot s))) = 1" "unat (data_used (fs (vfs_boot s))) = 0"
    by (simp_all add: vfs_boot_def mcs_ramfs_init_def)
  have l: "length (nodes (fs (vfs_boot s))) = 64" "length (fs_data (fs (vfs_boot s))) = 8192" "length (fd_table (vfs_boot s)) = 16"
    using m by (simp_all add: vfs_boot_def mcs_ramfs_init_def mcs_fd_table_init_def)
  have u: "f_used (fd_table (vfs_boot s) ! d) = 0" if "d < 16" for d
    using m that by (simp add: vfs_boot_def mcs_fd_table_init_def)
  show "vfs_ok (vfs_boot s)" unfolding vfs_ok_def c using l nm u by simp
  have "vslot (vfs_boot s) k = None" for k unfolding vslot_None_iff c by simp
  then show "vabs (vfs_boot s) = (Map.empty, Map.empty)"
    using u by (simp add: vabs_def vfiles_def vfds_def fun_eq_iff)
qed

text \<open>
  C33. Whatever the memory holds at boot, a program of calls (the kernel's seeding of files, then open, read,
  write, seek and close in any order and on any descriptor) that stays within the limits of the code gets from
  the RAM file system exactly the results of a map from names to contents and a table of open files with their
  offsets, errors included, and the file system and the descriptors it leaves are those of the map.
\<close>

theorem vfs_calls_refine:
  assumes "vfs_memory s" "vfs_pres cs (Map.empty, Map.empty)"
  shows "\<exists>rs s'. run_calls vfs_call cs (vfs_boot s) = (rs, s') \<and> vfs_ok s' \<and> run_calls vfs_spec cs (Map.empty, Map.empty) = (rs, vabs s')"
proof -
  have "vfs_ok (vfs_boot s) \<and> (Map.empty, Map.empty) = vabs (vfs_boot s)" using vfs_boot_ok [OF assms(1)] by simp
  from vfs.calls_refine [OF this vfs_pres_calls [OF assms(2)]] show ?thesis unfolding vfs_specs_calls by blast
qed

text \<open>A program that seeds a file, appends to it and reads it back, and then reads a closed descriptor.\<close>

definition vfs_demo_calls :: "vfs_op list" where
  "vfs_demo_calls = [V_Seed [0x61] [7, 8], V_Open [0x2f, 0x61] 0, V_Seek 0 2 0, V_Write 0 [9], V_Seek 0 0 0, V_Read 0 100,
     V_Close 0, V_Read 0 1]"

definition vfs_demo_memory :: mcs_state where
  "vfs_demo_memory = \<lparr>fs = \<lparr>nodes = replicate 64 \<lparr>n_used = 0, n_id = 0, n_parent = 0, n_type = MCS_VNODE_DIR,
        n_name = replicate 32 0, n_size = 0, data_offset = 0, data_capacity = 0\<rparr>,
      node_count = 0, fs_data = replicate 8192 0, data_used = 0\<rparr>,
    fd_table = replicate 16 \<lparr>f_used = 5, f_flags = 0, f_offset = 0, f_node = 0\<rparr>\<rparr>"

lemma vfs_demo_key: "path_key [0x61] = [0x61]" "path_key [0x2f, 0x61] = [0x61]" "cstr_at [0x2f, 0x61] 0 = 0x2f"
  by (simp_all add: path_key_def path_name_def cstr_def cstr_at_def)

theorem vfs_calls_refine_witness:
  "vfs_memory vfs_demo_memory \<and> vfs_pres vfs_demo_calls (Map.empty, Map.empty) \<and>
   fst (run_calls vfs_call vfs_demo_calls (vfs_boot vfs_demo_memory)) =
     [Inr (V_Number 0), Inr (V_Number 0), Inr (V_Number 2), Inr (V_Number 1), Inr (V_Number 0), Inr (V_Data [7, 8, 9]),
      Inr (V_Number 0), Inl MCS_EBADF]"
proof -
  have m: "vfs_memory vfs_demo_memory"
    by (simp add: vfs_memory_def vfs_demo_memory_def MCS_MAX_NAME_def MCS_RAMFS_DATA_BYTES_def MCS_MAX_OPEN_FILES_def list_all_length)
  have p: "vfs_pres vfs_demo_calls (Map.empty, Map.empty)"
    by (simp add: vfs_demo_calls_def vfs_demo_key fd_at_def patch_def MCS_SEEK_SET_def upt_rec Let_def)
  have r: "fst (run_calls vfs_spec vfs_demo_calls (Map.empty, Map.empty)) =
     [Inr (V_Number 0), Inr (V_Number 0), Inr (V_Number 2), Inr (V_Number 1), Inr (V_Number 0), Inr (V_Data [7, 8, 9]),
      Inr (V_Number 0), Inl MCS_EBADF]"
    by (simp add: vfs_demo_calls_def vfs_demo_key fd_at_def patch_def MCS_SEEK_SET_def upt_rec Let_def)
  then show ?thesis using m p vfs_calls_refine [OF m p] by (metis fst_conv)
qed

end
