(* ===== verification/Syscall.thy ===== *)
theory Syscall
  imports Prelude
begin

text \<open>
  System calls: \<open>src/kernel/syscall/syscall.c\<close>. The callbacks of \<open>mcsos_syscall_ops_t\<close> are parameters that
  may change the rest of the kernel, the state \<open>'k\<close>; a callback that is not set is \<open>None\<close>. Addresses and
  register values are 64-bit words, results are the signed values of the same width.
\<close>

section \<open>Numbers and status codes\<close>

type_synonym i64 = u64

definition MCSOS_SYS_MAX :: u64 where [layout]: "MCSOS_SYS_MAX = 5"
definition MCSOS_OK :: i64 where [layout]: "MCSOS_OK = 0"
definition MCSOS_EINVAL :: i64 where [layout]: "MCSOS_EINVAL = - 22"
definition MCSOS_ENOSYS :: i64 where [layout]: "MCSOS_ENOSYS = - 38"
definition MCSOS_EFAULT :: i64 where [layout]: "MCSOS_EFAULT = - 14"
definition MCSOS_EBUSY :: i64 where [layout]: "MCSOS_EBUSY = - 16"

record mcsos_syscall_frame =
  nr :: u64
  arg0 :: u64
  arg1 :: u64
  arg2 :: u64
  arg3 :: u64
  arg4 :: u64
  arg5 :: u64
  ret :: i64

record mcsos_user_region =
  base :: u64
  limit :: u64

record 'k mcsos_syscall_ops =
  get_ticks :: "('k \<Rightarrow> u64 \<times> 'k) option"
  yield_current :: "('k \<Rightarrow> 'k) option"
  exit_current :: "(u32 \<Rightarrow> 'k \<Rightarrow> 'k) option"
  write_serial :: "(u64 \<Rightarrow> u64 \<Rightarrow> 'k \<Rightarrow> i64 \<times> 'k) option"

record 'k syscall_state =
  g_ops :: "'k mcsos_syscall_ops"
  g_user_region :: mcsos_user_region
  kern :: 'k

section \<open>The operations\<close>

definition default_write_serial :: "u64 \<Rightarrow> u64 \<Rightarrow> 'k \<Rightarrow> i64 \<times> 'k" where
  "default_write_serial buf len k = (len, k)"

definition mcsos_syscall_init :: "'k mcsos_syscall_ops option \<Rightarrow> 'k syscall_state \<Rightarrow> 'k syscall_state" where
  "mcsos_syscall_init calls s =
     (let g = \<lparr>get_ticks = None, yield_current = None, exit_current = None, write_serial = Some default_write_serial\<rparr>
      in s\<lparr>g_ops := (case calls of None \<Rightarrow> g
            | Some c \<Rightarrow> \<lparr>get_ticks = (if get_ticks c \<noteq> None then get_ticks c else get_ticks g),
                yield_current = (if yield_current c \<noteq> None then yield_current c else yield_current g),
                exit_current = (if exit_current c \<noteq> None then exit_current c else exit_current g),
                write_serial = (if write_serial c \<noteq> None then write_serial c else write_serial g)\<rparr>)\<rparr>)"

definition mcsos_syscall_set_user_region :: "mcsos_user_region \<Rightarrow> 'k syscall_state \<Rightarrow> 'k syscall_state" where
  "mcsos_syscall_set_user_region region s = s\<lparr>g_user_region := region\<rparr>"

definition mcsos_user_check_range :: "mcsos_user_region \<Rightarrow> u64 \<Rightarrow> u64 \<Rightarrow> bool" where
  "mcsos_user_check_range r addr len =
     (if len = 0 then True
      else if base r = 0 \<or> limit r \<le> base r then False
      else if addr < base r then False
      else if limit r < addr then False
      else let last = addr + len - 1 in
        if last < addr then False
        else if limit r \<le> last then False
        else True)"

text \<open>The destination is a kernel buffer or NULL; memory is read byte by byte. The bytes copied are the result.\<close>

definition mcsos_copy_from_user :: "(u64 \<Rightarrow> u8) \<Rightarrow> bytes option \<Rightarrow> u64 \<Rightarrow> u64 \<Rightarrow> 'k syscall_state \<Rightarrow> i64 \<times> bytes option" where
  "mcsos_copy_from_user mem dst src len s =
     (if len = 0 then (MCSOS_OK, dst)
      else case dst of None \<Rightarrow> (MCSOS_EINVAL, dst)
      | Some d \<Rightarrow>
        if src = 0 then (MCSOS_EINVAL, dst)
        else if \<not> mcsos_user_check_range (g_user_region s) src len then (MCSOS_EFAULT, dst)
        else (MCSOS_OK, Some (map (\<lambda>i. mem (src + of_nat i)) [0..<unat len] @ drop (unat len) d)))"

text \<open>A call through a function pointer that was never set is \<open>None\<close>.\<close>

type_synonym 'k syscall = "'k syscall_state \<Rightarrow> (i64 \<times> 'k syscall_state) option"

definition sys_ping :: "u64 list \<Rightarrow> 'k syscall" where
  "sys_ping a s = Some (0x2605020A, s)"

definition sys_get_ticks :: "u64 list \<Rightarrow> 'k syscall" where
  "sys_get_ticks a s =
     (case get_ticks (g_ops s) of None \<Rightarrow> Some (MCSOS_EBUSY, s)
      | Some f \<Rightarrow> (case f (kern s) of (t, k) \<Rightarrow> Some (t, s\<lparr>kern := k\<rparr>)))"

definition sys_write_serial :: "u64 list \<Rightarrow> 'k syscall" where
  "sys_write_serial a s =
     (let ptr = a ! 0; len = a ! 1 in
      if ptr = 0 then Some (MCSOS_EINVAL, s)
      else if 4096 < len then Some (MCSOS_EINVAL, s)
      else if \<not> mcsos_user_check_range (g_user_region s) ptr len then Some (MCSOS_EFAULT, s)
      else case write_serial (g_ops s) of None \<Rightarrow> None
        | Some f \<Rightarrow> (case f ptr len (kern s) of (r, k) \<Rightarrow> Some (r, s\<lparr>kern := k\<rparr>)))"

definition sys_yield :: "u64 list \<Rightarrow> 'k syscall" where
  "sys_yield a s =
     (case yield_current (g_ops s) of None \<Rightarrow> Some (MCSOS_EBUSY, s)
      | Some f \<Rightarrow> Some (MCSOS_OK, s\<lparr>kern := f (kern s)\<rparr>))"

definition sys_exit_thread :: "u64 list \<Rightarrow> 'k syscall" where
  "sys_exit_thread a s =
     (case exit_current (g_ops s) of None \<Rightarrow> Some (MCSOS_EBUSY, s)
      | Some f \<Rightarrow> Some (MCSOS_OK, s\<lparr>kern := f (ucast (a ! 0)) (kern s)\<rparr>))"

definition g_table :: "(u64 list \<Rightarrow> 'k syscall) list" where
  "g_table = [sys_ping, sys_get_ticks, sys_write_serial, sys_yield, sys_exit_thread]"

definition mcsos_syscall_dispatch :: "u64 \<Rightarrow> u64 list \<Rightarrow> 'k syscall" where
  "mcsos_syscall_dispatch n args s =
     (if MCSOS_SYS_MAX \<le> n then Some (MCSOS_ENOSYS, s) else (g_table ! unat n) args s)"

definition mcsos_syscall_dispatch_frame ::
  "mcsos_syscall_frame option \<Rightarrow> 'k syscall_state \<Rightarrow> (mcsos_syscall_frame option \<times> 'k syscall_state) option" where
  "mcsos_syscall_dispatch_frame frame s =
     (case frame of None \<Rightarrow> Some (None, s)
      | Some f \<Rightarrow> map_option (\<lambda>(r, s'). (Some (f\<lparr>ret := r\<rparr>), s'))
          (mcsos_syscall_dispatch (nr f) [arg0 f, arg1 f, arg2 f, arg3 f, arg4 f, arg5 f] s))"

section \<open>What a user program can make the kernel touch\<close>

definition inside_region :: "mcsos_user_region \<Rightarrow> u64 \<Rightarrow> u64 \<Rightarrow> bool" where
  "inside_region r p n \<longleftrightarrow> unat (base r) \<le> unat p \<and> unat p + unat n \<le> unat (limit r)"

lemma check_range_iff:
  "mcsos_user_check_range r p n \<longleftrightarrow> n = 0 \<or> base r \<noteq> 0 \<and> inside_region r p n"
proof (cases "n = 0")
  case False
  then have n: "0 < unat n" by (simp add: unat_gt_0)
  have n1: "unat (n - 1) = unat n - 1" using n by (simp add: unat_sub_if_size)
  have last: "p + n - 1 = p + (n - 1)" by simp
  show ?thesis
  proof (cases "unat p + (unat n - 1) < 18446744073709551616")
    case True
    then have "unat (p + (n - 1)) = unat p + (unat n - 1)" by (simp add: unat_word_ariths n1)
    then show ?thesis using False n
      by (auto simp: mcsos_user_check_range_def inside_region_def Let_def last word_less_nat_alt word_le_nat_alt)
  next
    case over: False
    have "unat (p + (n - 1)) = (unat p + (unat n - 1)) mod 18446744073709551616" by (simp add: unat_word_ariths n1)
    also have "\<dots> = unat p + (unat n - 1) - 18446744073709551616"
      using over unat_u64_lt [of p] unat_u64_lt [of n] by (subst le_mod_geq) simp_all
    finally have "unat (p + (n - 1)) < unat p" using over unat_u64_lt [of n] by simp
    moreover have "\<not> inside_region r p n" using over n unat_u64_lt [of "limit r"] unfolding inside_region_def by linarith
    ultimately show ?thesis using False by (simp add: mcsos_user_check_range_def Let_def last word_less_nat_alt)
  qed
qed (simp add: mcsos_user_check_range_def)

text \<open>What a callback may be handed: no byte at all, or bytes inside the region.\<close>

definition safe_range :: "mcsos_user_region \<Rightarrow> u64 \<Rightarrow> u64 \<Rightarrow> bool" where
  "safe_range r p n \<longleftrightarrow> unat n \<le> 4096 \<and> (n = 0 \<or> inside_region r p n)"

definition agree :: "mcsos_user_region \<Rightarrow> (u64 \<Rightarrow> u64 \<Rightarrow> 'k \<Rightarrow> i64 \<times> 'k) \<Rightarrow> (u64 \<Rightarrow> u64 \<Rightarrow> 'k \<Rightarrow> i64 \<times> 'k) \<Rightarrow> bool" where
  "agree r f g \<longleftrightarrow> (\<forall>p n k. safe_range r p n \<longrightarrow> f p n k = g p n k)"

fun syscalls :: "mcsos_syscall_frame list \<Rightarrow> 'k syscall_state \<Rightarrow> (i64 list \<times> 'k syscall_state) option" where
  "syscalls [] s = Some ([], s)"
| "syscalls (f # fs) s =
     (case mcsos_syscall_dispatch_frame (Some f) s of
        Some (Some f', s') \<Rightarrow> map_option (\<lambda>(rs, s''). (ret f' # rs, s'')) (syscalls fs s')
      | _ \<Rightarrow> None)"

lemma table_cases: "\<not> MCSOS_SYS_MAX \<le> n \<Longrightarrow> n = 0 \<or> n = 1 \<or> n = 2 \<or> n = 3 \<or> n = 4"
proof -
  assume "\<not> MCSOS_SYS_MAX \<le> n"
  then have "unat n < 5" by (simp add: MCSOS_SYS_MAX_def word_le_nat_alt)
  then have "unat n \<in> {0, 1, 2, 3, 4}" by auto
  then show ?thesis by (auto simp: word_unat_eq_iff)
qed

lemma dispatch_cases:
  "mcsos_syscall_dispatch n a s =
     (if n = 0 then sys_ping a s else if n = 1 then sys_get_ticks a s else if n = 2 then sys_write_serial a s
      else if n = 3 then sys_yield a s else if n = 4 then sys_exit_thread a s else Some (MCSOS_ENOSYS, s))"
proof (cases "MCSOS_SYS_MAX \<le> n")
  case True
  then have "n \<notin> {0, 1, 2, 3, 4}" by (auto simp: MCSOS_SYS_MAX_def word_le_nat_alt)
  then show ?thesis using True by (simp add: mcsos_syscall_dispatch_def)
next
  case False
  then show ?thesis using table_cases [OF False] by (auto simp: mcsos_syscall_dispatch_def g_table_def)
qed

definition with_serial :: "(u64 \<Rightarrow> u64 \<Rightarrow> 'k \<Rightarrow> i64 \<times> 'k) \<Rightarrow> 'k syscall_state \<Rightarrow> 'k syscall_state" where
  "with_serial f s = s\<lparr>g_ops := (g_ops s)\<lparr>write_serial := Some f\<rparr>\<rparr>"

lemma dispatch_region:
  "mcsos_syscall_dispatch n a s = Some (r, s') \<Longrightarrow> g_ops s' = g_ops s \<and> g_user_region s' = g_user_region s"
  by (auto simp: dispatch_cases sys_ping_def sys_get_ticks_def sys_write_serial_def sys_yield_def sys_exit_thread_def Let_def
      split: if_splits option.splits prod.splits)

text \<open>A system call only looks at a callback through its safe ranges.\<close>

lemma dispatch_confined:
  assumes "agree (g_user_region s) f g"
  shows "mcsos_syscall_dispatch n a (with_serial f s) = map_option (\<lambda>(r, s'). (r, with_serial f s')) (mcsos_syscall_dispatch n a (with_serial g s))"
proof -
  have "f p m k = g p m k" if "\<not> 4096 < m" "mcsos_user_check_range (g_user_region s) p m" for p m k
    using that assms by (auto simp: agree_def check_range_iff safe_range_def word_less_nat_alt)
  then show ?thesis
    by (auto simp: dispatch_cases sys_ping_def sys_get_ticks_def sys_write_serial_def sys_yield_def sys_exit_thread_def Let_def
        with_serial_def split: option.split prod.split)
qed

lemma dispatch_returns: "write_serial (g_ops s) \<noteq> None \<Longrightarrow> mcsos_syscall_dispatch n a s \<noteq> None"
  by (auto simp: dispatch_cases sys_ping_def sys_get_ticks_def sys_write_serial_def sys_yield_def sys_exit_thread_def Let_def
      split: option.split prod.split)

lemma syscall_init_returns: "write_serial (g_ops (mcsos_syscall_init c s)) \<noteq> None"
  by (simp add: mcsos_syscall_init_def Let_def split: option.split)

lemma with_serial_simps [simp]:
  "g_user_region (with_serial f s) = g_user_region s" "with_serial f (with_serial g s) = with_serial f s"
  "write_serial (g_ops (with_serial f s)) = Some f"
  by (simp_all add: with_serial_def)

lemma with_serial_same: "write_serial (g_ops s) = Some g \<Longrightarrow> with_serial g s = s"
  by (cases s, cases "g_ops s") (simp add: with_serial_def)

lemma syscalls_step:
  assumes "agree (g_user_region s) f g"
  obtains r s' where "mcsos_syscall_dispatch n a (with_serial g s) = Some (r, with_serial g s')"
    "mcsos_syscall_dispatch n a (with_serial f s) = Some (r, with_serial f s')" "g_user_region s' = g_user_region s"
proof -
  obtain r s1 where 1: "mcsos_syscall_dispatch n a (with_serial g s) = Some (r, s1)"
    using dispatch_returns [of "with_serial g s" n a] by auto
  have "g_ops s1 = g_ops (with_serial g s)" "g_user_region s1 = g_user_region s" using dispatch_region [OF 1] by simp_all
  then have "with_serial g s1 = s1" by (intro with_serial_same) simp
  then show ?thesis using that [of r s1] 1 dispatch_confined [OF assms] \<open>g_user_region s1 = g_user_region s\<close> by simp
qed

lemma syscalls_agree:
  assumes "agree (g_user_region s) f g"
  shows "\<exists>rs s'. syscalls fs (with_serial g s) = Some (rs, with_serial g s') \<and> syscalls fs (with_serial f s) = Some (rs, with_serial f s') \<and>
    length rs = length fs"
  using assms
proof (induction fs arbitrary: s)
  case Nil
  then show ?case by auto
next
  case (Cons c fs)
  obtain r s1 where 1: "mcsos_syscall_dispatch (nr c) [arg0 c, arg1 c, arg2 c, arg3 c, arg4 c, arg5 c] (with_serial g s) = Some (r, with_serial g s1)"
    "mcsos_syscall_dispatch (nr c) [arg0 c, arg1 c, arg2 c, arg3 c, arg4 c, arg5 c] (with_serial f s) = Some (r, with_serial f s1)"
    "g_user_region s1 = g_user_region s"
    using syscalls_step [OF Cons(2)] by blast
  obtain rs s' where "syscalls fs (with_serial g s1) = Some (rs, with_serial g s')" "syscalls fs (with_serial f s1) = Some (rs, with_serial f s')"
    "length rs = length fs" using Cons(1) [of s1] Cons(2) 1(3) by auto
  then show ?case using 1 by (auto simp: mcsos_syscall_dispatch_frame_def)
qed

section \<open>Properties\<close>

definition demo_syscall_state :: "nat syscall_state" where
  "demo_syscall_state = \<lparr>g_ops = \<lparr>get_ticks = Some (\<lambda>k. (of_nat k, k + 1)), yield_current = None, exit_current = None, write_serial = None\<rparr>,
     g_user_region = \<lparr>base = 0x1000, limit = 0x2000\<rparr>, kern = 0\<rparr>"

text \<open>
  C32. User pointers are checked. In every sequence of system calls with arbitrary numbers and arguments
  every call returns, the callbacks being functions that do, and the serial driver is only ever handed ranges of at most 4096 bytes that lie in
  the user region without wrapping around (two drivers that agree on these cannot be told apart);
  \<open>mcsos_copy_from_user\<close> depends on no byte outside the user region.
\<close>

theorem syscalls_confined:
  assumes "\<forall>p n k. unat n \<le> 4096 \<and> (n = 0 \<or> unat (base (g_user_region s)) \<le> unat p \<and> unat p + unat n \<le> unat (limit (g_user_region s))) \<longrightarrow>
      f p n k = g p n k"
    and "\<forall>a. unat (base (g_user_region s)) \<le> unat a \<and> unat a < unat (limit (g_user_region s)) \<longrightarrow> mem a = mem' a"
  shows "(\<exists>rs s'. syscalls frames (with_serial g s) = Some (rs, with_serial g s') \<and>
      syscalls frames (with_serial f s) = Some (rs, with_serial f s') \<and> length rs = length frames) \<and>
    mcsos_copy_from_user mem dst src len s = mcsos_copy_from_user mem' dst src len s"
proof
  show "\<exists>rs s'. syscalls frames (with_serial g s) = Some (rs, with_serial g s') \<and>
      syscalls frames (with_serial f s) = Some (rs, with_serial f s') \<and> length rs = length frames"
    using assms(1) by (intro syscalls_agree) (simp add: agree_def safe_range_def inside_region_def)
  have "mem (src + of_nat i) = mem' (src + of_nat i)" if "i < unat len" "inside_region (g_user_region s) src len" for i
  proof -
    have b: "unat src + i < unat (limit (g_user_region s))" "unat (base (g_user_region s)) \<le> unat src"
      using that by (simp_all add: inside_region_def)
    then have "unat (src + of_nat i) = unat src + i"
      using unat_u64_lt [of "limit (g_user_region s)"] by (simp add: unat_word_ariths unsigned_of_nat take_bit_nat_eq_self)
    then show ?thesis using assms(2) b by simp
  qed
  then show "mcsos_copy_from_user mem dst src len s = mcsos_copy_from_user mem' dst src len s"
    by (auto simp: mcsos_copy_from_user_def check_range_iff split: option.split)
qed

theorem syscalls_confined_witness:
  "\<exists>rs s'. syscalls [\<lparr>nr = 2, arg0 = 0x1ff0, arg1 = 16, arg2 = 0, arg3 = 0, arg4 = 0, arg5 = 0, ret = 0\<rparr>,
       \<lparr>nr = 2, arg0 = 0x1ff0, arg1 = 17, arg2 = 0, arg3 = 0, arg4 = 0, arg5 = 0, ret = 0\<rparr>]
     (with_serial default_write_serial demo_syscall_state) = Some (rs, with_serial default_write_serial s') \<and> length rs = 2"
  using syscalls_confined [of demo_syscall_state default_write_serial default_write_serial "\<lambda>a. 0"
      "\<lambda>a. if unat a < 4096 then 1 else 0" "[\<lparr>nr = 2, arg0 = 0x1ff0, arg1 = 16, arg2 = 0, arg3 = 0, arg4 = 0, arg5 = 0, ret = 0\<rparr>,
       \<lparr>nr = 2, arg0 = 0x1ff0, arg1 = 17, arg2 = 0, arg3 = 0, arg4 = 0, arg5 = 0, ret = 0\<rparr>]" None 0 0]
  by (auto simp: demo_syscall_state_def)

end
