(* ===== verification/Kernel.thy ===== *)
theory Kernel
  imports Sched Syscall Elf
begin

text \<open>
  The kernel's main function \<open>src/kernel/kernel.c\<close>, which puts the scheduler, the system calls and the
  program loader together: its state is the state of the scheduler, the calls made to the external function
  \<open>klog\<close>, and the system call layer over them, whose callbacks are the functions \<open>k_*\<close> of the file. A
  call that switches threads does not return to its caller; \<open>kernel_call\<close> says where the processor goes on. The
  lines after \<open>kernel_main\<close>, which are outside of any function, are not modelled.
\<close>

section \<open>State\<close>

text \<open>What \<open>klog\<close> is given: a literal of the program or a pointer it received.\<close>

datatype klog_arg = Literal string | Pointer u64

record kernel =
  k_world :: sched_world
  k_klog :: "klog_arg list"

text \<open>The addresses of the objects and functions of the file, fixed by the linker.\<close>

record kernel_layout =
  g_boot_thread :: u64
  g_thread_a :: u64
  g_thread_b :: u64
  g_stack_a :: u64
  g_stack_b :: u64
  demo_thread_a :: u64
  demo_thread_b :: u64

definition klog :: "klog_arg \<Rightarrow> kernel \<Rightarrow> kernel" where
  "klog x k = k\<lparr>k_klog := k_klog k @ [x]\<rparr>"

text \<open>
  A scheduler call whose result is not looked at. When the call switches threads, the state is the one right
  after the switch: the code behind the call runs only when its thread is switched to again.
\<close>

definition on_sched :: "sched_prog \<Rightarrow> kernel \<Rightarrow> kernel" where
  "on_sched f k = k\<lparr>k_world := snd (f (k_world k))\<rparr>"

definition on_kernel :: "(kernel \<Rightarrow> kernel) \<Rightarrow> kernel syscall_state \<Rightarrow> kernel syscall_state" where
  "on_kernel f s = s\<lparr>kern := f (kern s)\<rparr>"

section \<open>Callbacks of the system calls\<close>

definition k_get_ticks :: "kernel \<Rightarrow> u64 \<times> kernel" where
  "k_get_ticks k = (42, k)"

definition k_yield_current :: "kernel \<Rightarrow> kernel" where
  "k_yield_current k = on_sched mcsos_sched_yield k"

definition k_exit_current :: "u32 \<Rightarrow> kernel \<Rightarrow> kernel" where
  "k_exit_current code k = klog (Literal ''[M10] thread requesting exit via syscall'') k"

definition k_write_serial :: "u64 \<Rightarrow> u64 \<Rightarrow> kernel \<Rightarrow> u64 \<times> kernel" where
  "k_write_serial buf len k = (len, klog (Pointer buf) k)"

definition k_ops :: "kernel mcsos_syscall_ops" where
  "k_ops = \<lparr>get_ticks = Some k_get_ticks, yield_current = Some k_yield_current, exit_current = Some k_exit_current,
     write_serial = Some k_write_serial\<rparr>"

section \<open>The main function\<close>

text \<open>Newlines at the end of the messages are left out. \<open>None\<close>: the endless loop after a failure.\<close>

definition m10_syscall_smoke_direct :: "kernel syscall_state \<Rightarrow> kernel syscall_state option" where
  "m10_syscall_smoke_direct s =
     (case mcsos_syscall_dispatch 0 [0, 0, 0, 0, 0, 0] s of None \<Rightarrow> None
      | Some (r, s1) \<Rightarrow>
          if r \<noteq> 0x2605020A then None
          else Some (on_kernel (klog (Literal ''[M10] syscall ping direct ok'')) s1))"

text \<open>The output plan is an uninitialised local variable; its first contents are the argument \<open>plan\<close>.\<close>

definition m11_kernel_smoke_test_elf_loader :: "bytes option \<Rightarrow> u64 \<Rightarrow> m11_process_image_plan \<Rightarrow> kernel \<Rightarrow> kernel" where
  "m11_kernel_smoke_test_elf_loader img image_size plan k =
     (case m11_elf64_plan_load img image_size \<lparr>r_base = 0x00400000, r_limit = 0x8000000000\<rparr> (Some plan) of
        (Inr (), _) \<Rightarrow> klog (Literal ''[M11] ELF loader smoke test plan passed'') k
      | (Inl _, _) \<Rightarrow> k)"

definition dummy_elf :: bytes where
  "dummy_elf = [0x7f, 0x45, 0x4C, 0x46, 2, 1, 1, 0, 0, 0, 0, 0, 0, 0, 0, 0,
     2, 0, 62, 0, 1, 0, 0, 0, 0, 1, 40, 0, 0, 0, 0, 0,
     64, 0, 0, 0, 0, 0, 0, 0, 0, 0, 0, 0, 0, 0, 0, 0,
     0, 0, 0, 0, 64, 0, 56, 0, 1, 0, 0, 0, 0, 0] @ replicate 66 0"

text \<open>\<open>mcsos_thread_prepare(&t, name, entry, 0, stack, 8192, g_sched.next_id++)\<close>\<close>

definition prepare_next :: "u64 \<Rightarrow> string \<Rightarrow> u64 \<Rightarrow> u64 \<Rightarrow> sched_prog" where
  "prepare_next t name fn stack w =
     mcsos_thread_prepare t (Some name) fn 0 stack 8192 (s_next_id (sch w)) (upd_sch (\<lambda>s. s\<lparr>s_next_id := s_next_id s + 1\<rparr>) w)"

definition kernel_setup :: "kernel_layout \<Rightarrow> kernel \<Rightarrow> kernel" where
  "kernel_setup L k =
     klog (Literal ''[M9] scheduler initialized'')
      (on_sched (mcsos_sched_enqueue (g_thread_b L)) (on_sched (mcsos_sched_enqueue (g_thread_a L))
      (on_sched (prepare_next (g_thread_b L) ''demo-b'' (demo_thread_b L) (g_stack_b L))
      (on_sched (prepare_next (g_thread_a L) ''demo-a'' (demo_thread_a L) (g_stack_a L))
      (on_sched (mcsos_scheduler_init (g_boot_thread L)) k)))))"

text \<open>
  How far \<open>kernel_main\<close> gets: the endless loop after a failed smoke test, the instruction \<open>int 0x80\<close> that does
  not return, or the first context switch.
\<close>

datatype main_end = In_Failure_Loop | In_Gate | At_First_Switch

text \<open>
  \<open>int80\<close> is the assembly path of \<open>m10_int80_ping_kernel_only\<close>: the value it leaves in \<open>rax\<close> and the state,
  or \<open>None\<close> when the instruction does not return. At \<open>At_First_Switch\<close> the state is the one right after the
  context switch.
\<close>

definition kernel_main ::
  "kernel_layout \<Rightarrow> (kernel syscall_state \<Rightarrow> (u64 \<times> kernel syscall_state) option) \<Rightarrow> m11_process_image_plan \<Rightarrow>
   kernel syscall_state \<Rightarrow> main_end \<times> kernel syscall_state" where
  "kernel_main L int80 plan s =
     (let s1 = on_kernel (m11_kernel_smoke_test_elf_loader (Some dummy_elf) 128 plan) s;
          s2 = on_kernel (kernel_setup L) s1;
          s3 = on_kernel (klog (Literal ''[M10] syscall dispatcher registered to kernel init'')) (mcsos_syscall_init (Some k_ops) s2)
      in case m10_syscall_smoke_direct s3 of None \<Rightarrow> (In_Failure_Loop, s3)
         | Some s4 \<Rightarrow>
             let s5 = on_kernel (klog (Literal ''[M10] triggering int 0x80 gate test...'')) s4
             in case int80 s5 of None \<Rightarrow> (In_Gate, s5)
                | Some (r, s6) \<Rightarrow>
                    let s7 = on_kernel (klog (Literal (if r = 0x2605020A then ''[M10] int 0x80 assembly jump path SUCCESS!''
                          else ''[M10] WARNING: assembly gate returned wrong token value''))) s6
                    in (At_First_Switch, on_kernel (on_sched mcsos_sched_yield) s7))"

text \<open>
  One turn of the loops of \<open>demo_thread_a\<close> and \<open>demo_thread_b\<close>, up to the switch of its yield. No turn is ever
  run: a prepared thread starts in the trampoline, which halts and never calls the thread's entry.
\<close>

definition demo_thread_a_turn :: "kernel \<Rightarrow> kernel" where
  "demo_thread_a_turn k = on_sched mcsos_sched_yield (klog (Literal ''[M9] thread A tick'') k)"

definition demo_thread_b_turn :: "kernel \<Rightarrow> kernel" where
  "demo_thread_b_turn k = on_sched mcsos_sched_yield (klog (Literal ''[M9] thread B tick'') k)"

section \<open>System calls on the kernel's callbacks\<close>

text \<open>The result of a call, by its number and arguments.\<close>

definition k_result :: "mcsos_user_region \<Rightarrow> mcsos_syscall_frame \<Rightarrow> i64" where
  "k_result r f =
     (if nr f = 0 then 0x2605020A else if nr f = 1 then 42
      else if nr f = 2 then
        (if arg0 f = 0 \<or> 4096 < arg1 f then MCSOS_EINVAL
         else if arg1 f \<noteq> 0 \<and> \<not> (base r \<noteq> 0 \<and> inside_region r (arg0 f) (arg1 f)) then MCSOS_EFAULT else arg1 f)
      else if nr f = 3 \<or> nr f = 4 then MCSOS_OK else MCSOS_ENOSYS)"

text \<open>
  What becomes of the call that the running thread makes. It returns to its caller if no other thread was
  switched to. If one was, that thread goes on where its context stands: behind the switch of its own yield, or in
  the trampoline, which halts for ever. A context with another instruction pointer is not described (\<open>None\<close>).
\<close>

datatype call_end = Returns i64 | Continues u64 | Halts

definition kernel_call :: "mcsos_syscall_frame \<Rightarrow> kernel syscall_state \<Rightarrow> (call_end \<times> kernel syscall_state) option" where
  "kernel_call f s =
     (case mcsos_syscall_dispatch_frame (Some f) s of
        Some (Some f', s') \<Rightarrow>
          (let w = k_world (kern s); w' = k_world (kern s')
           in if current w' = current w then Some (Returns (ret f'), s')
              else if c_rip (cpu w') = trampoline_addr w' then Some (Halts, s')
              else if c_rip (cpu w') = resume_addr w' then Some (Continues (current w'), s')
              else None)
      | _ \<Rightarrow> None)"

text \<open>Calls one after the other, each by the thread that is running then, up to one after which nothing runs.\<close>

fun kernel_calls :: "mcsos_syscall_frame list \<Rightarrow> kernel syscall_state \<Rightarrow> (call_end list \<times> kernel syscall_state) option" where
  "kernel_calls [] s = Some ([], s)"
| "kernel_calls (f # fs) s =
     (case kernel_call f s of None \<Rightarrow> None
      | Some (Halts, s') \<Rightarrow> Some ([Halts], s')
      | Some (e, s') \<Rightarrow> map_option (\<lambda>(es, s''). (e # es, s'')) (kernel_calls fs s'))"

text \<open>
  The specification: thread \<open>c\<close> runs, \<open>q\<close> are the ready threads, \<open>i\<close> is the idle thread and \<open>F\<close> are the threads
  that have never run.
\<close>

fun round_robin_calls :: "mcsos_user_region \<Rightarrow> u64 \<Rightarrow> u64 set \<Rightarrow> u64 \<Rightarrow> u64 list \<Rightarrow> mcsos_syscall_frame list \<Rightarrow> call_end list" where
  "round_robin_calls r i F c q [] = []"
| "round_robin_calls r i F c q (f # fs) =
     (let n = next_of i q
      in if nr f \<noteq> 3 \<or> n = c then Returns (k_result r f) # round_robin_calls r i F c q fs
         else if n \<in> F then [Halts]
         else Continues n # round_robin_calls r i F n (tl q @ (if c = i then [] else [c])) fs)"

text \<open>The threads the scheduler holds, and where their contexts stand.\<close>

definition held_threads :: "sched_world \<Rightarrow> u64 list \<Rightarrow> u64 set" where
  "held_threads w q = {idle w, current w} \<union> set q"

definition contexts_ok :: "u64 set \<Rightarrow> u64 list \<Rightarrow> sched_world \<Rightarrow> bool" where
  "contexts_ok F q w \<longleftrightarrow> resume_addr w \<noteq> trampoline_addr w \<and> current w \<notin> F \<and>
     (\<forall>t\<in>held_threads w q - {current w}.
        c_rip (t_context (thr w t)) = (if t \<in> F then trampoline_addr w else resume_addr w))"

text \<open>What every call keeps.\<close>

definition kernel_inv :: "u64 set \<Rightarrow> u64 \<Rightarrow> mcsos_user_region \<Rightarrow> kernel syscall_state \<Rightarrow> u64 list \<Rightarrow> bool" where
  "kernel_inv T i r s q \<longleftrightarrow> g_ops s = k_ops \<and> g_user_region s = r \<and> sched_inv (k_world (kern s)) q \<and>
     idle (k_world (kern s)) = i \<and> held_threads (k_world (kern s)) q = T"

text \<open>Yielding changes no number, no entry point and no context but the one of the running thread.\<close>

lemma yield_same_ids:
  assumes "mcsos_sched_yield w = (res, w')"
  shows "t_id (thr w' t) = t_id (thr w t)" "t_entry (thr w' t) = t_entry (thr w t)"
    "t \<noteq> current w \<Longrightarrow> t_context (thr w' t) = t_context (thr w t)"
    "trampoline_addr w' = trampoline_addr w" "resume_addr w' = resume_addr w"
  using assms
  by (auto simp: mcsos_sched_yield_def mcsos_sched_pick_next_def rq_pop_def mcsos_sched_enqueue_def rq_append_def switch_to_def
      mcsos_context_switch_def prog_run Let_def split: if_splits prod.splits)

lemma held_threads_switch:
  assumes "current w' = next_of (idle w) q" "idle w' = idle w"
  shows "held_threads w' (tl q @ (if current w = idle w then [] else [current w])) = held_threads w q"
  using assms by (cases q) (auto simp: held_threads_def next_of_def)

text \<open>A call other than yield returns and leaves the scheduler alone.\<close>

lemma dispatch_other:
  assumes ops: "g_ops s = k_ops" and nr: "nr f \<noteq> 3"
  obtains k where "mcsos_syscall_dispatch (nr f) [arg0 f, arg1 f, arg2 f, arg3 f, arg4 f, arg5 f] s =
      Some (k_result (g_user_region s) f, s\<lparr>kern := k\<rparr>)" "k_world k = k_world (kern s)"
proof -
  consider "nr f = 0" | "nr f = 1" | "nr f = 2" | "nr f = 4" | "nr f \<notin> {0, 1, 2, 3, 4}" using nr by blast
  then show ?thesis
  proof cases
    case 1
    then show ?thesis using that [of "kern s"] by (simp add: dispatch_cases sys_ping_def k_result_def)
  next
    case 2
    then show ?thesis using that [of "kern s"] ops by (simp add: dispatch_cases sys_get_ticks_def k_result_def k_ops_def k_get_ticks_def)
  next
    case 3
    show ?thesis
    proof (cases "arg0 f = 0 \<or> 4096 < arg1 f \<or> \<not> mcsos_user_check_range (g_user_region s) (arg0 f) (arg1 f)")
      case True
      then show ?thesis using that [of "kern s"] 3
        by (auto simp: dispatch_cases sys_write_serial_def k_result_def check_range_iff Let_def split: if_splits)
    next
      case False
      then show ?thesis using that [of "klog (Pointer (arg0 f)) (kern s)"] 3 ops
        by (auto simp: dispatch_cases sys_write_serial_def k_result_def check_range_iff k_ops_def k_write_serial_def klog_def)
    qed
  next
    case 4
    then show ?thesis using that [of "k_exit_current (ucast (arg0 f)) (kern s)"] ops
      by (simp add: dispatch_cases sys_exit_thread_def k_result_def k_ops_def k_exit_current_def klog_def)
  next
    case 5
    then show ?thesis using that [of "kern s"] by (simp add: dispatch_cases k_result_def)
  qed
qed

lemma call_other:
  assumes "kernel_inv T i r s q" "nr f \<noteq> 3"
  obtains s' where "kernel_call f s = Some (Returns (k_result r f), s')" "kernel_inv T i r s' q" "k_world (kern s') = k_world (kern s)"
proof -
  have ops: "g_ops s = k_ops" "g_user_region s = r" using assms(1) by (simp_all add: kernel_inv_def)
  obtain k where k: "mcsos_syscall_dispatch (nr f) [arg0 f, arg1 f, arg2 f, arg3 f, arg4 f, arg5 f] s =
      Some (k_result (g_user_region s) f, s\<lparr>kern := k\<rparr>)" "k_world k = k_world (kern s)" by (rule dispatch_other [OF ops(1) assms(2)])
  then have "kernel_call f s = Some (Returns (k_result r f), s\<lparr>kern := k\<rparr>)"
    using ops by (simp add: kernel_call_def mcsos_syscall_dispatch_frame_def)
  then show ?thesis using that k(2) assms(1) by (simp add: kernel_inv_def)
qed

lemma dispatch_yield:
  "g_ops s = k_ops \<Longrightarrow> nr f = 3 \<Longrightarrow> mcsos_sched_yield (k_world (kern s)) = (res, w') \<Longrightarrow>
   mcsos_syscall_dispatch (nr f) [arg0 f, arg1 f, arg2 f, arg3 f, arg4 f, arg5 f] s =
     Some (0, s\<lparr>kern := (kern s)\<lparr>k_world := w'\<rparr>\<rparr>)"
  by (simp add: dispatch_cases sys_yield_def k_ops_def k_yield_current_def on_sched_def MCSOS_OK_def)

text \<open>A yield with no other thread returns; the other yields go where the next thread stands.\<close>

lemma call_yield_alone:
  assumes inv: "kernel_inv T i r s q" and nr: "nr f = 3" and alone: "next_of i q = current (k_world (kern s))"
    and cs: "contexts_ok F q (k_world (kern s))"
  obtains s' where "kernel_call f s = Some (Returns (k_result r f), s')" "kernel_inv T i r s' q"
    "contexts_ok F q (k_world (kern s'))" "current (k_world (kern s')) = current (k_world (kern s))"
proof -
  let ?w = "k_world (kern s)"
  have si: "sched_inv ?w q" "next_of (idle ?w) q = current ?w" using inv alone by (simp_all add: kernel_inv_def)
  from yield_alone [OF si] obtain w' where w': "mcsos_sched_yield ?w = (Inr (), w')" "sched_inv w' []"
    "current w' = current ?w" "idle w' = idle ?w" "q = []" "current ?w = idle ?w" by blast
  let ?s = "s\<lparr>kern := (kern s)\<lparr>k_world := w'\<rparr>\<rparr>"
  have "kernel_call f s = Some (Returns (k_result r f), ?s)"
    using dispatch_yield [OF _ nr w'(1)] inv w'(3)
    by (simp add: kernel_call_def mcsos_syscall_dispatch_frame_def kernel_inv_def nr k_result_def MCSOS_OK_def)
  moreover have "contexts_ok F q w'"
    using cs w'(3-6) yield_same_ids(4,5) [OF w'(1)] by (simp add: contexts_ok_def held_threads_def)
  ultimately show ?thesis using that [of ?s] inv w' by (auto simp: kernel_inv_def held_threads_def)
qed

lemma call_yield_switch:
  assumes inv: "kernel_inv T i r s q" and nr: "nr f = 3" and other: "next_of i q \<noteq> current (k_world (kern s))"
    and cs: "contexts_ok F q (k_world (kern s))"
  obtains s' where "kernel_call f s = Some (if next_of i q \<in> F then Halts else Continues (next_of i q), s')"
    "kernel_inv T i r s' (tl q @ (if current (k_world (kern s)) = i then [] else [current (k_world (kern s))]))"
    "current (k_world (kern s')) = next_of i q"
    "next_of i q \<notin> F \<Longrightarrow> contexts_ok F (tl q @ (if current (k_world (kern s)) = i then [] else [current (k_world (kern s))])) (k_world (kern s'))"
proof -
  let ?w = "k_world (kern s)" and ?q = "tl q @ (if current (k_world (kern s)) = i then [] else [current (k_world (kern s))])"
  have si: "sched_inv ?w q" "next_of (idle ?w) q \<noteq> current ?w" and i: "idle ?w = i" using inv other by (simp_all add: kernel_inv_def)
  obtain w' where w': "mcsos_sched_yield ?w = (Inr (), w')" "sched_inv w' ?q" "current w' = next_of i q" "idle w' = i"
    "switched (current ?w) (next_of i q) ?w w'" by (rule yield_running [OF si]) (simp add: i)
  let ?s = "s\<lparr>kern := (kern s)\<lparr>k_world := w'\<rparr>\<rparr>"
  note same = yield_same_ids(3-5) [OF w'(1)]
  have held: "held_threads w' ?q = held_threads ?w q" using held_threads_switch [of w' ?w q] w'(3,4) by (simp add: i)
  have "next_of i q \<in> held_threads ?w q" by (cases q) (simp_all add: next_of_def held_threads_def i)
  then have rip: "c_rip (cpu w') = (if next_of i q \<in> F then trampoline_addr w' else resume_addr w')"
    using cs w'(5) other same by (simp add: contexts_ok_def switched_def)
  have "kernel_call f s = Some (if next_of i q \<in> F then Halts else Continues (next_of i q), ?s)"
    using dispatch_yield [OF _ nr w'(1)] inv w'(3) other rip cs same(2,3)
    by (auto simp: kernel_call_def mcsos_syscall_dispatch_frame_def kernel_inv_def contexts_ok_def)
  moreover have "kernel_inv T i r ?s ?q" using inv w' held by (simp add: kernel_inv_def)
  moreover have "contexts_ok F ?q w'" if "next_of i q \<notin> F"
    unfolding contexts_ok_def held
  proof (intro conjI ballI)
    fix t assume t: "t \<in> held_threads ?w q - {current w'}"
    show "c_rip (t_context (thr w' t)) = (if t \<in> F then trampoline_addr w' else resume_addr w')"
      by (cases "t = current ?w") (use t cs same w'(5) in \<open>auto simp: contexts_ok_def switched_def\<close>)
  qed (use cs that same(2,3) w'(3) in \<open>simp_all add: contexts_ok_def\<close>)
  ultimately show ?thesis using that [of ?s] w'(3) by simp
qed

lemma kernel_calls_spec:
  "kernel_inv T i r s q \<Longrightarrow> contexts_ok F q (k_world (kern s)) \<Longrightarrow>
   \<exists>s' q'. kernel_calls fs s = Some (round_robin_calls r i F (current (k_world (kern s))) q fs, s') \<and> kernel_inv T i r s' q'"
proof (induction fs arbitrary: s q)
  case (Cons f fs)
  let ?c = "current (k_world (kern s))"
  consider "nr f \<noteq> 3" | "nr f = 3" "next_of i q = ?c" | "nr f = 3" "next_of i q \<noteq> ?c" by blast
  then show ?case
  proof cases
    case 1
    then obtain s1 where "kernel_call f s = Some (Returns (k_result r f), s1)" "kernel_inv T i r s1 q" "k_world (kern s1) = k_world (kern s)"
      using call_other [OF Cons.prems(1)] by blast
    then show ?thesis using Cons.IH [of s1 q] Cons.prems(2) 1 by auto
  next
    case 2
    then obtain s1 where "kernel_call f s = Some (Returns (k_result r f), s1)" "kernel_inv T i r s1 q"
      "contexts_ok F q (k_world (kern s1))" "current (k_world (kern s1)) = ?c"
      using call_yield_alone [OF Cons.prems(1) _ _ Cons.prems(2)] by blast
    then show ?thesis using Cons.IH [of s1 q] 2 by auto
  next
    case 3
    obtain s1 where s1: "kernel_call f s = Some (if next_of i q \<in> F then Halts else Continues (next_of i q), s1)"
      "kernel_inv T i r s1 (tl q @ (if ?c = i then [] else [?c]))" "current (k_world (kern s1)) = next_of i q"
      "next_of i q \<notin> F \<Longrightarrow> contexts_ok F (tl q @ (if ?c = i then [] else [?c])) (k_world (kern s1))"
      by (rule call_yield_switch [OF Cons.prems(1) 3 Cons.prems(2)]) blast
    show ?thesis
    proof (cases "next_of i q \<in> F")
      case True
      then show ?thesis using s1(1,2) 3 by auto
    next
      case False
      then show ?thesis using Cons.IH [OF s1(2) s1(4) [OF False]] s1(1,3) 3 by (auto simp: Let_def)
    qed
  qed
qed auto

section \<open>Setting up the scheduler\<close>

definition layout_ok :: "kernel_layout \<Rightarrow> bool" where
  "layout_ok L \<longleftrightarrow> g_boot_thread L \<noteq> 0 \<and> distinct [g_boot_thread L, g_thread_a L, g_thread_b L] \<and>
     prepare_args_ok (g_thread_a L) (demo_thread_a L) (g_stack_a L) 8192 \<and>
     prepare_args_ok (g_thread_b L) (demo_thread_b L) (g_stack_b L) 8192"

lemma next_id_inv [simp]:
  "sched_inv (upd_sch (\<lambda>s. s\<lparr>s_next_id := i\<rparr>) w) q = sched_inv w q"
  by (simp add: sched_inv_def queue_rep_def valid_thread_object_def)

text \<open>A prepared thread: a new thread object with the next number, standing in the trampoline on its own stack.\<close>

definition prepared :: "u64 \<Rightarrow> u64 \<Rightarrow> u64 \<Rightarrow> u64 \<Rightarrow> u64 \<Rightarrow> sched_world \<Rightarrow> bool" where
  "prepared t tid fn stack tramp w \<longleftrightarrow> valid_thread_object w t \<and> t_id (thr w t) = tid \<and> t_entry (thr w t) = fn \<and>
     c_rip (t_context (thr w t)) = tramp \<and> unat stack < unat (c_rsp (t_context (thr w t))) \<and>
     unat (c_rsp (t_context (thr w t))) + 8 \<le> unat stack + 8192"

lemma prepare_next_ok:
  assumes inv: "sched_inv w q" and t: "t \<noteq> current w" "t \<noteq> idle w" "t \<notin> set q" and ok: "prepare_args_ok t fn stack 8192"
  obtains w' where "prepare_next t name fn stack w = (Inr (), w')" "sched_inv w' q" "current w' = current w" "idle w' = idle w"
    "prepared t (s_next_id (sch w)) fn stack (trampoline_addr w) w'" "t_state (thr w' t) = MCSOS_THREAD_NEW"
    "s_next_id (sch w') = s_next_id (sch w) + 1" "trampoline_addr w' = trampoline_addr w" "\<And>u. u \<noteq> t \<Longrightarrow> thr w' u = thr w u"
proof -
  let ?w = "upd_sch (\<lambda>s. s\<lparr>s_next_id := s_next_id s + 1\<rparr>) w"
  obtain w' where w': "mcsos_thread_prepare t (Some name) fn 0 stack 8192 (s_next_id (sch w)) ?w = (Inr (), w')"
    "valid_thread_object w' t" "t_state (thr w' t) = MCSOS_THREAD_NEW" "t_id (thr w' t) = s_next_id (sch w)" "t_entry (thr w' t) = fn"
    "c_rip (t_context (thr w' t)) = trampoline_addr w" "unat stack < unat (c_rsp (t_context (thr w' t)))"
    "unat (c_rsp (t_context (thr w' t))) + 8 \<le> unat stack + 8192"
    "thr w' = (thr w)(t := thr w' t)" "sch w' = sch ?w" "trampoline_addr w' = trampoline_addr w"
    using prepare_accepted [OF ok, of "Some name" 0 "s_next_id (sch w)" ?w] by (auto simp: Let_def)
  have "sched_inv w' q" by (rule prepare_inv [OF _ _ w'(1)]) (use inv t in simp_all)
  moreover have "thr w' u = thr w u" if "u \<noteq> t" for u using w'(9) that by (metis fun_upd_other)
  ultimately show ?thesis
    using that [of w'] w' by (simp add: prepare_next_def prepared_def)
qed

lemma prepared_append: "prepared t tid fn stack tramp (rq_append x w) = prepared t tid fn stack tramp w"
proof -
  have "t_id (thr (rq_append x w) t) = t_id (thr w t)" "t_entry (thr (rq_append x w) t) = t_entry (thr w t)"
    by (simp_all add: rq_append_def Let_def)
  then show ?thesis by (simp add: prepared_def valid_thread_object_def rq_append_frame)
qed

lemma kernel_setup_ok:
  assumes L: "layout_ok L"
  obtains w where "kernel_setup L k = klog (Literal ''[M9] scheduler initialized'') (k\<lparr>k_world := w\<rparr>)"
    "sched_inv w [g_thread_a L, g_thread_b L]" "current w = g_boot_thread L" "idle w = g_boot_thread L"
    "prepared (g_thread_a L) 1 (demo_thread_a L) (g_stack_a L) (trampoline_addr (k_world k)) w"
    "prepared (g_thread_b L) 2 (demo_thread_b L) (g_stack_b L) (trampoline_addr (k_world k)) w"
proof -
  let ?a = "g_thread_a L" and ?b = "g_thread_b L" and ?t = "trampoline_addr (k_world k)"
  have d: "g_boot_thread L \<noteq> 0" "?a \<noteq> g_boot_thread L" "?b \<noteq> g_boot_thread L" "?a \<noteq> ?b"
    "prepare_args_ok ?a (demo_thread_a L) (g_stack_a L) 8192" "prepare_args_ok ?b (demo_thread_b L) (g_stack_b L) 8192"
    using L by (auto simp: layout_ok_def)
  obtain w1 where w1: "mcsos_scheduler_init (g_boot_thread L) (k_world k) = (Inr (), w1)"
    using d(1) by (simp add: mcsos_scheduler_init_def)
  then have c1: "current w1 = g_boot_thread L" "idle w1 = g_boot_thread L" "s_next_id (sch w1) = 1" "trampoline_addr w1 = ?t"
    using d(1) by (auto simp: mcsos_scheduler_init_def)
  have inv1: "sched_inv w1 []" by (rule init_inv [OF w1])
  obtain w2 where w2: "prepare_next ?a ''demo-a'' (demo_thread_a L) (g_stack_a L) w1 = (Inr (), w2)" "sched_inv w2 []"
    "current w2 = current w1" "idle w2 = idle w1" "prepared ?a 1 (demo_thread_a L) (g_stack_a L) ?t w2" "t_state (thr w2 ?a) = MCSOS_THREAD_NEW"
    "s_next_id (sch w2) = 2" "trampoline_addr w2 = ?t"
    by (rule prepare_next_ok [OF inv1 _ _ _ d(5), of "''demo-a''"]) (use c1 d in auto)
  obtain w3 where w3: "prepare_next ?b ''demo-b'' (demo_thread_b L) (g_stack_b L) w2 = (Inr (), w3)" "sched_inv w3 []"
    "current w3 = current w2" "idle w3 = idle w2" "prepared ?b 2 (demo_thread_b L) (g_stack_b L) ?t w3" "t_state (thr w3 ?b) = MCSOS_THREAD_NEW"
    "\<And>u. u \<noteq> ?b \<Longrightarrow> thr w3 u = thr w2 u"
    by (rule prepare_next_ok [OF w2(2) _ _ _ d(6), of "''demo-b''"]) (use w2 c1 d in auto)
  have a3: "valid_thread_object w3 ?a" "t_state (thr w3 ?a) = MCSOS_THREAD_NEW" "prepared ?a 1 (demo_thread_a L) (g_stack_a L) ?t w3"
    using w2(5,6) w3(7) [OF d(4)] by (auto simp: prepared_def valid_thread_object_def)
  have w4: "mcsos_sched_enqueue ?a w3 = (Inr (), rq_append ?a w3)" "sched_inv (rq_append ?a w3) [?a]"
    using enqueue_inv [OF w3(2) a3(1)] a3(2) by auto
  have b4: "valid_thread_object (rq_append ?a w3) ?b" "t_state (thr (rq_append ?a w3) ?b) = MCSOS_THREAD_NEW"
    using w3(5,6) d(4) by (auto simp: prepared_def valid_thread_object_def rq_append_frame)
  let ?w = "rq_append ?b (rq_append ?a w3)"
  have w5: "mcsos_sched_enqueue ?b (rq_append ?a w3) = (Inr (), ?w)" "sched_inv ?w [?a, ?b]"
    using enqueue_inv [OF w4(2) b4(1)] b4(2) by auto
  show ?thesis
  proof (rule that [of ?w])
    show "kernel_setup L k = klog (Literal ''[M9] scheduler initialized'') (k\<lparr>k_world := ?w\<rparr>)"
      using w1 w2(1) w3(1) w4(1) w5(1) by (simp add: kernel_setup_def on_sched_def)
  qed (use w5(2) w3(3-5) w2(3,4) c1(1,2) a3(3) in \<open>simp_all add: prepared_append rq_append_frame\<close>)
qed

lemma dummy_elf_refused:
  "m11_kernel_smoke_test_elf_loader (Some dummy_elf) 128 plan k = k"
proof -
  have "header_check dummy_elf 128 \<lparr>r_base = 0x00400000, r_limit = 0x8000000000\<rparr> = Some M11_ERR_ENTRY"
    by code_simp
  then show ?thesis by (simp add: m11_kernel_smoke_test_elf_loader_def m11_elf64_plan_load_def plan_image_eq)
qed

lemma smoke_ping: "m10_syscall_smoke_direct s = Some (on_kernel (klog (Literal ''[M10] syscall ping direct ok'')) s)"
  by (simp add: m10_syscall_smoke_direct_def dispatch_cases sys_ping_def)

lemma init_k_ops: "mcsos_syscall_init (Some k_ops) s = s\<lparr>g_ops := k_ops\<rparr>"
  by (simp add: mcsos_syscall_init_def k_ops_def Let_def)

section \<open>Properties\<close>

text \<open>
  C39. With the kernel's own callbacks, system calls keep the scheduler well-formed. Take any consistent
  scheduler whose suspended threads stand behind the switch of their own yield, those of \<open>F\<close> excepted, which
  have been prepared and never run. Then a sequence of system calls with arbitrary numbers and arguments, each
  made by the thread that runs at the time, ends as the round-robin specification says: a call returns the result
  that its number and arguments determine, unless it is a yield with another thread to go to; then the first
  ready thread (the idle thread if there is none) continues and the caller is queued at the end. If that thread
  has never run, the processor halts in the trampoline and neither this call returns nor is any later one made.
  In every case the scheduler is consistent again, it holds the same threads, its self-check accepts, and the
  callbacks and the user region are unchanged.
\<close>

theorem kernel_syscalls_keep_scheduler:
  assumes "g_ops s = k_ops" "w = k_world (kern s)" "sched_inv w q" "resume_addr w \<noteq> trampoline_addr w" "current w \<notin> F"
    and "\<forall>t\<in>{idle w} \<union> set q - {current w}. c_rip (t_context (thr w t)) = (if t \<in> F then trampoline_addr w else resume_addr w)"
  shows "\<exists>s' q' w'. kernel_calls frames s = Some (round_robin_calls (g_user_region s) (idle w) F (current w) q frames, s') \<and>
    w' = k_world (kern s') \<and> sched_inv w' q' \<and> idle w' = idle w \<and>
    {idle w', current w'} \<union> set q' = {idle w, current w} \<union> set q \<and> mcsos_sched_validate w' = (Inr (), w') \<and>
    g_ops s' = k_ops \<and> g_user_region s' = g_user_region s"
proof -
  have "kernel_inv (held_threads w q) (idle w) (g_user_region s) s q" using assms(1-3) by (simp add: kernel_inv_def)
  moreover have "contexts_ok F q (k_world (kern s))" using assms(2-) by (auto simp: contexts_ok_def held_threads_def)
  ultimately obtain s' q' where "kernel_calls frames s = Some (round_robin_calls (g_user_region s) (idle w) F (current w) q frames, s')"
    "kernel_inv (held_threads w q) (idle w) (g_user_region s) s' q'"
    using kernel_calls_spec [of _ _ _ s q F frames] assms(2) by blast
  then show ?thesis using sched_inv_validates unfolding kernel_inv_def held_threads_def by blast
qed

text \<open>
  C40. \<open>kernel_main\<close> sets the system up and gets as far as the gate of \<open>int 0x80\<close>, and past it to its first
  context switch only if that instruction returns. If the linker gave the objects distinct addresses and the
  stacks fit, the direct smoke test passes, and when \<open>int 0x80\<close> is executed the threads A, number 1, and B,
  number 2, are ready behind the boot thread, which is current and idle; the system calls have the kernel's
  callbacks; and the log has four messages, the last of which announces the gate test: the program image of the
  loader's smoke test is refused. If the instruction does not return, \<open>kernel_main\<close> ends there, with no thread
  ever switched to. If it returns and leaves the kernel's state alone, the log gets one more message, which says
  whether the value is the right one, and the processor then stands in the trampoline on the stack of thread A,
  which is current, with only B ready.
\<close>

theorem kernel_main_first_switch:
  assumes "layout_ok L" "\<forall>s r s'. int80 s = Some (r, s') \<longrightarrow> s' = s"
  shows "\<exists>s1. sched_inv (k_world (kern s1)) [g_thread_a L, g_thread_b L] \<and>
    current (k_world (kern s1)) = g_boot_thread L \<and> idle (k_world (kern s1)) = g_boot_thread L \<and>
    g_ops s1 = k_ops \<and> g_user_region s1 = g_user_region s \<and>
    k_klog (kern s1) = k_klog (kern s) @ map Literal [''[M9] scheduler initialized'', ''[M10] syscall dispatcher registered to kernel init'',
      ''[M10] syscall ping direct ok'', ''[M10] triggering int 0x80 gate test...''] \<and>
    (case int80 s1 of None \<Rightarrow> kernel_main L int80 plan s = (In_Gate, s1)
     | Some (r, _) \<Rightarrow> \<exists>s' w. kernel_main L int80 plan s = (At_First_Switch, s') \<and> w = k_world (kern s') \<and>
         sched_inv w [g_thread_b L] \<and> current w = g_thread_a L \<and> idle w = g_boot_thread L \<and>
         t_id (thr w (g_thread_a L)) = 1 \<and> t_id (thr w (g_thread_b L)) = 2 \<and>
         t_entry (thr w (g_thread_a L)) = demo_thread_a L \<and> t_entry (thr w (g_thread_b L)) = demo_thread_b L \<and>
         c_rip (cpu w) = trampoline_addr (k_world (kern s)) \<and>
         unat (g_stack_a L) < unat (c_rsp (cpu w)) \<and> unat (c_rsp (cpu w)) + 8 \<le> unat (g_stack_a L) + 8192 \<and>
         g_ops s' = k_ops \<and> g_user_region s' = g_user_region s \<and>
         k_klog (kern s') = k_klog (kern s1) @ [Literal (if r = 0x2605020A then ''[M10] int 0x80 assembly jump path SUCCESS!''
           else ''[M10] WARNING: assembly gate returned wrong token value'')])"
proof -
  obtain w where w: "kernel_setup L (kern s) = klog (Literal ''[M9] scheduler initialized'') ((kern s)\<lparr>k_world := w\<rparr>)"
    "sched_inv w [g_thread_a L, g_thread_b L]" "current w = g_boot_thread L" "idle w = g_boot_thread L"
    "prepared (g_thread_a L) 1 (demo_thread_a L) (g_stack_a L) (trampoline_addr (k_world (kern s))) w"
    "prepared (g_thread_b L) 2 (demo_thread_b L) (g_stack_b L) (trampoline_addr (k_world (kern s))) w"
    by (rule kernel_setup_ok [OF assms(1)])
  have "next_of (idle w) [g_thread_a L, g_thread_b L] \<noteq> current w" using assms(1) w(3) by (auto simp: next_of_def layout_ok_def)
  from yield_running [OF w(2) this] obtain w' where w': "mcsos_sched_yield w = (Inr (), w')" "sched_inv w' [g_thread_b L]"
    "current w' = g_thread_a L" "idle w' = g_boot_thread L" "switched (g_boot_thread L) (g_thread_a L) w w'"
    using w(3,4) by (auto simp: next_of_def)
  have ids: "t_id (thr w' t) = t_id (thr w t)" "t_entry (thr w' t) = t_entry (thr w t)" for t
    using yield_same_ids [OF w'(1)] by simp_all
  define s1 where "s1 = s\<lparr>g_ops := k_ops, kern := (kern s)\<lparr>k_world := w, k_klog := k_klog (kern s) @ map Literal
    [''[M9] scheduler initialized'', ''[M10] syscall dispatcher registered to kernel init'',
      ''[M10] syscall ping direct ok'', ''[M10] triggering int 0x80 gate test...'']\<rparr>\<rparr>"
  have "on_kernel (klog (Literal ''[M10] triggering int 0x80 gate test...'')) (on_kernel (klog (Literal ''[M10] syscall ping direct ok''))
      (on_kernel (klog (Literal ''[M10] syscall dispatcher registered to kernel init'')) (mcsos_syscall_init (Some k_ops)
      (on_kernel (kernel_setup L) (on_kernel (m11_kernel_smoke_test_elf_loader (Some dummy_elf) 128 plan) s))))) = s1"
    by (simp add: dummy_elf_refused w(1) init_k_ops on_kernel_def klog_def s1_def)
  then have "kernel_main L int80 plan s =
      (case int80 s1 of None \<Rightarrow> (In_Gate, s1)
       | Some (r, s6) \<Rightarrow> (At_First_Switch, on_kernel (on_sched mcsos_sched_yield) (on_kernel (klog (Literal
           (if r = 0x2605020A then ''[M10] int 0x80 assembly jump path SUCCESS!''
            else ''[M10] WARNING: assembly gate returned wrong token value''))) s6)))"
    by (simp only: kernel_main_def Let_def smoke_ping option.case)
  moreover have "k_world (kern s1) = w" "g_ops s1 = k_ops" "g_user_region s1 = g_user_region s" by (simp_all add: s1_def)
  moreover have "s6 = s1" if "int80 s1 = Some (r, s6)" for r s6 using assms(2) that by blast
  ultimately show ?thesis
    using w' w(2-6) ids
    by (intro exI [of _ s1])
      (auto simp: on_kernel_def on_sched_def klog_def prepared_def switched_def s1_def split: option.splits)
qed

section \<open>A concrete layout\<close>

definition demo_layout :: kernel_layout where
  "demo_layout = \<lparr>g_boot_thread = 0x100, g_thread_a = 0x200, g_thread_b = 0x300, g_stack_a = 0x10000, g_stack_b = 0x20000,
     demo_thread_a = 0x3000, demo_thread_b = 0x3100\<rparr>"

definition demo_kernel :: "kernel syscall_state" where
  "demo_kernel = \<lparr>g_ops = \<lparr>get_ticks = None, yield_current = None, exit_current = None, write_serial = None\<rparr>,
     g_user_region = \<lparr>base = 0x400000, limit = 0x500000\<rparr>, kern = \<lparr>k_world = demo_sched0, k_klog = []\<rparr>\<rparr>"

lemma demo_layout_ok: "layout_ok demo_layout"
  by (simp add: layout_ok_def demo_layout_def prepare_args_ok_def)

theorem kernel_main_first_switch_witness:
  "(\<exists>s'. kernel_main demo_layout (\<lambda>s. Some (0x2605020A, s)) demo_plan demo_kernel = (At_First_Switch, s') \<and>
     sched_inv (k_world (kern s')) [0x300] \<and> current (k_world (kern s')) = 0x200 \<and> c_rip (cpu (k_world (kern s'))) = 0x1000) \<and>
   (\<exists>s'. kernel_main demo_layout (\<lambda>s. None) demo_plan demo_kernel = (In_Gate, s') \<and>
     sched_inv (k_world (kern s')) [0x200, 0x300] \<and> current (k_world (kern s')) = 0x100)"
proof
  have "\<forall>s r s'. (\<lambda>s :: kernel syscall_state. Some (0x2605020A :: u64, s)) s = Some (r, s') \<longrightarrow> s' = s" by simp
  from kernel_main_first_switch [OF demo_layout_ok this, of demo_kernel demo_plan]
  show "\<exists>s'. kernel_main demo_layout (\<lambda>s. Some (0x2605020A, s)) demo_plan demo_kernel = (At_First_Switch, s') \<and>
     sched_inv (k_world (kern s')) [0x300] \<and> current (k_world (kern s')) = 0x200 \<and> c_rip (cpu (k_world (kern s'))) = 0x1000"
    by (auto simp: demo_layout_def demo_kernel_def demo_sched0_def)
  have "\<forall>s r s'. (\<lambda>s :: kernel syscall_state. None :: (u64 \<times> kernel syscall_state) option) s = Some (r, s') \<longrightarrow> s' = s" by simp
  from kernel_main_first_switch [OF demo_layout_ok this, of demo_kernel demo_plan]
  show "\<exists>s'. kernel_main demo_layout (\<lambda>s. None) demo_plan demo_kernel = (In_Gate, s') \<and>
     sched_inv (k_world (kern s')) [0x200, 0x300] \<and> current (k_world (kern s')) = 0x100"
    by (auto simp: demo_layout_def)
qed

text \<open>
  The scheduler with one ready thread: prepared and never run in \<open>demo_sched\<close>, suspended in its own yield in
  \<open>demo_resumable\<close>.
\<close>

definition demo_frame :: "u64 \<Rightarrow> u64 \<Rightarrow> u64 \<Rightarrow> mcsos_syscall_frame" where
  "demo_frame n a b = \<lparr>nr = n, arg0 = a, arg1 = b, arg2 = 0, arg3 = 0, arg4 = 0, arg5 = 0, ret = 0\<rparr>"

definition demo_resumable :: sched_world where
  "demo_resumable = upd_thr 0x200 (\<lambda>t. t\<lparr>t_context := (t_context t)\<lparr>c_rip := 0x2000\<rparr>\<rparr>) demo_sched"

lemma demo_sched_facts:
  "current demo_sched = 0x100" "idle demo_sched = 0x100" "trampoline_addr demo_sched = 0x1000" "resume_addr demo_sched = 0x2000"
  "c_rip (t_context (thr demo_sched 0x200)) = 0x1000"
proof -
  have 1: "sch demo_sched1 = (sch demo_sched1)\<lparr>s_current := 0x100, s_idle := 0x100\<rparr>" "trampoline_addr demo_sched1 = 0x1000"
    "resume_addr demo_sched1 = 0x2000" by (simp_all add: demo_sched1_def mcsos_scheduler_init_def demo_sched0_def)
  have ok: "prepare_args_ok 0x200 0x3000 0x10000 0x2000" by (simp add: prepare_args_ok_def)
  have 2: "c_rip (t_context (thr demo_sched2 0x200)) = 0x1000" "sch demo_sched2 = sch demo_sched1"
    "trampoline_addr demo_sched2 = 0x1000"
    using prepare_accepted [OF ok, of "Some ''a''" 0 1 demo_sched1] demo_prepare_ok(1) 1 by auto
  have 3: "resume_addr demo_sched2 = resume_addr demo_sched1"
    using prepare_cases [OF demo_prepare_ok(1)] by (metis sched_world.select_convs(6) sched_world.surjective sched_world.update_convs(1,4))
  have eq: "demo_sched = rq_append 0x200 demo_sched2"
    using demo_sched_inv(2) by (auto simp: mcsos_sched_enqueue_def split: if_splits)
  have 4: "trampoline_addr (rq_append x w) = trampoline_addr w" for x w by (simp add: rq_append_def Let_def)
  have 5: "current demo_sched1 = 0x100" "idle demo_sched1 = 0x100" by (subst 1(1), simp)+
  show "current demo_sched = 0x100" "idle demo_sched = 0x100" "trampoline_addr demo_sched = 0x1000"
    "resume_addr demo_sched = 0x2000" "c_rip (t_context (thr demo_sched 0x200)) = 0x1000"
    unfolding eq using 1(2,3) 2 3 4 5 by (simp_all add: rq_append_frame)
qed

lemma demo_resumable_inv: "sched_inv demo_resumable [0x200]"
proof -
  have "lseg (thr demo_resumable) (ready_head (sch demo_sched)) [0x200] 0 = lseg (thr demo_sched) (ready_head (sch demo_sched)) [0x200] 0"
    by (rule lseg_cong) (simp add: demo_resumable_def)
  then show ?thesis
    using demo_sched_inv(1)
    by (simp add: demo_sched_facts(1,2) sched_inv_def queue_rep_def valid_thread_object_def demo_resumable_def)
qed

definition demo_running :: "sched_world \<Rightarrow> kernel syscall_state" where
  "demo_running w = demo_kernel\<lparr>g_ops := k_ops, kern := \<lparr>k_world = w, k_klog = []\<rparr>\<rparr>"

theorem kernel_syscalls_keep_scheduler_witness:
  "(\<exists>s' q'. kernel_calls [demo_frame 0 0 0, demo_frame 2 0x4FFFFC 5, demo_frame 3 0 0, demo_frame 0 0 0] (demo_running demo_sched) =
       Some ([Returns 0x2605020A, Returns MCSOS_EFAULT, Halts], s') \<and> sched_inv (k_world (kern s')) q') \<and>
   (\<exists>s' q'. kernel_calls [demo_frame 3 0 0, demo_frame 2 0x400000 5, demo_frame 3 0 0] (demo_running demo_resumable) =
       Some ([Continues 0x200, Returns 5, Continues 0x100], s') \<and> sched_inv (k_world (kern s')) q')"
proof
  have F: "\<forall>t\<in>{idle demo_sched} \<union> set [0x200] - {current demo_sched}.
      c_rip (t_context (thr demo_sched t)) = (if t \<in> {0x200} then trampoline_addr demo_sched else resume_addr demo_sched)"
    by (auto simp: demo_sched_facts)
  have "round_robin_calls (g_user_region (demo_running demo_sched)) 0x100 {0x200} 0x100 [0x200]
      [demo_frame 0 0 0, demo_frame 2 0x4FFFFC 5, demo_frame 3 0 0, demo_frame 0 0 0] = [Returns 0x2605020A, Returns MCSOS_EFAULT, Halts]"
    by (simp add: k_result_def demo_frame_def demo_kernel_def demo_running_def inside_region_def next_of_def)
  moreover have "g_ops (demo_running demo_sched) = k_ops" "demo_sched = k_world (kern (demo_running demo_sched))"
    by (simp_all add: demo_running_def)
  note kernel_syscalls_keep_scheduler [OF this demo_sched_inv(1) _ _ F,
      of "[demo_frame 0 0 0, demo_frame 2 0x4FFFFC 5, demo_frame 3 0 0, demo_frame 0 0 0]", unfolded demo_sched_facts(1-4)]
  ultimately show "\<exists>s' q'. kernel_calls [demo_frame 0 0 0, demo_frame 2 0x4FFFFC 5, demo_frame 3 0 0, demo_frame 0 0 0] (demo_running demo_sched) =
       Some ([Returns 0x2605020A, Returns MCSOS_EFAULT, Halts], s') \<and> sched_inv (k_world (kern s')) q'"
    by (simp del: kernel_calls.simps round_robin_calls.simps) blast
  have facts: "current demo_resumable = 0x100" "idle demo_resumable = 0x100" "trampoline_addr demo_resumable = 0x1000"
    "resume_addr demo_resumable = 0x2000" "c_rip (t_context (thr demo_resumable 0x200)) = 0x2000"
    using demo_sched_facts by (simp_all add: demo_resumable_def)
  have "round_robin_calls (g_user_region (demo_running demo_resumable)) 0x100 {} 0x100 [0x200]
      [demo_frame 3 0 0, demo_frame 2 0x400000 5, demo_frame 3 0 0] = [Continues 0x200, Returns 5, Continues 0x100]"
    by (simp add: k_result_def demo_frame_def demo_kernel_def demo_running_def inside_region_def next_of_def)
  moreover have ops: "g_ops (demo_running demo_resumable) = k_ops" "demo_resumable = k_world (kern (demo_running demo_resumable))"
    by (simp_all add: demo_running_def)
  moreover have "\<forall>t\<in>{idle demo_resumable} \<union> set [0x200] - {current demo_resumable}.
      c_rip (t_context (thr demo_resumable t)) = (if t \<in> {} then trampoline_addr demo_resumable else resume_addr demo_resumable)"
    by (auto simp: facts)
  note kernel_syscalls_keep_scheduler [OF ops demo_resumable_inv _ _ this,
      of "[demo_frame 3 0 0, demo_frame 2 0x400000 5, demo_frame 3 0 0]", unfolded facts]
  ultimately show "\<exists>s' q'. kernel_calls [demo_frame 3 0 0, demo_frame 2 0x400000 5, demo_frame 3 0 0] (demo_running demo_resumable) =
       Some ([Continues 0x200, Returns 5, Continues 0x100], s') \<and> sched_inv (k_world (kern s')) q'"
    by (auto simp add: facts simp del: kernel_calls.simps round_robin_calls.simps)
qed

end
