(* ===== verification/Libmem.thy ===== *)
theory Libmem
  imports Prelude
begin

text \<open>
  The memory functions the compiler and the kernel call, \<open>src/kernel/lib/memory.c\<close>, over the byte memory
  of the machine. Addresses are 64-bit words, so pointer steps wrap as they do in the code; the buffer that
  \<open>memmove\<close> returns is its first argument and is left out. The lemmas say which bytes each function
  changes, and to what, for overlapping buffers too.
\<close>

type_synonym byte_mem = "u64 \<Rightarrow> u8"

text \<open>\<open>while (count-- != 0u) *d++ = ...;\<close>\<close>

primrec fill_up :: "nat \<Rightarrow> u64 \<Rightarrow> u8 \<Rightarrow> byte_mem \<Rightarrow> byte_mem" where
  "fill_up 0 d v m = m"
| "fill_up (Suc n) d v m = fill_up n (d + 1) v (m(d := v))"

primrec copy_up :: "nat \<Rightarrow> u64 \<Rightarrow> u64 \<Rightarrow> byte_mem \<Rightarrow> byte_mem" where
  "copy_up 0 d s m = m"
| "copy_up (Suc n) d s m = copy_up n (d + 1) (s + 1) (m(d := m s))"

text \<open>\<open>while (count-- != 0u) *--d = *--s;\<close>\<close>

primrec copy_down :: "nat \<Rightarrow> u64 \<Rightarrow> u64 \<Rightarrow> byte_mem \<Rightarrow> byte_mem" where
  "copy_down 0 d s m = m"
| "copy_down (Suc n) d s m = copy_down n (d - 1) (s - 1) (m(d - 1 := m (s - 1)))"

definition c_memset :: "u64 \<Rightarrow> u32 \<Rightarrow> u64 \<Rightarrow> byte_mem \<Rightarrow> byte_mem" where
  "c_memset dest v count m = fill_up (unat count) dest (ucast v) m"

definition c_memcpy :: "u64 \<Rightarrow> u64 \<Rightarrow> u64 \<Rightarrow> byte_mem \<Rightarrow> byte_mem" where
  "c_memcpy dest src count m = copy_up (unat count) dest src m"

definition c_memmove :: "u64 \<Rightarrow> u64 \<Rightarrow> u64 \<Rightarrow> byte_mem \<Rightarrow> byte_mem" where
  "c_memmove dest src count m =
     (if dest = src \<or> count = 0 then m
      else if dest < src then copy_up (unat count) dest src m
      else copy_down (unat count) (dest + count) (src + count) m)"

section \<open>What they do\<close>

text \<open>The byte \<open>a\<close> is one of the \<open>n\<close> from \<open>d\<close> on.\<close>

abbreviation within :: "u64 \<Rightarrow> nat \<Rightarrow> u64 \<Rightarrow> bool" where
  "within d n a \<equiv> unat (a - d) < n"

lemma unat_pred: "(x :: u64) \<noteq> 0 \<Longrightarrow> unat (x - 1) = unat x - 1"
  by (metis unat_gt_0 unat_minus_one)

lemma within_Suc:
  assumes "n < 18446744073709551616"
  shows "within d (Suc n) a \<longleftrightarrow> a = d \<or> within (d + 1) n a" "\<not> within (d + 1) n d"
proof -
  have "unat (- 1 :: u64) = 18446744073709551615" by (simp add: unsigned_minus_1_eq_mask mask_eq_exp_minus_1)
  then show no: "\<not> within (d + 1) n d" using assms by simp
  show "within d (Suc n) a \<longleftrightarrow> a = d \<or> within (d + 1) n a"
  proof (cases "a = d")
    case False
    then have "unat (a - (d + 1)) = unat (a - d) - 1" "unat (a - d) \<noteq> 0"
      using unat_pred [of "a - d"] by (simp_all add: diff_diff_eq [symmetric] unat_eq_0)
    then show ?thesis using False by auto
  qed simp
qed

lemma fill_up_spec: "n < 18446744073709551616 \<Longrightarrow> fill_up n d v m a = (if within d n a then v else m a)"
  by (induction n arbitrary: d m) (auto simp del: One_nat_def simp: within_Suc)

lemma memset_spec: "c_memset d v n m a = (if within d (unat n) a then ucast v else m a)"
  using unat_u64_lt [of n] by (simp add: c_memset_def fill_up_spec)

text \<open>Copying upwards is right when the destination does not start inside the rest of the source.\<close>

lemma copy_up_spec:
  "n < 18446744073709551616 \<Longrightarrow> d = s \<or> n \<le> unat (d - s) \<Longrightarrow>
   copy_up n d s m a = (if within d n a then m (s + (a - d)) else m a)"
proof (induction n arbitrary: d s m)
  case (Suc n)
  define m' where "m' = m(d := m s)"
  have at: "m' d = m s" "x \<noteq> d \<Longrightarrow> m' x = m x" for x by (simp_all add: m'_def)
  have IH: "copy_up (Suc n) d s m a = (if within (d + 1) n a then m' (s + (a - d)) else m' a)"
    using Suc.IH [of "d + 1" "s + 1" m'] Suc.prems by (auto simp: m'_def [symmetric])
  have ne: "s + (a - d) \<noteq> d" if "a \<noteq> d" "within d (Suc n) a"
  proof
    assume "s + (a - d) = d"
    then have "a - d = d - s" by (simp add: algebra_simps)
    then show False using that Suc.prems(2) by auto
  qed
  note w = within_Suc [where n = n and d = d, OF Suc_lessD [OF Suc.prems(1)]]
  show ?case
  proof (cases "a = d")
    case True
    then show ?thesis using IH w at(1) by simp
  next
    case False
    then show ?thesis using IH w(1) [where a = a] ne at(2) by simp
  qed
qed simp

text \<open>Copying downwards is right when the source does not start inside the rest of the destination.\<close>

lemma copy_down_spec:
  "n < 18446744073709551616 \<Longrightarrow> d = s \<or> n \<le> unat (s - d) \<Longrightarrow>
   copy_down n (d + of_nat n) (s + of_nat n) m a = (if within d n a then m (s + (a - d)) else m a)"
proof (induction n arbitrary: m)
  case (Suc n)
  let ?k = "of_nat n :: u64"
  define m' where "m' = m(d + ?k := m (s + ?k))"
  have at: "m' (d + ?k) = m (s + ?k)" "x \<noteq> d + ?k \<Longrightarrow> m' x = m x" for x by (simp_all add: m'_def)
  have un: "unat ?k = n" using Suc.prems(1) by (simp add: unsigned_of_nat take_bit_nat_eq_self)
  have "copy_down (Suc n) (d + of_nat (Suc n)) (s + of_nat (Suc n)) m a = copy_down n (d + ?k) (s + ?k) m' a"
    by (simp add: m'_def algebra_simps)
  then have IH: "copy_down (Suc n) (d + of_nat (Suc n)) (s + of_nat (Suc n)) m a =
      (if within d n a then m' (s + (a - d)) else m' a)"
    using Suc.IH [of m'] Suc.prems by auto
  have last: "within d (Suc n) a \<longleftrightarrow> a = d + ?k \<or> within d n a" "\<not> within d n (d + ?k)"
    using un word_unat_eq_iff [of "a - d" ?k] by (auto simp: less_Suc_eq diff_eq_eq add.commute)
  have ne: "s + (a - d) \<noteq> d + ?k" if "within d n a"
  proof
    assume "s + (a - d) = d + ?k"
    then have e: "s - d = ?k - (a - d)" by (simp add: algebra_simps)
    have "unat (?k - (a - d)) = n - unat (a - d)" using that un by (simp add: unat_sub word_le_nat_alt)
    then have u: "unat (s - d) = n - unat (a - d)" unfolding e .
    then have "s \<noteq> d" using that by auto
    then show False using u Suc.prems(2) by auto
  qed
  show ?case
  proof (cases "a = d + ?k")
    case True
    then show ?thesis using IH last at(1) un by simp
  next
    case False
    then show ?thesis using IH last(1) ne at(2) by simp
  qed
qed simp

text \<open>
  \<open>memmove\<close> copies right whatever the overlap, as long as neither buffer wraps around the address space;
  \<open>memcpy\<close> when the destination does not start inside the source.
\<close>

lemma memmove_spec:
  assumes "unat d + unat n \<le> 18446744073709551616" "unat s + unat n \<le> 18446744073709551616"
  shows "c_memmove d s n m a = (if within d (unat n) a then m (s + (a - d)) else m a)"
proof (cases "d = s \<or> n = 0")
  case True
  then show ?thesis by (auto simp: c_memmove_def)
next
  case False
  have sub: "unat (x - y) = unat x + 18446744073709551616 - unat y" if "x < y" for x y :: u64
    using that by (simp add: unat_sub_if_size word_size word_less_nat_alt)
  show ?thesis
  proof (cases "d < s")
    case True
    have "unat n \<le> unat (d - s)" using sub [OF True] assms(2) by simp
    then show ?thesis using True False copy_up_spec [of "unat n" d s m a] unat_u64_lt [of n] by (simp add: c_memmove_def)
  next
    case less: False
    then have "s < d" using False by (meson linorder_less_linear)
    then have "unat n \<le> unat (s - d)" using sub [of s d] assms(1) by simp
    then show ?thesis using less False copy_down_spec [of "unat n" d s m a] unat_u64_lt [of n] by (simp add: c_memmove_def)
  qed
qed

lemma memcpy_spec:
  "d = s \<or> unat n \<le> unat (d - s) \<Longrightarrow> c_memcpy d s n m a = (if within d (unat n) a then m (s + (a - d)) else m a)"
  using unat_u64_lt [of n] by (simp add: c_memcpy_def copy_up_spec)

end
