(* ===== verification/Ports.thy ===== *)
theory Ports
  imports Prelude
begin

text \<open>
  The port drivers of the kernel: interrupt controller (\<open>src/kernel/core/pic.c\<close>), interval timer
  (\<open>pit.c\<close>), serial line (\<open>serial.c\<close>), the log on it (\<open>log.c\<close>) and the panic report (\<open>panic.c\<close>). The
  state is the sequence of port accesses made so far; what a read returns is decided by the device, an
  unknown function of that sequence. The lemmas say which bytes leave on the serial line and how the two
  bytes of the timer combine.
\<close>

section \<open>Port access\<close>

datatype port_event = Out u16 u8 | In u16 u8

record machine =
  io_trace :: "port_event list"
  device :: "port_event list \<Rightarrow> u16 \<Rightarrow> u8"
  cpu_rflags :: u64
  g_ticks :: u64
  g_log_ready :: u32

definition outb :: "u16 \<Rightarrow> u8 \<Rightarrow> 'a machine_scheme \<Rightarrow> 'a machine_scheme" where
  "outb port v m = m\<lparr>io_trace := io_trace m @ [Out port v]\<rparr>"

definition inb :: "u16 \<Rightarrow> 'a machine_scheme \<Rightarrow> u8 \<times> 'a machine_scheme" where
  "inb port m = (let v = device m (io_trace m) port in (v, m\<lparr>io_trace := io_trace m @ [In port v]\<rparr>))"

definition io_wait :: "'a machine_scheme \<Rightarrow> 'a machine_scheme" where
  "io_wait m = outb 0x80 0 m"

text \<open>\<open>cli\<close> and \<open>sti\<close> clear and set the interrupt flag, bit 9.\<close>

definition cpu_cli :: "'a machine_scheme \<Rightarrow> 'a machine_scheme" where
  "cpu_cli m = m\<lparr>cpu_rflags := cpu_rflags m AND NOT 0x200\<rparr>"

definition cpu_sti :: "'a machine_scheme \<Rightarrow> 'a machine_scheme" where
  "cpu_sti m = m\<lparr>cpu_rflags := cpu_rflags m OR 0x200\<rparr>"

section \<open>Interrupt controller\<close>

definition PIC_MASTER_CMD :: u16 where [layout]: "PIC_MASTER_CMD = 0x20"
definition PIC_MASTER_DATA :: u16 where [layout]: "PIC_MASTER_DATA = 0x21"
definition PIC_SLAVE_CMD :: u16 where [layout]: "PIC_SLAVE_CMD = 0xA0"
definition PIC_SLAVE_DATA :: u16 where [layout]: "PIC_SLAVE_DATA = 0xA1"
definition PIC_EOI :: u8 where [layout]: "PIC_EOI = 0x20"

definition pic_remap :: "u8 \<Rightarrow> u8 \<Rightarrow> 'a machine_scheme \<Rightarrow> 'a machine_scheme" where
  "pic_remap master_offset slave_offset m0 =
     (let (mask_master, m1) = inb PIC_MASTER_DATA m0; (mask_slave, m2) = inb PIC_SLAVE_DATA m1;
          m3 = io_wait (outb PIC_MASTER_CMD 0x11 m2); m4 = io_wait (outb PIC_SLAVE_CMD 0x11 m3);
          m5 = io_wait (outb PIC_MASTER_DATA master_offset m4); m6 = io_wait (outb PIC_SLAVE_DATA slave_offset m5);
          m7 = io_wait (outb PIC_MASTER_DATA 0x04 m6); m8 = io_wait (outb PIC_SLAVE_DATA 0x02 m7);
          m9 = io_wait (outb PIC_MASTER_DATA 0x01 m8); m10 = io_wait (outb PIC_SLAVE_DATA 0x01 m9)
      in outb PIC_SLAVE_DATA mask_slave (outb PIC_MASTER_DATA mask_master m10))"

definition pic_mask_all :: "'a machine_scheme \<Rightarrow> 'a machine_scheme" where
  "pic_mask_all m = outb PIC_SLAVE_DATA 0xFF (outb PIC_MASTER_DATA 0xFF m)"

text \<open>\<open>1 << irq\<close> is an \<open>int\<close>; only its low byte reaches the port. An IRQ above 15 shifts past that byte.\<close>

definition pic_unmask_irq :: "u8 \<Rightarrow> 'a machine_scheme \<Rightarrow> 'a machine_scheme" where
  "pic_unmask_irq irq m =
     (let (port, bitno) = (if irq < 8 then (PIC_MASTER_DATA, irq) else (PIC_SLAVE_DATA, irq - 8));
          (v, m1) = inb port m
      in outb port (v AND NOT (push_bit (unat bitno) 1)) m1)"

definition pic_send_eoi :: "u8 \<Rightarrow> 'a machine_scheme \<Rightarrow> 'a machine_scheme" where
  "pic_send_eoi irq m =
     (let m1 = (if 8 \<le> irq then outb PIC_SLAVE_CMD PIC_EOI m else m) in outb PIC_MASTER_CMD PIC_EOI m1)"

section \<open>Interval timer\<close>

definition PIT_CHANNEL0_DATA :: u16 where [layout]: "PIT_CHANNEL0_DATA = 0x40"
definition PIT_COMMAND :: u16 where [layout]: "PIT_COMMAND = 0x43"

text \<open>A frequency of 0 is a division by zero (\<open>None\<close>).\<close>

definition pit_configure_hz :: "u32 \<Rightarrow> 'a machine_scheme \<Rightarrow> 'a machine_scheme option" where
  "pit_configure_hz hz m =
     (if hz = 0 then None
      else let divisor = 1193182 div hz in
        Some (outb PIT_CHANNEL0_DATA (ucast (drop_bit 8 divisor AND 0xFF))
          (outb PIT_CHANNEL0_DATA (ucast (divisor AND 0xFF)) (outb PIT_COMMAND 0x36 m))))"

definition timer_on_irq0 :: "'a machine_scheme \<Rightarrow> 'a machine_scheme" where
  "timer_on_irq0 m = m\<lparr>g_ticks := g_ticks m + 1\<rparr>"

section \<open>Serial line\<close>

definition COM1_PORT :: u16 where [layout]: "COM1_PORT = 0x3F8"
definition SERIAL_TIMEOUT_LIMIT :: nat where "SERIAL_TIMEOUT_LIMIT = 100000"

definition serial_transmit_empty :: "'a machine_scheme \<Rightarrow> bool \<times> 'a machine_scheme" where
  "serial_transmit_empty m = (let (v, m1) = inb (COM1_PORT + 5) m in (v AND 0x20 \<noteq> 0, m1))"

definition serial_init :: "'a machine_scheme \<Rightarrow> 'a machine_scheme" where
  "serial_init m = outb (COM1_PORT + 4) 0x0B (outb (COM1_PORT + 2) 0xC7 (outb (COM1_PORT + 3) 0x03
     (outb (COM1_PORT + 1) 0x00 (outb (COM1_PORT + 0) 0x03 (outb (COM1_PORT + 3) 0x80 (outb (COM1_PORT + 1) 0x00 m))))))"

text \<open>
  \<open>while (!serial_transmit_empty()) if (++spin >= SERIAL_TIMEOUT_LIMIT) return;\<close> with the number of reads
  that are left; the line is given up when they are used.
\<close>

primrec serial_wait :: "nat \<Rightarrow> 'a machine_scheme \<Rightarrow> bool \<times> 'a machine_scheme" where
  "serial_wait 0 m = (False, m)"
| "serial_wait (Suc n) m =
     (case serial_transmit_empty m of (True, m1) \<Rightarrow> (True, m1) | (False, m1) \<Rightarrow> serial_wait n m1)"

definition serial_send :: "u8 \<Rightarrow> 'a machine_scheme \<Rightarrow> 'a machine_scheme" where
  "serial_send c m = (case serial_wait SERIAL_TIMEOUT_LIMIT m of (False, m1) \<Rightarrow> m1 | (True, m1) \<Rightarrow> outb COM1_PORT c m1)"

definition serial_putc :: "u8 \<Rightarrow> 'a machine_scheme \<Rightarrow> 'a machine_scheme" where
  "serial_putc c m = serial_send c (if c = 0x0A then serial_send 0x0D m else m)"

text \<open>A C string ends at its first zero.\<close>

definition serial_write :: "bytes option \<Rightarrow> 'a machine_scheme \<Rightarrow> 'a machine_scheme" where
  "serial_write s m = (case s of None \<Rightarrow> m | Some cs \<Rightarrow> fold serial_putc (takeWhile (\<lambda>c. c \<noteq> 0) cs) m)"

section \<open>Log\<close>

definition log_init :: "'a machine_scheme \<Rightarrow> 'a machine_scheme" where
  "log_init m = (serial_init m)\<lparr>g_log_ready := 1\<rparr>"

text \<open>\<open>if (g_log_ready == 0) { serial_init(); g_log_ready = 1; }\<close>\<close>

definition log_ensure :: "'a machine_scheme \<Rightarrow> 'a machine_scheme" where
  "log_ensure m = (if g_log_ready m = 0 then log_init m else m)"

definition log_putc :: "u8 \<Rightarrow> 'a machine_scheme \<Rightarrow> 'a machine_scheme" where
  "log_putc c m = serial_putc c (log_ensure m)"

definition log_write :: "bytes option \<Rightarrow> 'a machine_scheme \<Rightarrow> 'a machine_scheme" where
  "log_write s m = serial_write s (log_ensure m)"

definition log_writeln :: "bytes option \<Rightarrow> 'a machine_scheme \<Rightarrow> 'a machine_scheme" where
  "log_writeln s m = log_putc 0x0A (log_write s m)"

text \<open>The characters of a literal.\<close>

definition ascii :: "string \<Rightarrow> bytes" where
  "ascii s = map of_char s"

definition hex_digits :: bytes where
  "hex_digits = ascii ''0123456789abcdef''"

definition nibble :: "u64 \<Rightarrow> nat \<Rightarrow> u64" where
  "nibble v shift = drop_bit shift v AND 0x0F"

definition hex_shifts :: "nat list" where
  "hex_shifts = [60, 56, 52, 48, 44, 40, 36, 32, 28, 24, 20, 16, 12, 8, 4, 0]"

definition log_hex64 :: "u64 \<Rightarrow> 'a machine_scheme \<Rightarrow> 'a machine_scheme" where
  "log_hex64 v m = fold (\<lambda>shift. log_putc (hex_digits ! unat (nibble v shift))) hex_shifts (log_write (Some (ascii ''0x'')) m)"

definition log_key_value_hex64 :: "bytes option \<Rightarrow> u64 \<Rightarrow> 'a machine_scheme \<Rightarrow> 'a machine_scheme" where
  "log_key_value_hex64 key v m = log_putc 0x0A (log_hex64 v (log_write (Some (ascii ''='')) (log_write key m)))"

section \<open>Panic\<close>

text \<open>\<open>while (value != 0u && i < sizeof(buf)) { buf[i++] = '0' + value % 10; value /= 10; }\<close>, least digit first.\<close>

primrec dec_loop :: "nat \<Rightarrow> u32 \<Rightarrow> bytes" where
  "dec_loop 0 v = []"
| "dec_loop (Suc n) v = (if v = 0 then [] else (0x30 + ucast (v mod 10)) # dec_loop n (v div 10))"

definition log_dec_u32 :: "u32 \<Rightarrow> 'a machine_scheme \<Rightarrow> 'a machine_scheme" where
  "log_dec_u32 v m = (if v = 0 then log_putc 0x30 m else fold log_putc (rev (dec_loop 11 v)) m)"

text \<open>The state in which \<open>kernel_panic_at\<close> stays for ever.\<close>

definition kernel_panic_at :: "bytes option \<Rightarrow> u32 \<Rightarrow> bytes option \<Rightarrow> u64 \<Rightarrow> 'a machine_scheme \<Rightarrow> 'a machine_scheme" where
  "kernel_panic_at file line reason code m =
     (let unknown = ascii ''unknown'';
          m1 = log_writeln (Some (ascii ''================ MCSOS KERNEL PANIC ================'')) (log_writeln (Some []) (cpu_cli m));
          m2 = log_writeln (Some (ascii ''M3'')) (log_write (Some (ascii '' milestone='')) (log_write (Some (ascii ''v0.3.0''))
            (log_write (Some (ascii '' version='')) (log_write (Some (ascii ''MCSOS'')) (log_write (Some (ascii ''system='')) m1)))));
          m3 = log_writeln (Some (case reason of None \<Rightarrow> unknown | Some r \<Rightarrow> r)) (log_write (Some (ascii ''reason='')) m2);
          m4 = log_write (Some (case file of None \<Rightarrow> unknown | Some f \<Rightarrow> f)) (log_write (Some (ascii ''location='')) m3);
          m5 = log_putc 0x0A (log_dec_u32 line (log_write (Some (ascii '':'')) m4));
          m6 = log_key_value_hex64 (Some (ascii ''rflags_before_cli'')) (cpu_rflags m)
            (log_key_value_hex64 (Some (ascii ''panic_code'')) code m5)
      in log_writeln (Some (ascii ''===================================================='')) (log_writeln (Some (ascii ''state=halted'')) m6))"

section \<open>What leaves on the serial line\<close>

text \<open>A line that always takes the next character, and the log set up.\<close>

definition line_ready :: "'a machine_scheme \<Rightarrow> bool" where
  "line_ready m \<longleftrightarrow> (\<forall>tr. device m tr 0x3FD AND 0x20 \<noteq> 0) \<and> g_log_ready m \<noteq> 0"

definition sent :: "port_event list \<Rightarrow> bytes" where
  "sent tr = concat (map (\<lambda>e. case e of Out p v \<Rightarrow> if p = 0x3F8 then [v] else [] | In _ _ \<Rightarrow> []) tr)"

text \<open>\<open>m'\<close> is \<open>m\<close> after \<open>s\<close> has been sent, and nothing else.\<close>

definition wrote :: "bytes \<Rightarrow> 'a machine_scheme \<Rightarrow> 'a machine_scheme \<Rightarrow> bool" where
  "wrote s m m' \<longleftrightarrow> m'\<lparr>io_trace := io_trace m\<rparr> = m \<and> sent (io_trace m') = sent (io_trace m) @ s"

definition crlf :: "bytes \<Rightarrow> bytes" where
  "crlf s = concat (map (\<lambda>c. if c = 0x0A then [0x0D, 0x0A] else [c]) s)"

lemma wrote_refl: "wrote [] m m"
  by (simp add: wrote_def)

lemma wrote_ready: "wrote s m m' \<Longrightarrow> line_ready m \<Longrightarrow> line_ready m'"
  unfolding wrote_def line_ready_def by (metis machine.select_convs(2,5) machine.surjective machine.update_convs(1))

lemma wrote_trans: "wrote s m m1 \<Longrightarrow> wrote t m1 m2 \<Longrightarrow> wrote (s @ t) m m2"
  unfolding wrote_def by (cases m; cases m1; cases m2) auto

lemma serial_wait_ready:
  "line_ready m \<Longrightarrow> 0 < n \<Longrightarrow> serial_wait n m = (True, m\<lparr>io_trace := io_trace m @ [In 0x3FD (device m (io_trace m) 0x3FD)]\<rparr>)"
  by (cases n) (simp_all add: serial_transmit_empty_def inb_def COM1_PORT_def Let_def line_ready_def)

lemma serial_send_wrote: "line_ready m \<Longrightarrow> wrote [c] m (serial_send c m)"
  by (simp add: serial_send_def serial_wait_ready SERIAL_TIMEOUT_LIMIT_def outb_def COM1_PORT_def wrote_def sent_def)

lemma serial_putc_wrote:
  assumes "line_ready m"
  shows "wrote (crlf [c]) m (serial_putc c m)"
proof (cases "c = 0x0A")
  case True
  note cr = serial_send_wrote [OF assms, of "0x0D"]
  show ?thesis using wrote_trans [OF cr serial_send_wrote [OF wrote_ready [OF cr assms], of "0x0A"]] True
    by (simp add: serial_putc_def crlf_def)
next
  case False
  then show ?thesis using serial_send_wrote [OF assms, of c] by (simp add: serial_putc_def crlf_def)
qed

lemma log_putc_wrote: "line_ready m \<Longrightarrow> wrote (crlf [c]) m (log_putc c m)"
  using serial_putc_wrote [of m c] by (simp add: log_putc_def log_ensure_def line_ready_def)

text \<open>A loop that prints one character per turn.\<close>

lemma fold_wrote:
  "line_ready m \<Longrightarrow> (\<And>x m. line_ready m \<Longrightarrow> wrote (g x) m (f x m)) \<Longrightarrow> wrote (concat (map g xs)) m (fold f xs m)"
proof (induction xs arbitrary: m)
  case (Cons x xs)
  note h = Cons.prems(2) [OF Cons.prems(1), of x]
  show ?case using wrote_trans [OF h Cons.IH [OF wrote_ready [OF h Cons.prems(1)] Cons.prems(2)]] by simp
qed (simp add: wrote_refl)

lemma crlf_concat: "concat (map (\<lambda>c. crlf [g c]) xs) = crlf (map g xs)"
  by (simp add: crlf_def comp_def)

lemma crlf_append: "crlf (s @ t) = crlf s @ crlf t"
  by (simp add: crlf_def)

lemma log_write_wrote:
  assumes "line_ready m"
  shows "wrote (crlf (case s of None \<Rightarrow> [] | Some cs \<Rightarrow> takeWhile (\<lambda>c. c \<noteq> 0) cs)) m (log_write s m)"
proof -
  have e: "log_ensure m = m" using assms by (simp add: log_ensure_def line_ready_def)
  show ?thesis
  proof (cases s)
    case None
    then show ?thesis by (simp add: log_write_def serial_write_def e wrote_refl crlf_def)
  next
    case (Some cs)
    then show ?thesis
      using fold_wrote [where f = serial_putc and g = "\<lambda>c. crlf [c]" and xs = "takeWhile (\<lambda>c. c \<noteq> 0) cs", OF assms serial_putc_wrote] crlf_concat [of "\<lambda>c. c"]
      by (simp add: log_write_def serial_write_def e)
  qed
qed

text \<open>The hexadecimal digits printed are those of the number: read back, they give it.\<close>

definition hex_text :: "u64 \<Rightarrow> bytes" where
  "hex_text v = ascii ''0x'' @ map (\<lambda>shift. hex_digits ! unat (nibble v shift)) hex_shifts"

definition hex_value :: "bytes \<Rightarrow> u64" where
  "hex_value s = fold (\<lambda>c v. 16 * v + (if c \<le> 0x39 then ucast (c - 0x30) else ucast (c - 0x57))) s 0"

lemma nibble_less: "unat (nibble v k) < 16"
proof -
  have "nibble v k = take_bit 4 (drop_bit k v)"
    using take_bit_eq_mask [of 4 "drop_bit k v"] by (simp add: nibble_def mask_eq_exp_minus_1)
  then show ?thesis by (simp add: unsigned_take_bit_eq take_bit_nat_def)
qed

lemma hex_digit_value:
  "n < 16 \<Longrightarrow> (let c = hex_digits ! n in if c \<le> 0x39 then ucast (c - 0x30) else ucast (c - 0x57)) = (of_nat n :: u64)"
proof -
  have "list_all (\<lambda>n. (let c = hex_digits ! n in if c \<le> 0x39 then ucast (c - 0x30) else ucast (c - 0x57)) = (of_nat n :: u64)) [0..<16]"
    by code_simp
  then show "n < 16 \<Longrightarrow> ?thesis" by (simp add: list_all_iff)
qed

lemma hex_step: "16 * drop_bit (k + 4) v + nibble v k = drop_bit k (v :: u64)"
proof -
  have n: "nibble v k = take_bit 4 (drop_bit k v)"
    using take_bit_eq_mask [of 4 "drop_bit k v"] by (simp add: nibble_def mask_eq_exp_minus_1)
  have "push_bit 4 (drop_bit 4 (drop_bit k v)) + take_bit 4 (drop_bit k v) = drop_bit k v"
    by (rule bits_ident)
  then show ?thesis unfolding n by (simp add: push_bit_eq_mult add.commute mult.commute)
qed

lemma hex_value_digits: "hex_value (map (\<lambda>k. hex_digits ! unat (nibble v k)) hex_shifts) = v"
proof -
  have d: "(if hex_digits ! unat (nibble v k) \<le> 0x39 then ucast (hex_digits ! unat (nibble v k) - 0x30)
      else ucast (hex_digits ! unat (nibble v k) - 0x57)) = nibble v k" for k
    using hex_digit_value [OF nibble_less, of v k] by (simp add: Let_def)
  have "hex_value (map (\<lambda>k. hex_digits ! unat (nibble v k)) hex_shifts) = fold (\<lambda>k a. 16 * a + nibble v k) hex_shifts 0"
    by (simp only: hex_value_def fold_map comp_def d)
  moreover have "drop_bit 64 v = 0" by (rule bit_word_eqI) (auto simp: bit_drop_bit_eq dest: bit_imp_le_length)
  then have "nibble v 60 = drop_bit 60 v" using hex_step [of 60 v] by simp
  moreover note hex_step [of 56 v, simplified] hex_step [of 52 v, simplified] hex_step [of 48 v, simplified] hex_step [of 44 v, simplified]
    hex_step [of 40 v, simplified] hex_step [of 36 v, simplified] hex_step [of 32 v, simplified] hex_step [of 28 v, simplified]
    hex_step [of 24 v, simplified] hex_step [of 20 v, simplified] hex_step [of 16 v, simplified] hex_step [of 12 v, simplified]
    hex_step [of 8 v, simplified] hex_step [of 4 v, simplified] hex_step [of 0 v, simplified]
  ultimately show ?thesis by (simp only: hex_shifts_def fold_simps mult_zero_right add_0)
qed

lemma crlf_id: "0x0A \<notin> set s \<Longrightarrow> crlf s = s"
  by (induction s) (auto simp: crlf_def)

lemma hex_digit_plain: "hex_digits ! unat (nibble v k) \<noteq> 0x0A"
proof -
  have "list_all (\<lambda>c. c \<noteq> 0x0A) hex_digits" by code_simp
  moreover have "unat (nibble v k) < length hex_digits" using nibble_less [of v k] by (simp add: hex_digits_def ascii_def)
  ultimately show ?thesis by (simp add: list_all_length)
qed

lemma log_write_text: "line_ready m \<Longrightarrow> 0 \<notin> set t \<Longrightarrow> wrote (crlf t) m (log_write (Some t) m)"
proof -
  assume "line_ready m" "0 \<notin> set t"
  moreover have "takeWhile (\<lambda>c. c \<noteq> 0) t = t" using calculation(2) by (intro iffD2 [OF takeWhile_eq_all_conv]) auto
  ultimately show ?thesis using log_write_wrote [of m "Some t"] by (simp only: option.case)
qed

lemma log_hex64_wrote:
  assumes "line_ready m"
  shows "wrote (hex_text v) m (log_hex64 v m)"
proof -
  have px: "0 \<notin> set (ascii ''0x'')" "crlf (ascii ''0x'') = ascii ''0x''" by (simp_all add: ascii_def crlf_def)
  note h = log_write_text [OF assms px(1), unfolded px(2)]
  have "wrote (concat (map (\<lambda>k. [hex_digits ! unat (nibble v k)]) hex_shifts)) (log_write (Some (ascii ''0x'')) m) (log_hex64 v m)"
    unfolding log_hex64_def
  proof (rule fold_wrote [OF wrote_ready [OF h assms]])
    fix k :: nat and m' :: "'a machine_scheme"
    assume "line_ready m'"
    from log_putc_wrote [OF this, of "hex_digits ! unat (nibble v k)"]
    show "wrote [hex_digits ! unat (nibble v k)] m' (log_putc (hex_digits ! unat (nibble v k)) m')"
      using hex_digit_plain by (simp add: crlf_id)
  qed
  from wrote_trans [OF h this] show ?thesis by (simp add: hex_text_def)
qed

text \<open>The decimal digits printed are those of the number.\<close>

definition dec_value :: "bytes \<Rightarrow> nat" where
  "dec_value s = fold (\<lambda>c v. 10 * v + unat (c - 0x30)) s 0"

definition dec_text :: "u32 \<Rightarrow> bytes" where
  "dec_text v = (if v = 0 then [0x30] else rev (dec_loop 11 v))"

lemma dec_digit: "unat (ucast (v mod 10 :: u32) :: u8) = unat v mod 10"
proof -
  have "unat (v mod 10) < 256" by (simp add: unat_mod)
  then show ?thesis by (simp add: unsigned_ucast_eq take_bit_nat_eq_self unat_mod)
qed

lemma dec_loop_value: "unat v < 10 ^ n \<Longrightarrow> foldr (\<lambda>c a. 10 * a + unat (c - 0x30)) (dec_loop n v) 0 = unat v"
proof (induction n arbitrary: v)
  case (Suc n)
  have "unat (v div 10) < 10 ^ n" using Suc.prems by (simp add: unat_div less_mult_imp_div_less)
  then show ?case using Suc.IH [of "v div 10"] by (auto simp: dec_digit unat_div)
qed (simp add: unat_eq_0)

lemma dec_text_value: "dec_value (dec_text v) = unat v"
  using dec_loop_value [of v 11] unat_u32_lt [of v] by (simp add: dec_value_def dec_text_def foldr_conv_fold)

lemma dec_loop_plain: "c \<in> set (dec_loop n v) \<Longrightarrow> c \<noteq> 0x0A"
proof (induction n arbitrary: v)
  case (Suc n)
  define x :: u8 where "x = 0x30 + ucast (v mod 10)"
  have "unat x = 48 + unat v mod 10" by (simp add: x_def unat_word_ariths dec_digit)
  then have "x \<noteq> 0x0A" by auto
  then show ?case using Suc by (auto simp: x_def [symmetric] split: if_splits)
qed simp

lemma log_dec_u32_wrote:
  assumes "line_ready m"
  shows "wrote (dec_text v) m (log_dec_u32 v m)"
proof (cases "v = 0")
  case True
  then show ?thesis using log_putc_wrote [OF assms, of "0x30"] by (simp add: dec_text_def log_dec_u32_def crlf_def)
next
  case False
  have "wrote (concat (map (\<lambda>c. crlf [c]) (rev (dec_loop 11 v)))) m (log_dec_u32 v m)"
    unfolding log_dec_u32_def using False by (simp only: if_False) (rule fold_wrote [OF assms log_putc_wrote])
  moreover have "crlf (rev (dec_loop 11 v)) = rev (dec_loop 11 v)" using dec_loop_plain by (intro crlf_id) auto
  ultimately show ?thesis using False crlf_concat [of "\<lambda>c. c"] by (simp add: dec_text_def)
qed

section \<open>The panic report\<close>

text \<open>Steps that add their text to what has been sent since \<open>m\<close>.\<close>

named_theorems sends \<open>one printing step after those before it\<close>

lemma sends_then: "wrote s m m' \<Longrightarrow> line_ready m \<Longrightarrow> (\<And>m1. line_ready m1 \<Longrightarrow> wrote t m1 (f m1)) \<Longrightarrow> wrote (s @ t) m (f m')"
  using wrote_ready wrote_trans by blast

lemma sends_write [sends]:
  "wrote s m m' \<Longrightarrow> line_ready m \<Longrightarrow> 0 \<notin> set t \<Longrightarrow> wrote (s @ crlf t) m (log_write (Some t) m')"
  by (rule sends_then) (simp_all add: log_write_text)

lemma sends_putc [sends]: "wrote s m m' \<Longrightarrow> line_ready m \<Longrightarrow> wrote (s @ crlf [c]) m (log_putc c m')"
  by (rule sends_then) (simp_all add: log_putc_wrote)

lemma sends_writeln [sends]:
  "wrote s m m' \<Longrightarrow> line_ready m \<Longrightarrow> 0 \<notin> set t \<Longrightarrow> wrote ((s @ crlf t) @ crlf [0x0A]) m (log_writeln (Some t) m')"
  unfolding log_writeln_def by (intro sends)

lemma sends_hex64 [sends]: "wrote s m m' \<Longrightarrow> line_ready m \<Longrightarrow> wrote (s @ hex_text v) m (log_hex64 v m')"
  by (rule sends_then) (simp_all add: log_hex64_wrote)

lemma sends_dec [sends]: "wrote s m m' \<Longrightarrow> line_ready m \<Longrightarrow> wrote (s @ dec_text v) m (log_dec_u32 v m')"
  by (rule sends_then) (simp_all add: log_dec_u32_wrote)

lemma eq_plain [simp]: "0 \<notin> set (ascii ''='')"
  by (simp add: ascii_def)

lemma sends_key_value [sends]:
  "wrote s m m' \<Longrightarrow> line_ready m \<Longrightarrow> 0 \<notin> set key \<Longrightarrow>
   wrote ((((s @ crlf key) @ crlf (ascii ''='')) @ hex_text v) @ crlf [0x0A]) m (log_key_value_hex64 (Some key) v m')"
  unfolding log_key_value_hex64_def by (intro sends eq_plain)

definition line_text :: "bytes \<Rightarrow> bytes" where
  "line_text s = crlf s @ crlf [0x0A]"

definition panic_text :: "bytes \<Rightarrow> u32 \<Rightarrow> bytes \<Rightarrow> u64 \<Rightarrow> u64 \<Rightarrow> bytes" where
  "panic_text file line reason code flags =
     line_text [] @ line_text (ascii ''================ MCSOS KERNEL PANIC ================'') @
     line_text (ascii ''system=MCSOS version=v0.3.0 milestone=M3'') @
     line_text (ascii ''reason='' @ reason) @
     crlf (ascii ''location='' @ file) @ crlf (ascii '':'') @ dec_text line @ crlf [0x0A] @
     crlf (ascii ''panic_code='') @ hex_text code @ crlf [0x0A] @
     crlf (ascii ''rflags_before_cli='') @ hex_text flags @ crlf [0x0A] @
     line_text (ascii ''state=halted'') @ line_text (ascii ''===================================================='')"

text \<open>
  The report: the reason, the place as a decimal line number, the code and the flags before the interrupts
  were switched off, in hexadecimal; a missing name is \<open>unknown\<close>.
\<close>

lemma kernel_panic_at_report:
  assumes ready: "line_ready m" and fi: "0 \<notin> set f" "f = (case file of None \<Rightarrow> ascii ''unknown'' | Some s \<Rightarrow> s)"
    and re: "0 \<notin> set r" "r = (case reason of None \<Rightarrow> ascii ''unknown'' | Some s \<Rightarrow> s)"
  shows "wrote (panic_text f line r code (cpu_rflags m)) (cpu_cli m) (kernel_panic_at file line reason code m)"
proof -
  have c: "line_ready (cpu_cli m)" using ready by (simp add: line_ready_def cpu_cli_def)
  let ?t = "foldl (@) (foldl (@) (foldl (@) [] (map crlf [[], [0x0A], ascii ''================ MCSOS KERNEL PANIC ================'', [0x0A], ascii ''system='',
    ascii ''MCSOS'', ascii '' version='', ascii ''v0.3.0'', ascii '' milestone='', ascii ''M3'', [0x0A], ascii ''reason='', r, [0x0A],
    ascii ''location='', f, ascii '':''])) [dec_text line, crlf [0x0A], crlf (ascii ''panic_code''), crlf (ascii ''=''), hex_text code, crlf [0x0A],
    crlf (ascii ''rflags_before_cli''), crlf (ascii ''=''), hex_text (cpu_rflags m), crlf [0x0A]]) (map crlf [ascii ''state=halted'', [0x0A],
    ascii ''===================================================='', [0x0A]])"
  have "wrote ?t (cpu_cli m) (kernel_panic_at file line reason code m)"
    unfolding kernel_panic_at_def Let_def fi(2) [symmetric] re(2) [symmetric] list.map foldl.simps
    by (intro sends wrote_refl c fi re) (simp_all add: ascii_def)
  moreover have "?t = panic_text f line r code (cpu_rflags m)"
    by (simp add: panic_text_def line_text_def crlf_append ascii_def crlf_def)
  ultimately show ?thesis by simp
qed

end
