(* ===== verification/Interrupts.thy ===== *)
theory Interrupts
  imports Ports
begin

text \<open>
  The interrupt descriptor table (\<open>src/kernel/arch/x86_64/idt.c\<close>), the trap dispatcher
  (\<open>src/kernel/core/trap.c\<close>), the bring-up in \<open>src/kernel/core/kmain.c\<close> and the page fault report
  (\<open>src/src/trap.c\<close>). The 8259 chips are described by what their documentation says they do with the
  bytes written to them; the property at the end says what machine the bring-up leaves and what the
  dispatcher does on it when it is called.
\<close>

section \<open>Descriptor table\<close>

record idt_entry =
  isr_low :: u16
  kernel_cs :: u16
  isr_ist :: u8
  isr_attributes :: u8
  isr_mid :: u16
  isr_high :: u32
  isr_reserved :: u32

record cpu = machine +
  idt :: "idt_entry list"
  idtr_limit :: u16
  idtr_base :: u64
  idt_base_for_test :: u64
  idt_limit_for_test :: u16
  idt_loaded :: "(u16 \<times> u64) option"

text \<open>A vector past the table would write behind it (\<open>None\<close>).\<close>

definition x86_64_idt_set_gate :: "u8 \<Rightarrow> u64 \<Rightarrow> u8 \<Rightarrow> cpu \<Rightarrow> cpu option" where
  "x86_64_idt_set_gate vector addr attributes c =
     (if unat vector < length (idt c) then
        Some (c\<lparr>idt := (idt c)[unat vector := \<lparr>isr_low = ucast (addr AND 0xFFFF), kernel_cs = 0x08, isr_ist = 0,
          isr_attributes = attributes, isr_mid = ucast (drop_bit 16 addr AND 0xFFFF),
          isr_high = ucast (drop_bit 32 addr AND 0xFFFFFFFF), isr_reserved = 0\<rparr>]\<rparr>)
      else None)"

definition idt_vectors :: "nat list" where
  "idt_vectors = [14, 32, 33, 34, 35, 36, 37, 38, 39, 40, 41, 42, 43, 44, 45, 46, 47]"

text \<open>\<open>base\<close> is the address of the table, \<open>stub n\<close> that of \<open>isr_stub_n\<close>; an entry has 16 bytes.\<close>

definition set_stub :: "(nat \<Rightarrow> u64) \<Rightarrow> nat \<Rightarrow> cpu option \<Rightarrow> cpu option" where
  "set_stub stub n r = Option.bind r (x86_64_idt_set_gate (of_nat n) (stub n) 0x8E)"

definition x86_64_idt_init :: "u64 \<Rightarrow> (nat \<Rightarrow> u64) \<Rightarrow> cpu \<Rightarrow> cpu option" where
  "x86_64_idt_init base stub c =
     Option.bind (fold (set_stub stub) idt_vectors (Some c))
       (\<lambda>c1. let limit = 16 * 48 - 1 in
         Some (c1\<lparr>idtr_limit := limit, idtr_base := base, idt_base_for_test := base, idt_limit_for_test := limit,
           idt_loaded := Some (limit, base)\<rparr>))"

section \<open>Traps\<close>

text \<open>
  \<open>None\<close>: the processor is halted for ever with interrupts off. The argument of \<open>pic_send_eoi\<close> is cut to a
  byte.
\<close>

definition x86_64_trap_dispatch :: "u64 \<Rightarrow> 'a machine_scheme \<Rightarrow> 'a machine_scheme option" where
  "x86_64_trap_dispatch trap_no m =
     (if 32 \<le> trap_no \<and> trap_no \<le> 47 then
        (let m1 = (if trap_no = 32 then timer_on_irq0 m else m) in Some (pic_send_eoi (ucast (trap_no - 32)) m1))
      else if trap_no = 3 then Some m
      else None)"

text \<open>
  Direct calls of the dispatcher, one after the other. The code that the gates lead to does not make these
  calls (the theory \<open>Entry\<close> has the proof for the IRQs).
\<close>

primrec dispatch_calls :: "u64 list \<Rightarrow> 'a machine_scheme \<Rightarrow> 'a machine_scheme option" where
  "dispatch_calls [] m = Some m"
| "dispatch_calls (v # vs) m = Option.bind (x86_64_trap_dispatch v m) (dispatch_calls vs)"

section \<open>Bring-up\<close>

text \<open>\<open>kmain\<close> up to its final loop of \<open>hlt\<close>.\<close>

definition kmain :: "u64 \<Rightarrow> (nat \<Rightarrow> u64) \<Rightarrow> cpu \<Rightarrow> cpu option" where
  "kmain base stub c =
     Option.bind (x86_64_idt_init base stub (serial_init (cpu_cli c)))
       (\<lambda>c1. Option.bind (pit_configure_hz 100 (pic_unmask_irq 0 (pic_mask_all (pic_remap 0x20 0x28 c1))))
         (\<lambda>c2. Some (cpu_sti c2)))"

section \<open>Page fault report\<close>

text \<open>
  \<open>serial_print\<close> and \<open>panic\<close> (the three-argument \<open>kernel_panic_at\<close> declared here) are not defined in the
  repository for this file: they are parameters. \<open>cr2\<close> is the register the processor left.
\<close>

record pf_frame =
  pf_rip :: u64
  pf_cs :: u64
  pf_rflags :: u64
  pf_rsp :: u64
  pf_ss :: u64

text \<open>\<open>for (int i = 15; i >= 0; i--) { buf[2 + i] = hex[val & 0xF]; val >>= 4; }\<close>\<close>

primrec hex_pure_loop :: "nat \<Rightarrow> u64 \<Rightarrow> bytes \<Rightarrow> bytes" where
  "hex_pure_loop 0 v buf = buf"
| "hex_pure_loop (Suc i) v buf =
     hex_pure_loop i (drop_bit 4 v) (buf[2 + i := ascii ''0123456789ABCDEF'' ! unat (v AND 0xF)])"

definition print_hex_pure :: "(bytes \<Rightarrow> 's \<Rightarrow> 's) \<Rightarrow> u64 \<Rightarrow> 's \<Rightarrow> 's" where
  "print_hex_pure serial_print v s = serial_print (hex_pure_loop 16 v ([0x30, 0x78] @ replicate 16 0)) s"

definition log_field :: "(bytes \<Rightarrow> 's \<Rightarrow> 's) \<Rightarrow> bytes \<Rightarrow> u64 \<Rightarrow> 's \<Rightarrow> 's" where
  "log_field serial_print name v s =
     serial_print [0x0A] (print_hex_pure serial_print v (serial_print (ascii '': '') (serial_print name (serial_print (ascii ''  '') s))))"

definition log_bool :: "(bytes \<Rightarrow> 's \<Rightarrow> 's) \<Rightarrow> bytes \<Rightarrow> bool \<Rightarrow> 's \<Rightarrow> 's" where
  "log_bool serial_print name b s =
     serial_print (if b then ascii ''1 (TRUE)'' @ [0x0A] else ascii ''0 (FALSE)'' @ [0x0A])
       (serial_print (ascii '': '') (serial_print name (serial_print (ascii ''  '') s)))"

definition page_fault_dump :: "(bytes \<Rightarrow> 's \<Rightarrow> 's) \<Rightarrow> ('s \<Rightarrow> 's) \<Rightarrow> u64 \<Rightarrow> u64 \<Rightarrow> pf_frame \<Rightarrow> 's \<Rightarrow> 's" where
  "page_fault_dump serial_print panic cr2 error_code tf s =
     (let fld = log_field serial_print; flag = (\<lambda>name k. log_bool serial_print name (error_code AND push_bit k 1 \<noteq> 0));
          s1 = serial_print (ascii ''#PF Page Fault Diagnostics Log System Detected'' @ [0x0A])
            (serial_print ([0x0A] @ ascii ''================ [M7 SYSTEM EXCEPTION] ================'' @ [0x0A]) s);
          s2 = fld (ascii ''Stack Pointer RSP'') (pf_rsp tf) (fld (ascii ''Instruction RIP  '') (pf_rip tf)
            (fld (ascii ''Error Code Raw   '') error_code (fld (ascii ''CR2 Fault Address'') cr2 s1)));
          s3 = flag (ascii ''Instruction Fetch Violation  (I/D)'') 4 (flag (ascii ''Reserved Bit Mismatch Fault  (RSVD)'') 3
            (flag (ascii ''User Mode Execution Context  (U)'') 2 (flag (ascii ''Write Access Attempted       (W)'') 1
            (flag (ascii ''Present/Protection Violation (P)'') 0 s2))))
      in panic (serial_print (ascii ''======================================================='' @ [0x0A]) s3))"

section \<open>What the chips make of it\<close>

text \<open>
  The initialisation protocol of an 8259 as documented: a command with bit 4 starts it and clears the mask,
  the next bytes on the data port are the vector base, the cascade and (if bit 0 asked for it) the mode;
  outside of it the data port is the mask.
\<close>

record chip =
  chip_expects :: nat
  chip_icw4 :: bool
  chip_base :: u8
  chip_cascade :: u8
  chip_mode :: u8
  chip_mask :: u8

definition chip_event :: "u16 \<Rightarrow> u16 \<Rightarrow> port_event \<Rightarrow> chip \<Rightarrow> chip" where
  "chip_event cmd dat ev k = (case ev of In _ _ \<Rightarrow> k
    | Out p v \<Rightarrow>
        if p = cmd then (if v AND 0x10 \<noteq> 0 then k\<lparr>chip_expects := 1, chip_icw4 := v AND 1 \<noteq> 0, chip_mask := 0\<rparr> else k)
        else if p = dat then
          (if chip_expects k = 1 then k\<lparr>chip_base := v, chip_expects := 2\<rparr>
           else if chip_expects k = 2 then k\<lparr>chip_cascade := v, chip_expects := (if chip_icw4 k then 3 else 0)\<rparr>
           else if chip_expects k = 3 then k\<lparr>chip_mode := v, chip_expects := 0\<rparr>
           else k\<lparr>chip_mask := v\<rparr>)
        else k)"

definition chip_after :: "u16 \<Rightarrow> u16 \<Rightarrow> port_event list \<Rightarrow> chip \<Rightarrow> chip" where
  "chip_after cmd dat tr k = fold (chip_event cmd dat) tr k"

text \<open>Reading the data port of the master gives its mask.\<close>

definition pic_reads :: "chip \<Rightarrow> (port_event list \<Rightarrow> u16 \<Rightarrow> u8) \<Rightarrow> bool" where
  "pic_reads k dev \<longleftrightarrow> (\<forall>tr. chip_expects (chip_after 0x20 0x21 tr k) = 0 \<longrightarrow> dev tr 0x21 = chip_mask (chip_after 0x20 0x21 tr k))"

text \<open>The address a gate points to.\<close>

definition gate_offset :: "idt_entry \<Rightarrow> u64" where
  "gate_offset e = ucast (isr_low e) OR push_bit 16 (ucast (isr_mid e)) OR push_bit 32 (ucast (isr_high e))"

section \<open>The table\<close>

definition stub_gate :: "u64 \<Rightarrow> idt_entry" where
  "stub_gate addr = \<lparr>isr_low = ucast (addr AND 0xFFFF), kernel_cs = 0x08, isr_ist = 0, isr_attributes = 0x8E,
     isr_mid = ucast (drop_bit 16 addr AND 0xFFFF), isr_high = ucast (drop_bit 32 addr AND 0xFFFFFFFF), isr_reserved = 0\<rparr>"

lemma and_low_masks: "(x :: u64) AND 0xFFFF = take_bit 16 x" "x AND 0xFFFFFFFF = take_bit 32 x"
  using take_bit_eq_mask [of 16 x] take_bit_eq_mask [of 32 x] by (simp_all add: mask_eq_exp_minus_1)

lemma stub_gate_offset: "gate_offset (stub_gate addr) = addr"
proof (rule bit_word_eqI)
  fix n :: nat
  assume "n < LENGTH(64)"
  then show "bit (gate_offset (stub_gate addr)) n = bit addr n"
    unfolding gate_offset_def stub_gate_def idt_entry.simps and_low_masks
    by (cases "n < 16"; cases "n < 32")
      (auto simp: bit_or_iff bit_push_bit_iff bit_unsigned_iff bit_take_bit_iff bit_drop_bit_eq)
qed

lemma set_stubs:
  "list_all (\<lambda>n. n < 48) ns \<Longrightarrow> length (idt c) = 48 \<Longrightarrow>
   fold (set_stub stub) ns (Some c) = Some (c\<lparr>idt := fold (\<lambda>n t. t[n := stub_gate (stub n)]) ns (idt c)\<rparr>)"
proof (induction ns arbitrary: c)
  case (Cons n ns)
  have n: "unat (of_nat n :: u8) = n" using Cons.prems(1) by (simp add: unsigned_of_nat take_bit_nat_eq_self)
  have "set_stub stub n (Some c) = Some (c\<lparr>idt := (idt c)[n := stub_gate (stub n)]\<rparr>)"
    using Cons.prems by (simp add: set_stub_def x86_64_idt_set_gate_def n stub_gate_def)
  then show ?case using Cons by simp
qed simp

lemma length_fold_const_update [simp]: "length (fold (\<lambda>n t. t[n := g n]) ns t) = length t"
  by (induction ns arbitrary: t) simp_all

lemma nth_fold_update: "v \<in> set ns \<Longrightarrow> v < length t \<Longrightarrow> fold (\<lambda>n t. t[n := g n]) ns t ! v = g v"
proof (induction ns rule: rev_induct)
  case (snoc x ns)
  then show ?case by (cases "x = v") simp_all
qed simp

lemma nth_fold_update_other: "v \<notin> set ns \<Longrightarrow> fold (\<lambda>n t. t[n := g n]) ns t ! v = t ! v"
  by (induction ns arbitrary: t) auto

section \<open>What the dispatcher does with a vector\<close>

definition known_vector :: "u64 \<Rightarrow> bool" where
  "known_vector v \<longleftrightarrow> v = 3 \<or> 32 \<le> v \<and> v \<le> 47"

definition eoi_events :: "u64 \<Rightarrow> port_event list" where
  "eoi_events v = (if v = 3 then [] else if v < 40 then [Out 0x20 0x20] else [Out 0xA0 0x20, Out 0x20 0x20])"

lemma dispatch_known:
  "known_vector v \<Longrightarrow> x86_64_trap_dispatch v m =
     Some (m\<lparr>g_ticks := g_ticks m + (if v = 32 then 1 else 0), io_trace := io_trace m @ eoi_events v\<rparr>)"
  "\<not> known_vector v \<Longrightarrow> x86_64_trap_dispatch v m = None"
proof -
  have e: "8 \<le> (ucast (v - 32) :: u8) \<longleftrightarrow> 40 \<le> v" if "32 \<le> v" "v \<le> 47"
  proof -
    have "unat (v - 32) = unat v - 32" using that(1) by (simp add: unat_sub word_le_nat_alt)
    moreover have "unat v \<le> 47" "32 \<le> unat v" using that by (simp_all add: word_le_nat_alt)
    ultimately have "unat (ucast (v - 32) :: u8) = unat v - 32" by (simp add: unsigned_ucast_eq take_bit_nat_eq_self)
    then show ?thesis using \<open>32 \<le> unat v\<close> by (auto simp: word_le_nat_alt)
  qed
  show "known_vector v \<Longrightarrow> x86_64_trap_dispatch v m =
     Some (m\<lparr>g_ticks := g_ticks m + (if v = 32 then 1 else 0), io_trace := io_trace m @ eoi_events v\<rparr>)"
    using e by (auto simp: known_vector_def x86_64_trap_dispatch_def eoi_events_def pic_send_eoi_def outb_def timer_on_irq0_def
        PIC_SLAVE_CMD_def PIC_MASTER_CMD_def PIC_EOI_def Let_def not_less)
  show "\<not> known_vector v \<Longrightarrow> x86_64_trap_dispatch v m = None"
    by (auto simp: known_vector_def x86_64_trap_dispatch_def)
qed

lemma dispatch_calls_known:
  "list_all known_vector vs \<Longrightarrow> dispatch_calls vs m =
     Some (m\<lparr>g_ticks := g_ticks m + of_nat (count_list vs 32), io_trace := io_trace m @ concat (map eoi_events vs)\<rparr>)"
  by (induction vs arbitrary: m) (simp_all add: dispatch_known)

lemma dispatch_calls_halt: "\<not> list_all known_vector vs \<Longrightarrow> dispatch_calls vs m = None"
  by (induction vs arbitrary: m) (auto simp: dispatch_known bind_eq_None_conv)

section \<open>The machine after \<open>kmain\<close>\<close>

definition serial_events :: "port_event list" where
  "serial_events = [Out 0x3F9 0, Out 0x3FB 0x80, Out 0x3F8 0x03, Out 0x3F9 0, Out 0x3FB 0x03, Out 0x3FA 0xC7, Out 0x3FC 0x0B]"

text \<open>What is written to the controller, with the masks \<open>a\<close> and \<open>b\<close> that were read.\<close>

definition remap_events :: "u8 \<Rightarrow> u8 \<Rightarrow> port_event list" where
  "remap_events a b = [In 0x21 a, In 0xA1 b, Out 0x20 0x11, Out 0x80 0, Out 0xA0 0x11, Out 0x80 0, Out 0x21 0x20, Out 0x80 0,
     Out 0xA1 0x28, Out 0x80 0, Out 0x21 0x04, Out 0x80 0, Out 0xA1 0x02, Out 0x80 0, Out 0x21 0x01, Out 0x80 0,
     Out 0xA1 0x01, Out 0x80 0, Out 0x21 a, Out 0xA1 b, Out 0x21 0xFF, Out 0xA1 0xFF]"

definition pit_events :: "port_event list" where
  "pit_events = [Out 0x43 0x36, Out 0x40 0x9B, Out 0x40 0x2E]"

lemma serial_init_eq: "serial_init m = m\<lparr>io_trace := io_trace m @ serial_events\<rparr>"
  by (simp add: serial_init_def outb_def serial_events_def COM1_PORT_def)

lemma pic_setup_eq:
  obtains a b where "pic_mask_all (pic_remap 0x20 0x28 m) = m\<lparr>io_trace := io_trace m @ remap_events a b\<rparr>"
proof (rule that)
  let ?a = "device m (io_trace m) 0x21"
  show "pic_mask_all (pic_remap 0x20 0x28 m) =
      m\<lparr>io_trace := io_trace m @ remap_events ?a (device m (io_trace m @ [In 0x21 ?a]) 0xA1)\<rparr>"
    by (simp add: pic_remap_def pic_mask_all_def inb_def outb_def io_wait_def remap_events_def Let_def
        PIC_MASTER_CMD_def PIC_MASTER_DATA_def PIC_SLAVE_CMD_def PIC_SLAVE_DATA_def)
qed

lemma pit_100: "pit_configure_hz 100 m = Some (m\<lparr>io_trace := io_trace m @ pit_events\<rparr>)"
  by (simp add: pit_configure_hz_def outb_def pit_events_def PIT_COMMAND_def PIT_CHANNEL0_DATA_def)

lemma chip_after_append: "chip_after cmd dat (s @ t) k = chip_after cmd dat t (chip_after cmd dat s k)"
  by (simp add: chip_after_def)

lemma chips_after_setup:
  "chip_after 0x20 0x21 (remap_events a b) k =
     \<lparr>chip_expects = 0, chip_icw4 = True, chip_base = 0x20, chip_cascade = 0x04, chip_mode = 0x01, chip_mask = 0xFF\<rparr>"
  "chip_after 0xA0 0xA1 (remap_events a b) k =
     \<lparr>chip_expects = 0, chip_icw4 = True, chip_base = 0x28, chip_cascade = 0x02, chip_mode = 0x01, chip_mask = 0xFF\<rparr>"
  by (cases k; simp add: chip_after_def remap_events_def chip_event_def)+

text \<open>The trace of the boot: serial line, controller, IRQ 0 let through, timer.\<close>

definition boot_events :: "u8 \<Rightarrow> u8 \<Rightarrow> port_event list" where
  "boot_events a b = serial_events @ remap_events a b @ [In 0x21 0xFF, Out 0x21 0xFE] @ pit_events"

lemma kmain_state:
  assumes len: "length (idt c) = 48" and reads: "pic_reads k (device c)"
  obtains a b where "kmain base stub c = Some (c\<lparr>cpu_rflags := (cpu_rflags c AND NOT 0x200) OR 0x200,
      io_trace := io_trace c @ boot_events a b, idt := fold (\<lambda>n t. t[n := stub_gate (stub n)]) idt_vectors (idt c),
      idtr_limit := 767, idtr_base := base, idt_base_for_test := base, idt_limit_for_test := 767, idt_loaded := Some (767, base)\<rparr>)"
proof -
  define c1 where "c1 = serial_init (cpu_cli c)"
  have c1: "io_trace c1 = io_trace c @ serial_events" "length (idt c1) = 48" "device c1 = device c"
    using len by (simp_all add: c1_def serial_init_eq cpu_cli_def)
  define c2 where "c2 = c1\<lparr>idt := fold (\<lambda>n t. t[n := stub_gate (stub n)]) idt_vectors (idt c1),
    idtr_limit := 767, idtr_base := base, idt_base_for_test := base, idt_limit_for_test := 767, idt_loaded := Some (767, base)\<rparr>"
  have i: "x86_64_idt_init base stub c1 = Some c2"
    using set_stubs [OF _ c1(2), of idt_vectors stub]
    by (simp add: x86_64_idt_init_def idt_vectors_def c2_def Let_def del: fold_simps)
  obtain a b where s: "pic_mask_all (pic_remap 0x20 0x28 c2) = c2\<lparr>io_trace := io_trace c2 @ remap_events a b\<rparr>"
    by (rule pic_setup_eq)
  let ?tr = "io_trace c2 @ remap_events a b"
  have v: "device c ?tr 0x21 = 0xFF"
    using reads unfolding pic_reads_def by (simp add: chip_after_append chips_after_setup)
  have "pic_unmask_irq 0 (c2\<lparr>io_trace := ?tr\<rparr>) = c2\<lparr>io_trace := ?tr @ [In 0x21 0xFF, Out 0x21 0xFE]\<rparr>"
    using v c1(3) by (simp add: pic_unmask_irq_def inb_def outb_def PIC_MASTER_DATA_def Let_def c2_def)
  then show ?thesis
    using that [of a b] i s c1(1) unfolding kmain_def c1_def [symmetric]
    by (simp add: pit_100 cpu_sti_def boot_events_def c2_def) (simp add: c1_def serial_init_eq cpu_cli_def)
qed

lemma gates_of_boot:
  "length t = 48 \<Longrightarrow> v \<in> set idt_vectors \<Longrightarrow> fold (\<lambda>n t. t[n := stub_gate (stub n)]) idt_vectors t ! v = stub_gate (stub v)"
  by (rule nth_fold_update) (auto simp: idt_vectors_def)

definition master_ready :: chip where
  "master_ready = \<lparr>chip_expects = 0, chip_icw4 = True, chip_base = 0x20, chip_cascade = 0x04, chip_mode = 0x01, chip_mask = 0xFE\<rparr>"

definition slave_ready :: chip where
  "slave_ready = \<lparr>chip_expects = 0, chip_icw4 = True, chip_base = 0x28, chip_cascade = 0x02, chip_mode = 0x01, chip_mask = 0xFF\<rparr>"

lemma chips_after_boot:
  "chip_after 0x20 0x21 (tr @ boot_events a b) k = master_ready"
  "chip_after 0xA0 0xA1 (tr @ boot_events a b) k = slave_ready"
  by (simp_all only: boot_events_def chip_after_append chips_after_setup)
    (simp_all add: chip_after_def chip_event_def pit_events_def master_ready_def slave_ready_def)

lemma and_not_or: "(x AND NOT y) OR y = x OR (y :: u64)"
  by (rule bit_word_eqI) (auto simp: bit_or_iff bit_and_iff bit_not_iff)

text \<open>Acknowledging changes neither mask.\<close>

lemma chips_after_eoi:
  "chip_after 0x20 0x21 (concat (map eoi_events vs)) k = k" "chip_after 0xA0 0xA1 (concat (map eoi_events vs)) k = k"
  by (induction vs) (simp_all add: chip_after_append, simp_all add: chip_after_def chip_event_def eoi_events_def)

text \<open>
  C34. From any state, and whatever the devices answer as long as a mask register reads back, \<open>kmain\<close>
  succeeds: each of the vectors 14 and 32 to 47 has a present interrupt gate to its own stub, the other
  vectors of the table are as before, and the table is loaded with its size and address; the chips are
  initialised with vectors 32 and 40, cascaded, with only IRQ 0 let through; the timer's divisor is that of
  100 Hz; interrupts are on. On the machine it leaves, a sequence of direct calls of the dispatcher comes to
  its end exactly when each vector is 3 or that of an IRQ: each IRQ's vector sends one end-of-interrupt, to the
  slave too from IRQ 8 on, vector 32 counts one tick, and the masks stay; any other vector halts. Nothing is
  said here of interrupts raised by the hardware: \<open>kmain\<close> installs no gate for vector 3, and the stubs behind
  the IRQ gates never reach the dispatcher, which \<open>Entry\<close> proves.
\<close>

theorem kmain_brings_up:
  assumes "length (idt c) = 48" "pic_reads k1 (device c)"
  shows "\<exists>c1. kmain base stub c = Some c1 \<and>
    list_all (\<lambda>v. gate_offset (idt c1 ! v) = stub v \<and> isr_attributes (idt c1 ! v) = 0x8E \<and> isr_ist (idt c1 ! v) = 0)
      (14 # [32..<48]) \<and>
    list_all (\<lambda>v. v \<in> set (14 # [32..<48]) \<or> idt c1 ! v = idt c ! v) [0..<48] \<and>
    idt_loaded c1 = Some (of_nat (48 * 16 - 1), base) \<and>
    chip_after 0x20 0x21 (io_trace c1) k1 = master_ready \<and> chip_after 0xA0 0xA1 (io_trace c1) k2 = slave_ready \<and>
    (\<exists>evs lo hi. io_trace c1 = evs @ [Out 0x43 0x36, Out 0x40 lo, Out 0x40 hi] \<and> unat lo + 256 * unat hi = 1193182 div 100) \<and>
    cpu_rflags c1 = cpu_rflags c OR 0x200 \<and> g_ticks c1 = g_ticks c \<and>
    (\<forall>vs. if list_all known_vector vs
      then \<exists>c2. dispatch_calls vs c1 = Some c2 \<and> g_ticks c2 = g_ticks c1 + of_nat (count_list vs 32) \<and>
        io_trace c2 = io_trace c1 @ concat (map eoi_events vs) \<and>
        chip_after 0x20 0x21 (io_trace c2) k1 = master_ready \<and> chip_after 0xA0 0xA1 (io_trace c2) k2 = slave_ready
      else dispatch_calls vs c1 = None)"
proof -
  obtain a b where k: "kmain base stub c = Some (c\<lparr>cpu_rflags := (cpu_rflags c AND NOT 0x200) OR 0x200,
      io_trace := io_trace c @ boot_events a b, idt := fold (\<lambda>n t. t[n := stub_gate (stub n)]) idt_vectors (idt c),
      idtr_limit := 767, idtr_base := base, idt_base_for_test := base, idt_limit_for_test := 767, idt_loaded := Some (767, base)\<rparr>)"
    (is "_ = Some ?c1") by (rule kmain_state [OF assms])
  have v: "14 # [32..<48] = idt_vectors" by (simp add: idt_vectors_def upt_rec)
  then have g: "list_all (\<lambda>v. gate_offset (idt ?c1 ! v) = stub v \<and> isr_attributes (idt ?c1 ! v) = 0x8E \<and> isr_ist (idt ?c1 ! v) = 0)
      (14 # [32..<48])"
    using gates_of_boot [OF assms(1)] stub_gate_offset by (simp add: list_all_iff stub_gate_def del: upt_rec_numeral)
  have o: "list_all (\<lambda>v. v \<in> set (14 # [32..<48]) \<or> idt ?c1 ! v = idt c ! v) [0..<48]"
    unfolding v using nth_fold_update_other [where g = "\<lambda>n. stub_gate (stub n)"]
    by (auto simp: list_all_iff simp del: upt_rec_numeral)
  have f: "(cpu_rflags c AND NOT 0x200) OR 0x200 = cpu_rflags c OR 0x200"
    by (rule and_not_or)
  have t: "\<exists>evs lo hi. io_trace ?c1 = evs @ [Out 0x43 0x36, Out 0x40 lo, Out 0x40 hi] \<and> unat lo + 256 * unat hi = 1193182 div 100"
    by (rule exI [of _ "io_trace c @ serial_events @ remap_events a b @ [In 0x21 0xFF, Out 0x21 0xFE]"])
      (simp add: boot_events_def pit_events_def)
  show ?thesis
    using k g o t f chips_after_boot [where tr = "io_trace c"] chips_after_eoi dispatch_calls_known [where m = ?c1] dispatch_calls_halt [where m = ?c1]
    by (simp add: chip_after_append del: upt_rec_numeral upt_Suc)
qed

text \<open>A machine whose controller answers as documented, and a few calls of the dispatcher.\<close>

definition quiet_chip :: chip where
  "quiet_chip = \<lparr>chip_expects = 0, chip_icw4 = False, chip_base = 0, chip_cascade = 0, chip_mode = 0, chip_mask = 0\<rparr>"

definition demo_cpu :: cpu where
  "demo_cpu = \<lparr>io_trace = [], device = (\<lambda>tr p. if p = 0x21 then chip_mask (chip_after 0x20 0x21 tr quiet_chip) else 0x20),
     cpu_rflags = 2, g_ticks = 7, g_log_ready = 0, idt = replicate 48 (stub_gate 0), idtr_limit = 0, idtr_base = 0,
     idt_base_for_test = 0, idt_limit_for_test = 0, idt_loaded = None\<rparr>"

theorem kmain_brings_up_witness:
  "\<exists>c1 c2. kmain 0x9000 (\<lambda>n. 0x1000 + 16 * of_nat n) demo_cpu = Some c1 \<and> dispatch_calls [32, 3, 44, 32] c1 = Some c2 \<and>
     g_ticks c2 = 9 \<and> dispatch_calls [32, 13] c1 = None \<and> idt c1 ! 3 = stub_gate 0"
proof -
  have i: "idt c1 ! 3 = stub_gate 0" if "list_all (\<lambda>v. v \<in> set (14 # [32..<48]) \<or> idt c1 ! v = idt demo_cpu ! v) [0..<48]" for c1 :: cpu
  proof -
    have "3 \<in> set [0..<48 :: nat]" by (simp only: atLeastLessThan_upt [symmetric] atLeastLessThan_iff) simp
    then have "3 \<in> set (14 # [32..<48 :: nat]) \<or> idt c1 ! 3 = idt demo_cpu ! 3" using that unfolding list_all_iff by blast
    moreover have "idt demo_cpu ! 3 = stub_gate 0" by (simp add: demo_cpu_def)
    ultimately show ?thesis by simp
  qed
  have h: "length (idt demo_cpu) = 48" "pic_reads quiet_chip (device demo_cpu)"
    by (simp_all add: demo_cpu_def pic_reads_def)
  have s: "list_all known_vector [32, 3, 44, 32]" "\<not> list_all known_vector [32, 13]" "g_ticks demo_cpu = 7"
    by (simp_all add: known_vector_def demo_cpu_def)
  let ?stub = "\<lambda>n. 0x1000 + 16 * of_nat n :: u64"
  obtain c1 where c1: "kmain 0x9000 ?stub demo_cpu = Some c1" "g_ticks c1 = g_ticks demo_cpu"
    "list_all (\<lambda>v. v \<in> set (14 # [32..<48]) \<or> idt c1 ! v = idt demo_cpu ! v) [0..<48]"
    and r: "\<forall>vs. if list_all known_vector vs
      then \<exists>c2. dispatch_calls vs c1 = Some c2 \<and> g_ticks c2 = g_ticks c1 + of_nat (count_list vs 32) \<and>
        io_trace c2 = io_trace c1 @ concat (map eoi_events vs) \<and>
        chip_after 0x20 0x21 (io_trace c2) quiet_chip = master_ready \<and> chip_after 0xA0 0xA1 (io_trace c2) quiet_chip = slave_ready
      else dispatch_calls vs c1 = None"
    using kmain_brings_up [OF h, of "0x9000" ?stub quiet_chip] by (elim exE conjE) (rule that)
  show ?thesis using c1(1,2) i [OF c1(3)] s spec [OF r, of "[32, 3, 44, 32]"] spec [OF r, of "[32, 13]"] by auto
qed

end
