(* ===== verification/Processor.thy ===== *)
theory Processor
  imports Bytes Libmem
begin

text \<open>
  The processor as the assembly files under \<open>src/kernel/\<close> use it: registers and memory, the instructions they consist of,
  the delivery of an interrupt and the return from it, as the processor's documentation gives them; stacks in memory; and the
  calling convention of C (locale \<open>c_function\<close>).
\<close>

section \<open>The processor\<close>

datatype reg = RAX | RBX | RCX | RDX | RBP | RDI | RSI | RSP | R8 | R9 | R10 | R11 | R12 | R13 | R14 | R15

record x86 =
  x_regs :: "reg \<Rightarrow> u64"
  x_mem :: byte_mem
  x_rip :: u64
  x_flags :: u64
  x_cs :: u64
  x_ss :: u64

text \<open>\<open>x_mem\<close> is the memory apart from the variables of the kernel, which are in the state of the C functions.\<close>

definition load64 :: "byte_mem \<Rightarrow> u64 \<Rightarrow> u64" where
  "load64 m a = le_dec (map (\<lambda>i. m (a + of_nat i)) [0..<8])"

definition store64 :: "byte_mem \<Rightarrow> u64 \<Rightarrow> u64 \<Rightarrow> byte_mem" where
  "store64 m a v = (\<lambda>x. if unat (x - a) < 8 then enc64 v ! unat (x - a) else m x)"

definition set_reg :: "reg \<Rightarrow> u64 \<Rightarrow> x86 \<Rightarrow> x86" where
  "set_reg r v s = s\<lparr>x_regs := (x_regs s)(r := v)\<rparr>"

definition push64 :: "u64 \<Rightarrow> x86 \<Rightarrow> x86" where
  "push64 v s = s\<lparr>x_regs := (x_regs s)(RSP := x_regs s RSP - 8), x_mem := store64 (x_mem s) (x_regs s RSP - 8) v\<rparr>"

definition pop64 :: "x86 \<Rightarrow> u64 \<times> x86" where
  "pop64 s = (load64 (x_mem s) (x_regs s RSP), s\<lparr>x_regs := (x_regs s)(RSP := x_regs s RSP + 8)\<rparr>)"

datatype label = Isr_Stub nat | Isr_Common | Exception_Stubs | Syscall_Int80_Stub | Cpu_Read_Rflags | Cpu_Halt_Forever
  | Trap_Dispatch | Syscall_Dispatch_Frame

text \<open>
  Operands are in the order of the source (AT\&T). \<open>Push_Mem a\<close> is \<open>pushq a\<close> without \<open>$\<close>: the operand is the memory at the
  address \<open>a\<close>. \<open>Store r d b\<close> is \<open>movq r, d(b)\<close>, \<open>Load d b r\<close> is \<open>movq d(b), r\<close>.
\<close>

datatype insn = Pushq reg | Popq reg | Push_Imm u64 | Push_Mem u64 | Movq reg reg | Store reg u64 reg | Store_Imm u64 u64 reg
  | Load u64 reg reg | Addq u64 reg | Subq u64 reg | Cld | Pushfq | Hlt | Jmp label | Call label | Ret | Iretq

text \<open>
  An environment: the code behind the labels of the text section, the C functions, and what an addition or
  subtraction makes of the status flags, given the old value of the register. A C function that never returns gives \<open>None\<close>; a call of it
  comes back behind the \<open>call\<close>, with the return address popped.
\<close>

record 'w env =
  code :: "label \<Rightarrow> insn list option"
  callee :: "label \<Rightarrow> x86 \<times> 'w \<Rightarrow> (x86 \<times> 'w) option"
  status :: "insn \<Rightarrow> u64 \<Rightarrow> u64"

text \<open>CF, PF, AF, ZF, SF and OF; the other flags stay.\<close>

definition set_status :: "u64 \<Rightarrow> x86 \<Rightarrow> x86" where
  "set_status f s = s\<lparr>x_flags := (x_flags s AND NOT 0x8D5) OR (f AND 0x8D5)\<rparr>"

text \<open>The instructions that only go on to the next one. \<open>hlt\<close> waits for an interrupt and goes on.\<close>

definition exec1 :: "(insn \<Rightarrow> u64 \<Rightarrow> u64) \<Rightarrow> insn \<Rightarrow> x86 \<Rightarrow> x86" where
  "exec1 st i s = (case i of
     Pushq r \<Rightarrow> push64 (x_regs s r) s
   | Popq r \<Rightarrow> (case pop64 s of (v, s1) \<Rightarrow> set_reg r v s1)
   | Push_Imm v \<Rightarrow> push64 v s
   | Push_Mem a \<Rightarrow> push64 (load64 (x_mem s) a) s
   | Movq a b \<Rightarrow> set_reg b (x_regs s a) s
   | Store r d b \<Rightarrow> s\<lparr>x_mem := store64 (x_mem s) (x_regs s b + d) (x_regs s r)\<rparr>
   | Store_Imm v d b \<Rightarrow> s\<lparr>x_mem := store64 (x_mem s) (x_regs s b + d) v\<rparr>
   | Load d b r \<Rightarrow> set_reg r (load64 (x_mem s) (x_regs s b + d)) s
   | Addq v r \<Rightarrow> set_status (st i (x_regs s r)) (set_reg r (x_regs s r + v) s)
   | Subq v r \<Rightarrow> set_status (st i (x_regs s r)) (set_reg r (x_regs s r - v) s)
   | Cld \<Rightarrow> s\<lparr>x_flags := x_flags s AND NOT 0x400\<rparr>
   | Pushfq \<Rightarrow> push64 (x_flags s) s
   | _ \<Rightarrow> s)"

definition iretq :: "x86 \<Rightarrow> x86" where
  "iretq s = (let (ip, s1) = pop64 s; (c, s2) = pop64 s1; (f, s3) = pop64 s2; (sp, s4) = pop64 s3; (d, s5) = pop64 s4
     in (set_reg RSP sp s5)\<lparr>x_rip := ip, x_cs := c, x_flags := f, x_ss := d\<rparr>)"

definition retq :: "x86 \<Rightarrow> x86" where
  "retq s = (case pop64 s of (ip, s1) \<Rightarrow> s1\<lparr>x_rip := ip\<rparr>)"

text \<open>
  Where a run ends: at an \<open>iretq\<close> or \<open>ret\<close>, in a C function that does not return, at a jump to a label that is not code
  (or behind the last instruction), or not within the given number of jumps.
\<close>

datatype 'w outcome = Back "x86 \<times> 'w" | No_Return | Stuck "x86 \<times> 'w" | Running

fun exec :: "'w env \<Rightarrow> nat \<Rightarrow> insn list \<Rightarrow> x86 \<times> 'w \<Rightarrow> 'w outcome" where
  "exec E n [] sw = Stuck sw"
| "exec E n (i # is) (s, w) = (case i of
     Jmp l \<Rightarrow> (case code E l of None \<Rightarrow> Stuck (s, w)
       | Some js \<Rightarrow> (case n of 0 \<Rightarrow> Running | Suc m \<Rightarrow> exec E m js (s, w)))
   | Call f \<Rightarrow> (case callee E f (s, w) of None \<Rightarrow> No_Return | Some sw \<Rightarrow> exec E n is sw)
   | Ret \<Rightarrow> Back (retq s, w)
   | Iretq \<Rightarrow> Back (iretq s, w)
   | _ \<Rightarrow> exec E n is (exec1 (status E) i s, w))"

text \<open>
  Delivery through an interrupt gate on the stack in use: the stack pointer is aligned to 16 bytes, \<open>ss\<close>, the old stack
  pointer, the flags, \<open>cs\<close>, the instruction pointer and the error code, if the vector has one, are pushed, and the flags
  IF, TF, NT, RF and VM are cleared. That a fault sets RF in the pushed flags is left out.
\<close>

definition deliver :: "u64 option \<Rightarrow> u64 \<Rightarrow> u64 \<Rightarrow> x86 \<Rightarrow> x86" where
  "deliver err selector target s =
     (let s1 = fold push64 ([x_ss s, x_regs s RSP, x_flags s, x_cs s, x_rip s] @ (case err of None \<Rightarrow> [] | Some e \<Rightarrow> [e]))
          (set_reg RSP (x_regs s RSP AND NOT 15) s)
      in s1\<lparr>x_rip := target, x_cs := selector, x_flags := x_flags s AND NOT 0x34300\<rparr>)"

text \<open>The vectors below 32 for which the processor pushes an error code.\<close>

definition cpu_error_code :: "nat \<Rightarrow> bool" where
  "cpu_error_code n \<longleftrightarrow> n \<in> {8, 10, 11, 12, 13, 14, 17, 21, 29, 30}"

section \<open>Stacks in memory\<close>

text \<open>The address \<open>x\<close> is one of the \<open>k\<close> below \<open>a\<close>.\<close>

definition below :: "u64 \<Rightarrow> nat \<Rightarrow> u64 \<Rightarrow> bool" where
  "below a k x \<longleftrightarrow> unat (a - 1 - x) < k"

definition stack_at :: "byte_mem \<Rightarrow> u64 \<Rightarrow> u64 list \<Rightarrow> bool" where
  "stack_at m a vs \<longleftrightarrow> (\<forall>i < length vs. load64 m (a + of_nat (8 * i)) = vs ! i)"

lemma unat_of_nat_small: "n < 4294967296 \<Longrightarrow> unat (of_nat n :: u64) = n"
  by (simp add: unat_of_nat)

lemma load_store_same: "load64 (store64 m a v) a = v"
proof -
  have "map (\<lambda>i. store64 m a v (a + of_nat i)) [0..<8] = enc64 v"
    by (rule nth_equalityI) (simp_all add: store64_def unat_of_nat_small)
  then show ?thesis by (simp add: load64_def)
qed

lemma load_cong: "(\<And>i. i < 8 \<Longrightarrow> m (a + of_nat i) = m' (a + of_nat i)) \<Longrightarrow> load64 m a = load64 m' a"
  unfolding load64_def by (rule arg_cong [of _ _ le_dec]) simp

lemma above_far: "8 \<le> k \<Longrightarrow> k < 4294967296 \<Longrightarrow> \<not> unat (a + of_nat k - a :: u64) < 8"
  by (simp add: unat_of_nat_small)

lemma stack_push:
  assumes "stack_at m a vs" "length vs < 268435456"
  shows "stack_at (store64 m (a - 8) v) (a - 8) (v # vs)"
  unfolding stack_at_def
proof (intro allI impI)
  fix i assume i: "i < length (v # vs)"
  show "load64 (store64 m (a - 8) v) (a - 8 + of_nat (8 * i)) = (v # vs) ! i"
  proof (cases i)
    case 0
    then show ?thesis by (simp add: load_store_same)
  next
    case (Suc j)
    have "load64 (store64 m (a - 8) v) (a + of_nat (8 * j)) = load64 m (a + of_nat (8 * j))"
    proof (rule load_cong)
      fix k :: nat assume "k < 8"
      then have "a + of_nat (8 * j) + of_nat k = (a - 8) + of_nat (8 + 8 * j + k)" "8 + 8 * j + k < 4294967296"
        using i Suc assms(2) by simp_all
      then show "store64 m (a - 8) v (a + of_nat (8 * j) + of_nat k) = m (a + of_nat (8 * j) + of_nat k)"
        using above_far [of "8 + 8 * j + k" "a - 8"] by (simp add: store64_def)
    qed
    then show ?thesis using Suc i assms(1) by (simp add: stack_at_def)
  qed
qed

lemma stack_pop: "stack_at m a (v # vs) \<Longrightarrow> load64 m a = v \<and> stack_at m (a + 8) vs"
  by (force simp: stack_at_def add.assoc)

lemma stack_nth: "stack_at m a vs \<Longrightarrow> i < length vs \<Longrightarrow> load64 m (a + of_nat (8 * i)) = vs ! i"
  by (simp add: stack_at_def)

text \<open>What is written below the stack pointer does not change the stack.\<close>

lemma stack_above:
  assumes "stack_at m a vs" "\<And>x. \<not> below a d x \<Longrightarrow> m' x = m x" "d + 8 * length vs < 4294967296"
  shows "stack_at m' a vs"
  unfolding stack_at_def
proof (intro allI impI)
  fix i assume i: "i < length vs"
  have "load64 m' (a + of_nat (8 * i)) = load64 m (a + of_nat (8 * i))"
  proof (rule load_cong)
    fix k :: nat assume k: "k < 8"
    let ?n = "8 * i + k"
    have "?n < 4294967296" using i k assms(3) by simp
    have "\<not> below a d (a + of_nat (8 * i) + of_nat k)"
    proof
      let ?y = "a - 1 - (a + of_nat (8 * i) + of_nat k)"
      assume "below a d (a + of_nat (8 * i) + of_nat k)"
      then have y: "unat ?y + Suc ?n < 4294967296" using i k assms(3) by (simp add: below_def)
      have "(of_nat (unat ?y + Suc ?n) :: u64) = ?y + 1 + of_nat ?n" by (simp add: algebra_simps)
      also have "\<dots> = 0" by simp
      finally have "unat (of_nat (unat ?y + Suc ?n) :: u64) = 0" by (simp only: unat_0)
      then show False using unat_of_nat_small [OF y] by simp
    qed
    then show "m' (a + of_nat (8 * i) + of_nat k) = m (a + of_nat (8 * i) + of_nat k)" by (rule assms(2))
  qed
  then show "load64 m' (a + of_nat (8 * i)) = vs ! i" using assms(1) i by (simp add: stack_at_def)
qed

text \<open>Storing into the stack.\<close>

lemma stack_store:
  assumes "stack_at m a vs" "i < length vs" "length vs < 268435456"
  shows "stack_at (store64 m (a + of_nat (8 * i)) v) a (vs[i := v])"
  unfolding stack_at_def
proof (intro allI impI)
  fix j assume j: "j < length (vs[i := v])"
  show "load64 (store64 m (a + of_nat (8 * i)) v) (a + of_nat (8 * j)) = vs[i := v] ! j"
  proof (cases "i = j")
    case True
    then show ?thesis using j by (simp only: load_store_same length_list_update nth_list_update_eq)
  next
    case False
    have "load64 (store64 m (a + of_nat (8 * i)) v) (a + of_nat (8 * j)) = load64 m (a + of_nat (8 * j))"
    proof (rule load_cong)
      fix k :: nat assume k: "k < 8"
      let ?d = "a + of_nat (8 * j) + of_nat k - (a + of_nat (8 * i))"
      have "\<not> unat ?d < 8"
      proof
        assume d: "unat ?d < 8"
        have "(of_nat (unat ?d + 8 * i) :: u64) = ?d + of_nat (8 * i)" by simp
        also have "\<dots> = of_nat (8 * j + k)" by simp
        finally have "unat (of_nat (unat ?d + 8 * i) :: u64) = unat (of_nat (8 * j + k) :: u64)" by (rule arg_cong)
        moreover have "unat ?d + 8 * i < 4294967296" "8 * j + k < 4294967296" using d k j assms(2,3) by simp_all
        ultimately have "unat ?d + 8 * i = 8 * j + k" by (simp only: unat_of_nat_small)
        then show False using d k False by presburger
      qed
      then show "store64 m (a + of_nat (8 * i)) v (a + of_nat (8 * j) + of_nat k) = m (a + of_nat (8 * j) + of_nat k)"
        by (simp only: store64_def if_False)
    qed
    then show ?thesis using False j assms(1) by (simp add: stack_at_def)
  qed
qed

section \<open>Pushing and popping\<close>

lemma below_8: "unat (x - (a - 8)) < 8 \<Longrightarrow> below a 8 x"
proof -
  assume t: "unat (x - (a - 8)) < 8"
  let ?t = "unat (x - (a - 8))"
  have "a - 1 - x = 7 - (x - (a - 8))" by simp
  also have "\<dots> = of_nat 7 - of_nat ?t" by simp
  also have "\<dots> = of_nat (7 - ?t)" using t by (simp only: of_nat_diff)
  finally have "unat (a - 1 - x) = 7 - ?t" using t by (simp only: unat_of_nat_small)
  then show "below a 8 x" by (simp add: below_def)
qed

lemma below_mono: "below a k x \<Longrightarrow> k \<le> l \<Longrightarrow> below a l x"
  by (simp add: below_def)

lemma unat_add_le: "unat (y + z) \<le> unat y + unat (z :: u64)"
  by (simp add: unat_word_ariths)

lemma below_down:
  assumes "below (a - of_nat n) k x"
  shows "below a (k + n) x"
proof -
  let ?y = "a - of_nat n - 1 - x"
  have "unat (a - 1 - x) = unat (?y + of_nat n)" by (rule arg_cong [of _ _ unat]) simp
  also have "\<dots> \<le> unat ?y + unat (of_nat n :: u64)" by (rule unat_add_le)
  also have "unat (of_nat n :: u64) \<le> n" by (simp add: unat_of_nat)
  finally show ?thesis using assms by (simp add: below_def)
qed

lemma store_mem:
  assumes "i < n" "\<not> below (b + of_nat (8 * n)) (8 * n) x"
  shows "store64 m (b + of_nat (8 * i)) v x = m x"
proof -
  have b: "b + of_nat (8 * n) - of_nat (8 * (n - Suc i)) = b + of_nat (8 * i) + (8 :: u64)"
    using assms(1) by (simp add: of_nat_diff algebra_simps)
  have "\<not> unat (x - (b + of_nat (8 * i))) < 8"
    using assms Suc_leI [OF assms(1)] below_8 [of x "b + of_nat (8 * i) + 8"] below_down [of "b + of_nat (8 * n)" "8 * (n - Suc i)" 8 x]
      below_mono [of "b + of_nat (8 * n)" "8 + 8 * (n - Suc i)" x "8 * n"] by (force simp: b simp del: of_nat_mult)
  then show ?thesis by (simp add: store64_def)
qed

text \<open>Filling the words from \<open>b\<close> on.\<close>

definition fill :: "u64 \<Rightarrow> u64 list \<Rightarrow> byte_mem \<Rightarrow> byte_mem" where
  "fill b vs m = fold (\<lambda>(i, v) m. store64 m (b + of_nat (8 * i)) v) (enumerate 0 vs) m"

lemma fill_snoc: "fill b (vs @ [v]) m = store64 (fill b vs m) (b + of_nat (8 * length vs)) v"
  by (simp add: fill_def enumerate_append_eq)

lemma fill_stack:
  "stack_at m (b + of_nat (8 * length vs)) us \<Longrightarrow> length vs + length us < 268435456 \<Longrightarrow> stack_at (fill b vs m) b (vs @ us)"
proof (induction vs arbitrary: us rule: rev_induct)
  case Nil
  then show ?case by (simp add: fill_def)
next
  case (snoc v vs)
  let ?a = "b + of_nat (8 * length vs)"
  have "stack_at m ?a (load64 m ?a # us)"
    using snoc.prems(1) unfolding stack_at_def by (auto simp: less_Suc_eq_0_disj algebra_simps)
  from snoc.IH [OF this] snoc.prems(2) have "stack_at (fill b vs m) b (vs @ load64 m ?a # us)" by simp
  from stack_store [OF this, of "length vs" v] snoc.prems(2) show ?case by (simp add: fill_snoc)
qed

lemma fill_mem: "length vs \<le> n \<Longrightarrow> \<not> below (b + of_nat (8 * n)) (8 * n) x \<Longrightarrow> fill b vs m x = m x"
proof (induction vs rule: rev_induct)
  case (snoc v vs)
  then show ?case using store_mem [of "length vs" n b x] by (simp add: fill_snoc)
qed (simp add: fill_def)

lemma push64_simps [simp]:
  "x_regs (push64 v s) r = (if r = RSP then x_regs s RSP - 8 else x_regs s r)" "x_rip (push64 v s) = x_rip s"
  "x_flags (push64 v s) = x_flags s" "x_cs (push64 v s) = x_cs s" "x_ss (push64 v s) = x_ss s"
  by (simp_all add: push64_def)

lemma push64_mem: "\<not> below (x_regs s RSP) 8 x \<Longrightarrow> x_mem (push64 v s) x = x_mem s x"
  using below_8 [of x "x_regs s RSP"] by (auto simp: push64_def store64_def)

lemma pushes_simps [simp]:
  "x_regs (fold push64 vs s) r = (if r = RSP then x_regs s RSP - of_nat (8 * length vs) else x_regs s r)"
  "x_rip (fold push64 vs s) = x_rip s" "x_flags (fold push64 vs s) = x_flags s"
  "x_cs (fold push64 vs s) = x_cs s" "x_ss (fold push64 vs s) = x_ss s"
  by (induction vs arbitrary: s) (simp_all add: algebra_simps)

lemma pushes_mem: "\<not> below (x_regs s RSP) (8 * length vs) x \<Longrightarrow> x_mem (fold push64 vs s) x = x_mem s x"
proof (induction vs arbitrary: s)
  case (Cons v vs)
  have "\<not> below (x_regs (push64 v s) RSP) (8 * length vs) x"
    using Cons.prems below_down [of "x_regs s RSP" 8 "8 * length vs" x] by (auto simp: add.commute)
  then show ?case using Cons push64_mem [of s x v] below_mono [of "x_regs s RSP" 8 x "8 * length (v # vs)"] by auto
qed simp

lemma pushes_stack:
  "stack_at (x_mem s) (x_regs s RSP) us \<Longrightarrow> length vs + length us < 268435456 \<Longrightarrow>
   stack_at (x_mem (fold push64 vs s)) (x_regs s RSP - of_nat (8 * length vs)) (rev vs @ us)"
proof (induction vs arbitrary: s us)
  case (Cons v vs)
  have "stack_at (x_mem (push64 v s)) (x_regs (push64 v s) RSP) (v # us)"
    using stack_push [OF Cons.prems(1), of v] Cons.prems(2) by (simp add: push64_def)
  from Cons.IH [OF this] Cons.prems(2) show ?case by (simp add: algebra_simps)
qed simp

text \<open>Popping into registers other than the stack pointer.\<close>

lemma popq_simps:
  assumes "r \<noteq> RSP" "stack_at (x_mem s) (x_regs s RSP) (v # us)"
  shows "x_regs (exec1 st (Popq r) s) = (x_regs s)(r := v, RSP := x_regs s RSP + 8)" "x_mem (exec1 st (Popq r) s) = x_mem s"
    "x_rip (exec1 st (Popq r) s) = x_rip s" "x_flags (exec1 st (Popq r) s) = x_flags s"
    "x_cs (exec1 st (Popq r) s) = x_cs s" "x_ss (exec1 st (Popq r) s) = x_ss s"
  using assms(1) stack_pop [OF assms(2)] by (simp_all add: exec1_def pop64_def set_reg_def fun_upd_twist)

lemma pops:
  fixes st :: "insn \<Rightarrow> u64 \<Rightarrow> u64"
  assumes "stack_at (x_mem s) (x_regs s RSP) (vs @ us)" "length rs = length vs" "RSP \<notin> set rs"
  defines "s' \<equiv> fold (exec1 st) (map Popq rs) s"
  shows "x_regs s' RSP = x_regs s RSP + of_nat (8 * length vs)" "x_mem s' = x_mem s"
    "r \<noteq> RSP \<Longrightarrow> x_regs s' r = (case map_of (rev (zip rs vs)) r of Some v \<Rightarrow> v | None \<Rightarrow> x_regs s r)"
    "stack_at (x_mem s') (x_regs s' RSP) us"
proof -
  have "x_regs s' RSP = x_regs s RSP + of_nat (8 * length vs) \<and> x_mem s' = x_mem s \<and>
    (r \<noteq> RSP \<longrightarrow> x_regs s' r = (case map_of (rev (zip rs vs)) r of Some v \<Rightarrow> v | None \<Rightarrow> x_regs s r)) \<and>
    stack_at (x_mem s') (x_regs s' RSP) us"
    unfolding s'_def using assms(1-3)
  proof (induction rs arbitrary: s vs)
    case (Cons q rs)
    then obtain v vs' where vs: "vs = v # vs'" by (cases vs) auto
    let ?t = "exec1 st (Popq q) s"
    note p = popq_simps [of q s v "vs' @ us" st]
    have t: "q \<noteq> RSP" "stack_at (x_mem s) (x_regs s RSP) (v # vs' @ us)" using Cons.prems vs by auto
    have "stack_at (x_mem ?t) (x_regs ?t RSP) (vs' @ us)" using stack_pop [OF t(2)] p [OF t] by simp
    from Cons.IH [OF this] Cons.prems vs show ?case using p [OF t] t(1)
      by (auto simp: algebra_simps map_add_def split: option.splits)
  qed simp
  then show "x_regs s' RSP = x_regs s RSP + of_nat (8 * length vs)" "x_mem s' = x_mem s"
    "r \<noteq> RSP \<Longrightarrow> x_regs s' r = (case map_of (rev (zip rs vs)) r of Some v \<Rightarrow> v | None \<Rightarrow> x_regs s r)"
    "stack_at (x_mem s') (x_regs s' RSP) us" by blast+
qed

section \<open>Running straight-line code\<close>

definition simple :: "insn \<Rightarrow> bool" where
  "simple i \<longleftrightarrow> (case i of Jmp _ \<Rightarrow> False | Call _ \<Rightarrow> False | Ret \<Rightarrow> False | Iretq \<Rightarrow> False | _ \<Rightarrow> True)"

lemma exec_simple: "list_all simple is \<Longrightarrow> exec E n (is @ js) (s, w) = exec E n js (fold (exec1 (status E)) is s, w)"
proof (induction "is" arbitrary: s)
  case (Cons i "is")
  then show ?case by (cases i) (simp_all add: simple_def)
qed simp

lemma fold_pushq: "RSP \<notin> set rs \<Longrightarrow> fold (exec1 st) (map Pushq rs) s = fold push64 (map (x_regs s) rs) s"
proof (induction rs arbitrary: s)
  case (Cons r rs)
  have "map (x_regs (push64 (x_regs s r) s)) rs = map (x_regs s) rs" using Cons.prems by (intro map_cong) auto
  moreover have "exec1 st (Pushq r) s = push64 (x_regs s r) s" by (simp add: exec1_def)
  moreover have "RSP \<notin> set rs" using Cons.prems by simp
  ultimately show ?case using Cons.IH [of "push64 (x_regs s r) s"] by (simp only: list.map fold_simps simp_thms)
qed simp

lemma iretq_frame:
  assumes "stack_at (x_mem s) (x_regs s RSP) [ip, c, f, sp, d]"
  shows "iretq s = s\<lparr>x_regs := (x_regs s)(RSP := sp), x_rip := ip, x_flags := f, x_cs := c, x_ss := d\<rparr>"
proof -
  have "load64 (x_mem s) (x_regs s RSP + of_nat (8 * i)) = [ip, c, f, sp, d] ! i" if "i < 5" for i
    using stack_nth [OF assms, of i] that by simp
  from this [of 0] this [of 1] this [of 2] this [of 3] this [of 4] show ?thesis
    by (simp add: iretq_def pop64_def set_reg_def Let_def add.assoc)
qed

section \<open>Calling C\<close>

text \<open>
  What the entry code needs of the C functions, the calling convention: the callee-saved registers and the stack pointer come
  back as they were, and memory changes only in the \<open>depth\<close> bytes below the stack pointer and where the function is meant to
  write.
\<close>

definition callee_saved :: "reg set" where
  "callee_saved = {RBX, RBP, RSP, R12, R13, R14, R15}"

locale c_function =
  fixes depth :: nat
    and writes :: "x86 \<Rightarrow> u64 \<Rightarrow> bool"
    and c :: "x86 \<times> 'w \<Rightarrow> (x86 \<times> 'w) option"
  assumes regs_kept: "c (s, w) = Some (s', w') \<Longrightarrow> r \<in> callee_saved \<Longrightarrow> x_regs s' r = x_regs s r"
    and mem_kept: "c (s, w) = Some (s', w') \<Longrightarrow> \<not> below (x_regs s RSP) depth x \<Longrightarrow> \<not> writes s x \<Longrightarrow> x_mem s' x = x_mem s x"
begin

lemma stack_kept:
  assumes "c (s, w) = Some (s', w')" "stack_at (x_mem s) (x_regs s RSP) vs" "\<And>x. \<not> writes s x" "depth + 8 * length vs < 4294967296"
  shows "stack_at (x_mem s') (x_regs s' RSP) vs"
  using stack_above [OF assms(2), of depth "x_mem s'"] mem_kept [OF assms(1) _ assms(3)] regs_kept [OF assms(1), of RSP]
    assms(4) by (simp add: callee_saved_def)

end

text \<open>
  A compiled C function: what it leaves in the scratch registers, in the flags and in its part of the stack is unknown, given by
  the parameter \<open>scratch\<close>; the rest of the processor is as before the call.
\<close>

definition after_c :: "nat \<Rightarrow> (x86 \<Rightarrow> x86) \<Rightarrow> x86 \<Rightarrow> x86" where
  "after_c depth scratch s = s\<lparr>x_regs := (\<lambda>r. if r \<in> callee_saved then x_regs s r else x_regs (scratch s) r),
     x_mem := (\<lambda>x. if below (x_regs s RSP) depth x then x_mem (scratch s) x else x_mem s x), x_flags := x_flags (scratch s)\<rparr>"

end
