(* ===== verification/Entry.thy ===== *)
theory Entry
  imports Processor Interrupts Syscall
begin

text \<open>
  The assembly entry code: the interrupt stubs (\<open>src/kernel/arch/x86_64/isr.S\<close>), the system call stub
  (\<open>src/kernel/syscall/syscall_entry.S\<close>) and \<open>src/kernel/arch/x86_64/cpu.S\<close>, as lists of the instructions they
  consist of. The C functions they call are the dispatchers of \<open>Interrupts\<close> and \<open>Syscall\<close>.
\<close>

section \<open>The code\<close>

definition ISR_NOERR :: "nat \<Rightarrow> insn list" where
  "ISR_NOERR vector = [Push_Imm 0, Push_Imm (of_nat vector), Jmp Isr_Common]"

definition ISR_ERR :: "nat \<Rightarrow> insn list" where
  "ISR_ERR vector = [Push_Imm (of_nat vector), Jmp Isr_Common]"

definition isr_common :: "insn list" where
  "isr_common =
    [Pushq RAX, Pushq RBX, Pushq RCX, Pushq RDX, Pushq RBP, Pushq RDI, Pushq RSI, Pushq R8, Pushq R9, Pushq R10, Pushq R11,
     Pushq R12, Pushq R13, Pushq R14, Pushq R15,
     Movq RSP RDI, Call Trap_Dispatch,
     Popq R15, Popq R14, Popq R13, Popq R12, Popq R11, Popq R10, Popq R9, Popq R8, Popq RSI, Popq RDI, Popq RBP, Popq RDX,
     Popq RCX, Popq RBX, Popq RAX, Addq 16 RSP, Iretq]"

text \<open>The 32 uses of the two macros, in order.\<close>

definition isr_stubs :: "insn list list" where
  "isr_stubs = [ISR_NOERR 0, ISR_NOERR 1, ISR_NOERR 2, ISR_NOERR 3, ISR_NOERR 4, ISR_NOERR 5, ISR_NOERR 6, ISR_NOERR 7,
     ISR_ERR 8, ISR_NOERR 9, ISR_ERR 10, ISR_ERR 11, ISR_ERR 12, ISR_ERR 13, ISR_ERR 14, ISR_NOERR 15, ISR_NOERR 16,
     ISR_ERR 17, ISR_NOERR 18, ISR_NOERR 19, ISR_NOERR 20, ISR_ERR 21, ISR_NOERR 22, ISR_NOERR 23, ISR_NOERR 24,
     ISR_NOERR 25, ISR_NOERR 26, ISR_NOERR 27, ISR_NOERR 28, ISR_ERR 29, ISR_ERR 30, ISR_NOERR 31]"

text \<open>The table of the stubs' addresses, which is data.\<close>

definition x86_64_exception_stubs :: "label list" where
  "x86_64_exception_stubs = map Isr_Stub [0..<32]"

definition irq_stub :: "nat \<Rightarrow> insn list" where
  "irq_stub num = [Push_Imm 0, Push_Mem (of_nat num), Jmp Exception_Stubs]"

definition x86_64_syscall_int80_stub :: "insn list" where
  "x86_64_syscall_int80_stub =
    [Cld, Subq 64 RSP, Store RAX 0 RSP, Store RDI 8 RSP, Store RSI 16 RSP, Store RDX 24 RSP, Store R10 32 RSP, Store R8 40 RSP,
     Store R9 48 RSP, Store_Imm 0 56 RSP, Movq RSP RDI, Call Syscall_Dispatch_Frame, Load 56 RSP RAX, Addq 64 RSP, Iretq]"

definition cpu_read_rflags :: "insn list" where
  "cpu_read_rflags = [Pushfq, Popq RAX, Ret]"

definition cpu_halt_forever :: "insn list" where
  "cpu_halt_forever = [Hlt, Jmp Cpu_Halt_Forever]"

text \<open>The code in the section \<open>.text\<close>.\<close>

definition text_section :: "label \<Rightarrow> insn list option" where
  "text_section l = (case l of
     Isr_Stub n \<Rightarrow> if n < 32 then Some (isr_stubs ! n) else None
   | Isr_Common \<Rightarrow> Some isr_common
   | Syscall_Int80_Stub \<Rightarrow> Some x86_64_syscall_int80_stub
   | Cpu_Read_Rflags \<Rightarrow> Some cpu_read_rflags
   | Cpu_Halt_Forever \<Rightarrow> Some cpu_halt_forever
   | _ \<Rightarrow> None)"

text \<open>
  The stubs of the vectors 32 to 47 follow the table in \<open>.rodata\<close>, with no \<open>.section\<close> line between them, and \<open>linker.ld\<close> puts
  that section into a segment without execute permission.
\<close>

definition rodata_section :: "label \<Rightarrow> insn list option" where
  "rodata_section l = (case l of Isr_Stub n \<Rightarrow> if n \<in> set [32..<48] then Some (irq_stub n) else None | _ \<Rightarrow> None)"

section \<open>The C functions\<close>

text \<open>
  The frame as \<open>trap.c\<close> reads it, and as \<open>idt.h\<close> declares it for the same function: two structures that differ.
\<close>

record trap_frame =
  tf_r15 :: u64
  tf_r14 :: u64
  tf_r13 :: u64
  tf_r12 :: u64
  tf_r11 :: u64
  tf_r10 :: u64
  tf_r9 :: u64
  tf_r8 :: u64
  tf_rbp :: u64
  tf_rdi :: u64
  tf_rsi :: u64
  tf_rdx :: u64
  tf_rcx :: u64
  tf_rbx :: u64
  tf_rax :: u64
  tf_trap_no :: u64
  tf_error_code :: u64
  tf_rip :: u64
  tf_cs :: u64
  tf_rflags :: u64
  tf_rsp :: u64
  tf_ss :: u64

definition word_at :: "byte_mem \<Rightarrow> u64 \<Rightarrow> nat \<Rightarrow> u64" where
  "word_at m a i = load64 m (a + of_nat (8 * i))"

definition trap_frame_at :: "byte_mem \<Rightarrow> u64 \<Rightarrow> trap_frame" where
  "trap_frame_at m a = (let w = word_at m a in
     \<lparr>tf_r15 = w 0, tf_r14 = w 1, tf_r13 = w 2, tf_r12 = w 3, tf_r11 = w 4, tf_r10 = w 5, tf_r9 = w 6, tf_r8 = w 7,
      tf_rbp = w 8, tf_rdi = w 9, tf_rsi = w 10, tf_rdx = w 11, tf_rcx = w 12, tf_rbx = w 13, tf_rax = w 14, tf_trap_no = w 15,
      tf_error_code = w 16, tf_rip = w 17, tf_cs = w 18, tf_rflags = w 19, tf_rsp = w 20, tf_ss = w 21\<rparr>)"

record x86_64_trap_frame_t =
  xf_r15 :: u64
  xf_r14 :: u64
  xf_r13 :: u64
  xf_r12 :: u64
  xf_r11 :: u64
  xf_r10 :: u64
  xf_r9 :: u64
  xf_r8 :: u64
  xf_rsi :: u64
  xf_rdi :: u64
  xf_rbp :: u64
  xf_rdx :: u64
  xf_rcx :: u64
  xf_rbx :: u64
  xf_rax :: u64
  xf_vector :: u64
  xf_error_code :: u64
  xf_rip :: u64
  xf_cs :: u64
  xf_rflags :: u64

definition x86_64_trap_frame_t_at :: "byte_mem \<Rightarrow> u64 \<Rightarrow> x86_64_trap_frame_t" where
  "x86_64_trap_frame_t_at m a = (let w = word_at m a in
     \<lparr>xf_r15 = w 0, xf_r14 = w 1, xf_r13 = w 2, xf_r12 = w 3, xf_r11 = w 4, xf_r10 = w 5, xf_r9 = w 6, xf_r8 = w 7,
      xf_rsi = w 8, xf_rdi = w 9, xf_rbp = w 10, xf_rdx = w 11, xf_rcx = w 12, xf_rbx = w 13, xf_rax = w 14, xf_vector = w 15,
      xf_error_code = w 16, xf_rip = w 17, xf_cs = w 18, xf_rflags = w 19\<rparr>)"

definition trap_call :: "nat \<Rightarrow> (x86 \<Rightarrow> x86) \<Rightarrow> x86 \<times> 'a machine_scheme \<Rightarrow> (x86 \<times> 'a machine_scheme) option" where
  "trap_call depth scratch = (\<lambda>(s, m). map_option (\<lambda>m'. (after_c depth scratch s, m'))
     (x86_64_trap_dispatch (tf_trap_no (trap_frame_at (x_mem s) (x_regs s RDI))) m))"

definition frame_at :: "byte_mem \<Rightarrow> u64 \<Rightarrow> mcsos_syscall_frame" where
  "frame_at m a = \<lparr>nr = load64 m a, arg0 = load64 m (a + 8), arg1 = load64 m (a + 16), arg2 = load64 m (a + 24),
     arg3 = load64 m (a + 32), arg4 = load64 m (a + 40), arg5 = load64 m (a + 48), ret = load64 m (a + 56)\<rparr>"

definition frame_call :: "nat \<Rightarrow> (x86 \<Rightarrow> x86) \<Rightarrow> x86 \<times> 'k syscall_state \<Rightarrow> (x86 \<times> 'k syscall_state) option" where
  "frame_call depth scratch = (\<lambda>(s, k).
     (case mcsos_syscall_dispatch_frame (Some (frame_at (x_mem s) (x_regs s RDI))) k of
        Some (Some f, k') \<Rightarrow> (let s' = after_c depth scratch s in Some (s'\<lparr>x_mem := store64 (x_mem s') (x_regs s RDI + 56) (ret f)\<rparr>, k'))
      | _ \<Rightarrow> None))"

interpretation trap_c: c_function depth "\<lambda>_ _. False" "trap_call depth scratch" for depth scratch
  by unfold_locales (auto simp: trap_call_def after_c_def)

interpretation frame_c: c_function depth "\<lambda>s x. unat (x - (x_regs s RDI + 56)) < 8" "frame_call depth scratch" for depth scratch
  by unfold_locales (auto simp: frame_call_def after_c_def store64_def Let_def split: option.splits)

text \<open>The linked kernel: the assembly of this theory and the two dispatchers.\<close>

definition trap_env :: "nat \<Rightarrow> (x86 \<Rightarrow> x86) \<Rightarrow> (insn \<Rightarrow> u64 \<Rightarrow> u64) \<Rightarrow> 'a machine_scheme env" where
  "trap_env depth scratch st = \<lparr>code = text_section,
     callee = (\<lambda>f. if f = Trap_Dispatch then trap_call depth scratch else (\<lambda>_. None)), status = st\<rparr>"

definition syscall_env :: "nat \<Rightarrow> (x86 \<Rightarrow> x86) \<Rightarrow> (insn \<Rightarrow> u64 \<Rightarrow> u64) \<Rightarrow> 'k syscall_state env" where
  "syscall_env depth scratch st = \<lparr>code = text_section,
     callee = (\<lambda>f. if f = Syscall_Dispatch_Frame then frame_call depth scratch else (\<lambda>_. None)), status = st\<rparr>"

section \<open>The interrupt stubs\<close>

definition save_order :: "reg list" where
  "save_order = [RAX, RBX, RCX, RDX, RBP, RDI, RSI, R8, R9, R10, R11, R12, R13, R14, R15]"

lemma isr_common_shape:
  "isr_common = map Pushq save_order @ [Movq RSP RDI] @ [Call Trap_Dispatch] @ map Popq (rev save_order) @ [Addq 16 RSP] @ [Iretq]"
  by (simp add: isr_common_def save_order_def)

text \<open>The stack of the stub with number \<open>n\<close> after its own pushes, and at the call.\<close>

definition trap_words :: "nat \<Rightarrow> u64 option \<Rightarrow> x86 \<Rightarrow> u64 list" where
  "trap_words n err s = [of_nat n, (case err of None \<Rightarrow> 0 | Some e \<Rightarrow> e), x_rip s, x_cs s, x_flags s, x_regs s RSP, x_ss s]"

definition at_common :: "nat \<Rightarrow> u64 option \<Rightarrow> u64 \<Rightarrow> u64 \<Rightarrow> x86 \<Rightarrow> x86" where
  "at_common n err sel tgt s = (fold push64 (rev (trap_words n err s)) (set_reg RSP (x_regs s RSP AND NOT 15) s))
     \<lparr>x_rip := tgt, x_cs := sel, x_flags := x_flags s AND NOT 0x34300\<rparr>"

definition at_call :: "x86 \<Rightarrow> x86" where
  "at_call s = (let s1 = fold push64 (map (x_regs s) save_order) s in set_reg RDI (x_regs s1 RSP) s1)"

definition isr_exit :: "insn list" where
  "isr_exit = map Popq (rev save_order) @ [Addq 16 RSP] @ [Iretq]"

lemma stub_code:
  assumes "n < 32"
  shows "isr_stubs ! n = (if cpu_error_code n then ISR_ERR n else ISR_NOERR n)"
proof -
  have "list_all (\<lambda>n. isr_stubs ! n = (if cpu_error_code n then ISR_ERR n else ISR_NOERR n)) [0..<32]"
    by code_simp
  then show ?thesis using assms by (simp add: list_all_iff)
qed

lemma push64_rip: "push64 v (s\<lparr>x_rip := a, x_cs := b, x_flags := d\<rparr>) = (push64 v s)\<lparr>x_rip := a, x_cs := b, x_flags := d\<rparr>"
  by (simp add: push64_def)

lemma stub_entry:
  assumes "n < 32" "(err \<noteq> None) \<longleftrightarrow> cpu_error_code n" "code E = text_section"
  shows "exec E (Suc k) (isr_stubs ! n) (deliver err sel tgt s, w) = exec E k isr_common (at_common n err sel tgt s, w)"
  using assms(2)
  by (cases err) (simp_all add: stub_code [OF assms(1)] ISR_ERR_def ISR_NOERR_def assms(3) text_section_def exec1_def deliver_def
      at_common_def trap_words_def push64_rip Let_def)

lemma common_entry:
  "exec E k isr_common (s, w) = (case callee E Trap_Dispatch (at_call s, w) of None \<Rightarrow> No_Return | Some sw \<Rightarrow> exec E k isr_exit sw)"
proof -
  have "list_all simple (map Pushq save_order @ [Movq RSP RDI])" by (simp add: save_order_def simple_def)
  from exec_simple [OF this] have "exec E k isr_common (s, w) =
      exec E k (Call Trap_Dispatch # isr_exit) (fold (exec1 (status E)) (map Pushq save_order @ [Movq RSP RDI]) s, w)"
    by (simp only: isr_common_shape isr_exit_def append_assoc append_Cons append_Nil)
  moreover have "fold (exec1 (status E)) (map Pushq save_order @ [Movq RSP RDI]) s = at_call s"
    by (simp add: fold_pushq save_order_def at_call_def exec1_def Let_def del: fold_simps)
  ultimately show ?thesis by (simp split: option.splits)
qed

lemma at_common_simps [simp]:
  "x_regs (at_common n err sel tgt s) r = (if r = RSP then (x_regs s RSP AND NOT 15) - 56 else x_regs s r)"
  "stack_at (x_mem (at_common n err sel tgt s)) ((x_regs s RSP AND NOT 15) - 56) (trap_words n err s)"
  using pushes_stack [of "set_reg RSP (x_regs s RSP AND NOT 15) s" "[]" "rev (trap_words n err s)"]
  by (simp_all add: at_common_def trap_words_def set_reg_def stack_at_def del: fold_simps)

lemma at_call_regs [simp]:
  "x_regs (at_call s) r = (if r = RSP \<or> r = RDI then x_regs s RSP - 120 else x_regs s r)"
  by (auto simp: at_call_def set_reg_def save_order_def Let_def)

lemma at_call_stack:
  assumes "stack_at (x_mem s) (x_regs s RSP) us" "length us < 1000"
  shows "stack_at (x_mem (at_call s)) (x_regs s RSP - 120) (map (x_regs s) (rev save_order) @ us)"
  using pushes_stack [OF assms(1), of "map (x_regs s) save_order"] assms(2)
  by (simp add: at_call_def set_reg_def save_order_def Let_def del: fold_simps)

lemma at_common_mem: "\<not> below (x_regs s RSP AND NOT 15) 56 x \<Longrightarrow> x_mem (at_common n err sel tgt s) x = x_mem s x"
  using pushes_mem [of "set_reg RSP (x_regs s RSP AND NOT 15) s" "rev (trap_words n err s)" x]
  by (simp add: at_common_def trap_words_def set_reg_def del: fold_simps)

lemma at_call_mem: "\<not> below (x_regs s RSP) 120 x \<Longrightarrow> x_mem (at_call s) x = x_mem s x"
  using pushes_mem [of s "map (x_regs s) save_order" x] by (simp add: at_call_def save_order_def set_reg_def Let_def del: fold_simps)

lemma map_of_zip_rev: "map_of (rev (zip xs (map f xs))) = (Some \<circ> f) |` set xs"
proof -
  have "zip xs (map f xs) = map (\<lambda>x. (x, f x)) xs" by (induction xs) simp_all
  then show ?thesis by (simp add: rev_map map_of_map_restrict)
qed

text \<open>The way out: the registers saved come back, and the frame of the processor is popped.\<close>

lemma common_exit:
  assumes "stack_at (x_mem s) (x_regs s RSP) (map f (rev save_order) @ [v, e, ip, c, fl, sp, d])"
  shows "exec E k isr_exit (s, w) = Back (s\<lparr>x_regs := f(RSP := sp), x_rip := ip, x_flags := fl, x_cs := c, x_ss := d\<rparr>, w)"
proof -
  let ?s1 = "fold (exec1 (status E)) (map Popq (rev save_order)) s"
  let ?s2 = "exec1 (status E) (Addq 16 RSP) ?s1"
  have len: "length (rev save_order) = length (map f (rev save_order))" "RSP \<notin> set (rev save_order)"
    by (simp_all add: save_order_def)
  note p = pops [OF assms len, where st = "status E"]
  have p4: "stack_at (x_mem ?s1) (x_regs ?s1 RSP) [v, e, ip, c, fl, sp, d]" by (rule p(4))
  have "stack_at (x_mem ?s1) (x_regs ?s1 RSP + 8 + 8) [ip, c, fl, sp, d]"
    using stack_pop [OF p4] stack_pop by blast
  then have "stack_at (x_mem ?s2) (x_regs ?s2 RSP) [ip, c, fl, sp, d]"
    by (simp add: exec1_def set_reg_def set_status_def add.assoc)
  note i = iretq_frame [OF this]
  have "x_regs ?s1 r = f r" if "r \<noteq> RSP" for r
  proof -
    have "r \<in> set save_order" using that by (cases r) (simp_all add: save_order_def)
    then show ?thesis using p(3) [OF that] unfolding map_of_zip_rev by simp
  qed
  then have "(x_regs ?s2)(RSP := sp) = f(RSP := sp)" by (auto simp: exec1_def set_reg_def set_status_def)
  moreover have "x_mem ?s2 = x_mem s" using p(2) by (simp add: exec1_def set_reg_def set_status_def)
  ultimately have "iretq ?s2 = s\<lparr>x_regs := f(RSP := sp), x_rip := ip, x_flags := fl, x_cs := c, x_ss := d\<rparr>"
    using i by (cases s) (simp add: x86.defs)
  moreover have "list_all simple (map Popq (rev save_order) @ [Addq 16 RSP])" by (simp add: save_order_def simple_def)
  from exec_simple [OF this, of E k "[Iretq]" s w] have "exec E k isr_exit (s, w) = Back (iretq ?s2, w)" by (simp add: isr_exit_def)
  ultimately show ?thesis by simp
qed

lemma aligned_16: "((x AND NOT 15) - 176) AND 15 = (0 :: u64)" "((x AND NOT 15) - 104) AND 15 = (8 :: u64)"
proof -
  have m: "(15 :: u64) = mask 4" by (simp add: mask_eq_exp_minus_1)
  have e: "x AND NOT (mask 4) = push_bit 4 (drop_bit 4 x)"
    by (rule bit_word_eqI) (auto simp: bit_push_bit_iff bit_drop_bit_eq bit_and_iff bit_not_iff bit_mask_iff)
  have z: "push_bit 4 y AND mask 4 = 0" for y :: u64
    by (rule bit_word_eqI) (auto simp: bit_push_bit_iff bit_and_iff bit_mask_iff)
  have "(x AND NOT (mask 4)) - 176 = push_bit 4 (drop_bit 4 x - 11)" unfolding e by (simp add: push_bit_eq_mult algebra_simps)
  then show "((x AND NOT 15) - 176) AND 15 = (0 :: u64)" unfolding m using z by simp
  have 8: "push_bit 4 y AND 8 = 0" for y :: u64
  proof -
    have "push_bit 4 y AND 8 = (push_bit 4 y AND mask 4) AND 8" by (simp add: mask_eq_exp_minus_1 and.assoc)
    then show ?thesis unfolding z by simp
  qed
  have "(x AND NOT (mask 4)) - 104 = push_bit 4 (drop_bit 4 x - 7) + 8" unfolding e by (simp add: push_bit_eq_mult algebra_simps)
  also have "\<dots> = push_bit 4 (drop_bit 4 x - 7) OR 8" by (rule disjunctive_add_eq_or [OF 8])
  finally have "((x AND NOT (mask 4)) - 104) AND mask 4 = 8 AND mask 4" by (simp add: bit.conj_disj_distrib2 z)
  then show "((x AND NOT 15) - 104) AND 15 = (8 :: u64)" by (simp add: mask_eq_exp_minus_1)
qed

text \<open>What the C code finds at the address in its argument.\<close>

lemma words_of_stack: "stack_at m a vs \<Longrightarrow> length vs = 22 \<Longrightarrow> i < 22 \<Longrightarrow> word_at m a i = vs ! i"
  using stack_nth [of m a vs i] by (simp add: word_at_def)

lemma frame_on_stack:
  "stack_at (x_mem (at_call (at_common n err sel tgt s))) ((x_regs s RSP AND NOT 15) - 176)
     (map (x_regs s) (rev save_order) @ trap_words n err s)"
proof -
  let ?s = "at_common n err sel tgt s"
  have eq: "map (x_regs ?s) (rev save_order) = map (x_regs s) (rev save_order)" by (rule map_cong) (auto simp: save_order_def)
  have "stack_at (x_mem ?s) (x_regs ?s RSP) (trap_words n err s)"
    by (simp only: at_common_simps simp_thms if_True)
  from at_call_stack [OF this] have
    "stack_at (x_mem (at_call ?s)) (x_regs ?s RSP - 120) (map (x_regs ?s) (rev save_order) @ trap_words n err s)"
    by (simp add: trap_words_def)
  then show ?thesis unfolding eq by simp
qed

text \<open>A processor to try the stubs on: \<open>rsi\<close> and \<open>rbp\<close> differ, the stack is not aligned.\<close>

definition demo_x86 :: x86 where
  "demo_x86 = \<lparr>x_regs = (\<lambda>_. 0)(RSP := 0x7FF8, RSI := 0x51, RBP := 0xB9), x_mem = (\<lambda>_. 0), x_rip = 0x401000, x_flags = 0x202,
     x_cs = 0x28, x_ss = 0x30\<rparr>"

text \<open>
  C35. For each of the 32 exceptions, with an error code exactly where the processor pushes one, and for any code behind
  \<open>x86_64_trap_dispatch\<close>: the stub and \<open>isr_common\<close> call it once, with the stack aligned to 16 bytes and the stack pointer as
  argument, and what lies there is the interrupted state: \<open>x86_64_trap_frame_t\<close> of \<open>idt.h\<close> read from it has every register, the
  vector, the error code (0 if there is none) and the frame of the processor in place. \<open>struct trap_frame\<close> of \<open>trap.c\<close> has too,
  except that its \<open>rbp\<close> is \<open>rsi\<close> and its \<open>rsi\<close> is \<open>rbp\<close>.
\<close>

theorem exception_frame:
  assumes "n < 32" "(err \<noteq> None) \<longleftrightarrow> cpu_error_code n" "code E = text_section"
  shows "\<exists>s1. exec E (Suc k) (isr_stubs ! n) (deliver err sel tgt s, w) =
      (case callee E Trap_Dispatch (s1, w) of None \<Rightarrow> No_Return | Some sw \<Rightarrow> exec E k isr_exit sw) \<and>
    x_regs s1 RDI = x_regs s1 RSP \<and> x_regs s1 RSP AND 15 = 0 \<and>
    trap_frame_at (x_mem s1) (x_regs s1 RDI) =
      \<lparr>tf_r15 = x_regs s R15, tf_r14 = x_regs s R14, tf_r13 = x_regs s R13, tf_r12 = x_regs s R12, tf_r11 = x_regs s R11,
       tf_r10 = x_regs s R10, tf_r9 = x_regs s R9, tf_r8 = x_regs s R8, tf_rbp = x_regs s RSI, tf_rdi = x_regs s RDI,
       tf_rsi = x_regs s RBP, tf_rdx = x_regs s RDX, tf_rcx = x_regs s RCX, tf_rbx = x_regs s RBX, tf_rax = x_regs s RAX,
       tf_trap_no = of_nat n, tf_error_code = (case err of None \<Rightarrow> 0 | Some e \<Rightarrow> e), tf_rip = x_rip s, tf_cs = x_cs s,
       tf_rflags = x_flags s, tf_rsp = x_regs s RSP, tf_ss = x_ss s\<rparr> \<and>
    x86_64_trap_frame_t_at (x_mem s1) (x_regs s1 RDI) =
      \<lparr>xf_r15 = x_regs s R15, xf_r14 = x_regs s R14, xf_r13 = x_regs s R13, xf_r12 = x_regs s R12, xf_r11 = x_regs s R11,
       xf_r10 = x_regs s R10, xf_r9 = x_regs s R9, xf_r8 = x_regs s R8, xf_rsi = x_regs s RSI, xf_rdi = x_regs s RDI,
       xf_rbp = x_regs s RBP, xf_rdx = x_regs s RDX, xf_rcx = x_regs s RCX, xf_rbx = x_regs s RBX, xf_rax = x_regs s RAX,
       xf_vector = of_nat n, xf_error_code = (case err of None \<Rightarrow> 0 | Some e \<Rightarrow> e), xf_rip = x_rip s, xf_cs = x_cs s,
       xf_rflags = x_flags s\<rparr>"
proof -
  let ?s1 = "at_call (at_common n err sel tgt s)"
  have "word_at (x_mem ?s1) ((x_regs s RSP AND NOT 15) - 176) i = (map (x_regs s) (rev save_order) @ trap_words n err s) ! i"
    if "i < 22" for i
    by (rule words_of_stack [OF frame_on_stack]) (simp_all add: save_order_def trap_words_def that)
  then show ?thesis
    using stub_entry [OF assms] common_entry aligned_16
    by (intro exI [of _ ?s1]) (simp add: trap_frame_at_def x86_64_trap_frame_t_at_def Let_def save_order_def trap_words_def)
qed

theorem exception_frame_witness:
  "\<exists>s1. exec (trap_env 64 id (\<lambda>_ _. 0)) 1 (isr_stubs ! 14) (deliver (Some 2) 0x28 0x9000 demo_x86, demo_cpu) =
      (case trap_call 64 id (s1, demo_cpu) of None \<Rightarrow> No_Return | Some sw \<Rightarrow> exec (trap_env 64 id (\<lambda>_ _. 0)) 0 isr_exit sw) \<and>
    tf_trap_no (trap_frame_at (x_mem s1) (x_regs s1 RDI)) = 14 \<and> tf_error_code (trap_frame_at (x_mem s1) (x_regs s1 RDI)) = 2 \<and>
    tf_rbp (trap_frame_at (x_mem s1) (x_regs s1 RDI)) = 0x51 \<and> xf_rbp (x86_64_trap_frame_t_at (x_mem s1) (x_regs s1 RDI)) = 0xB9"
proof -
  have h: "(14 :: nat) < 32" "(Some (2 :: u64) \<noteq> None) \<longleftrightarrow> cpu_error_code 14" "code (trap_env 64 id (\<lambda>_ _. 0)) = text_section"
    and c: "callee (trap_env 64 id (\<lambda>_ _. 0)) Trap_Dispatch = trap_call 64 id"
    by (simp_all add: cpu_error_code_def trap_env_def)
  show ?thesis
    using exception_frame [OF h, of 0 "0x28" "0x9000" demo_x86 demo_cpu] unfolding c
    by (elim ex_forward conjE) (simp add: demo_x86_def)
qed

text \<open>
  C36. Taking an exception and coming back. With the dispatcher of \<open>trap.c\<close>, whatever the C code leaves in the scratch
  registers, in the flags and in the \<open>depth\<close> bytes below its stack pointer: the dispatcher runs on the vector, and if it
  returns, so does the stub, with every register, the flags, \<open>cs\<close>, \<open>ss\<close>, the instruction and the stack pointer as they were and
  the memory unchanged but for the part of the stack that was free. If it does not return, neither does the stub. One jump
  is enough, so the fuel is any positive number.
\<close>

theorem exception_roundtrip:
  assumes "n < 32" "(err \<noteq> None) \<longleftrightarrow> cpu_error_code n" "depth < 2147483648"
  shows "case x86_64_trap_dispatch (of_nat n) w of
      None \<Rightarrow> exec (trap_env depth scratch st) (Suc k) (isr_stubs ! n) (deliver err sel tgt s, w) = No_Return
    | Some w' \<Rightarrow> \<exists>m. exec (trap_env depth scratch st) (Suc k) (isr_stubs ! n) (deliver err sel tgt s, w) = Back (s\<lparr>x_mem := m\<rparr>, w') \<and>
        (\<forall>x. \<not> below (x_regs s RSP AND NOT 15) (176 + depth) x \<longrightarrow> m x = x_mem s x)"
proof -
  let ?E = "trap_env depth scratch st"
  let ?a = "x_regs s RSP AND NOT 15"
  let ?s0 = "at_common n err sel tgt s"
  let ?s1 = "at_call ?s0"
  let ?s2 = "after_c depth scratch ?s1"
  have E: "code ?E = text_section" "callee ?E Trap_Dispatch = trap_call depth scratch" by (simp_all add: trap_env_def)
  have run: "exec ?E (Suc k) (isr_stubs ! n) (deliver err sel tgt s, w) =
      (case trap_call depth scratch (?s1, w) of None \<Rightarrow> No_Return | Some sw \<Rightarrow> exec ?E k isr_exit sw)"
    by (simp only: stub_entry [OF assms(1,2) E(1)] common_entry E(2))
  have "word_at (x_mem ?s1) (?a - 176) 15 = (map (x_regs s) (rev save_order) @ trap_words n err s) ! 15"
    by (rule words_of_stack [OF frame_on_stack]) (simp_all add: save_order_def trap_words_def)
  then have c: "trap_call depth scratch (?s1, w) = map_option (\<lambda>w'. (?s2, w')) (x86_64_trap_dispatch (of_nat n) w)"
    by (simp add: trap_call_def trap_frame_at_def Let_def save_order_def trap_words_def)
  show ?thesis
  proof (cases "x86_64_trap_dispatch (of_nat n) w")
    case None
    then show ?thesis using run c by simp
  next
    case (Some w')
    have cs: "trap_call depth scratch (?s1, w) = Some (?s2, w')" using c Some by simp
    have "stack_at (x_mem ?s2) (x_regs ?s2 RSP) (map (x_regs s) (rev save_order) @ trap_words n err s)"
      by (rule trap_c.stack_kept [OF cs]) (use frame_on_stack assms(3) in \<open>simp_all add: save_order_def trap_words_def\<close>)
    note out = common_exit [OF this [unfolded trap_words_def], of ?E k w']
    have "?s2\<lparr>x_regs := (x_regs s)(RSP := x_regs s RSP), x_rip := x_rip s, x_flags := x_flags s, x_cs := x_cs s, x_ss := x_ss s\<rparr>
        = s\<lparr>x_mem := x_mem ?s2\<rparr>" by (rule x86.equality) simp_all
    with out have "exec ?E k isr_exit (?s2, w') = Back (s\<lparr>x_mem := x_mem ?s2\<rparr>, w')" by (simp only:)
    moreover have "x_mem ?s2 x = x_mem s x" if "\<not> below ?a (176 + depth) x" for x
    proof -
      have "\<not> below ?a 56 x" "\<not> below (?a - 56) 120 x" "\<not> below (?a - 176) depth x"
        using that below_mono [of ?a] below_down [of ?a 56 120 x] below_down [of ?a 176 depth x] by (auto simp: add.commute)
      then show ?thesis using at_common_mem at_call_mem [of ?s0 x] trap_c.mem_kept [OF cs, of x] by simp
    qed
    ultimately show ?thesis using Some run cs by auto
  qed
qed

theorem exception_roundtrip_witness:
  "(\<exists>m. exec (trap_env 64 id (\<lambda>_ _. 0)) 1 (isr_stubs ! 3) (deliver None 0x28 0x9000 demo_x86, demo_cpu) =
      Back (demo_x86\<lparr>x_mem := m\<rparr>, demo_cpu)) \<and>
   exec (trap_env 64 id (\<lambda>_ _. 0)) 1 (isr_stubs ! 13) (deliver (Some 0) 0x28 0x9000 demo_x86, demo_cpu) = No_Return"
proof -
  have h: "(3 :: nat) < 32" "((None :: u64 option) \<noteq> None) \<longleftrightarrow> cpu_error_code 3" "(64 :: nat) < 2147483648"
    "(13 :: nat) < 32" "(Some (0 :: u64) \<noteq> None) \<longleftrightarrow> cpu_error_code 13" by (simp_all add: cpu_error_code_def)
  have d: "x86_64_trap_dispatch (of_nat 3) demo_cpu = Some demo_cpu" "x86_64_trap_dispatch (of_nat 13) demo_cpu = None"
    by (simp_all add: x86_64_trap_dispatch_def)
  show ?thesis
    using exception_roundtrip [OF h(1-3), where k = 0 and w = demo_cpu and scratch = id and st = "\<lambda>_ _. 0" and s = demo_x86 and sel = "0x28" and tgt = "0x9000"]
      exception_roundtrip [OF h(4,5,3), where k = 0 and w = demo_cpu and scratch = id and st = "\<lambda>_ _. 0" and s = demo_x86 and sel = "0x28" and tgt = "0x9000"]
    unfolding d by auto
qed

section \<open>The stubs of the hardware interrupts\<close>

text \<open>What the delivery leaves: the frame of the processor at the stack pointer.\<close>

lemma deliver_simps:
  "x_regs (deliver None sel tgt s) r = (if r = RSP then (x_regs s RSP AND NOT 15) - 40 else x_regs s r)"
  "stack_at (x_mem (deliver None sel tgt s)) ((x_regs s RSP AND NOT 15) - 40) [x_rip s, x_cs s, x_flags s, x_regs s RSP, x_ss s]"
  "\<not> below (x_regs s RSP AND NOT 15) 40 x \<Longrightarrow> x_mem (deliver None sel tgt s) x = x_mem s x"
  using pushes_stack [of "set_reg RSP (x_regs s RSP AND NOT 15) s" "[]" "[x_ss s, x_regs s RSP, x_flags s, x_cs s, x_rip s]"]
    pushes_mem [of "set_reg RSP (x_regs s RSP AND NOT 15) s" "[x_ss s, x_regs s RSP, x_flags s, x_cs s, x_rip s]" x]
  by (simp_all add: deliver_def set_reg_def stack_at_def Let_def del: fold_simps)

text \<open>
  C37. No hardware interrupt gets through. \<open>kmain\<close> puts the stub of each vector from 32 to 47 into its gate, but the stub is in the
  section \<open>.rodata\<close>; and if it is executed all the same, it pushes the 8 bytes at the address \<open>n\<close> instead of the vector \<open>n\<close> and
  jumps into the table of the exception stubs, which is not code. Whatever the C functions are, none is called, and the
  machine is as before: no tick is counted and no end of interrupt is sent.
\<close>

theorem irq_entry_never_dispatches:
  assumes "length (idt c) = 48" "pic_reads k1 (device c)" "32 \<le> n" "n < 48" "code E = text_section"
  shows "\<exists>c1. kmain table stub c = Some c1 \<and> gate_offset (idt c1 ! n) = stub n \<and>
    text_section (Isr_Stub n) = None \<and> rodata_section (Isr_Stub n) = Some (irq_stub n) \<and>
    (\<exists>s1. exec E k (irq_stub n) (deliver None (ucast (kernel_cs (idt c1 ! n))) (gate_offset (idt c1 ! n)) s, c1) = Stuck (s1, c1) \<and>
      stack_at (x_mem s1) (x_regs s1 RSP)
        [load64 (x_mem (push64 0 (deliver None (ucast (kernel_cs (idt c1 ! n))) (gate_offset (idt c1 ! n)) s))) (of_nat n),
         0, x_rip s, x_cs s, x_flags s, x_regs s RSP, x_ss s])"
proof -
  obtain a b where k: "kmain table stub c = Some (c\<lparr>cpu_rflags := (cpu_rflags c AND NOT 0x200) OR 0x200,
      io_trace := io_trace c @ boot_events a b, idt := fold (\<lambda>n t. t[n := stub_gate (stub n)]) idt_vectors (idt c),
      idtr_limit := 767, idtr_base := table, idt_base_for_test := table, idt_limit_for_test := 767, idt_loaded := Some (767, table)\<rparr>)"
    (is "_ = Some ?c1") by (rule kmain_state [OF assms(1,2)])
  have v: "idt_vectors = 14 # [32..<48]" by (simp add: idt_vectors_def upt_rec)
  have "n \<in> set idt_vectors" unfolding v list.set(2) set_upt using assms(3,4) by simp
  then have g: "gate_offset (idt ?c1 ! n) = stub n"
    using gates_of_boot [OF assms(1)] stub_gate_offset by simp
  let ?s0 = "deliver None (ucast (kernel_cs (idt ?c1 ! n))) (gate_offset (idt ?c1 ! n)) s"
  let ?v = "load64 (x_mem (push64 0 ?s0)) (of_nat n)"
  have e: "exec E k (irq_stub n) (?s0, ?c1) = Stuck (push64 ?v (push64 0 ?s0), ?c1)"
    by (simp add: irq_stub_def exec1_def assms(5) text_section_def)
  have st: "stack_at (x_mem (fold push64 [0, ?v] ?s0)) (x_regs ?s0 RSP - of_nat (8 * length [0, ?v]))
      (rev [0, ?v] @ [x_rip s, x_cs s, x_flags s, x_regs s RSP, x_ss s])"
    by (rule pushes_stack) (simp_all only: deliver_simps if_True simp_thms, simp)
  have "text_section (Isr_Stub n) = None" using assms(3) by (simp add: text_section_def)
  moreover have "rodata_section (Isr_Stub n) = Some (irq_stub n)"
    unfolding rodata_section_def set_upt using assms(3,4) by simp
  ultimately show ?thesis using k g e st by auto
qed

theorem irq_entry_never_dispatches_witness:
  "\<exists>c1 s1. kmain 0x9000 (\<lambda>n. 0x1000 + 16 * of_nat n) demo_cpu = Some c1 \<and> gate_offset (idt c1 ! 32) = 0x1200 \<and>
     exec (trap_env 64 id (\<lambda>_ _. 0)) 5 (irq_stub 32) (deliver None (ucast (kernel_cs (idt c1 ! 32))) 0x1200 demo_x86, c1) = Stuck (s1, c1)"
proof -
  have h: "length (idt demo_cpu) = 48" "pic_reads quiet_chip (device demo_cpu)" "(32 :: nat) \<le> 32" "(32 :: nat) < 48"
    "code (trap_env 64 id (\<lambda>_ _. 0)) = text_section" by (simp_all add: demo_cpu_def pic_reads_def trap_env_def)
  show ?thesis
    using irq_entry_never_dispatches [OF h, of "0x9000" "\<lambda>n. 0x1000 + 16 * of_nat n" 5 demo_x86] by auto
qed

section \<open>The system call stub\<close>

definition at_dispatch :: "(insn \<Rightarrow> u64 \<Rightarrow> u64) \<Rightarrow> x86 \<Rightarrow> x86" where
  "at_dispatch st s = fold (exec1 st) (take 11 x86_64_syscall_int80_stub) s"

definition call_words :: "x86 \<Rightarrow> u64 list" where
  "call_words s = map (x_regs s) [RAX, RDI, RSI, RDX, R10, R8, R9] @ [0]"

lemma syscall_entry:
  "exec E k x86_64_syscall_int80_stub (s, w) = (case callee E Syscall_Dispatch_Frame (at_dispatch (status E) s, w) of
     None \<Rightarrow> No_Return | Some sw \<Rightarrow> exec E k [Load 56 RSP RAX, Addq 64 RSP, Iretq] sw)"
proof -
  have "list_all simple (take 11 x86_64_syscall_int80_stub)" by (simp add: x86_64_syscall_int80_stub_def simple_def)
  moreover have "x86_64_syscall_int80_stub = take 11 x86_64_syscall_int80_stub @
      [Call Syscall_Dispatch_Frame, Load 56 RSP RAX, Addq 64 RSP, Iretq]"
    by (simp add: x86_64_syscall_int80_stub_def)
  ultimately have "exec E k x86_64_syscall_int80_stub (s, w) =
      exec E k [Call Syscall_Dispatch_Frame, Load 56 RSP RAX, Addq 64 RSP, Iretq] (at_dispatch (status E) s, w)"
    unfolding at_dispatch_def using exec_simple by metis
  then show ?thesis by (simp split: option.splits)
qed

lemma at_dispatch_simps:
  "x_regs (at_dispatch st s) r = (if r = RSP \<or> r = RDI then x_regs s RSP - 64 else x_regs s r)"
  "x_mem (at_dispatch st s) = fill (x_regs s RSP - 64) (call_words s) (x_mem s)"
  "x_rip (at_dispatch st s) = x_rip s" "x_cs (at_dispatch st s) = x_cs s" "x_ss (at_dispatch st s) = x_ss s"
  "x_flags (at_dispatch st s) AND 0x400 = 0"
proof -
  show "x_flags (at_dispatch st s) AND 0x400 = 0"
    by (simp add: at_dispatch_def x86_64_syscall_int80_stub_def exec1_def set_reg_def set_status_def
        bit.conj_disj_distrib2 and.assoc)
qed (simp_all add: at_dispatch_def x86_64_syscall_int80_stub_def exec1_def set_reg_def set_status_def fill_def call_words_def add.commute)

text \<open>The way out: the result is in the last word of the frame.\<close>

lemma syscall_exit:
  assumes "stack_at (x_mem s) (x_regs s RSP) (vs @ r # [ip, c, fl, sp, d])" "length vs = 7"
  shows "exec E k [Load 56 RSP RAX, Addq 64 RSP, Iretq] (s, w) =
    Back (s\<lparr>x_regs := (x_regs s)(RAX := r, RSP := sp), x_rip := ip, x_flags := fl, x_cs := c, x_ss := d\<rparr>, w)"
proof -
  have w: "load64 (x_mem s) (x_regs s RSP + of_nat (8 * i)) = (vs @ r # [ip, c, fl, sp, d]) ! i" if "i < 13" for i
    using stack_nth [OF assms(1), of i] that assms(2) by simp
  let ?s = "exec1 (status E) (Addq 64 RSP) (exec1 (status E) (Load 56 RSP RAX) s)"
  have "stack_at (x_mem ?s) (x_regs ?s RSP) [ip, c, fl, sp, d]"
    unfolding stack_at_def
  proof (intro allI impI)
    fix i assume "i < length [ip, c, fl, sp, d]"
    then show "load64 (x_mem ?s) (x_regs ?s RSP + of_nat (8 * i)) = [ip, c, fl, sp, d] ! i"
      using w [of "8 + i"] assms(2) by (simp add: exec1_def set_reg_def set_status_def nth_append algebra_simps)
  qed
  note i = iretq_frame [OF this]
  have "load64 (x_mem s) (x_regs s RSP + 56) = r" using w [of 7] assms(2) by (simp add: nth_append)
  then have "iretq ?s = s\<lparr>x_regs := (x_regs s)(RAX := r, RSP := sp), x_rip := ip, x_flags := fl, x_cs := c, x_ss := d\<rparr>"
    unfolding i by (intro x86.equality) (simp_all add: exec1_def set_reg_def set_status_def fun_upd_twist)
  then show ?thesis by simp
qed

text \<open>The processor when the C function is called.\<close>

lemma syscall_call:
  fixes s sel tgt st
  defines "s1 \<equiv> at_dispatch st (deliver None sel tgt s)"
  shows "x_regs s1 RSP = (x_regs s RSP AND NOT 15) - 104" "x_regs s1 RDI = (x_regs s RSP AND NOT 15) - 104"
    "stack_at (x_mem s1) ((x_regs s RSP AND NOT 15) - 104) (call_words s @ [x_rip s, x_cs s, x_flags s, x_regs s RSP, x_ss s])"
    "frame_at (x_mem s1) (x_regs s1 RDI) = \<lparr>nr = x_regs s RAX, arg0 = x_regs s RDI, arg1 = x_regs s RSI, arg2 = x_regs s RDX,
      arg3 = x_regs s R10, arg4 = x_regs s R8, arg5 = x_regs s R9, ret = 0\<rparr>"
    "\<not> below (x_regs s RSP AND NOT 15) 104 x \<Longrightarrow> x_mem s1 x = x_mem s x"
proof -
  let ?s0 = "deliver None sel tgt s"
  let ?a = "x_regs s RSP AND NOT 15"
  have words: "call_words ?s0 = call_words s" by (simp add: call_words_def deliver_simps)
  show regs: "x_regs s1 RSP = ?a - 104" "x_regs s1 RDI = ?a - 104" by (simp_all add: s1_def at_dispatch_simps deliver_simps)
  show st1: "stack_at (x_mem s1) (?a - 104) (call_words s @ [x_rip s, x_cs s, x_flags s, x_regs s RSP, x_ss s])"
    unfolding s1_def at_dispatch_simps words
    using fill_stack [of "x_mem ?s0" "?a - 104" "call_words s"] deliver_simps(2) [of sel tgt s]
    by (simp add: deliver_simps(1) call_words_def)
  show "frame_at (x_mem s1) (x_regs s1 RDI) = \<lparr>nr = x_regs s RAX, arg0 = x_regs s RDI, arg1 = x_regs s RSI,
      arg2 = x_regs s RDX, arg3 = x_regs s R10, arg4 = x_regs s R8, arg5 = x_regs s R9, ret = 0\<rparr>"
    using stack_nth [OF st1, of 0] stack_nth [OF st1, of 1] stack_nth [OF st1, of 2] stack_nth [OF st1, of 3]
      stack_nth [OF st1, of 4] stack_nth [OF st1, of 5] stack_nth [OF st1, of 6] stack_nth [OF st1, of 7]
    by (simp add: frame_at_def regs call_words_def)
  assume x: "\<not> below ?a 104 x"
  have "\<not> below ?a 40 x" "\<not> below (?a - 40) 64 x"
    using x below_mono [of ?a] below_down [of ?a 40 64 x] by auto
  then show "x_mem s1 x = x_mem s x"
    using fill_mem [of "call_words s" 8 "?a - 104" x] deliver_simps(3) [of s x]
    by (simp add: s1_def at_dispatch_simps words deliver_simps(1)) (simp add: call_words_def)
qed

text \<open>The processor when the C function has returned with the result \<open>r\<close>, and behind the \<open>iretq\<close>.\<close>

definition syscall_return :: "nat \<Rightarrow> (x86 \<Rightarrow> x86) \<Rightarrow> u64 \<Rightarrow> x86 \<Rightarrow> x86" where
  "syscall_return depth scratch r s = (let s' = after_c depth scratch s in s'\<lparr>x_mem := store64 (x_mem s') (x_regs s RDI + 56) r\<rparr>)"

lemma syscall_back:
  fixes s sel tgt st r scratch
  assumes "depth < 2147483648"
  defines "s1 \<equiv> at_dispatch st (deliver None sel tgt s)"
  defines "m \<equiv> x_mem (syscall_return depth scratch r s1)"
  shows "exec E j [Load 56 RSP RAX, Addq 64 RSP, Iretq] (syscall_return depth scratch r s1, w) =
      Back (s\<lparr>x_regs := (\<lambda>q. if q = RAX then r else if q \<in> callee_saved then x_regs s q else x_regs (scratch s1) q), x_mem := m\<rparr>, w)"
    "\<not> below (x_regs s RSP AND NOT 15) (104 + depth) x \<Longrightarrow> m x = x_mem s x"
proof -
  let ?a = "x_regs s RSP AND NOT 15"
  let ?cpu = "[x_rip s, x_cs s, x_flags s, x_regs s RSP, x_ss s]"
  let ?s2 = "after_c depth scratch s1"
  note c = syscall_call [where st = st and sel = sel and tgt = tgt and s = s, folded s1_def]
  have m: "m = store64 (x_mem ?s2) (?a - 104 + of_nat (8 * 7)) r"
    by (simp add: m_def syscall_return_def Let_def c(2))
  have "stack_at (x_mem ?s2) (?a - 104) (call_words s @ ?cpu)"
    by (rule stack_above [OF c(3), of depth]) (use assms(1) in \<open>simp_all add: after_c_def c(1) call_words_def\<close>)
  from stack_store [OF this, of 7 r]
  have "stack_at m (?a - 104) (map (x_regs s) [RAX, RDI, RSI, RDX, R10, R8, R9] @ r # ?cpu)"
    unfolding m by (simp add: call_words_def)
  moreover have "x_mem (syscall_return depth scratch r s1) = m" "x_regs (syscall_return depth scratch r s1) RSP = ?a - 104"
    by (simp_all add: m_def syscall_return_def Let_def after_c_def c(1) callee_saved_def)
  ultimately have "exec E j [Load 56 RSP RAX, Addq 64 RSP, Iretq] (syscall_return depth scratch r s1, w) =
    Back ((syscall_return depth scratch r s1)\<lparr>x_regs := (x_regs (syscall_return depth scratch r s1))(RAX := r, RSP := x_regs s RSP),
      x_rip := x_rip s, x_flags := x_flags s, x_cs := x_cs s, x_ss := x_ss s\<rparr>, w)"
    by (intro syscall_exit [of _ "map (x_regs s) [RAX, RDI, RSI, RDX, R10, R8, R9]"]) simp_all
  moreover have "x_regs s1 q = x_regs s q" if "q \<in> callee_saved" "q \<noteq> RSP" for q
    using that by (auto simp: s1_def at_dispatch_simps deliver_simps callee_saved_def)
  then have "(syscall_return depth scratch r s1)\<lparr>x_regs := (x_regs (syscall_return depth scratch r s1))(RAX := r, RSP := x_regs s RSP),
      x_rip := x_rip s, x_flags := x_flags s, x_cs := x_cs s, x_ss := x_ss s\<rparr> =
    s\<lparr>x_regs := (\<lambda>q. if q = RAX then r else if q \<in> callee_saved then x_regs s q else x_regs (scratch s1) q), x_mem := m\<rparr>"
    by (intro x86.equality) (auto simp: m_def syscall_return_def Let_def after_c_def callee_saved_def fun_eq_iff)
  ultimately show "exec E j [Load 56 RSP RAX, Addq 64 RSP, Iretq] (syscall_return depth scratch r s1, w) =
      Back (s\<lparr>x_regs := (\<lambda>q. if q = RAX then r else if q \<in> callee_saved then x_regs s q else x_regs (scratch s1) q), x_mem := m\<rparr>, w)"
    by (simp only:)
  assume x: "\<not> below ?a (104 + depth) x"
  have "\<not> below ?a 104 x" "\<not> below (?a - 104) depth x" "\<not> below (?a - 104 + of_nat (8 * 8)) (8 * 8) x"
    using x below_mono [of ?a] below_down [of ?a 104 depth x] below_down [of ?a 40 64 x] by (auto simp: add.commute)
  then show "m x = x_mem s x" using c(5) store_mem [of 7 8 "?a - 104" x] unfolding m by (simp add: after_c_def c(1))
qed

text \<open>
  C38. The system call stub on an \<open>int 0x80\<close>: the C code finds \<open>rax\<close> as number and \<open>rdi, rsi, rdx, r10, r8, r9\<close> as arguments, with the
  direction flag clear, on a stack that is 8 bytes off the 16 the calling convention asks for. Then the caller goes on
  behind its instruction with the result of \<open>mcsos_syscall_dispatch\<close> in \<open>rax\<close>, with \<open>rbx, rbp, r12\<close> to \<open>r15\<close>, the flags, the segments
  and the stack as they were; but \<open>rcx, rdx, rsi, rdi\<close> and \<open>r8\<close> to \<open>r11\<close> hold what the C code left in them. If the call does
  not return, the stub does not either.
\<close>

theorem syscall_stub_contract:
  assumes "depth < 2147483648"
  shows "\<exists>s1. x_regs s1 RSP AND 15 = 8 \<and> x_flags s1 AND 0x400 = 0 \<and>
    frame_at (x_mem s1) (x_regs s1 RDI) = \<lparr>nr = x_regs s RAX, arg0 = x_regs s RDI, arg1 = x_regs s RSI, arg2 = x_regs s RDX,
      arg3 = x_regs s R10, arg4 = x_regs s R8, arg5 = x_regs s R9, ret = 0\<rparr> \<and>
    (case mcsos_syscall_dispatch (x_regs s RAX) (map (x_regs s) [RDI, RSI, RDX, R10, R8, R9]) k of
       None \<Rightarrow> exec (syscall_env depth scratch st) j x86_64_syscall_int80_stub (deliver None sel tgt s, k) = No_Return
     | Some (r, k') \<Rightarrow> \<exists>m. exec (syscall_env depth scratch st) j x86_64_syscall_int80_stub (deliver None sel tgt s, k) =
         Back (s\<lparr>x_regs := (\<lambda>q. if q = RAX then r else if q \<in> callee_saved then x_regs s q else x_regs (scratch s1) q),
           x_mem := m\<rparr>, k') \<and>
         (\<forall>x. \<not> below (x_regs s RSP AND NOT 15) (104 + depth) x \<longrightarrow> m x = x_mem s x))"
proof -
  let ?E = "syscall_env depth scratch st"
  let ?a = "x_regs s RSP AND NOT 15"
  let ?s1 = "at_dispatch st (deliver None sel tgt s)"
  let ?s2 = "after_c depth scratch ?s1"
  let ?cpu = "[x_rip s, x_cs s, x_flags s, x_regs s RSP, x_ss s]"
  note c = syscall_call [where st = st and sel = sel and tgt = tgt and s = s]
  have E: "status ?E = st" "callee ?E Syscall_Dispatch_Frame = frame_call depth scratch" by (simp_all add: syscall_env_def)
  have run: "exec ?E j x86_64_syscall_int80_stub (deliver None sel tgt s, k) = (case frame_call depth scratch (?s1, k) of
      None \<Rightarrow> No_Return | Some sw \<Rightarrow> exec ?E j [Load 56 RSP RAX, Addq 64 RSP, Iretq] sw)"
    by (simp only: syscall_entry E)
  show ?thesis
  proof (intro exI [of _ ?s1] conjI)
    show "x_regs ?s1 RSP AND 15 = 8" unfolding c(1) by (rule aligned_16)
    show "x_flags ?s1 AND 0x400 = 0" by (rule at_dispatch_simps)
  next
    show "case mcsos_syscall_dispatch (x_regs s RAX) (map (x_regs s) [RDI, RSI, RDX, R10, R8, R9]) k of
       None \<Rightarrow> exec ?E j x86_64_syscall_int80_stub (deliver None sel tgt s, k) = No_Return
     | Some (r, k') \<Rightarrow> \<exists>m. exec ?E j x86_64_syscall_int80_stub (deliver None sel tgt s, k) =
         Back (s\<lparr>x_regs := (\<lambda>q. if q = RAX then r else if q \<in> callee_saved then x_regs s q else x_regs (scratch ?s1) q),
           x_mem := m\<rparr>, k') \<and> (\<forall>x. \<not> below ?a (104 + depth) x \<longrightarrow> m x = x_mem s x)"
      (is "case ?d of None \<Rightarrow> _ | Some _ \<Rightarrow> _")
    proof (cases ?d)
      case None
      then show ?thesis using c(4) by (simp add: run frame_call_def mcsos_syscall_dispatch_frame_def)
    next
      case (Some rk)
      obtain r k' where rk: "rk = (r, k')" by (cases rk)
      have f: "frame_call depth scratch (?s1, k) = Some (syscall_return depth scratch r ?s1, k')"
        using Some c(4) by (simp add: rk frame_call_def mcsos_syscall_dispatch_frame_def syscall_return_def Let_def)
      show ?thesis
        unfolding Some rk option.case prod.case run f
        using syscall_back(1) [OF assms, of ?E j scratch r st sel tgt s k']
          syscall_back(2) [OF assms, where scratch = scratch and r = r and st = st and sel = sel and tgt = tgt and s = s]
        by blast
    qed
  qed (rule c(4))
qed

theorem syscall_stub_contract_witness:
  "\<exists>s1 m. exec (syscall_env 64 (\<lambda>s. s\<lparr>x_regs := \<lambda>_. 0xBAD\<rparr>) (\<lambda>_ _. 0)) 0 x86_64_syscall_int80_stub
       (deliver None 0x28 0x9000 demo_x86, demo_syscall_state) = Back (s1, demo_syscall_state) \<and>
     x_regs s1 RAX = 0x2605020A \<and> x_regs s1 RBP = 0xB9 \<and> x_regs s1 RSI = 0xBAD \<and> x_rip s1 = 0x401000"
proof -
  have d: "(64 :: nat) < 2147483648" by simp
  have p: "mcsos_syscall_dispatch (x_regs demo_x86 RAX) args demo_syscall_state = Some (0x2605020A, demo_syscall_state)" for args
    by (simp add: demo_x86_def mcsos_syscall_dispatch_def MCSOS_SYS_MAX_def g_table_def sys_ping_def)
  have x: "x_regs demo_x86 RBP = 0xB9" "x_rip demo_x86 = 0x401000" by (simp_all add: demo_x86_def)
  show ?thesis
    using syscall_stub_contract [OF d, where s = demo_x86 and k = demo_syscall_state and scratch = "\<lambda>s. s\<lparr>x_regs := \<lambda>_. 0xBAD\<rparr>" and
      st = "\<lambda>_ _. 0" and j = 0 and sel = "0x28" and tgt = "0x9000"]
    unfolding p by (auto simp: callee_saved_def x)
qed

section \<open>The two functions of cpu.S\<close>

lemma cpu_read_rflags_spec:
  assumes "stack_at (x_mem s) (x_regs s RSP) [ip]"
  obtains m where "exec E k cpu_read_rflags (s, w) =
    Back (s\<lparr>x_regs := (x_regs s)(RAX := x_flags s, RSP := x_regs s RSP + 8), x_mem := m, x_rip := ip\<rparr>, w)"
proof -
  let ?m = "store64 (x_mem s) (x_regs s RSP - 8) (x_flags s)"
  have "stack_at ?m (x_regs s RSP - 8) [x_flags s, ip]" using stack_push [OF assms] by simp
  from stack_pop [OF this] have "load64 ?m (x_regs s RSP - 8) = x_flags s" "load64 ?m (x_regs s RSP) = ip"
    using stack_pop by auto
  then have "exec E k cpu_read_rflags (s, w) =
      Back (s\<lparr>x_regs := (x_regs s)(RAX := x_flags s, RSP := x_regs s RSP + 8), x_mem := ?m, x_rip := ip\<rparr>, w)"
    by (simp add: cpu_read_rflags_def exec1_def retq_def pop64_def push64_def set_reg_def fun_upd_twist)
  then show ?thesis by (rule that)
qed

text \<open>Interrupts are taken between the instructions, but the loop is never left.\<close>

lemma cpu_halt_forever_runs: "code E = text_section \<Longrightarrow> exec E k cpu_halt_forever (s, w) = Running"
  by (induction k arbitrary: s) (simp_all add: cpu_halt_forever_def text_section_def exec1_def)

end
