(* ===== verification/Spec2Isabelle.thy ===== *)
theory Spec2Isabelle
  imports Journal_Damage Mmu Sched Sync Kmem Elf Mcsfs1_Refine Block_Cache Vfs_Refine Syscall Kernel Libmem Interrupts Entry
begin

text \<open>
  MCSOS is a teaching kernel for x86-64 in C. Its parts were written one milestone after the other and are
  joined by a few functions only: the memory bring-up joins the frame allocator and the page tables, the
  kernel's main function joins the scheduler, the system calls and the program loader, and the bring-up in
  \<open>kernel/core/kmain.c\<close> joins the descriptor table, the interrupt chips, the timer and the traps. This
  library models all of them in HOL, function by function, and proves for each what makes it correct.

  How the code is represented.

  \<^item> Machine integers are words of the width the code declares, so every wrap-around, truncation and shift of
    the code is in the model. A \<open>struct\<close> is a record, an \<open>enum\<close> a datatype.
  \<^item> A function that works on a state and returns early on an error is a state-passing function with a sum
    (\<open>prog\<close> in \<open>Prelude\<close>): \<open>Inl\<close> the error code, \<open>Inr\<close> the result; the state is returned in both cases, because
    what was written before an early return stays written.
  \<^item> Structures on disk, program images and heap headers are bytes; they are read and written at their offsets
    (\<open>Bytes\<close>). Linked structures (the ready queue, the heap, the page tables, block devices) live in a store
    indexed by addresses, with 0 for NULL, so that sharing and cycles are possible.
  \<^item> A NULL argument that the code tests for is \<open>None\<close> or 0. NULL for the object that a component keeps its state in is left out.
  \<^item> A C access outside of an object has no meaning in C; where the code can reach one, the model returns an
    error of its own (\<open>MCSFS1_FAULT\<close>, \<open>MCSOS_BLK_FAULT\<close>, \<open>MCS_FAULT\<close>, \<open>M16_FAULT\<close>) or \<open>None\<close>, and the
    refinement theorems show that well-formed states do not reach it.
  \<^item> A loop that may not end is a partial function whose value is then \<open>None\<close> (heap walks, spinning, counting the
    ready queue); the theorems show \<open>Some\<close> on well-formed states. There is no fuel, but for the two loops whose bound is in the
    code: \<open>serial_wait\<close> counts the 100000 reads of \<open>SERIAL_TIMEOUT_LIMIT\<close>, \<open>dec_loop\<close> the 11 characters of its buffer; and for
    assembly code: \<open>exec\<close> has a number of jumps, of which an exception stub makes one and the system call stub none.
  \<^item> Code outside of the repository is a parameter: block devices and drivers, the callbacks of the system calls, port reads,
    \<open>klog\<close>, \<open>serial_print\<close>, the assembly behind \<open>int 0x80\<close>, which may not return.

  The theories.

  \<^item> \<open>Prelude\<close>: integer types, early-return programs and their loops, linear search, bit arrays (the locales
    \<open>bit_array\<close>, \<open>bit_array_clear\<close>), and sequences of calls: the locale \<open>call_refinement\<close> turns a simulation of single calls into
    one of all sequences; both file systems on disk, the block cache and the RAM file system are interpretations of it. \<open>Bytes\<close>: little-endian codecs (locale \<open>fixed_codec\<close>), C strings.
  \<^item> \<open>Journal\<close>, \<open>Journal_Fs\<close>, \<open>Journal_History\<close>, \<open>Journal_Damage\<close> (\<open>kernel/fs/mcsfs1j/m16_mcsfs_journal.c\<close>): a file system with a write-ahead journal
    on a device that fails after a given number of writes. State: the blocks, the write counter and the fault of
    \<open>struct m16_blockdev\<close>. Shown: commit and file write are atomic under a fault at any write, recovery can be interrupted and
    repeated, reads and writes act as on a map from names to contents, formatting passes the consistency check; and, over whole
    histories of calls, faults and power losses, the disk is such a map, which recovery brings back at any time; what recovery does with
    a damaged journal; and that the host test at the end of the file passes.
  \<^item> \<open>Pmm\<close> (\<open>src/pmm.c\<close>): the frame bitmap. Shown: what initialisation frees, first fit, exact acceptance of releases, no frame
    handed out twice in any run.
  \<^item> \<open>Vmm\<close> (\<open>src/vmm.c\<close>, \<open>src/kernel_memory.c\<close>): four-level page tables in a memory of cells. The locale \<open>frame_source\<close> is what
    mapping needs of its callbacks; the callbacks of the kernel, over \<open>Pmm\<close>, are its interpretation. Shown: map, query and
    unmap refine updates of an abstract address space.
  \<^item> \<open>Mmu\<close> (the control registers and \<open>invlpg\<close> in \<open>src/vmm.c\<close>): a processor with a translation cache over \<open>Vmm\<close>. Shown: the cache is
    transparent, because unmapping invalidates, whatever the processor walks and marks on its own; writes and fetches need the
    rights of the entry, accessed and dirty bits are those of the accesses; user mode can use no page, because the directories
    are closed to it.
  \<^item> \<open>Sched\<close> (\<open>kernel/mcsos_thread.c\<close>, \<open>arch/x86_64/context_switch.S\<close>): threads in a store, linked into the ready queue. The locale
    \<open>fifo_queue\<close> is the queue's contract. Shown: the invariant over all runs, round robin, the exact meaning of the self-check, the
    initial stack, and what a double enqueue does.
  \<^item> \<open>Sync\<close> (\<open>kernel/sync\<close>): the lock order checker as a bounded stack of increasing classes; spinlock and mutex as step relations
    over their atomic accesses. Shown: mutual exclusion and ownership in every interleaving, no cycle of waiting threads.
  \<^item> \<open>Kmem\<close> (\<open>kernel/mm/kmem.c\<close>): the heap, headers in bytes. Shown: refinement of first fit on a list of sizes for every
    request, with its size as the code rounds and truncates it, freeing with merging, exact refusals, statistics.
  \<^item> \<open>Elf\<close> (\<open>kernel/user/m11_elf_loader.c\<close>): the planner. Shown: it accepts exactly the well-formed images and reads only the image.
  \<^item> \<open>Mcsfs1\<close> (the operations), \<open>Mcsfs1_Volume\<close> (consistent volumes), \<open>Mcsfs1_Files\<close> (creating, removing, writing),
    \<open>Mcsfs1_Refine\<close> (\<open>fs/mcsfs1/mcsfs1.c\<close>): the flat file system on any device that satisfies the locale \<open>block_store\<close>. Shown: every sequence of calls refines calls on a map of files; when creation reports a full volume; format to read.
  \<^item> \<open>Block\<close>, \<open>Block_Cache\<close> (\<open>kernel/block\<close>): device registry, RAM disk, write-back cache. The locale \<open>blk_driver\<close> is what the cache
    needs of a driver, \<open>reliable_driver\<close> extends it, the RAM disk is the interpretation. Shown: the cache is transparent, errors
    included, and a flush makes it durable.
  \<^item> \<open>Vfs\<close>, \<open>Vfs_Refine\<close> (\<open>kernel/vfs\<close>): the RAM file system and the descriptors of a process. Shown: from the initialisation on, every
    program of calls within the limits of the code refines a map of files and a table of open files.
  \<^item> \<open>Syscall\<close> (\<open>kernel/syscall/syscall.c\<close>): the dispatcher over parameters for its callbacks. Shown: user pointers are confined.
  \<^item> \<open>Kernel\<close> (\<open>kernel/kernel.c\<close>): the callbacks and the main function, over \<open>Sched\<close>, \<open>Syscall\<close> and \<open>Elf\<close>. Shown: what a
    sequence of system calls by the running threads comes to, which is round robin up to a switch to a thread that has never run,
    where the processor halts; how far the main function gets, with the state at the gate of \<open>int 0x80\<close> and at the first switch
    behind it.
  \<^item> \<open>Libmem\<close> (\<open>kernel/lib/memory.c\<close>): \<open>memset\<close>, \<open>memcpy\<close>, \<open>memmove\<close>, overlap included.
  \<^item> \<open>Ports\<close> (\<open>kernel/core\<close>: \<open>pic.c\<close>, \<open>pit.c\<close>, \<open>serial.c\<close>, \<open>log.c\<close>, \<open>panic.c\<close>): drivers as the sequence of port accesses they make. Shown: the
    text that leaves on the serial line, numbers in hexadecimal and decimal, the panic report.
  \<^item> \<open>Interrupts\<close> (\<open>arch/x86_64/idt.c\<close>, \<open>core/trap.c\<close>, \<open>core/kmain.c\<close>, \<open>src/trap.c\<close>): descriptor table, traps, bring-up, over \<open>Ports\<close>. The 8259
    chips are described by the documented meaning of the bytes written to them. Shown: the gates, chips,
    timer and flags that the bring-up leaves, and what the dispatcher does when it is called on that machine; hardware interrupts
    do not reach it (\<open>Entry\<close>).
  \<^item> \<open>Processor\<close>, \<open>Entry\<close> (\<open>arch/x86_64/isr.S\<close>, \<open>arch/x86_64/cpu.S\<close>, \<open>kernel/syscall/syscall_entry.S\<close>): the assembly between the
    processor and the dispatchers of \<open>Interrupts\<close> and \<open>Syscall\<close>, instruction by instruction. State: registers, memory, flags. The
    locale \<open>c_function\<close> is what the calling convention promises of a C function; the two dispatchers are its interpretations. Shown:
    the frame an exception stub hands over, that the return restores the interrupted state, that the stubs of the hardware
    interrupts never reach the dispatcher, and what a system call returns and what it leaves in the registers.

  The limits in the theorems are those of the code and are stated in each. For the RAM file system they are names of 1 to
  30 characters, 32 files and 256 bytes per file, because the code checks none of them. The scheduler's runs do not prepare a thread
  the scheduler holds and do not enqueue a queued one. The flat file system is on devices that do not fail, and leaves out names of
  exactly 27 bytes; the block cache leaves out writes behind the end of a device, which \<open>bcache_write_past_end\<close> describes; the heap
  theorem covers every request on heaps below 4 GiB, with the size the code computes; recovery of a damaged journal is on a
  device without faults and for records whose targets are outside of the journal; the frame bitmap's initialisation is for maps
  that do not reach the last page of the address space.

  Not modelled: the statements behind \<open>kernel_main\<close> outside of any function; \<open>mcsfs1j_adapter.c\<close>, which forwards to functions
  that do not exist; the copies of the journal file system under \<open>src/\<close>, \<open>tests/\<close> and in \<open>m16_aman.c\<close>, whose text is that of
  the modelled file; the host tests under \<open>tests/\<close>, the boot loader under \<open>third_party\<close>, scripts and documents.
\<close>

end
